(* ===== verification/Prelude.thy ===== *)
theory Prelude
  imports Main "HOL-Library.Word"
begin

text \<open>
  Shared vocabulary of the development: the outcome type of a Rust function,
  machine integers with their checked operations, byte slices, and the
  little-endian encodings that every wire format of fstart uses.

  Conventions. A Rust \<open>Result<T, E>\<close> is \<open>('e, 'a) result\<close>, whose third constructor
  \<open>Panic\<close> stands for the abort of a panicking expression (an out-of-range index, a
  failed \<open>assert!\<close>). \<open>u8\<close> to \<open>u64\<close> are words of that width. \<open>usize\<close> values are
  natural numbers; where the code tests a \<open>usize\<close> operation for overflow, the
  largest \<open>usize\<close> of the target is the argument \<open>um\<close>. A \<open>[u8; N]\<close> is a byte list
  whose length the well-formedness predicate of the enclosing record fixes.
\<close>

section \<open>Theorem collections\<close>

named_theorems result_simps "equations of the outcome combinators"
named_theorems byte_simps "lengths and slices of encoded data"

section \<open>Machine types\<close>

type_synonym u8 = "8 word"
type_synonym u16 = "16 word"
type_synonym u32 = "32 word"
type_synonym u64 = "64 word"
type_synonym bytes = "u8 list"

section \<open>Outcomes\<close>

datatype ('e, 'a) result = Ok 'a | Err 'e | Panic

primrec rbind :: "('e, 'a) result \<Rightarrow> ('a \<Rightarrow> ('e, 'b) result) \<Rightarrow> ('e, 'b) result" where
  "rbind (Ok x) f = f x"
| "rbind (Err e) f = Err e"
| "rbind Panic f = Panic"

primrec map_err :: "('e \<Rightarrow> 'f) \<Rightarrow> ('e, 'a) result \<Rightarrow> ('f, 'a) result" where
  "map_err f (Ok x) = Ok x"
| "map_err f (Err e) = Err (f e)"
| "map_err f Panic = Panic"

primrec ok_or :: "'a option \<Rightarrow> 'e \<Rightarrow> ('e, 'a) result" where
  "ok_or None e = Err e"
| "ok_or (Some x) e = Ok x"

primrec is_ok :: "('e, 'a) result \<Rightarrow> bool" where
  "is_ok (Ok x) = True"
| "is_ok (Err e) = False"
| "is_ok Panic = False"

fun for_each :: "('a \<Rightarrow> ('e, unit) result) \<Rightarrow> 'a list \<Rightarrow> ('e, unit) result" where
  "for_each f [] = Ok ()"
| "for_each f (x # xs) = rbind (f x) (\<lambda>_. for_each f xs)"

fun try_map :: "('a \<Rightarrow> ('e, 'b) result) \<Rightarrow> 'a list \<Rightarrow> ('e, 'b list) result" where
  "try_map f [] = Ok []"
| "try_map f (x # xs) = rbind (f x) (\<lambda>y. rbind (try_map f xs) (\<lambda>ys. Ok (y # ys)))"

section \<open>Checked arithmetic\<close>

definition checked_add :: "'a::len word \<Rightarrow> 'a word \<Rightarrow> 'a word option" where
  "checked_add a b = (if unat a + unat b < 2 ^ LENGTH('a) then Some (a + b) else None)"

definition checked_sub :: "'a::len word \<Rightarrow> 'a word \<Rightarrow> 'a word option" where
  "checked_sub a b = (if b \<le> a then Some (a - b) else None)"

definition checked_mul :: "'a::len word \<Rightarrow> 'a word \<Rightarrow> 'a word option" where
  "checked_mul a b = (if unat a * unat b < 2 ^ LENGTH('a) then Some (a * b) else None)"

definition saturating_add :: "'a::len word \<Rightarrow> 'a word \<Rightarrow> 'a word" where
  "saturating_add a b = (case checked_add a b of None \<Rightarrow> - 1 | Some c \<Rightarrow> c)"

definition U64_MAX :: u64 where "U64_MAX = - 1"

definition usize_add :: "nat \<Rightarrow> nat \<Rightarrow> nat \<Rightarrow> nat option" where
  "usize_add um a b = (if a + b \<le> um then Some (a + b) else None)"

definition usize_mul :: "nat \<Rightarrow> nat \<Rightarrow> nat \<Rightarrow> nat option" where
  "usize_mul um a b = (if a * b \<le> um then Some (a * b) else None)"

section \<open>Slices\<close>

definition sub :: "'a list \<Rightarrow> nat \<Rightarrow> nat \<Rightarrow> 'a list" where
  "sub xs i n = take n (drop i xs)"

definition get_range :: "'a list \<Rightarrow> nat \<Rightarrow> nat \<Rightarrow> 'a list option" where
  "get_range xs a b = (if a \<le> b \<and> b \<le> length xs then Some (sub xs a (b - a)) else None)"

definition get_from :: "'a list \<Rightarrow> nat \<Rightarrow> 'a list option" where
  "get_from xs a = (if a \<le> length xs then Some (drop a xs) else None)"

text \<open>An index expression \<open>&xs[a..b]\<close>, which panics where \<open>get\<close> returns nothing.\<close>

definition slice :: "'a list \<Rightarrow> nat \<Rightarrow> nat \<Rightarrow> ('e, 'a list) result" where
  "slice xs a b = (case get_range xs a b of None \<Rightarrow> Panic | Some ys \<Rightarrow> Ok ys)"

definition write_at :: "'a list \<Rightarrow> nat \<Rightarrow> 'a list \<Rightarrow> 'a list" where
  "write_at xs i ys = take i xs @ ys @ drop (i + length ys) xs"

text \<open>A zeroed buffer of \<open>n\<close> bytes whose front already holds \<open>p\<close>.\<close>

definition zfill :: "nat \<Rightarrow> bytes \<Rightarrow> bytes" where
  "zfill n p = p @ replicate (n - length p) 0"

section \<open>Address ranges\<close>

text \<open>A range is its start and its length, in unbounded arithmetic.\<close>

type_synonym range = "nat \<times> nat"

definition disjoint_range :: "range \<Rightarrow> range \<Rightarrow> bool" where
  "disjoint_range r s \<longleftrightarrow> fst r + snd r \<le> fst s \<or> fst s + snd s \<le> fst r"

definition range_within :: "nat \<Rightarrow> nat \<Rightarrow> range \<Rightarrow> bool" where
  "range_within lo hi r \<longleftrightarrow> lo \<le> fst r \<and> fst r + snd r \<le> hi"

section \<open>Little-endian integers\<close>

primrec le_enc :: "nat \<Rightarrow> nat \<Rightarrow> bytes" where
  "le_enc 0 x = []"
| "le_enc (Suc n) x = word_of_nat x # le_enc n (x div 256)"

primrec le_dec :: "bytes \<Rightarrow> nat" where
  "le_dec [] = 0"
| "le_dec (b # bs) = unat b + 256 * le_dec bs"

definition to_le_bytes :: "'a::len word \<Rightarrow> bytes" where
  "to_le_bytes w = le_enc (LENGTH('a) div 8) (unat w)"

definition from_le_bytes :: "bytes \<Rightarrow> 'a::len word" where
  "from_le_bytes bs = word_of_nat (le_dec bs)"

definition le16 :: "bytes \<Rightarrow> nat \<Rightarrow> u16" where
  "le16 b n = from_le_bytes (sub b n 2)"

definition le32 :: "bytes \<Rightarrow> nat \<Rightarrow> u32" where
  "le32 b n = from_le_bytes (sub b n 4)"

definition le64 :: "bytes \<Rightarrow> nat \<Rightarrow> u64" where
  "le64 b n = from_le_bytes (sub b n 8)"

text \<open>Big-endian integers, as TPM commands and device trees have them.\<close>

definition to_be_bytes :: "'a::len word \<Rightarrow> bytes" where
  "to_be_bytes w = rev (to_le_bytes w)"

definition from_be_bytes :: "bytes \<Rightarrow> 'a::len word" where
  "from_be_bytes bs = from_le_bytes (rev bs)"

section \<open>Lemmas on outcomes\<close>

lemma rbind_eq_Ok [simp]: "rbind m f = Ok y \<longleftrightarrow> (\<exists>x. m = Ok x \<and> f x = Ok y)"
  by (cases m) auto

lemma rbind_eq_Panic: "rbind m f = Panic \<longleftrightarrow> m = Panic \<or> (\<exists>x. m = Ok x \<and> f x = Panic)"
  by (cases m) auto

lemma rbind_eq_Err: "rbind m f = Err e \<longleftrightarrow> m = Err e \<or> (\<exists>x. m = Ok x \<and> f x = Err e)"
  by (cases m) auto

lemma ok_or_eq_Ok [simp]: "ok_or m e = Ok x \<longleftrightarrow> m = Some x"
  by (cases m) auto

lemma ok_or_not_Panic [simp]: "ok_or m e \<noteq> Panic"
  by (cases m) auto

lemma map_err_eq_Ok [simp]: "map_err f m = Ok x \<longleftrightarrow> m = Ok x"
  by (cases m) auto

lemma map_err_eq_Panic [simp]: "map_err f m = Panic \<longleftrightarrow> m = Panic"
  by (cases m) auto

lemma guard_eq_Ok: "(if c then Err e else m) = Ok y \<longleftrightarrow> \<not> c \<and> m = Ok y"
  by auto

lemma guard_eq_Panic: "(if c then Err e else m) = Panic \<longleftrightarrow> \<not> c \<and> m = Panic"
  by auto

lemma is_ok_iff: "is_ok m \<longleftrightarrow> (\<exists>x. m = Ok x)"
  by (cases m) auto

lemma for_each_eq_Ok: "for_each f xs = Ok u \<longleftrightarrow> (\<forall>x \<in> set xs. f x = Ok ())"
  by (induction xs) auto

lemma for_each_not_Panic: "(\<And>x. x \<in> set xs \<Longrightarrow> f x \<noteq> Panic) \<Longrightarrow> for_each f xs \<noteq> Panic"
  by (induction xs) (auto simp: rbind_eq_Panic)

lemma try_map_eq_Ok: "try_map f xs = Ok ys \<longleftrightarrow> list_all2 (\<lambda>x y. f x = Ok y) xs ys"
  by (induction xs arbitrary: ys) (auto simp: list_all2_Cons1)

lemma try_map_not_Panic: "(\<And>x. x \<in> set xs \<Longrightarrow> f x \<noteq> Panic) \<Longrightarrow> try_map f xs \<noteq> Panic"
  by (induction xs) (auto simp: rbind_eq_Panic)

section \<open>Lemmas on checked arithmetic\<close>

lemma checked_add_SomeD:
  "checked_add a b = Some c \<Longrightarrow> unat c = unat a + unat b"
  by (auto simp: checked_add_def unat_word_ariths split: if_splits)

lemma checked_add_eq_Some:
  "checked_add (a :: 'a::len word) b = Some c
    \<longleftrightarrow> unat a + unat b < 2 ^ LENGTH('a) \<and> c = a + b"
  by (auto simp: checked_add_def)

lemma checked_add_eq_None:
  "checked_add (a :: 'a::len word) b = None \<longleftrightarrow> 2 ^ LENGTH('a) \<le> unat a + unat b"
  by (auto simp: checked_add_def)

lemma unat_checked_add:
  "unat (a :: 'a::len word) + unat b < 2 ^ LENGTH('a) \<Longrightarrow> unat (a + b) = unat a + unat b"
  by (simp add: unat_word_ariths)

lemma checked_sub_SomeD:
  "checked_sub a b = Some c \<Longrightarrow> unat c = unat a - unat b \<and> unat b \<le> unat a"
  by (auto simp: checked_sub_def unat_sub word_le_nat_alt split: if_splits)

lemma checked_mul_SomeD:
  "checked_mul a b = Some c \<Longrightarrow> unat c = unat a * unat b"
  by (auto simp: checked_mul_def unat_word_ariths split: if_splits)

lemma unat_U64_MAX [simp]: "unat U64_MAX = 0xffffffffffffffff"
  by (simp add: U64_MAX_def unsigned_minus_1_eq_mask mask_eq_exp_minus_1)

lemma unat_64_less: "unat (w :: u64) < 2 ^ 64"
  using unsigned_less [of w, where 'a = nat] by simp

lemma unat_32_less: "unat (w :: u32) < 2 ^ 32"
  using unsigned_less [of w, where 'a = nat] by simp

lemma unat_8_less: "unat (w :: u8) < 256"
  using unsigned_less [of w, where 'a = nat] by simp

lemma usize_add_eq_Some [simp]: "usize_add um a b = Some c \<longleftrightarrow> a + b \<le> um \<and> c = a + b"
  by (auto simp: usize_add_def)

lemma usize_mul_eq_Some [simp]: "usize_mul um a b = Some c \<longleftrightarrow> a * b \<le> um \<and> c = a * b"
  by (auto simp: usize_mul_def)

section \<open>Lemmas on slices\<close>

lemma length_sub [byte_simps]: "length (sub xs i n) = min n (length xs - i)"
  by (simp add: sub_def)

lemma length_sub_inside [simp]: "i + n \<le> length xs \<Longrightarrow> length (sub xs i n) = n"
  by (simp add: length_sub)

lemma sub_whole [byte_simps]: "length xs \<le> n \<Longrightarrow> sub xs 0 n = xs"
  by (simp add: sub_def)

lemma sub_join: "i + n = j \<Longrightarrow> sub xs i n @ sub xs j m = sub xs i (n + m)"
  by (auto simp: sub_def take_add add.commute [of i n])

lemma sub_join_append: "i + n = j \<Longrightarrow> sub xs i n @ sub xs j m @ ys = sub xs i (n + m) @ ys"
  by (simp add: sub_join flip: append_assoc)

lemma sub_sub [byte_simps]: "i + n \<le> m \<Longrightarrow> sub (sub xs k m) i n = sub xs (k + i) n"
  by (simp add: sub_def drop_take add.commute min_def)

lemma sub_append1 [byte_simps]: "i + n \<le> length xs \<Longrightarrow> sub (xs @ ys) i n = sub xs i n"
  by (simp add: sub_def)

lemma sub_append2 [byte_simps]: "length xs \<le> i \<Longrightarrow> sub (xs @ ys) i n = sub ys (i - length xs) n"
  by (simp add: sub_def)

lemma sub_append_exact [byte_simps]: "length xs = n \<Longrightarrow> sub (xs @ ys) 0 n = xs"
  by (simp add: sub_def)

lemma sub_nth: "k < n \<Longrightarrow> i + n \<le> length xs \<Longrightarrow> sub xs i n ! k = xs ! (i + k)"
  by (simp add: sub_def)

lemma length_write_at [byte_simps]:
  "i + length ys \<le> length xs \<Longrightarrow> length (write_at xs i ys) = length xs"
  by (simp add: write_at_def)

lemma sub_write_at_other:
  assumes "i + length ys \<le> length xs" and "k + n \<le> i \<or> i + length ys \<le> k"
  shows "sub (write_at xs i ys) k n = sub xs k n"
  using assms(2)
proof
  assume a: "k + n \<le> i"
  then have "sub (write_at xs i ys) k n = sub (take i xs) k n"
    using assms(1) unfolding write_at_def by (intro sub_append1) simp
  also have "\<dots> = sub (take i xs @ drop i xs) k n"
    using assms(1) a by (intro sub_append1 [symmetric]) simp
  finally show ?thesis
    by simp
next
  assume "i + length ys \<le> k"
  then show ?thesis
    using assms(1) by (simp add: write_at_def sub_def)
qed

lemma nth_write_at:
  "i + length ys \<le> length xs \<Longrightarrow> k < length xs \<Longrightarrow>
    write_at xs i ys ! k = (if i \<le> k \<and> k < i + length ys then ys ! (k - i) else xs ! k)"
  by (auto simp: write_at_def nth_append)

lemma sub_write_at_same: "i + length ys \<le> length xs \<Longrightarrow> sub (write_at xs i ys) i (length ys) = ys"
  by (simp add: sub_def write_at_def)

lemma sub_Cons_numeral [byte_simps]: "sub (x # xs) (numeral k) n = sub xs (pred_numeral k) n"
  by (simp add: sub_def numeral_eq_Suc)

lemma sub_Cons_Suc [byte_simps]: "sub (x # xs) (Suc i) n = sub xs i n"
  by (simp add: sub_def)

lemma sub_1: "i < length b \<Longrightarrow> [b ! i] = sub b i 1"
  by (simp add: sub_def take_Suc_conv_app_nth Cons_nth_drop_Suc flip: Cons_nth_drop_Suc)

lemma sub_2: "i + 1 < length b \<Longrightarrow> [b ! i, b ! (i + 1)] = sub b i 2"
proof -
  assume "i + 1 < length b"
  then have "[b ! i] @ [b ! (i + 1)] = sub b i 1 @ sub b (i + 1) 1"
    using sub_1 [of i b] sub_1 [of "i + 1" b] by simp
  also have "\<dots> = sub b i (1 + 1)"
    by (rule sub_join) simp
  finally show ?thesis by (simp add: numeral_2_eq_2)
qed

lemma drop_split: "i + n = j \<Longrightarrow> drop i xs = sub xs i n @ drop j xs"
  by (metis append_take_drop_id drop_drop add.commute sub_def)

lemma sub_replicate [byte_simps]: "sub (replicate m x) i n = replicate (min n (m - i)) x"
  by (simp add: sub_def)

lemma drop_append_ge [byte_simps]: "length xs \<le> i \<Longrightarrow> drop i (xs @ ys) = drop (i - length xs) ys"
  by simp

lemma replicate_zfill: "replicate n 0 = zfill n []"
  by (simp add: zfill_def)

lemma write_at_zfill:
  assumes "length p \<le> i" and "i + length ys \<le> n"
  shows "write_at (zfill n p) i ys = zfill n (p @ replicate (i - length p) 0 @ ys)"
proof -
  have "min (i - length p) (n - length p) = i - length p"
    using assms by simp
  then show ?thesis
    using assms by (simp add: write_at_def zfill_def)
qed

lemma get_range_eq_Some:
  "get_range xs a b = Some ys \<longleftrightarrow> a \<le> b \<and> b \<le> length xs \<and> ys = sub xs a (b - a)"
  by (auto simp: get_range_def)

lemma slice_eq_Ok: "slice xs a b = Ok ys \<longleftrightarrow> a \<le> b \<and> b \<le> length xs \<and> ys = sub xs a (b - a)"
  by (auto simp: slice_def get_range_def)

lemma slice_inside: "a \<le> b \<Longrightarrow> b \<le> length xs \<Longrightarrow> slice xs a b = Ok (sub xs a (b - a))"
  by (simp add: slice_eq_Ok)

lemma set_sub: "set (sub xs a n) \<subseteq> set xs"
  by (auto simp: sub_def dest: in_set_takeD in_set_dropD)

lemma get_from_eq_Some: "get_from xs a = Some ys \<longleftrightarrow> a \<le> length xs \<and> ys = drop a xs"
  by (auto simp: get_from_def)

section \<open>Lemmas on little-endian integers\<close>

lemma le_enc_numeral [simp]:
  "le_enc (numeral k) x = word_of_nat x # le_enc (pred_numeral k) (x div 256)"
  by (subst numeral_eq_Suc [of k]) (rule le_enc.simps(2))

lemma length_le_enc [simp]: "length (le_enc n x) = n"
  by (induction n arbitrary: x) auto

lemma le_dec_less: "le_dec bs < 256 ^ length bs"
proof (induction bs)
  case (Cons b bs)
  with unat_8_less [of b] show ?case by simp
qed simp

lemma unat_byte: "unat (word_of_nat x :: u8) = x mod 256"
  by (simp add: unat_of_nat)

lemma word_eqI_unat: "unat v = unat w \<Longrightarrow> v = w"
  by (rule unsigned_word_eqI)

lemma le_dec_enc: "le_dec (le_enc n x) = x mod 256 ^ n"
  by (induction n arbitrary: x) (simp_all add: unat_byte mod_mult2_eq)

lemma le_enc_dec: "length bs = n \<Longrightarrow> le_enc n (le_dec bs) = bs"
proof (induction bs arbitrary: n)
  case (Cons b bs)
  have "unat b < 256" by (rule unat_8_less)
  then have "(unat b + 256 * le_dec bs) div 256 = le_dec bs"
    by simp
  moreover have "word_of_nat (unat b + 256 * le_dec bs) = b"
    by (intro word_eqI_unat) (simp add: unat_byte \<open>unat b < 256\<close> del: of_nat_add of_nat_mult)
  ultimately show ?case
    using Cons by auto
qed simp

lemma length_to_le_bytes [simp]: "length (to_le_bytes (w :: 'a::len word)) = LENGTH('a) div 8"
  by (simp add: to_le_bytes_def)

lemma power_256: "8 dvd n \<Longrightarrow> (256 :: nat) ^ (n div 8) = 2 ^ n"
proof -
  assume "8 dvd n"
  then obtain k where "n = 8 * k" ..
  then show ?thesis by (simp add: power_mult)
qed

lemma from_to_le_bytes [simp]:
  "8 dvd LENGTH('a) \<Longrightarrow> from_le_bytes (to_le_bytes (w :: 'a::len word)) = w"
  by (simp add: from_le_bytes_def to_le_bytes_def le_dec_enc power_256)

lemma to_from_le_bytes:
  assumes "8 dvd LENGTH('a)" and "length bs = LENGTH('a) div 8"
  shows "to_le_bytes (from_le_bytes bs :: 'a::len word) = bs"
proof -
  have "le_dec bs < 2 ^ LENGTH('a)"
    using le_dec_less [of bs] assms by (simp add: power_256)
  then have "unat (word_of_nat (le_dec bs) :: 'a word) = le_dec bs"
    by (simp add: unat_of_nat)
  then show ?thesis
    using assms by (simp add: to_le_bytes_def from_le_bytes_def le_enc_dec)
qed

lemma to_le_bytes_inject [simp]:
  "8 dvd LENGTH('a) \<Longrightarrow> to_le_bytes (v :: 'a::len word) = to_le_bytes w \<longleftrightarrow> v = w"
  by (metis from_to_le_bytes)

lemma to_le_bytes_le16: "n + 2 \<le> length b \<Longrightarrow> to_le_bytes (le16 b n) = sub b n 2"
  by (simp add: le16_def to_from_le_bytes length_sub)

lemma to_le_bytes_le32: "n + 4 \<le> length b \<Longrightarrow> to_le_bytes (le32 b n) = sub b n 4"
  by (simp add: le32_def to_from_le_bytes length_sub)

lemma to_le_bytes_le64: "n + 8 \<le> length b \<Longrightarrow> to_le_bytes (le64 b n) = sub b n 8"
  by (simp add: le64_def to_from_le_bytes length_sub)

lemmas to_le_bytes_at [byte_simps] = to_le_bytes_le16 to_le_bytes_le32 to_le_bytes_le64

lemma length_to_be_bytes [simp]: "length (to_be_bytes (w :: 'a::len word)) = LENGTH('a) div 8"
  by (simp add: to_be_bytes_def)

lemma to_be_bytes_inject [simp]: "8 dvd LENGTH('a) \<Longrightarrow> to_be_bytes (v :: 'a::len word) = to_be_bytes w \<longleftrightarrow> v = w"
  by (simp add: to_be_bytes_def)

lemma from_to_be_bytes: "8 dvd LENGTH('a) \<Longrightarrow> from_be_bytes (to_be_bytes (w :: 'a::len word)) = w"
  by (simp add: from_be_bytes_def to_be_bytes_def)

section \<open>Interface: canonical wire formats\<close>

text \<open>
  A wire format pairs an encoder with a parser. The two laws make the parser an
  exact inverse: every well-formed value survives a round trip, and every accepted
  byte string is the encoding of the value it was parsed to, so no two byte strings
  mean the same value.
\<close>

locale wire_format =
  fixes enc :: "'a \<Rightarrow> bytes" and dec :: "bytes \<Rightarrow> ('e, 'a) result" and wf :: "'a \<Rightarrow> bool"
  assumes dec_enc: "wf x \<Longrightarrow> dec (enc x) = Ok x"
    and dec_wf: "dec b = Ok x \<Longrightarrow> wf x"
    and enc_dec: "dec b = Ok x \<Longrightarrow> enc x = b"
begin

lemma dec_injective: "dec b = Ok x \<Longrightarrow> dec c = Ok x \<Longrightarrow> b = c"
  by (metis enc_dec)

lemma enc_injective: "wf x \<Longrightarrow> wf y \<Longrightarrow> enc x = enc y \<Longrightarrow> x = y"
  by (metis dec_enc result.inject(1))

lemma accepts_iff: "(\<exists>x. dec b = Ok x) \<longleftrightarrow> (\<exists>x. wf x \<and> enc x = b)"
  by (metis dec_enc dec_wf enc_dec)

lemma dec_eq_Ok_iff: "dec b = Ok x \<longleftrightarrow> wf x \<and> enc x = b"
  by (metis dec_enc dec_wf enc_dec)

end

end
