(* ===== verification/Ffs_Types.thy ===== *)
theory Ffs_Types
  imports Prelude
begin

text \<open>
  The data of the firmware filesystem (\<^verbatim>\<open>crates/core/src/ffs.rs\<close>): verification keys
  and signatures, and the unified region model in which an image is a list of
  regions, a container region a list of entries and a file entry a list of segments.
  Names (\<open>HString<N>\<close>) are their UTF-8 bytes. Field names carry a prefix that
  abbreviates the struct, because Isabelle record fields are global.
\<close>

section \<open>Keys and signatures\<close>

definition TRUST_MAX_KEYS :: nat where
  "TRUST_MAX_KEYS = 4"

datatype signature_kind = Ed25519 | EcdsaP256

datatype key_bytes = KeyEd25519 bytes | KeyEcdsaP256 bytes

record verification_key =
  vk_key_id :: u8
  vk_algorithm :: u8
  vk_pad :: bytes
  vk_key_lo :: bytes
  vk_key_hi :: bytes

record signature =
  sig_key_id :: u8
  sig_kind :: signature_kind
  sig_lo :: bytes
  sig_hi :: bytes

definition ALG_ED25519 :: u8 where
  "ALG_ED25519 = 0"

definition ALG_ECDSA_P256 :: u8 where
  "ALG_ECDSA_P256 = 1"

definition key_ZERO :: verification_key where
  "key_ZERO = \<lparr>vk_key_id = 0, vk_algorithm = 0, vk_pad = replicate 2 0,
     vk_key_lo = replicate 32 0, vk_key_hi = replicate 32 0\<rparr>"

definition key_ed25519 :: "u8 \<Rightarrow> bytes \<Rightarrow> verification_key" where
  "key_ed25519 key_id pubkey = \<lparr>vk_key_id = key_id, vk_algorithm = ALG_ED25519,
     vk_pad = replicate 2 0, vk_key_lo = pubkey, vk_key_hi = replicate 32 0\<rparr>"

definition key_ecdsa_p256 :: "u8 \<Rightarrow> bytes \<Rightarrow> verification_key" where
  "key_ecdsa_p256 key_id pubkey = \<lparr>vk_key_id = key_id, vk_algorithm = ALG_ECDSA_P256,
     vk_pad = replicate 2 0, vk_key_lo = take 32 pubkey, vk_key_hi = drop 32 pubkey\<rparr>"

definition key_signature_kind :: "verification_key \<Rightarrow> signature_kind option" where
  "key_signature_kind k =
     (if vk_algorithm k = ALG_ED25519 then Some Ed25519
      else if vk_algorithm k = ALG_ECDSA_P256 then Some EcdsaP256
      else None)"

definition key_key_bytes :: "verification_key \<Rightarrow> key_bytes" where
  "key_key_bytes k =
     (if vk_algorithm k = ALG_ED25519 then KeyEd25519 (vk_key_lo k)
      else if vk_algorithm k = ALG_ECDSA_P256 then KeyEcdsaP256 (vk_key_lo k @ vk_key_hi k)
      else KeyEd25519 (replicate 32 0))"

definition signature_ed25519 :: "u8 \<Rightarrow> bytes \<Rightarrow> signature" where
  "signature_ed25519 key_id b = \<lparr>sig_key_id = key_id, sig_kind = Ed25519,
     sig_lo = take 32 b, sig_hi = drop 32 b\<rparr>"

definition signature_ecdsa_p256 :: "u8 \<Rightarrow> bytes \<Rightarrow> bytes \<Rightarrow> signature" where
  "signature_ecdsa_p256 key_id r s = \<lparr>sig_key_id = key_id, sig_kind = EcdsaP256,
     sig_lo = r, sig_hi = s\<rparr>"

definition signature_bytes :: "signature \<Rightarrow> bytes" where
  "signature_bytes s = sig_lo s @ sig_hi s"

text \<open>The array lengths that the Rust types fix.\<close>

definition wf_key :: "verification_key \<Rightarrow> bool" where
  "wf_key k \<longleftrightarrow> length (vk_pad k) = 2 \<and> length (vk_key_lo k) = 32 \<and> length (vk_key_hi k) = 32"

section \<open>Regions, entries and segments\<close>

definition MAX_IMAGE_REGIONS :: nat where
  "MAX_IMAGE_REGIONS = 8"

datatype file_type =
    StageCode | BoardConfig | Payload | Fdt | DataFile | RawFile | Firmware
  | FitImage | CpuMicrocode | Initramfs

datatype segment_kind = CodeSeg | ReadOnlyData | ReadWriteData | Bss

datatype compression = CompNone | CompLz4

record segment_flags =
  sf_execute :: bool
  sf_write :: bool
  sf_read :: bool

definition flags_CODE :: segment_flags where
  "flags_CODE = \<lparr>sf_execute = True, sf_write = False, sf_read = True\<rparr>"

definition flags_RODATA :: segment_flags where
  "flags_RODATA = \<lparr>sf_execute = False, sf_write = False, sf_read = True\<rparr>"

definition flags_DATA :: segment_flags where
  "flags_DATA = \<lparr>sf_execute = False, sf_write = True, sf_read = True\<rparr>"

record digest_set =
  ds_sha256 :: "bytes option"
  ds_sha3_256 :: "bytes option"

record segment =
  seg_name :: bytes
  seg_kind :: segment_kind
  seg_offset :: u32
  seg_stored_size :: u32
  seg_initialized_size :: u32
  seg_stored_digest :: bytes
  seg_loaded_digest :: bytes
  seg_loaded_size :: u32
  seg_in_place_size :: u32
  seg_load_addr :: u64
  seg_compression :: compression
  seg_flags :: segment_flags

datatype entry_content =
    FileContent file_type "segment list" digest_set
  | RawContent u8

record region_entry =
  re_name :: bytes
  re_offset :: u32
  re_size :: u32
  re_content :: entry_content

datatype region_content =
    Container "region_entry list"
  | RawRegion u8

record region =
  rg_name :: bytes
  rg_offset :: u32
  rg_size :: u32
  rg_content :: region_content

record image_manifest =
  im_regions :: "region list"

section \<open>Lemmas\<close>

lemma wf_key_constructors:
  "wf_key key_ZERO"
  "length pk = 32 \<Longrightarrow> wf_key (key_ed25519 i pk)"
  "length pk = 64 \<Longrightarrow> wf_key (key_ecdsa_p256 i pk)"
  by (simp_all add: wf_key_def key_ZERO_def key_ed25519_def key_ecdsa_p256_def)

lemma key_bytes_roundtrip:
  "key_key_bytes (key_ed25519 i pk) = KeyEd25519 pk"
  "key_key_bytes (key_ecdsa_p256 i pk) = KeyEcdsaP256 pk"
  by (simp_all add: key_key_bytes_def key_ed25519_def key_ecdsa_p256_def
      ALG_ED25519_def ALG_ECDSA_P256_def)

lemma key_signature_kind_constructors [simp]:
  "key_signature_kind (key_ed25519 i pk) = Some Ed25519"
  "key_signature_kind (key_ecdsa_p256 i pk) = Some EcdsaP256"
  by (simp_all add: key_signature_kind_def key_ed25519_def key_ecdsa_p256_def
      ALG_ED25519_def ALG_ECDSA_P256_def)

lemma signature_bytes_ed25519 [simp]: "signature_bytes (signature_ed25519 i b) = b"
  by (simp add: signature_bytes_def signature_ed25519_def)

end
