(* ===== verification/Crypto.thy ===== *)
theory Crypto
  imports Ffs_Types
begin

text \<open>
  Digest and signature checks (\<^verbatim>\<open>crates/crypto/src/digest.rs\<close>, \<^verbatim>\<open>verify.rs\<close>).
  The primitives live in third-party crates and Cargo features select them, so they
  are parameters: \<open>digest_algs\<close> holds the hash functions that were compiled in,
  \<open>signature_algs\<close> the primitive verifiers. The dispatch, the fail-closed treatment of
  missing algorithms and the order of the checks are the code's.
\<close>

section \<open>Compiled-in primitives\<close>

record digest_algs =
  da_sha256 :: "(bytes \<Rightarrow> bytes) option"
  da_sha3_256 :: "(bytes \<Rightarrow> bytes) option"

text \<open>
  A primitive verifier answers \<open>None\<close> for malformed key material, and otherwise
  whether the 64 signature bytes are valid for the message under the key bytes.
\<close>

record signature_algs =
  sa_ed25519 :: "(bytes \<Rightarrow> bytes \<Rightarrow> bytes \<Rightarrow> bool option) option"
  sa_ecdsa_p256 :: "(bytes \<Rightarrow> bytes \<Rightarrow> bytes \<Rightarrow> bool option) option"

datatype digest_error = NoAlgorithmAvailable | Sha256Mismatch | Sha3Mismatch

datatype verify_error =
  InvalidSignature | AlgorithmMismatch | VerifyUnsupported | InvalidKey | VerifyKeyNotFound

section \<open>Digest sets\<close>

definition hash_digest_set :: "digest_algs \<Rightarrow> bytes \<Rightarrow> (digest_error, digest_set) result" where
  "hash_digest_set A data =
     (let s = \<lparr>ds_sha256 = map_option (\<lambda>h. h data) (da_sha256 A),
               ds_sha3_256 = map_option (\<lambda>h. h data) (da_sha3_256 A)\<rparr>
      in if ds_sha256 s = None \<and> ds_sha3_256 s = None then Err NoAlgorithmAvailable else Ok s)"

definition check_digest ::
  "(bytes \<Rightarrow> bytes) option \<Rightarrow> digest_error \<Rightarrow> bytes \<Rightarrow> bytes option \<Rightarrow> nat \<Rightarrow>
     (digest_error, nat) result" where
  "check_digest alg mismatch data expected count =
     (case alg of
        None \<Rightarrow> Ok count
      | Some h \<Rightarrow>
          (case expected of
             None \<Rightarrow> Ok count
           | Some d \<Rightarrow> if h data \<noteq> d then Err mismatch else Ok (count + 1)))"

definition verify_digest_set ::
  "digest_algs \<Rightarrow> bytes \<Rightarrow> digest_set \<Rightarrow> (digest_error, unit) result" where
  "verify_digest_set A data expected =
     (if da_sha256 A = None \<and> ds_sha256 expected \<noteq> None then Err NoAlgorithmAvailable
      else if da_sha3_256 A = None \<and> ds_sha3_256 expected \<noteq> None then Err NoAlgorithmAvailable
      else rbind (check_digest (da_sha256 A) Sha256Mismatch data (ds_sha256 expected) 0) (\<lambda>n.
           rbind (check_digest (da_sha3_256 A) Sha3Mismatch data (ds_sha3_256 expected) n) (\<lambda>n.
             let has_expected = ds_sha256 expected \<noteq> None \<or> ds_sha3_256 expected \<noteq> None
             in if \<not> has_expected \<or> n = 0 then Err NoAlgorithmAvailable else Ok ())))"

section \<open>Signatures\<close>

definition verify_ed25519 ::
  "signature_algs \<Rightarrow> bytes \<Rightarrow> signature \<Rightarrow> verification_key \<Rightarrow> (verify_error, unit) result" where
  "verify_ed25519 A message s key =
     (case sa_ed25519 A of
        None \<Rightarrow> Err VerifyUnsupported
      | Some verify_strict \<Rightarrow>
          (case verify_strict (vk_key_lo key) message (signature_bytes s) of
             None \<Rightarrow> Err InvalidKey
           | Some valid \<Rightarrow> if valid then Ok () else Err InvalidSignature))"

definition verify_ecdsa_p256 ::
  "signature_algs \<Rightarrow> bytes \<Rightarrow> signature \<Rightarrow> verification_key \<Rightarrow> (verify_error, unit) result" where
  "verify_ecdsa_p256 A message s key =
     (case sa_ecdsa_p256 A of
        None \<Rightarrow> Err VerifyUnsupported
      | Some verify \<Rightarrow>
          (case verify (4 # vk_key_lo key @ vk_key_hi key) message (sig_lo s @ sig_hi s) of
             None \<Rightarrow> Err InvalidKey
           | Some valid \<Rightarrow> if valid then Ok () else Err InvalidSignature))"

definition verify_signature ::
  "signature_algs \<Rightarrow> bytes \<Rightarrow> signature \<Rightarrow> verification_key \<Rightarrow> (verify_error, unit) result" where
  "verify_signature A message s key =
     rbind (ok_or (key_signature_kind key) VerifyUnsupported) (\<lambda>key_kind.
       if key_kind \<noteq> sig_kind s then Err AlgorithmMismatch
       else (case sig_kind s of
               Ed25519 \<Rightarrow> verify_ed25519 A message s key
             | EcdsaP256 \<Rightarrow> verify_ecdsa_p256 A message s key))"

definition verify_with_key_lookup ::
  "signature_algs \<Rightarrow> bytes \<Rightarrow> signature \<Rightarrow> verification_key list \<Rightarrow> (verify_error, unit) result" where
  "verify_with_key_lookup A message s keys =
     rbind (ok_or (find (\<lambda>k. vk_key_id k = sig_key_id s) keys) VerifyKeyNotFound) (\<lambda>key.
       verify_signature A message s key)"

section \<open>Lemmas\<close>

text \<open>
  What an accepted digest set says of the data: every digest that was advertised
  was recomputed and matched, and at least one was advertised.
\<close>

definition digest_set_matches :: "digest_algs \<Rightarrow> bytes \<Rightarrow> digest_set \<Rightarrow> bool" where
  "digest_set_matches A data d \<longleftrightarrow>
     (case ds_sha256 d of None \<Rightarrow> True | Some x \<Rightarrow> (\<exists>h. da_sha256 A = Some h \<and> h data = x)) \<and>
     (case ds_sha3_256 d of None \<Rightarrow> True | Some x \<Rightarrow> (\<exists>h. da_sha3_256 A = Some h \<and> h data = x)) \<and>
     (ds_sha256 d \<noteq> None \<or> ds_sha3_256 d \<noteq> None)"

lemma verify_digest_set_eq_Ok:
  "verify_digest_set A data d = Ok u \<longleftrightarrow> digest_set_matches A data d"
  by (cases "da_sha256 A"; cases "ds_sha256 d"; cases "da_sha3_256 A"; cases "ds_sha3_256 d")
    (auto simp: verify_digest_set_def digest_set_matches_def check_digest_def)

lemma check_digest_not_Panic: "check_digest alg m data e n \<noteq> Panic"
  by (auto simp: check_digest_def split: option.splits)

lemma verify_digest_set_not_Panic: "verify_digest_set A data d \<noteq> Panic"
  by (simp add: verify_digest_set_def rbind_eq_Panic check_digest_not_Panic Let_def)

lemma verify_hash_digest_set:
  "hash_digest_set A data = Ok d \<Longrightarrow> verify_digest_set A data d = Ok ()"
  unfolding verify_digest_set_eq_Ok
  by (auto simp: hash_digest_set_def digest_set_matches_def Let_def split: if_splits option.splits)

lemma verify_signature_eq_Ok:
  "verify_signature A m s k = Ok u \<longleftrightarrow>
     key_signature_kind k = Some (sig_kind s) \<and>
     (case sig_kind s of
        Ed25519 \<Rightarrow> (\<exists>v. sa_ed25519 A = Some v \<and> v (vk_key_lo k) m (signature_bytes s) = Some True)
      | EcdsaP256 \<Rightarrow> (\<exists>v. sa_ecdsa_p256 A = Some v \<and>
          v (4 # vk_key_lo k @ vk_key_hi k) m (sig_lo s @ sig_hi s) = Some True))"
  by (cases "sig_kind s")
    (auto simp: verify_signature_def verify_ed25519_def verify_ecdsa_p256_def
      split: option.splits if_splits)

lemma verify_signature_not_Panic: "verify_signature A m s k \<noteq> Panic"
  by (auto simp: verify_signature_def verify_ed25519_def verify_ecdsa_p256_def rbind_eq_Panic
      split: signature_kind.splits option.splits)

end
