(* ===== verification/Root.thy ===== *)
theory Root
  imports Crypto
begin

text \<open>
  The signed boot root (\<^verbatim>\<open>crates/ffs/src/root.rs\<close>): 512 bytes with two bootstrap
  descriptor slots, the directory reference and an Ed25519 signature over the first
  448 bytes. Encoders write into a zeroed buffer at the offsets of the code; parsers
  check the reserved bytes and validate; \<open>authenticate_root\<close> adds the policy of the
  linked trust block and the signature check.
\<close>

section \<open>Constants and errors\<close>

definition ROOT_SIZE :: nat where "ROOT_SIZE = 512"
definition SIGNED_SIZE :: nat where "SIGNED_SIZE = 448"

definition ROOT_MAGIC :: bytes where
  "ROOT_MAGIC = [0x46, 0x53, 0x54, 0x41, 0x52, 0x54, 0x42, 0x52]"

definition DIRECTORY_REVISION :: u32 where "DIRECTORY_REVISION = 2"

datatype root_error =
    RootInvalidFormat | RootUnsupportedVersion | RootOutOfBounds | RootPolicyRejected
  | RootSignatureInvalid | RootUnsupportedAlgorithm | RootDigestMismatch

section \<open>Records\<close>

datatype bootstrap_role = Postcar | Mainstage

record bootstrap_descriptor =
  bd_role :: bootstrap_role
  bd_compression :: compression
  bd_offset :: u64
  bd_stored_size :: u64
  bd_loaded_size :: u64
  bd_load_addr :: u64
  bd_entry_offset :: u64
  bd_scratch_size :: u64
  bd_stored_digest :: bytes
  bd_loaded_digest :: bytes

record directory_ref =
  dr_offset :: u64
  dr_size :: u64
  dr_digest :: bytes

record root =
  rt_security_version :: u64
  rt_image_family :: bytes
  rt_key_id :: u32
  rt_descriptors :: "bootstrap_descriptor option list"
  rt_directory :: directory_ref
  rt_signature :: bytes

record root_policy =
  rp_image_family :: bytes
  rp_minimum_security_version :: u64
  rp_image_size :: u64
  rp_max_directory_size :: u64
  rp_keys :: "verification_key list"

section \<open>Bootstrap descriptors\<close>

definition root_range :: "u64 \<Rightarrow> u64 \<Rightarrow> u64 \<Rightarrow> (root_error, unit) result" where
  "root_range offset sz limit =
     (case checked_add offset sz of
        Some end_ \<Rightarrow> if end_ \<le> limit then Ok () else Err RootOutOfBounds
      | None \<Rightarrow> Err RootOutOfBounds)"

definition bd_validate :: "bootstrap_descriptor \<Rightarrow> u64 \<Rightarrow> (root_error, unit) result" where
  "bd_validate d image_size =
     (if bd_stored_size d = 0 \<or> bd_loaded_size d = 0 \<or> bd_entry_offset d \<ge> bd_loaded_size d
      then Err RootInvalidFormat
      else rbind (root_range (bd_offset d) (bd_stored_size d) image_size) (\<lambda>_.
           rbind (ok_or (checked_add (bd_load_addr d) (bd_loaded_size d)) RootOutOfBounds) (\<lambda>_.
           rbind (if bd_compression d = CompLz4
                  then rbind (ok_or (checked_add (bd_stored_size d) (bd_loaded_size d)) RootOutOfBounds)
                         (\<lambda>need. if bd_scratch_size d < need then Err RootInvalidFormat else Ok ())
                  else Ok ()) (\<lambda>_.
             if bd_compression d = CompNone \<and>
                (bd_scratch_size d \<noteq> 0 \<or> bd_stored_size d \<noteq> bd_loaded_size d \<or>
                 bd_stored_digest d \<noteq> bd_loaded_digest d)
             then Err RootInvalidFormat
             else Ok ()))))"

primrec role_code :: "bootstrap_role \<Rightarrow> u16" where
  "role_code Postcar = 1"
| "role_code Mainstage = 2"

primrec compression_code :: "compression \<Rightarrow> u8" where
  "compression_code CompNone = 0"
| "compression_code CompLz4 = 1"

definition bd_encode :: "bootstrap_descriptor \<Rightarrow> bytes" where
  "bd_encode d =
     (let b = replicate 160 0;
          b = write_at b 0 (to_le_bytes (role_code (bd_role d)));
          b = write_at b 2 [compression_code (bd_compression d)];
          b = fold (\<lambda>(i, n) b. write_at b (8 + i * 8) (to_le_bytes n))
                (List.enumerate 0
                  [bd_offset d, bd_stored_size d, bd_loaded_size d, bd_load_addr d,
                   bd_entry_offset d, bd_scratch_size d]) b;
          b = write_at b 56 (bd_stored_digest d)
      in write_at b 88 (bd_loaded_digest d))"

definition bd_parse :: "bytes \<Rightarrow> (root_error, bootstrap_descriptor) result" where
  "bd_parse b =
     (if length b \<noteq> 160 \<or> sub b 3 5 \<noteq> replicate 5 0 \<or> drop 120 b \<noteq> replicate 40 0
      then Err RootInvalidFormat
      else rbind (if le16 b 0 = 1 then Ok Postcar
                  else if le16 b 0 = 2 then Ok Mainstage
                  else Err RootInvalidFormat) (\<lambda>role.
           rbind (if b ! 2 = 0 then Ok CompNone
                  else if b ! 2 = 1 then Ok CompLz4
                  else Err RootUnsupportedAlgorithm) (\<lambda>comp.
             let d = \<lparr>bd_role = role, bd_compression = comp, bd_offset = le64 b 8,
                      bd_stored_size = le64 b 16, bd_loaded_size = le64 b 24,
                      bd_load_addr = le64 b 32, bd_entry_offset = le64 b 40,
                      bd_scratch_size = le64 b 48, bd_stored_digest = sub b 56 32,
                      bd_loaded_digest = sub b 88 32\<rparr>
             in rbind (bd_validate d U64_MAX) (\<lambda>_. Ok d))))"

section \<open>Directory reference\<close>

definition dr_validate :: "directory_ref \<Rightarrow> u64 \<Rightarrow> u64 \<Rightarrow> (root_error, unit) result" where
  "dr_validate r image_size max_size =
     (if dr_size r = 0 \<or> dr_size r > max_size then Err RootOutOfBounds
      else root_range (dr_offset r) (dr_size r) image_size)"

definition dr_encode :: "directory_ref \<Rightarrow> bytes" where
  "dr_encode r =
     (let b = replicate 64 0;
          b = write_at b 0 (to_le_bytes (dr_offset r));
          b = write_at b 8 (to_le_bytes (dr_size r));
          b = write_at b 16 (dr_digest r)
      in write_at b 48 (to_le_bytes DIRECTORY_REVISION))"

definition dr_parse :: "bytes \<Rightarrow> (root_error, directory_ref) result" where
  "dr_parse b =
     (if length b \<noteq> 64 \<or> drop 52 b \<noteq> replicate 12 0 then Err RootInvalidFormat
      else if le32 b 48 \<noteq> DIRECTORY_REVISION then Err RootUnsupportedVersion
      else let r = \<lparr>dr_offset = le64 b 0, dr_size = le64 b 8, dr_digest = sub b 16 32\<rparr>
           in rbind (dr_validate r U64_MAX U64_MAX) (\<lambda>_. Ok r))"

definition root_verify_digest :: "digest_algs \<Rightarrow> bytes \<Rightarrow> bytes \<Rightarrow> (root_error, unit) result" where
  "root_verify_digest A bytes expected =
     map_err (\<lambda>e. case e of NoAlgorithmAvailable \<Rightarrow> RootUnsupportedAlgorithm
                         | _ \<Rightarrow> RootDigestMismatch)
       (verify_digest_set A bytes \<lparr>ds_sha256 = Some expected, ds_sha3_256 = None\<rparr>)"

definition dr_verify_bytes :: "digest_algs \<Rightarrow> directory_ref \<Rightarrow> bytes \<Rightarrow> (root_error, unit) result" where
  "dr_verify_bytes A r bytes =
     (if length bytes \<noteq> unat (dr_size r) then Err RootOutOfBounds
      else root_verify_digest A bytes (dr_digest r))"

section \<open>The boot root\<close>

definition root_encode :: "root \<Rightarrow> bytes" where
  "root_encode r =
     (let b = replicate ROOT_SIZE 0;
          b = write_at b 0 ROOT_MAGIC;
          b = write_at b 8 (to_le_bytes (1 :: u16));
          b = write_at b 10 (to_le_bytes (64 :: u16));
          b = write_at b 12 (to_le_bytes (word_of_nat ROOT_SIZE :: u32));
          b = write_at b 16 (to_le_bytes (rt_security_version r));
          b = write_at b 24 (rt_image_family r);
          b = write_at b 40 (to_le_bytes (rt_key_id r));
          b = fold (\<lambda>(i, d) b. case d of None \<Rightarrow> b
                                | Some d \<Rightarrow> write_at b (64 + i * 160) (bd_encode d))
                (List.enumerate 0 (rt_descriptors r)) b;
          b = write_at b 384 (dr_encode (rt_directory r))
      in write_at b 448 (rt_signature r))"

definition parse_slot :: "bytes \<Rightarrow> nat \<Rightarrow> (root_error, bootstrap_descriptor option) result" where
  "parse_slot b i =
     (let s = sub b (64 + i * 160) 160
      in if s \<noteq> replicate 160 0 then rbind (bd_parse s) (\<lambda>d. Ok (Some d)) else Ok None)"

definition root_parse :: "bytes \<Rightarrow> (root_error, root) result" where
  "root_parse b =
     (if length b \<noteq> ROOT_SIZE \<or> sub b 0 8 \<noteq> ROOT_MAGIC \<or>
         sub b 10 2 \<noteq> to_le_bytes (64 :: u16) \<or>
         le32 b 12 \<noteq> word_of_nat ROOT_SIZE \<or> sub b 44 20 \<noteq> replicate 20 0
      then Err RootInvalidFormat
      else if sub b 8 2 \<noteq> to_le_bytes (1 :: u16) then Err RootUnsupportedVersion
      else rbind (parse_slot b 0) (\<lambda>d0.
           rbind (parse_slot b 1) (\<lambda>d1.
             if d0 = None \<and> d1 \<noteq> None then Err RootInvalidFormat
             else rbind (dr_parse (sub b 384 64)) (\<lambda>dir.
               Ok \<lparr>rt_security_version = le64 b 16, rt_image_family = sub b 24 16,
                   rt_key_id = le32 b 40, rt_descriptors = [d0, d1],
                   rt_directory = dir, rt_signature = drop 448 b\<rparr>))))"

definition select_key :: "verification_key list \<Rightarrow> u8 \<Rightarrow> (root_error, verification_key) result" where
  "select_key keys key_id =
     (case filter (\<lambda>k. vk_key_id k = key_id) keys of
        [] \<Rightarrow> Err RootPolicyRejected
      | [key] \<Rightarrow> Ok key
      | key # _ # _ \<Rightarrow> Err RootPolicyRejected)"

definition authenticate_root ::
  "signature_algs \<Rightarrow> root_policy \<Rightarrow> bytes \<Rightarrow> (root_error, root) result" where
  "authenticate_root A policy bytes =
     rbind (root_parse bytes) (\<lambda>root.
       if rt_image_family root \<noteq> rp_image_family policy \<or>
          rt_security_version root < rp_minimum_security_version policy
       then Err RootPolicyRejected
       else rbind (dr_validate (rt_directory root) (rp_image_size policy)
                    (rp_max_directory_size policy)) (\<lambda>_.
            rbind (for_each (\<lambda>d. bd_validate d (rp_image_size policy))
                    (List.map_filter id (rt_descriptors root))) (\<lambda>_.
            rbind (if unat (rt_key_id root) < 256 then Ok (ucast (rt_key_id root) :: u8)
                   else Err RootPolicyRejected) (\<lambda>key_id.
            rbind (select_key (rp_keys policy) key_id) (\<lambda>key.
            let s = \<lparr>sig_key_id = key_id, sig_kind = Ed25519,
                     sig_lo = take 32 (rt_signature root), sig_hi = drop 32 (rt_signature root)\<rparr>
            in rbind (map_err (\<lambda>e. case e of VerifyUnsupported \<Rightarrow> RootUnsupportedAlgorithm
                                 | AlgorithmMismatch \<Rightarrow> RootUnsupportedAlgorithm
                                 | _ \<Rightarrow> RootSignatureInvalid)
                       (verify_signature A (take SIGNED_SIZE bytes) s key)) (\<lambda>_.
               Ok root))))))"

section \<open>Well-formed values\<close>

definition wf_bd :: "bootstrap_descriptor \<Rightarrow> bool" where
  "wf_bd d \<longleftrightarrow> length (bd_stored_digest d) = 32 \<and> length (bd_loaded_digest d) = 32 \<and>
     bd_validate d U64_MAX = Ok ()"

definition wf_dr :: "directory_ref \<Rightarrow> bool" where
  "wf_dr r \<longleftrightarrow> length (dr_digest r) = 32 \<and> dr_validate r U64_MAX U64_MAX = Ok ()"

definition wf_root :: "root \<Rightarrow> bool" where
  "wf_root r \<longleftrightarrow> length (rt_image_family r) = 16 \<and> length (rt_signature r) = 64 \<and>
     (\<exists>d0 d1. rt_descriptors r = [d0, d1] \<and> (d0 = None \<longrightarrow> d1 = None)) \<and>
     (\<forall>d. Some d \<in> set (rt_descriptors r) \<longrightarrow> wf_bd d) \<and> wf_dr (rt_directory r)"

section \<open>Wire lemmas\<close>

lemma bd_encode_layout:
  assumes "length (bd_stored_digest d) = 32" and "length (bd_loaded_digest d) = 32"
  shows "bd_encode d =
    to_le_bytes (role_code (bd_role d)) @ [compression_code (bd_compression d)] @ replicate 5 0 @
    to_le_bytes (bd_offset d) @ to_le_bytes (bd_stored_size d) @ to_le_bytes (bd_loaded_size d) @
    to_le_bytes (bd_load_addr d) @ to_le_bytes (bd_entry_offset d) @
    to_le_bytes (bd_scratch_size d) @ bd_stored_digest d @ bd_loaded_digest d @ replicate 40 0"
proof -
  have "bd_encode d = zfill 160
   (to_le_bytes (role_code (bd_role d)) @ [compression_code (bd_compression d)] @ replicate 5 0 @
    to_le_bytes (bd_offset d) @ to_le_bytes (bd_stored_size d) @ to_le_bytes (bd_loaded_size d) @
    to_le_bytes (bd_load_addr d) @ to_le_bytes (bd_entry_offset d) @
    to_le_bytes (bd_scratch_size d) @ bd_stored_digest d @ bd_loaded_digest d)"
    using assms by (simp add: bd_encode_def Let_def replicate_zfill [of 160] write_at_zfill)
  then show ?thesis
    using assms by (simp add: zfill_def)
qed

lemma length_bd_encode [simp]:
  "wf_bd d \<Longrightarrow> length (bd_encode d) = 160"
  by (simp add: bd_encode_layout wf_bd_def)

lemma bd_parse_encode:
  assumes "wf_bd d"
  shows "bd_parse (bd_encode d) = Ok d"
proof -
  have w: "length (bd_stored_digest d) = 32" "length (bd_loaded_digest d) = 32"
    "bd_validate d U64_MAX = Ok ()"
    using assms by (auto simp: wf_bd_def)
  show ?thesis
    using w by (cases d; cases "bd_role d"; cases "bd_compression d")
      (simp_all add: bd_parse_def bd_encode_layout le16_def le64_def byte_simps nth_append Let_def)
qed

lemma bd_parse_eq_OkD:
  assumes "bd_parse b = Ok d"
  shows "length b = 160" "sub b 3 5 = replicate 5 0" "sub b 120 40 = replicate 40 0"
    "le16 b 0 = role_code (bd_role d)" "b ! 2 = compression_code (bd_compression d)"
    "bd_offset d = le64 b 8" "bd_stored_size d = le64 b 16" "bd_loaded_size d = le64 b 24"
    "bd_load_addr d = le64 b 32" "bd_entry_offset d = le64 b 40" "bd_scratch_size d = le64 b 48"
    "bd_stored_digest d = sub b 56 32" "bd_loaded_digest d = sub b 88 32"
    "bd_validate d U64_MAX = Ok ()"
  using assms by (auto simp: bd_parse_def Let_def sub_def split: if_splits)

lemma bd_parse_wf: "bd_parse b = Ok d \<Longrightarrow> wf_bd d"
  by (frule bd_parse_eq_OkD(1)) (auto simp: wf_bd_def byte_simps dest: bd_parse_eq_OkD)

lemma bd_encode_parse:
  assumes "bd_parse b = Ok d"
  shows "bd_encode d = b"
proof -
  note p = bd_parse_eq_OkD [OF assms]
  have "bd_encode d =
     sub b 0 2 @ sub b 2 1 @ sub b 3 5 @ sub b 8 8 @ sub b 16 8 @ sub b 24 8 @ sub b 32 8 @
     sub b 40 8 @ sub b 48 8 @ sub b 56 32 @ sub b 88 32 @ sub b 120 40"
    using p by (simp add: bd_encode_layout byte_simps sub_1 flip: p(2,3,4,5))
  then show ?thesis
    using p(1) by (simp add: sub_join sub_join_append sub_whole)
qed

lemma dr_encode_layout:
  assumes "length (dr_digest r) = 32"
  shows "dr_encode r = to_le_bytes (dr_offset r) @ to_le_bytes (dr_size r) @ dr_digest r @
    to_le_bytes DIRECTORY_REVISION @ replicate 12 0"
proof -
  have "dr_encode r = zfill 64 (to_le_bytes (dr_offset r) @ to_le_bytes (dr_size r) @
      dr_digest r @ to_le_bytes DIRECTORY_REVISION)"
    using assms by (simp add: dr_encode_def Let_def replicate_zfill [of 64] write_at_zfill)
  then show ?thesis
    using assms by (simp add: zfill_def)
qed

lemma length_dr_encode [simp]: "wf_dr r \<Longrightarrow> length (dr_encode r) = 64"
  by (simp add: dr_encode_layout wf_dr_def)

lemma dr_parse_encode:
  assumes "wf_dr r"
  shows "dr_parse (dr_encode r) = Ok r"
  using assms by (cases r)
    (simp add: wf_dr_def dr_parse_def dr_encode_layout le32_def le64_def byte_simps Let_def)

lemma dr_parse_eq_OkD:
  assumes "dr_parse b = Ok r"
  shows "length b = 64" "sub b 52 12 = replicate 12 0" "le32 b 48 = DIRECTORY_REVISION"
    "dr_offset r = le64 b 0" "dr_size r = le64 b 8" "dr_digest r = sub b 16 32"
    "dr_validate r U64_MAX U64_MAX = Ok ()"
  using assms by (auto simp: dr_parse_def Let_def sub_def split: if_splits)

lemma dr_parse_wf: "dr_parse b = Ok r \<Longrightarrow> wf_dr r"
  by (frule dr_parse_eq_OkD(1)) (auto simp: wf_dr_def byte_simps dest: dr_parse_eq_OkD)

lemma dr_encode_parse:
  assumes "dr_parse b = Ok r"
  shows "dr_encode r = b"
proof -
  note p = dr_parse_eq_OkD [OF assms]
  have "dr_encode r = sub b 0 8 @ sub b 8 8 @ sub b 16 32 @ sub b 48 4 @ sub b 52 12"
    using p by (simp add: dr_encode_layout byte_simps flip: p(2,3))
  then show ?thesis
    using p(1) by (simp add: sub_join sub_join_append sub_whole)
qed

primrec slot_bytes :: "bootstrap_descriptor option \<Rightarrow> bytes" where
  "slot_bytes None = replicate 160 0"
| "slot_bytes (Some d) = bd_encode d"

lemma zero_slot_rejected: "bd_parse (replicate 160 0) \<noteq> Ok d"
  by (auto simp: bd_parse_def le16_def byte_simps from_le_bytes_def numeral_2_eq_2)

lemma bd_encode_nonzero: "wf_bd d \<Longrightarrow> bd_encode d \<noteq> replicate 160 0"
  by (metis bd_parse_encode zero_slot_rejected)

lemma parse_slot_bytes:
  "sub b (64 + i * 160) 160 = slot_bytes s \<Longrightarrow> (\<forall>d. s = Some d \<longrightarrow> wf_bd d) \<Longrightarrow>
     parse_slot b i = Ok s"
  by (cases s) (simp_all add: parse_slot_def bd_encode_nonzero bd_parse_encode)

lemma parse_slot_eq_OkD:
  assumes "parse_slot b i = Ok s"
  shows "slot_bytes s = sub b (64 + i * 160) 160" "s = Some d \<Longrightarrow> wf_bd d"
  using assms by (auto simp: parse_slot_def Let_def bd_encode_parse bd_parse_wf split: if_splits)

lemma root_encode_layout:
  assumes "wf_root r" and "rt_descriptors r = [d0, d1]"
  shows "root_encode r = ROOT_MAGIC @ to_le_bytes (1 :: u16) @ to_le_bytes (64 :: u16) @
    to_le_bytes (512 :: u32) @ to_le_bytes (rt_security_version r) @ rt_image_family r @
    to_le_bytes (rt_key_id r) @ replicate 20 0 @ slot_bytes d0 @ slot_bytes d1 @
    dr_encode (rt_directory r) @ rt_signature r"
proof -
  have w: "length (rt_image_family r) = 16" "length (rt_signature r) = 64"
    "d0 = Some d \<Longrightarrow> wf_bd d" "d1 = Some d \<Longrightarrow> wf_bd d" "wf_dr (rt_directory r)"
    "length ROOT_MAGIC = 8" for d
    using assms by (auto simp: wf_root_def ROOT_MAGIC_def)
  have "replicate 340 (0 :: u8) = replicate 20 0 @ replicate 160 0 @ replicate 160 0"
    "replicate 180 (0 :: u8) = replicate 20 0 @ replicate 160 0"
    by (simp_all flip: replicate_add)
  then show ?thesis
    using w assms(2) by (cases d0; cases d1)
      (simp_all add: root_encode_def Let_def ROOT_SIZE_def replicate_zfill [of 512]
        write_at_zfill, simp_all add: zfill_def)
qed

lemma root_parse_encode:
  assumes "wf_root r"
  shows "root_parse (root_encode r) = Ok r"
proof -
  from assms obtain d0 d1 where d: "rt_descriptors r = [d0, d1]" "d0 = None \<longrightarrow> d1 = None"
    and w: "length (rt_image_family r) = 16" "length (rt_signature r) = 64"
      "wf_dr (rt_directory r)" "\<forall>d. d0 = Some d \<longrightarrow> wf_bd d" "\<forall>d. d1 = Some d \<longrightarrow> wf_bd d"
    by (auto simp: wf_root_def)
  have l: "length (slot_bytes d0) = 160" "length (slot_bytes d1) = 160" "length ROOT_MAGIC = 8"
    using w by (cases d0; cases d1; simp add: ROOT_MAGIC_def)+
  note e = root_encode_layout [OF assms d(1)]
  have "parse_slot (root_encode r) 0 = Ok d0" "parse_slot (root_encode r) 1 = Ok d1"
    using w l by (auto intro!: parse_slot_bytes simp: e byte_simps)
  moreover have "sub (root_encode r) 384 64 = dr_encode (rt_directory r)"
    "drop 448 (root_encode r) = rt_signature r" "length (root_encode r) = 512"
    "sub (root_encode r) 24 16 = rt_image_family r" "sub (root_encode r) 0 8 = ROOT_MAGIC"
    "sub (root_encode r) 8 2 = to_le_bytes (1 :: u16)" "sub (root_encode r) 44 20 = replicate 20 0"
    "sub (root_encode r) 10 2 = to_le_bytes (64 :: u16)" "le32 (root_encode r) 12 = 512"
    "le64 (root_encode r) 16 = rt_security_version r" "le32 (root_encode r) 40 = rt_key_id r"
    using w l by (simp_all add: e byte_simps le32_def le64_def)
  ultimately show ?thesis
    using d w by (cases r) (auto simp: root_parse_def ROOT_SIZE_def dr_parse_encode)
qed

lemma root_parse_eq_OkD:
  assumes "root_parse b = Ok r"
  obtains d0 d1 where "length b = 512" "sub b 0 8 = ROOT_MAGIC" "sub b 8 2 = to_le_bytes (1 :: u16)"
    "sub b 10 2 = to_le_bytes (64 :: u16)" "le32 b 12 = 512" "sub b 44 20 = replicate 20 0"
    "rt_security_version r = le64 b 16" "rt_image_family r = sub b 24 16" "rt_key_id r = le32 b 40"
    "rt_descriptors r = [d0, d1]" "parse_slot b 0 = Ok d0" "parse_slot b 1 = Ok d1"
    "d0 = None \<longrightarrow> d1 = None" "dr_parse (sub b 384 64) = Ok (rt_directory r)"
    "rt_signature r = sub b 448 64"
  using assms by (auto simp: root_parse_def ROOT_SIZE_def sub_def split: if_splits)

lemma root_parse_wf: "root_parse b = Ok r \<Longrightarrow> wf_root r"
  by (erule root_parse_eq_OkD) (auto simp: wf_root_def byte_simps dr_parse_wf parse_slot_eq_OkD)

lemma root_encode_parse:
  assumes "root_parse b = Ok r"
  shows "root_encode r = b"
  using assms
proof (rule root_parse_eq_OkD)
  fix d0 d1
  assume l: "length b = 512" and m: "sub b 0 8 = ROOT_MAGIC" "sub b 8 2 = to_le_bytes (1 :: u16)"
    "sub b 10 2 = to_le_bytes (64 :: u16)" "le32 b 12 = 512" "sub b 44 20 = replicate 20 0"
    and f: "rt_security_version r = le64 b 16" "rt_image_family r = sub b 24 16"
      "rt_key_id r = le32 b 40" "rt_descriptors r = [d0, d1]"
    and s: "parse_slot b 0 = Ok d0" "parse_slot b 1 = Ok d1"
    and dr: "dr_parse (sub b 384 64) = Ok (rt_directory r)" and sg: "rt_signature r = sub b 448 64"
  have "root_encode r = sub b 0 8 @ sub b 8 2 @ sub b 10 2 @ sub b 12 4 @ sub b 16 8 @ sub b 24 16 @
      sub b 40 4 @ sub b 44 20 @ sub b 64 160 @ sub b 224 160 @ sub b 384 64 @ sub b 448 64"
    using l f sg by (simp add: root_encode_layout [OF root_parse_wf [OF assms] f(4)]
        parse_slot_eq_OkD(1) [OF s(1)] parse_slot_eq_OkD(1) [OF s(2)] dr_encode_parse [OF dr]
        byte_simps flip: m)
  then show ?thesis
    using l by (simp add: sub_join sub_join_append sub_whole)
qed

section \<open>The formats as canonical wire formats\<close>

interpretation bd_wire: wire_format bd_encode bd_parse wf_bd
  by unfold_locales (fact bd_parse_encode bd_parse_wf bd_encode_parse)+

interpretation dr_wire: wire_format dr_encode dr_parse wf_dr
  by unfold_locales (fact dr_parse_encode dr_parse_wf dr_encode_parse)+

interpretation root_wire: wire_format root_encode root_parse wf_root
  by unfold_locales (fact root_parse_encode root_parse_wf root_encode_parse)+

section \<open>Validated ranges\<close>

lemma root_range_eq_Ok:
  "root_range off sz limit = Ok u \<longleftrightarrow> unat off + unat sz \<le> unat limit"
  using unat_64_less [of limit]
    by (auto simp: root_range_def checked_add_def word_le_nat_alt unat_word_ariths
        split: if_splits option.splits)

text \<open>What \<open>validate\<close> promises, in unbounded arithmetic.\<close>

definition bd_sound :: "bootstrap_descriptor \<Rightarrow> u64 \<Rightarrow> bool" where
  "bd_sound d image_size \<longleftrightarrow>
     0 < unat (bd_stored_size d) \<and> unat (bd_entry_offset d) < unat (bd_loaded_size d) \<and>
     unat (bd_offset d) + unat (bd_stored_size d) \<le> unat image_size \<and>
     unat (bd_load_addr d) + unat (bd_loaded_size d) < 2 ^ 64 \<and>
     (case bd_compression d of
        CompLz4 \<Rightarrow> unat (bd_stored_size d) + unat (bd_loaded_size d) \<le> unat (bd_scratch_size d)
      | CompNone \<Rightarrow> bd_scratch_size d = 0 \<and> bd_stored_size d = bd_loaded_size d \<and>
          bd_stored_digest d = bd_loaded_digest d)"

lemma root_range_not_Panic: "root_range a n l \<noteq> Panic"
  by (auto simp: root_range_def split: option.splits)

lemma bd_validate_not_Panic: "bd_validate d n \<noteq> Panic"
  by (auto simp: bd_validate_def rbind_eq_Panic root_range_not_Panic)

lemma bd_validate_eq_Ok: "bd_validate d image_size = Ok u \<longleftrightarrow> bd_sound d image_size"
  using unat_64_less [of "bd_scratch_size d"]
    by (cases "bd_compression d")
      (auto simp: bd_validate_def bd_sound_def root_range_eq_Ok checked_add_def word_le_nat_alt
        word_less_nat_alt unat_word_ariths unat_gt_0 unat_eq_zero split: if_splits)

lemma dr_validate_eq_Ok:
  "dr_validate r image_size max_size = Ok u \<longleftrightarrow>
     0 < unat (dr_size r) \<and> unat (dr_size r) \<le> unat max_size \<and>
     unat (dr_offset r) + unat (dr_size r) \<le> unat image_size"
  by (auto simp: dr_validate_def root_range_eq_Ok word_less_nat_alt unat_gt_0)

lemma select_key_eq_Ok:
  "select_key keys i = Ok k \<longleftrightarrow> filter (\<lambda>k. vk_key_id k = i) keys = [k]"
  by (auto simp: select_key_def split: list.splits)

section \<open>Authentication\<close>

lemma set_map_filter_id: "set (List.map_filter id xs) = {x. Some x \<in> set xs}"
  by (force simp: map_filter_def)

lemma key_signature_kind_Ed25519:
  "key_signature_kind k = Some Ed25519 \<longleftrightarrow> vk_algorithm k = ALG_ED25519"
  by (simp add: key_signature_kind_def)

lemma authenticate_root_eq_Ok:
  "authenticate_root A policy b = Ok r \<longleftrightarrow>
     root_parse b = Ok r \<and>
     rt_image_family r = rp_image_family policy \<and>
     rp_minimum_security_version policy \<le> rt_security_version r \<and>
     dr_validate (rt_directory r) (rp_image_size policy) (rp_max_directory_size policy) = Ok () \<and>
     (\<forall>d. Some d \<in> set (rt_descriptors r) \<longrightarrow> bd_sound d (rp_image_size policy)) \<and>
     unat (rt_key_id r) < 256 \<and>
     (\<exists>k v. filter (\<lambda>k. vk_key_id k = ucast (rt_key_id r)) (rp_keys policy) = [k] \<and>
        vk_algorithm k = ALG_ED25519 \<and> sa_ed25519 A = Some v \<and>
        v (vk_key_lo k) (take SIGNED_SIZE b) (rt_signature r) = Some True)"
  by (auto simp: authenticate_root_def Let_def for_each_eq_Ok set_map_filter_id select_key_eq_Ok
      verify_signature_eq_Ok bd_validate_eq_Ok key_signature_kind_Ed25519 signature_bytes_def
      not_less split: if_splits)

lemma sub_eq_prefix:
  fixes b c :: bytes
  assumes "take m b = take m c" and "i + n \<le> m"
  shows "sub b i n = sub c i n"
proof -
  have "sub b i n = sub (take m b) i n" for b :: bytes
    using assms(2) by (simp add: sub_def drop_take min_def)
  then show ?thesis
    by (metis assms(1))
qed

lemma root_parse_prefix:
  assumes r: "root_parse b = Ok r" and r': "root_parse c = Ok r'" and p: "take 448 b = take 448 c"
  shows "r' = r\<lparr>rt_signature := sub c 448 64\<rparr>"
proof -
  have s: "sub b i n = sub c i n" if "i + n \<le> 448" for i n
    using that by (rule sub_eq_prefix [OF p])
  have le: "le64 b 16 = le64 c 16" "le32 b 40 = le32 c 40"
    by (simp_all add: le64_def le32_def s)
  have sl: "parse_slot b 0 = parse_slot c 0" "parse_slot b 1 = parse_slot c 1"
    by (simp_all add: parse_slot_def s)
  show ?thesis
  proof (rule root_parse_eq_OkD [OF r])
    fix d0 d1
    assume R: "rt_security_version r = le64 b 16" "rt_image_family r = sub b 24 16"
      "rt_key_id r = le32 b 40" "rt_descriptors r = [d0, d1]" "parse_slot b 0 = Ok d0"
      "parse_slot b 1 = Ok d1" "dr_parse (sub b 384 64) = Ok (rt_directory r)"
    show ?thesis
      by (rule root_parse_eq_OkD [OF r']) (use R le sl s in \<open>auto intro!: root.equality\<close>)
  qed
qed

section \<open>Properties\<close>

text \<open>
  C23: the boot root is a lossless format: parsing the 512 bytes that \<open>Root::encode\<close>
  writes for a well-formed root gives that root back, and every byte string that
  \<open>Root::parse\<close> accepts is the encoding of the root it returns, so reserved bytes
  carry no hidden data and no two accepted byte strings mean the same root.
\<close>

theorem root_roundtrip:
  "(wf_root r \<longrightarrow> root_parse (root_encode r) = Ok r) \<and>
   (root_parse b = Ok r \<longrightarrow> wf_root r \<and> root_encode r = b)"
  using root_wire.dec_enc root_wire.dec_eq_Ok_iff by blast

text \<open>
  C1: \<open>authenticate_root\<close> accepts exactly the roots that parse, carry the family of the
  policy and at least its minimum security version, reference a nonempty directory
  inside the image and the size limit, contain only sound bootstrap descriptors, name
  by \<open>key_id\<close> exactly one policy key, an Ed25519 key, under which the primitive
  verifier accepts bytes 448..512 as the signature of bytes 0..448.
\<close>

theorem authenticate_root_accepts_iff:
  "authenticate_root A policy b = Ok r \<longleftrightarrow>
     wf_root r \<and> b = root_encode r \<and>
     rt_image_family r = rp_image_family policy \<and>
     rp_minimum_security_version policy \<le> rt_security_version r \<and>
     0 < unat (dr_size (rt_directory r)) \<and>
     unat (dr_size (rt_directory r)) \<le> unat (rp_max_directory_size policy) \<and>
     unat (dr_offset (rt_directory r)) + unat (dr_size (rt_directory r))
       \<le> unat (rp_image_size policy) \<and>
     (\<forall>d. Some d \<in> set (rt_descriptors r) \<longrightarrow> bd_sound d (rp_image_size policy)) \<and>
     unat (rt_key_id r) < 256 \<and>
     (\<exists>k v. filter (\<lambda>k. vk_key_id k = ucast (rt_key_id r)) (rp_keys policy) = [k] \<and>
        vk_algorithm k = ALG_ED25519 \<and> sa_ed25519 A = Some v \<and>
        v (vk_key_lo k) (take 448 b) (rt_signature r) = Some True)"
  unfolding authenticate_root_eq_Ok root_wire.dec_eq_Ok_iff dr_validate_eq_Ok SIGNED_SIZE_def
  by blast

text \<open>
  C24: nothing but the signature lies outside the signed prefix: two byte strings with
  equal first 448 bytes that both authenticate, under whatever policies and verifiers,
  yield the same version, family, key id, descriptors and directory reference.
\<close>

theorem authenticated_fields_signed:
  assumes "authenticate_root A p b = Ok r" and "authenticate_root A' p' c = Ok r'"
    and "take SIGNED_SIZE b = take SIGNED_SIZE c"
  shows "r' = r\<lparr>rt_signature := drop 448 c\<rparr>"
proof -
  have r: "root_parse b = Ok r" and r': "root_parse c = Ok r'"
    using assms(1,2) by (simp_all add: authenticate_root_eq_Ok)
  have "length c = 512"
    using r' by (rule root_parse_eq_OkD)
  then have "sub c 448 64 = drop 448 c"
    by (simp add: sub_def)
  with root_parse_prefix [OF r r'] assms(3) show ?thesis
    by (simp add: SIGNED_SIZE_def)
qed

text \<open>
  A sample root with one uncompressed bootstrap stage, and a policy with one key,
  for the witnesses. The sample verifier accepts the signature that repeats the key.
\<close>

definition sample_bd :: bootstrap_descriptor where
  "sample_bd = \<lparr>bd_role = Mainstage, bd_compression = CompNone, bd_offset = 0x1000,
     bd_stored_size = 0x200, bd_loaded_size = 0x200, bd_load_addr = 0x80000000,
     bd_entry_offset = 0x10, bd_scratch_size = 0, bd_stored_digest = replicate 32 7,
     bd_loaded_digest = replicate 32 7\<rparr>"

definition sample_root :: root where
  "sample_root = \<lparr>rt_security_version = 3, rt_image_family = replicate 16 5, rt_key_id = 1,
     rt_descriptors = [Some sample_bd, None],
     rt_directory = \<lparr>dr_offset = 0x2000, dr_size = 0x100, dr_digest = replicate 32 9\<rparr>,
     rt_signature = replicate 64 6\<rparr>"

definition sample_policy :: root_policy where
  "sample_policy = \<lparr>rp_image_family = replicate 16 5, rp_minimum_security_version = 2,
     rp_image_size = 0x10000, rp_max_directory_size = 0x10000,
     rp_keys = [key_ed25519 0 (replicate 32 8), key_ed25519 1 (replicate 32 6)]\<rparr>"

definition sample_sig_algs :: signature_algs where
  "sample_sig_algs = \<lparr>sa_ed25519 = Some (\<lambda>k m s. Some (s = k @ k)), sa_ecdsa_p256 = None\<rparr>"

lemma sample_bd_sound: "bd_sound sample_bd 0x10000" "bd_validate sample_bd U64_MAX = Ok ()"
  by (simp_all add: sample_bd_def bd_sound_def bd_validate_eq_Ok)

lemma wf_sample_root: "wf_root sample_root"
  using sample_bd_sound(2)
  by (auto simp: wf_root_def sample_root_def wf_bd_def wf_dr_def dr_validate_eq_Ok)
    (simp_all add: sample_bd_def)

theorem root_roundtrip_witness: "root_parse (root_encode sample_root) = Ok sample_root"
  using root_roundtrip [of sample_root "root_encode sample_root"] wf_sample_root by blast

theorem authenticate_root_accepts_iff_witness:
  "authenticate_root sample_sig_algs sample_policy (root_encode sample_root) = Ok sample_root"
  unfolding authenticate_root_accepts_iff
  using wf_sample_root sample_bd_sound(1)
  by (auto simp: sample_root_def sample_policy_def sample_sig_algs_def key_ed25519_def
      simp flip: replicate_add)

theorem authenticated_fields_signed_witness:
  "sample_root = sample_root\<lparr>rt_signature := drop 448 (root_encode sample_root)\<rparr>"
proof -
  have "authenticate_root sample_sig_algs sample_policy (root_encode sample_root) = Ok sample_root"
    unfolding authenticate_root_eq_Ok root_parse_encode [OF wf_sample_root]
    using sample_bd_sound(1)
    by (auto simp: sample_root_def sample_policy_def sample_sig_algs_def key_ed25519_def
        dr_validate_eq_Ok simp flip: replicate_add)
  from authenticated_fields_signed [OF this this refl] show ?thesis .
qed

end
