(* ===== verification/Lz4.thy ===== *)
theory Lz4
  imports Prelude
begin

text \<open>
  The LZ4 block decompressor (\<^verbatim>\<open>crates/ffs/src/lz4.rs\<close>). The destination buffer is a
  byte list that every copy routine updates as the code does, chunk by chunk, the
  overshoot of the wild copies included. An out-of-range index, and an overlapping or
  out-of-range \<open>copy_nonoverlapping\<close> in the \<open>unsafe\<close> block, is the outcome \<open>Panic\<close>.

  The reference is the block format itself: a block is a list of sequences (literals,
  offset, match length) and final literals, \<open>lz4_block\<close> is its byte form and \<open>expand\<close>
  the bytes it stands for, byte by byte.
\<close>

section \<open>Constants\<close>

definition MIN_MATCH :: nat where "MIN_MATCH = 4"
definition LAST_LITERALS :: nat where "LAST_LITERALS = 5"
definition WILD_COPY_LEN :: nat where "WILD_COPY_LEN = 8"
definition MFLIMIT :: nat where "MFLIMIT = WILD_COPY_LEN + MIN_MATCH"
definition ML_BITS :: nat where "ML_BITS = 4"
definition ML_MASK :: nat where "ML_MASK = 2 ^ ML_BITS - 1"
definition RUN_MASK :: nat where "RUN_MASK = 2 ^ (8 - ML_BITS) - 1"

lemmas lz4_consts = MIN_MATCH_def LAST_LITERALS_def WILD_COPY_LEN_def MFLIMIT_def ML_BITS_def
  ML_MASK_def RUN_MASK_def

datatype lz4_error = Overrun | BadOffset

section \<open>Copy routines\<close>

definition copy_within :: "bytes \<Rightarrow> nat \<Rightarrow> bytes \<Rightarrow> nat \<Rightarrow> nat \<Rightarrow> (lz4_error, bytes) result" where
  "copy_within src si dst di len =
     (if di + len \<le> length dst \<and> si + len \<le> length src
      then Ok (write_at dst di (sub src si len)) else Panic)"

function wild_copy_chunks :: "bytes \<Rightarrow> nat \<Rightarrow> bytes \<Rightarrow> nat \<Rightarrow> nat \<Rightarrow> bytes \<times> nat \<times> nat" where
  "wild_copy_chunks src s dst d dst_end =
     (if d + 8 \<le> length dst \<and> s + 8 \<le> length src \<and> d < dst_end
      then wild_copy_chunks src (s + 8) (write_at dst d (sub src s 8)) (d + 8) dst_end
      else (dst, s, d))"
  by pat_completeness auto
termination
  by (relation "measure (\<lambda>(src, s, dst, d, dst_end). dst_end - d)") auto

function wild_copy_tail :: "bytes \<Rightarrow> nat \<Rightarrow> bytes \<Rightarrow> nat \<Rightarrow> nat \<Rightarrow> bytes" where
  "wild_copy_tail src s dst d dst_end =
     (if d < dst_end \<and> d < length dst \<and> s < length src
      then wild_copy_tail src (s + 1) (dst[d := src ! s]) (d + 1) dst_end
      else dst)"
  by pat_completeness auto
termination
  by (relation "measure (\<lambda>(src, s, dst, d, dst_end). dst_end - d)") auto

definition wild_copy :: "bytes \<Rightarrow> nat \<Rightarrow> bytes \<Rightarrow> nat \<Rightarrow> nat \<Rightarrow> bytes" where
  "wild_copy src si dst di dst_end =
     (case wild_copy_chunks src si dst di dst_end of
        (dst, s, d) \<Rightarrow> wild_copy_tail src s dst d dst_end)"

function match_chunks :: "bytes \<Rightarrow> nat \<Rightarrow> nat \<Rightarrow> nat \<Rightarrow> (lz4_error, bytes \<times> nat \<times> nat) result" where
  "match_chunks buf s d dst_end =
     (if d + 8 \<le> dst_end \<and> s + 8 \<le> length buf
      then if (s + 8 \<le> d \<or> d + 8 \<le> s) \<and> d + 8 \<le> length buf
           then match_chunks (write_at buf d (sub buf s 8)) (s + 8) (d + 8) dst_end
           else Panic
      else Ok (buf, s, d))"
  by pat_completeness auto
termination
  by (relation "measure (\<lambda>(buf, s, d, dst_end). dst_end - d)") auto

function match_bytes :: "bytes \<Rightarrow> nat \<Rightarrow> nat \<Rightarrow> nat \<Rightarrow> (lz4_error, bytes) result" where
  "match_bytes buf s d dst_end =
     (if d < dst_end
      then if d < length buf \<and> s < length buf
           then match_bytes (buf[d := buf ! s]) (s + 1) (d + 1) dst_end
           else Panic
      else Ok buf)"
  by pat_completeness auto
termination
  by (relation "measure (\<lambda>(buf, s, d, dst_end). dst_end - d)") auto

definition wild_copy_within :: "bytes \<Rightarrow> nat \<Rightarrow> nat \<Rightarrow> nat \<Rightarrow> (lz4_error, bytes) result" where
  "wild_copy_within buf src dst dst_end =
     rbind (match_chunks buf src dst dst_end) (\<lambda>(buf, s, d). match_bytes buf s d dst_end)"

function match_wrapped ::
  "bytes \<Rightarrow> nat \<Rightarrow> nat \<Rightarrow> nat \<Rightarrow> nat \<Rightarrow> nat \<Rightarrow> (lz4_error, bytes) result" where
  "match_wrapped buf s d e match_pos offset =
     (if d < e
      then if d < length buf \<and> s < length buf
           then match_wrapped (buf[d := buf ! s])
                  (if s + 1 \<ge> match_pos + offset then match_pos else s + 1)
                  (d + 1) e match_pos offset
           else Panic
      else Ok buf)"
  by pat_completeness auto
termination
  by (relation "measure (\<lambda>(buf, s, d, e, match_pos, offset). e - d)") auto

definition copy_match_short :: "bytes \<Rightarrow> nat \<Rightarrow> nat \<Rightarrow> nat \<Rightarrow> nat \<Rightarrow> (lz4_error, bytes) result" where
  "copy_match_short buf op match_pos offset len =
     match_wrapped buf match_pos op (op + len) match_pos offset"

definition copy_match_careful :: "bytes \<Rightarrow> nat \<Rightarrow> nat \<Rightarrow> nat \<Rightarrow> (lz4_error, bytes) result" where
  "copy_match_careful buf op match_pos len = match_bytes buf match_pos op (op + len)"

section \<open>The decompressor\<close>

text \<open>
  The loop that adds length bytes until one differs from 255; it fails once the read
  position reaches \<open>lim\<close>. Literal and match lengths differ in that limit.
\<close>

function read_ext :: "bytes \<Rightarrow> nat \<Rightarrow> nat \<Rightarrow> nat \<Rightarrow> (lz4_error, nat \<times> nat) result" where
  "read_ext src lim ip len =
     (if ip \<ge> lim then Err Overrun
      else if ip \<ge> length src then Panic
      else let s = unat (src ! ip)
           in if s \<noteq> 255 then Ok (ip + 1, len + s) else read_ext src lim (ip + 1) (len + s))"
  by pat_completeness auto
termination
  by (relation "measure (\<lambda>(src, lim, ip, len). length src - ip)") auto

definition read_lit_len :: "bytes \<Rightarrow> nat \<Rightarrow> u8 \<Rightarrow> (lz4_error, nat \<times> nat) result" where
  "read_lit_len src ip token =
     (let lit_len = unat (drop_bit ML_BITS token)
      in if lit_len = RUN_MASK then read_ext src (length src - RUN_MASK) ip lit_len
         else Ok (ip, lit_len))"

definition read_match_len :: "bytes \<Rightarrow> nat \<Rightarrow> u8 \<Rightarrow> (lz4_error, nat \<times> nat) result" where
  "read_match_len src ip token =
     (let match_len = unat (and token (word_of_nat ML_MASK))
      in if match_len = ML_MASK then read_ext src (length src - LAST_LITERALS + 1) ip match_len
         else Ok (ip, match_len))"

definition copy_match :: "bytes \<Rightarrow> nat \<Rightarrow> nat \<Rightarrow> nat \<Rightarrow> nat \<Rightarrow> (lz4_error, bytes) result" where
  "copy_match dst op match_pos offset match_len =
     (if offset < 8 then copy_match_short dst op match_pos offset match_len
      else if op + match_len > length dst - (WILD_COPY_LEN + LAST_LITERALS - 1)
      then copy_match_careful dst op match_pos match_len
      else wild_copy_within dst match_pos op (op + match_len))"

text \<open>
  One iteration of the loop: \<open>Inl\<close> leaves it with the buffer and the number of bytes
  written, \<open>Inr\<close> continues with the updated buffer and positions.
\<close>

definition decompress_step ::
  "bytes \<Rightarrow> bytes \<Rightarrow> nat \<Rightarrow> nat \<Rightarrow> (lz4_error, bytes \<times> nat + bytes \<times> nat \<times> nat) result" where
  "decompress_step src dst ip op =
     (if ip \<ge> length src then Err Overrun
      else let token = src ! ip in
        rbind (read_lit_len src (ip + 1) token) (\<lambda>(ip, lit_len).
          let cpy = op + lit_len in
          if cpy > length dst - MFLIMIT \<or> ip + lit_len > length src - (2 + 1 + LAST_LITERALS)
          then if cpy > length dst then Err Overrun
               else if ip + lit_len \<noteq> length src then Err Overrun
               else rbind (copy_within src ip dst op lit_len) (\<lambda>dst. Ok (Inl (dst, op + lit_len)))
          else let dst = wild_copy src ip dst op cpy; ip = ip + lit_len; op = cpy in
            if ip + 1 \<ge> length src then Err Overrun
            else let offset = unat (src ! ip) + 256 * unat (src ! (ip + 1)); ip = ip + 2 in
              if offset = 0 \<or> offset > op then Err BadOffset
              else rbind (read_match_len src ip token) (\<lambda>(ip, match_len).
                let match_len = match_len + MIN_MATCH; copy_end = op + match_len in
                if copy_end > length dst then Err Overrun
                else rbind (copy_match dst op (op - offset) offset match_len) (\<lambda>dst.
                  Ok (Inr (dst, ip, copy_end))))))"

lemma read_ext_progress: "read_ext src lim ip len = Ok (ip', len') \<Longrightarrow> ip < ip'"
proof (induction src lim ip len rule: read_ext.induct)
  case (1 src lim ip len)
  then show ?case
    by (subst (asm) (2) read_ext.simps) (fastforce simp: Let_def split: if_splits)
qed

declare read_ext.simps [simp del] wild_copy_chunks.simps [simp del] wild_copy_tail.simps [simp del]
  match_chunks.simps [simp del] match_bytes.simps [simp del] match_wrapped.simps [simp del]

lemma read_lit_len_progress: "read_lit_len src ip token = Ok (ip', n) \<Longrightarrow> ip \<le> ip'"
  by (auto simp: read_lit_len_def Let_def dest: read_ext_progress split: if_splits)

lemma read_match_len_progress: "read_match_len src ip token = Ok (ip', n) \<Longrightarrow> ip \<le> ip'"
  by (auto simp: read_match_len_def Let_def dest: read_ext_progress split: if_splits)

lemma decompress_step_progress:
  "decompress_step src dst ip op = Ok (Inr (dst', ip', op')) \<Longrightarrow> ip < ip' \<and> ip < length src"
  by (fastforce simp: decompress_step_def Let_def dest: read_lit_len_progress read_match_len_progress
      split: if_splits)

function decompress_loop ::
  "bytes \<Rightarrow> bytes \<Rightarrow> nat \<Rightarrow> nat \<Rightarrow> (lz4_error, bytes \<times> nat) result" where
  "decompress_loop src dst ip op =
     (case decompress_step src dst ip op of
        Ok (Inl r) \<Rightarrow> Ok r
      | Ok (Inr (dst', ip', op')) \<Rightarrow> decompress_loop src dst' ip' op'
      | Err e \<Rightarrow> Err e
      | Panic \<Rightarrow> Panic)"
  by pat_completeness auto
termination
  by (relation "measure (\<lambda>(src, dst, ip, op). length src - ip)")
    (auto dest!: decompress_step_progress)

declare decompress_loop.simps [simp del]

definition decompress_block :: "bytes \<Rightarrow> bytes \<Rightarrow> (lz4_error, bytes \<times> nat) result" where
  "decompress_block src dst = decompress_loop src dst 0 0"

text \<open>
  The destination as the call leaves it, also when it fails: a step that returns an error has
  at most copied the literals of its sequence.
\<close>

definition step_leftover :: "bytes \<Rightarrow> bytes \<Rightarrow> nat \<Rightarrow> nat \<Rightarrow> bytes" where
  "step_leftover src dst ip op =
     (if ip \<ge> length src then dst
      else case read_lit_len src (ip + 1) (src ! ip) of
             Ok (ip, lit_len) \<Rightarrow>
               if op + lit_len > length dst - MFLIMIT \<or> ip + lit_len > length src - (2 + 1 + LAST_LITERALS)
               then dst
               else wild_copy src ip dst op (op + lit_len)
           | _ \<Rightarrow> dst)"

function loop_buffer :: "bytes \<Rightarrow> bytes \<Rightarrow> nat \<Rightarrow> nat \<Rightarrow> bytes" where
  "loop_buffer src dst ip op =
     (case decompress_step src dst ip op of
        Ok (Inl (dst', n)) \<Rightarrow> dst'
      | Ok (Inr (dst', ip', op')) \<Rightarrow> loop_buffer src dst' ip' op'
      | _ \<Rightarrow> step_leftover src dst ip op)"
  by pat_completeness auto
termination
  by (relation "measure (\<lambda>(src, dst, ip, op). length src - ip)")
    (auto dest!: decompress_step_progress)

declare loop_buffer.simps [simp del]

definition decompress_buffer :: "bytes \<Rightarrow> bytes \<Rightarrow> bytes" where
  "decompress_buffer src dst = loop_buffer src dst 0 0"

section \<open>Reference: the block format\<close>

datatype lz4_seq = Seq (lits: bytes) (offs: nat) (mlen: nat)

text \<open>A length beyond a nibble: bytes 255 as long as they fit, then the remainder.\<close>

function ext_bytes :: "nat \<Rightarrow> bytes" where
  "ext_bytes k = (if k < 255 then [word_of_nat k] else 255 # ext_bytes (k - 255))"
  by pat_completeness auto
termination
  by (relation "measure id") auto

declare ext_bytes.simps [simp del]

definition len_bytes :: "nat \<Rightarrow> bytes" where
  "len_bytes n = (if n < 15 then [] else ext_bytes (n - 15))"

definition token :: "nat \<Rightarrow> nat \<Rightarrow> u8" where
  "token hi lo = word_of_nat (16 * min hi 15 + min lo 15)"

definition seq_bytes :: "lz4_seq \<Rightarrow> bytes" where
  "seq_bytes q = [token (length (lits q)) (mlen q - 4)] @ len_bytes (length (lits q)) @ lits q @
     [word_of_nat (offs q mod 256), word_of_nat (offs q div 256)] @ len_bytes (mlen q - 4)"

definition last_bytes :: "nat \<Rightarrow> bytes \<Rightarrow> bytes" where
  "last_bytes nib fin = [token (length fin) nib] @ len_bytes (length fin) @ fin"

definition lz4_block :: "lz4_seq list \<Rightarrow> nat \<Rightarrow> bytes \<Rightarrow> bytes" where
  "lz4_block qs nib fin = concat (map seq_bytes qs) @ last_bytes nib fin"

primrec repeat_match :: "nat \<Rightarrow> bytes \<Rightarrow> nat \<Rightarrow> bytes" where
  "repeat_match off out 0 = out"
| "repeat_match off out (Suc n) =
     (let r = repeat_match off out n in r @ [r ! (length r - off)])"

text \<open>Each match refers back into what was produced before it; its length is at least 4.\<close>

definition seq_ok :: "bytes \<Rightarrow> lz4_seq \<Rightarrow> bool" where
  "seq_ok out q \<longleftrightarrow> 1 \<le> offs q \<and> offs q < 65536 \<and> offs q \<le> length out + length (lits q) \<and> 4 \<le> mlen q"

fun expand :: "bytes \<Rightarrow> lz4_seq list \<Rightarrow> bytes \<Rightarrow> bytes option" where
  "expand out [] fin = Some (out @ fin)"
| "expand out (q # qs) fin =
     (if seq_ok out q then expand (repeat_match (offs q) (out @ lits q) (mlen q)) qs fin else None)"

section \<open>Copies\<close>

lemma take_write_at: "n \<le> i \<Longrightarrow> i \<le> length xs \<Longrightarrow> take n (write_at xs i ys) = take n xs"
  by (simp add: write_at_def min_def)

text \<open>
  \<open>buf'\<close> agrees with \<open>buf0\<close> below \<open>op\<close>, and from there up to \<open>e\<close> every byte repeats
  the byte \<open>off\<close> positions before it.
\<close>

definition copied :: "nat \<Rightarrow> nat \<Rightarrow> nat \<Rightarrow> bytes \<Rightarrow> bytes \<Rightarrow> bool" where
  "copied off op e buf0 buf \<longleftrightarrow> length buf = length buf0 \<and> take op buf = take op buf0 \<and>
     (\<forall>i. op \<le> i \<and> i < e \<longrightarrow> buf ! i = buf ! (i - off))"

lemma length_repeat_match [simp]: "length (repeat_match off out n) = length out + n"
  by (induction n) (auto simp: Let_def)

lemma copied_take:
  assumes "copied off op (op + n) buf0 buf" and "0 < off" "off \<le> op" "op + n \<le> length buf0"
  shows "take (op + n) buf = repeat_match off (take op buf0) n"
  using assms
proof (induction n)
  case 0
  then show ?case by (simp add: copied_def)
next
  case (Suc n)
  have "copied off op (op + n) buf0 buf"
    using Suc.prems(1) by (simp add: copied_def)
  then have IH: "take (op + n) buf = repeat_match off (take op buf0) n"
    using Suc.IH Suc.prems by simp
  have "take (op + Suc n) buf = take (op + n) buf @ [buf ! (op + n)]"
    using Suc.prems by (simp add: take_Suc_conv_app_nth copied_def)
  moreover have "buf ! (op + n) = take (op + n) buf ! (op + n - off)"
    using Suc.prems by (simp add: copied_def)
  ultimately show ?case
    using Suc.prems by (simp add: IH Let_def copied_def min_def)
qed

lemma copied_start: "copied off op op buf buf"
  by (auto simp: copied_def)

lemma copied_update:
  assumes "copied off op d buf0 buf" and "0 < off" "off \<le> op" "op \<le> d" "d < length buf0"
    and v: "v = buf ! (d - off)"
  shows "copied off op (Suc d) buf0 (buf[d := v])"
proof -
  have "buf[d := v] ! i = buf[d := v] ! (i - off)" if i: "op \<le> i" "i < Suc d" for i
  proof (cases "i = d")
    case True
    then show ?thesis using assms i by (simp add: copied_def)
  next
    case False
    then have "i - off \<noteq> d" "buf ! i = buf ! (i - off)"
      using assms i by (auto simp: copied_def)
    with False show ?thesis by simp
  qed
  then show ?thesis
    using assms(1,4,5) unfolding copied_def by simp
qed

lemma match_bytes_copied:
  assumes "copied off op d buf0 buf" and "0 < off" "off \<le> op" "op \<le> d" "s = d - off" "e \<le> length buf0"
  shows "\<exists>buf'. match_bytes buf s d e = Ok buf' \<and> copied off op e buf0 buf'"
  using assms
proof (induction buf s d e rule: match_bytes.induct)
  case (1 buf s d e)
  show ?case
  proof (cases "d < e")
    case True
    with "1.prems" have r: "d < length buf" "s < length buf"
      by (auto simp: copied_def)
    moreover have "copied off op (d + 1) buf0 (buf[d := buf ! s])"
      using "1.prems" r copied_update [of off op d buf0 buf] by (simp add: copied_def)
    ultimately show ?thesis
      using True "1.prems" "1.IH" by (subst match_bytes.simps) (simp add: Suc_diff_le)
  next
    case False
    with "1.prems" show ?thesis
      by (subst match_bytes.simps) (auto simp: copied_def)
  qed
qed

lemma match_chunks_copied:
  assumes "copied off op d buf0 buf" and "8 \<le> off" "off \<le> op" "op \<le> d" "s = d - off"
    "d \<le> e" "e \<le> length buf0"
  shows "\<exists>buf' d'. match_chunks buf s d e = Ok (buf', d' - off, d') \<and> copied off op d' buf0 buf' \<and>
    op \<le> d' \<and> d' \<le> e"
  using assms
proof (induction buf s d e rule: match_chunks.induct)
  case (1 buf s d e)
  show ?case
  proof (cases "d + 8 \<le> e \<and> s + 8 \<le> length buf")
    case True
    with "1.prems" have r: "s + 8 \<le> d" "d + 8 \<le> length buf"
      by (auto simp: copied_def)
    have w: "write_at buf d (sub buf s 8) ! i =
        (if d \<le> i \<and> i < d + 8 then buf ! (i - off) else buf ! i)" if "i < length buf" for i
      using r "1.prems" that by (auto simp: nth_write_at length_sub sub_nth)
    have "write_at buf d (sub buf s 8) ! i = write_at buf d (sub buf s 8) ! (i - off)"
      if i: "op \<le> i" "i < d + 8" for i
    proof -
      have "write_at buf d (sub buf s 8) ! (i - off) = buf ! (i - off)"
        using i r "1.prems"(2,3) by (subst w) auto
      moreover have "write_at buf d (sub buf s 8) ! i = buf ! (i - off)"
        using i r "1.prems"(1) by (subst w) (auto simp: copied_def)
      ultimately show ?thesis by simp
    qed
    moreover have "length (write_at buf d (sub buf s 8)) = length buf"
      using r by (simp add: byte_simps)
    ultimately have "copied off op (d + 8) buf0 (write_at buf d (sub buf s 8))"
      using "1.prems" r by (simp add: copied_def take_write_at)
    then show ?thesis
      using True r "1.prems" "1.IH" by (subst match_chunks.simps) (simp add: algebra_simps)
  next
    case False
    with "1.prems" show ?thesis
      by (subst match_chunks.simps) auto
  qed
qed

lemma wild_copy_within_copied:
  assumes "8 \<le> off" "off \<le> op" "op \<le> e" "e \<le> length buf"
  shows "\<exists>buf'. wild_copy_within buf (op - off) op e = Ok buf' \<and> copied off op e buf buf'"
proof -
  obtain b d where m: "match_chunks buf (op - off) op e = Ok (b, d - off, d)"
    "copied off op d buf b" "op \<le> d" "d \<le> e"
    using match_chunks_copied [OF copied_start assms(1,2) order_refl refl assms(3,4)] by blast
  then have "\<exists>buf'. match_bytes b (d - off) d e = Ok buf' \<and> copied off op e buf buf'"
    using assms by (intro match_bytes_copied) auto
  with m(1) show ?thesis
    by (simp add: wild_copy_within_def)
qed

lemma copied_period:
  assumes "copied off op d buf0 buf" and "0 < off" "off \<le> op" and "op \<le> i" "i < d"
  shows "buf ! i = buf ! (op - off + (i - op) mod off)"
  using assms(4,5)
proof (induction i rule: less_induct)
  case (less i)
  have eq: "buf ! i = buf ! (i - off)"
    using assms(1) less.prems by (simp add: copied_def)
  show ?case
  proof (cases "i - op < off")
    case True
    then show ?thesis
      using eq less.prems assms(3) by simp
  next
    case False
    then have "buf ! (i - off) = buf ! (op - off + (i - off - op) mod off)"
      using less.IH [of "i - off"] less.prems assms(2) by simp
    moreover have "(i - op) mod off = (i - off - op) mod off"
      using False by (metis diff_commute le_mod_geq not_less)
    ultimately show ?thesis
      using eq by simp
  qed
qed

lemma match_wrapped_copied:
  assumes "copied off op d buf0 buf" and "0 < off" "off \<le> op" "op \<le> d"
    "s = op - off + (d - op) mod off" "e \<le> length buf0"
  shows "\<exists>buf'. match_wrapped buf s d e (op - off) off = Ok buf' \<and> copied off op e buf0 buf'"
  using assms
proof (induction "e - d" arbitrary: buf s d)
  case 0
  then show ?case
    by (subst match_wrapped.simps) (auto simp: copied_def)
next
  case (Suc n)
  have md: "(d - op) mod off < off"
    using Suc.prems by simp
  have r: "d < e" "d < length buf" "s < length buf" "s < op"
    using Suc.hyps Suc.prems md by (auto simp: copied_def)
  have "buf ! s = buf ! (d - off)"
  proof (cases "d - op < off")
    case True
    then show ?thesis using Suc.prems by simp
  next
    case False
    then have "buf ! (d - off) = buf ! (op - off + (d - off - op) mod off)"
      using Suc.prems by (intro copied_period) auto
    moreover have "(d - op) mod off = (d - off - op) mod off"
      using False by (metis diff_commute le_mod_geq not_less)
    ultimately show ?thesis
      using Suc.prems by simp
  qed
  then have "copied off op (d + 1) buf0 (buf[d := buf ! s])"
    using Suc.prems r copied_update [of off op d buf0 buf] by (simp add: copied_def)
  moreover have s': "(if s + 1 \<ge> op - off + off then op - off else s + 1) =
      op - off + (d + 1 - op) mod off"
    using Suc.prems md by (auto simp: Suc_diff_le mod_Suc)
  ultimately have "\<exists>buf'. match_wrapped (buf[d := buf ! s])
      (op - off + (d + 1 - op) mod off) (d + 1) e (op - off) off = Ok buf' \<and>
      copied off op e buf0 buf'"
    using Suc.prems Suc.hyps(2) by (intro Suc.hyps(1)) auto
  then show ?case
    using r by (subst match_wrapped.simps) (simp only: s' if_True simp_thms)
qed

text \<open>All three match copies do what the format says, and none goes out of range.\<close>

lemma copy_match_correct:
  assumes "0 < off" "off \<le> op" "op + n \<le> length dst"
  shows "\<exists>dst'. copy_match dst op (op - off) off n = Ok dst' \<and> length dst' = length dst \<and>
    take (op + n) dst' = repeat_match off (take op dst) n"
proof -
  have "\<exists>dst'. copy_match dst op (op - off) off n = Ok dst' \<and> copied off op (op + n) dst dst'"
  proof (cases "off < 8")
    case True
    then show ?thesis
      using match_wrapped_copied [OF copied_start assms(1,2) order_refl _ assms(3)]
      by (simp add: copy_match_def copy_match_short_def)
  next
    case False
    then show ?thesis
      using match_bytes_copied [OF copied_start assms(1,2) order_refl refl assms(3)]
        wild_copy_within_copied [of off op "op + n" dst] assms
      by (simp add: copy_match_def copy_match_careful_def)
  qed
  then show ?thesis
    using copied_take assms by (force simp: copied_def)
qed

lemma take_write_at_end:
  "i + length ys \<le> length xs \<Longrightarrow> take (i + length ys) (write_at xs i ys) = take i xs @ ys"
  by (simp add: write_at_def min_absorb2)

lemma wild_copy_chunks_correct:
  assumes "wild_copy_chunks src s dst d e = (dst', s', d')" and "d \<le> length dst" "s \<le> length src"
  shows "length dst' = length dst \<and> d \<le> d' \<and> d' \<le> length dst \<and> s' = s + (d' - d) \<and>
    s' \<le> length src \<and> take d' dst' = take d dst @ sub src s (d' - d)"
  using assms
proof (induction src s dst d e rule: wild_copy_chunks.induct)
  case (1 src s dst d e)
  show ?case
  proof (cases "d + 8 \<le> length dst \<and> s + 8 \<le> length src \<and> d < e")
    case True
    define w where "w = write_at dst d (sub src s 8)"
    have l: "length (sub src s 8) = 8" "length w = length dst"
      using True by (simp_all add: w_def length_write_at)
    have t: "take (d + 8) w = take d dst @ sub src s 8"
      using True take_write_at_end [of d "sub src s 8" dst] l by (simp add: w_def)
    have "wild_copy_chunks src (s + 8) w (d + 8) e = (dst', s', d')"
      using "1.prems"(1) True by (subst (asm) wild_copy_chunks.simps) (simp add: w_def)
    then have "length dst' = length w \<and> d + 8 \<le> d' \<and> d' \<le> length w \<and> s' = s + 8 + (d' - (d + 8)) \<and>
        s' \<le> length src \<and> take d' dst' = take (d + 8) w @ sub src (s + 8) (d' - (d + 8))"
      using True l unfolding w_def by (intro "1.IH") auto
    moreover have "sub src s 8 @ sub src (s + 8) (d' - (d + 8)) = sub src s (8 + (d' - (d + 8)))"
      by (rule sub_join) simp
    ultimately show ?thesis
      using l t by auto
  next
    case False
    then show ?thesis
      using "1.prems" by (subst (asm) wild_copy_chunks.simps) (auto simp: sub_def)
  qed
qed

lemma wild_copy_tail_correct:
  assumes "e \<le> length dst" "d \<le> e" "s + (e - d) \<le> length src"
  shows "length (wild_copy_tail src s dst d e) = length dst \<and>
    take e (wild_copy_tail src s dst d e) = take d dst @ sub src s (e - d)"
  using assms
proof (induction src s dst d e rule: wild_copy_tail.induct)
  case (1 src s dst d e)
  show ?case
  proof (cases "d < e")
    case True
    then have IH: "length (wild_copy_tail src (s + 1) (dst[d := src ! s]) (d + 1) e) = length dst"
      "take e (wild_copy_tail src (s + 1) (dst[d := src ! s]) (d + 1) e) =
        take (d + 1) (dst[d := src ! s]) @ sub src (s + 1) (e - (d + 1))"
      using "1.IH" "1.prems" by auto
    have sl: "s < length src"
      using True "1.prems" by linarith
    have "take (d + 1) (dst[d := src ! s]) = take d dst @ [src ! s]"
      using True "1.prems" by (simp add: take_Suc_conv_app_nth)
    moreover have "[src ! s] @ sub src (s + 1) (e - (d + 1)) = sub src s (e - d)"
      using True "1.prems" sub_1 [of s src] sub_join [of s 1 "s + 1" src "e - (d + 1)"]
      by (simp add: Suc_diff_Suc)
    ultimately show ?thesis
      using IH True sl "1.prems" by (subst (1 2) wild_copy_tail.simps) simp
  next
    case False
    then show ?thesis
      using "1.prems" by (subst (1 2) wild_copy_tail.simps) (simp add: sub_def)
  qed
qed

lemma wild_copy_correct:
  assumes "op + n \<le> length dst" "ip + n \<le> length src"
  shows "length (wild_copy src ip dst op (op + n)) = length dst \<and>
    take (op + n) (wild_copy src ip dst op (op + n)) = take op dst @ sub src ip n"
proof -
  obtain b s d where c: "wild_copy_chunks src ip dst op (op + n) = (b, s, d)"
    using prod_cases3 by blast
  have h: "length b = length dst" "op \<le> d" "d \<le> length dst" "s = ip + (d - op)"
    "take d b = take op dst @ sub src ip (d - op)"
    using wild_copy_chunks_correct [OF c] assms by auto
  show ?thesis
  proof (cases "d \<le> op + n")
    case True
    then have "length (wild_copy_tail src s b d (op + n)) = length b \<and>
        take (op + n) (wild_copy_tail src s b d (op + n)) = take d b @ sub src s (op + n - d)"
      using assms h by (intro wild_copy_tail_correct) auto
    moreover have "sub src ip (d - op) @ sub src s (op + n - d) = sub src ip (d - op + (op + n - d))"
      using h by (intro sub_join) simp
    ultimately show ?thesis
      using True h by (simp add: wild_copy_def c)
  next
    case False
    then have "wild_copy_tail src s b d (op + n) = b"
      by (subst wild_copy_tail.simps) simp
    moreover have "take (op + n) b = take (op + n) (take d b)"
      using False by simp
    ultimately show ?thesis
      using False h assms by (simp add: wild_copy_def c sub_def min_def)
  qed
qed

section \<open>Lengths\<close>

lemma unat_255: "unat (w :: u8) = 255 \<longleftrightarrow> w = 255"
proof
  assume "unat w = 255"
  then have "unat w = unat (255 :: u8)" by simp
  then show "w = 255" by (rule word_eqI_unat)
qed simp

lemma read_ext_sound:
  assumes "read_ext src lim ip len = Ok (ip', len')"
  shows "ip < ip' \<and> ip' \<le> lim \<and> ip' \<le> length src \<and>
    (\<exists>k. len' = len + k \<and> sub src ip (ip' - ip) = ext_bytes k)"
  using assms
proof (induction src lim ip len rule: read_ext.induct)
  case (1 src lim ip len)
  have g: "ip < lim" "ip < length src"
    using "1.prems" by (auto simp: read_ext.simps [of src lim ip len] split: if_splits)
  show ?case
  proof (cases "unat (src ! ip) = 255")
    case True
    then have "read_ext src lim (ip + 1) (len + 255) = Ok (ip', len')"
      using "1.prems" g by (simp add: read_ext.simps [of src lim ip len])
    then obtain k where k: "ip + 1 < ip'" "ip' \<le> lim" "ip' \<le> length src" "len' = len + 255 + k"
      "sub src (ip + 1) (ip' - (ip + 1)) = ext_bytes k"
      using "1.IH" g True by auto
    have "sub src ip (ip' - ip) = [src ! ip] @ sub src (ip + 1) (ip' - (ip + 1))"
      using k(1) g sub_1 [of ip src] sub_join [of ip 1 "ip + 1" src "ip' - (ip + 1)"]
      by (simp add: Suc_diff_Suc)
    also have "\<dots> = ext_bytes (k + 255)"
      using True k(5) by (simp add: ext_bytes.simps [of "k + 255"] unat_255)
    finally show ?thesis
      using k by (intro conjI exI [of _ "k + 255"]) auto
  next
    case False
    then have "ip' = ip + 1" "len' = len + unat (src ! ip)"
      using "1.prems" g by (auto simp: read_ext.simps [of src lim ip len])
    moreover have "unat (src ! ip) < 255"
      using False unat_8_less [of "src ! ip"] by simp
    ultimately show ?thesis
      using g sub_1 [of ip src] by (auto simp: ext_bytes.simps intro!: exI [of _ "unat (src ! ip)"])
  qed
qed

lemma read_ext_complete:
  assumes "drop ip src = ext_bytes k @ rest" and "ip + length (ext_bytes k) \<le> lim"
  shows "read_ext src lim ip len = Ok (ip + length (ext_bytes k), len + k)"
  using assms
proof (induction k arbitrary: ip len rule: ext_bytes.induct)
  case (1 k)
  have "drop ip src \<noteq> []"
    using "1.prems"(1) by (simp add: ext_bytes.simps [of k])
  then have g: "ip < length src" "src ! ip = hd (drop ip src)"
    by (simp_all add: hd_drop_conv_nth)
  show ?case
  proof (cases "k < 255")
    case True
    then show ?thesis
      using "1.prems" g by (simp add: read_ext.simps [of src] ext_bytes.simps [of k] unat_byte)
  next
    case False
    have d: "drop (ip + 1) src = ext_bytes (k - 255) @ rest"
      using "1.prems"(1) False by (simp add: ext_bytes.simps [of k] drop_Suc flip: tl_drop)
    have "read_ext src lim (ip + 1) (len + 255) =
        Ok (ip + 1 + length (ext_bytes (k - 255)), len + 255 + (k - 255))"
      using "1.prems"(2) False d by (intro "1.IH") (auto simp: ext_bytes.simps [of k])
    then show ?thesis
      using "1.prems" g False by (simp add: read_ext.simps [of src lim ip] ext_bytes.simps [of k])
  qed
qed

lemma read_ext_not_Panic: "lim \<le> length src \<Longrightarrow> read_ext src lim ip len \<noteq> Panic"
  by (induction src lim ip len rule: read_ext.induct)
    (subst read_ext.simps, simp add: Let_def)

lemma unat_hi: "unat (drop_bit 4 (w :: u8)) = unat w div 16"
  by (simp add: drop_bit_eq_div unat_div)

lemma unat_lo: "unat (and (w :: u8) 15) = unat w mod 16"
proof -
  have "and w 15 = take_bit 4 w"
    by (simp add: take_bit_eq_mask mask_eq_exp_minus_1)
  then show ?thesis
    by (simp add: take_bit_eq_mod unat_mod)
qed

lemma token_nibbles:
  "unat (drop_bit 4 (token hi lo)) = min hi 15" "unat (and (token hi lo) 15) = min lo 15"
  unfolding unat_hi unat_lo token_def unat_byte by auto

lemma token_of_nibbles:
  "min hi 15 = unat (drop_bit 4 t) \<Longrightarrow> min lo 15 = unat (and t 15) \<Longrightarrow> token hi lo = t"
  unfolding unat_hi unat_lo token_def by (simp add: word_eqI_unat unat_byte)

lemma read_lit_len_sound:
  assumes "read_lit_len src ip t = Ok (ip', n)" and "ip \<le> length src"
  shows "ip \<le> ip'" "ip' \<le> length src" "sub src ip (ip' - ip) = len_bytes n"
    "min n 15 = unat (drop_bit 4 t)"
  using assms unat_8_less [of t]
  by (auto simp: read_lit_len_def lz4_consts Let_def len_bytes_def sub_def unat_hi
      dest!: read_ext_sound split: if_splits)

lemma read_match_len_sound:
  assumes "read_match_len src ip t = Ok (ip', n)" and "ip \<le> length src"
  shows "ip \<le> ip'" "ip' \<le> length src" "sub src ip (ip' - ip) = len_bytes n"
    "min n 15 = unat (and t 15)"
  using assms
  by (auto simp: read_match_len_def lz4_consts Let_def len_bytes_def sub_def unat_lo
      dest!: read_ext_sound split: if_splits)

lemma read_lit_len_complete:
  assumes "drop ip src = len_bytes n @ rest" "ip \<le> length src" "15 \<le> n \<longrightarrow> 15 \<le> length rest"
    and "unat (drop_bit 4 t) = min n 15"
  shows "read_lit_len src ip t = Ok (ip + length (len_bytes n), n)"
proof (cases "n < 15")
  case True
  then show ?thesis
    using assms by (simp add: read_lit_len_def lz4_consts len_bytes_def)
next
  case False
  have "length src - ip = length (ext_bytes (n - 15)) + length rest"
    using assms(1) False by (metis len_bytes_def length_append length_drop)
  then have "read_ext src (length src - 15) ip 15 = Ok (ip + length (ext_bytes (n - 15)), 15 + (n - 15))"
    using assms False by (intro read_ext_complete [where rest = rest]) (auto simp: len_bytes_def)
  then show ?thesis
    using assms False by (simp add: read_lit_len_def lz4_consts len_bytes_def)
qed

lemma read_match_len_complete:
  assumes "drop ip src = len_bytes n @ rest" "ip \<le> length src" "5 \<le> length rest"
    and "unat (and t 15) = min n 15"
  shows "read_match_len src ip t = Ok (ip + length (len_bytes n), n)"
proof (cases "n < 15")
  case True
  then show ?thesis
    using assms by (simp add: read_match_len_def lz4_consts len_bytes_def)
next
  case False
  have "length src - ip = length (ext_bytes (n - 15)) + length rest"
    using assms(1) False by (metis len_bytes_def length_append length_drop)
  then have "read_ext src (length src - 5 + 1) ip 15 = Ok (ip + length (ext_bytes (n - 15)), 15 + (n - 15))"
    using assms False by (intro read_ext_complete [where rest = rest]) (auto simp: len_bytes_def)
  then show ?thesis
    using assms False by (simp add: read_match_len_def lz4_consts len_bytes_def)
qed

section \<open>One iteration\<close>

lemma decompress_step_InlE:
  assumes "decompress_step src dst ip op = Ok (Inl (dst', n))"
  obtains ip1 L where "ip < length src" "read_lit_len src (ip + 1) (src ! ip) = Ok (ip1, L)"
    "op + L \<le> length dst" "ip1 + L = length src" "n = op + L" "dst' = write_at dst op (sub src ip1 L)"
  using assms by (auto simp: decompress_step_def Let_def copy_within_def split: if_splits)

lemma decompress_step_InrE:
  assumes "decompress_step src dst ip op = Ok (Inr (dst', ip', op'))"
  obtains ip1 L M off where "ip < length src"
    "read_lit_len src (ip + 1) (src ! ip) = Ok (ip1, L)" "op + L \<le> length dst - 12"
    "ip1 + L \<le> length src - 8" "ip1 + L + 1 < length src"
    "off = unat (src ! (ip1 + L)) + 256 * unat (src ! (ip1 + L + 1))" "0 < off" "off \<le> op + L"
    "read_match_len src (ip1 + L + 2) (src ! ip) = Ok (ip', M)" "op' = op + L + (M + 4)"
    "op' \<le> length (wild_copy src ip1 dst op (op + L))"
    "copy_match (wild_copy src ip1 dst op (op + L)) (op + L) (op + L - off) off (M + 4) = Ok dst'"
  using assms by (fastforce simp: decompress_step_def Let_def lz4_consts split: if_splits)

lemma step_Inl_sound:
  assumes "decompress_step src dst ip op = Ok (Inl (dst', n))"
  shows "\<exists>nib fin. nib < 16 \<and> drop ip src = last_bytes nib fin \<and> n = op + length fin \<and>
    n \<le> length dst \<and> length dst' = length dst \<and> take n dst' = take op dst @ fin"
proof (rule decompress_step_InlE [OF assms])
  fix ip1 L
  assume a: "ip < length src" "read_lit_len src (ip + 1) (src ! ip) = Ok (ip1, L)"
    "op + L \<le> length dst" "ip1 + L = length src" "n = op + L" "dst' = write_at dst op (sub src ip1 L)"
  note l = read_lit_len_sound [OF a(2)]
  have li: "ip + 1 \<le> ip1" "sub src (ip + 1) (ip1 - (ip + 1)) = len_bytes L"
    "min L 15 = unat (drop_bit 4 (src ! ip))"
    using l a(1) by auto
  have lf: "length (sub src ip1 L) = L"
    using a(4) by simp
  have "unat (and (src ! ip) 15) < 16"
    by (simp add: unat_lo)
  moreover have "token L (unat (and (src ! ip) 15)) = src ! ip"
    using li calculation by (intro token_of_nibbles) auto
  moreover have "drop ip src = [src ! ip] @ sub src (ip + 1) (ip1 - (ip + 1)) @ sub src ip1 L"
    using a(1,4) li(1) sub_1 [of ip src] drop_split [of ip 1 "ip + 1" src]
      drop_split [of "ip + 1" "ip1 - (ip + 1)" ip1 src] drop_split [of ip1 L "length src" src]
    by simp
  ultimately show ?thesis
    using a lf li take_write_at_end [of op "sub src ip1 L" dst]
    by (intro exI [of _ "unat (and (src ! ip) 15)"] exI [of _ "sub src ip1 L"])
      (simp add: last_bytes_def length_write_at)
qed

lemma offset_bytes:
  "unat (a :: u8) + 256 * unat (b :: u8) = off \<Longrightarrow>
     [word_of_nat (off mod 256), word_of_nat (off div 256)] = [a, b] \<and> off < 65536"
  using unat_8_less [of a] unat_8_less [of b] by auto

lemma step_Inr_sound:
  assumes "decompress_step src dst ip op = Ok (Inr (dst', ip', op'))" and "op \<le> length dst"
  shows "\<exists>q. drop ip src = seq_bytes q @ drop ip' src \<and> ip' \<le> length src \<and> seq_ok (take op dst) q \<and>
    op' \<le> length dst \<and> length dst' = length dst \<and>
    take op' dst' = repeat_match (offs q) (take op dst @ lits q) (mlen q)"
proof (rule decompress_step_InrE [OF assms(1)])
  fix ip1 L M off
  let ?w = "wild_copy src ip1 dst op (op + L)"
  assume a: "ip < length src" "read_lit_len src (ip + 1) (src ! ip) = Ok (ip1, L)"
    "op + L \<le> length dst - 12" "ip1 + L \<le> length src - 8" "ip1 + L + 1 < length src"
    and off: "off = unat (src ! (ip1 + L)) + 256 * unat (src ! (ip1 + L + 1))" "0 < off" "off \<le> op + L"
    and m: "read_match_len src (ip1 + L + 2) (src ! ip) = Ok (ip', M)" "op' = op + L + (M + 4)"
      "op' \<le> length ?w" "copy_match ?w (op + L) (op + L - off) off (M + 4) = Ok dst'"
  have li: "ip + 1 \<le> ip1" "sub src (ip + 1) (ip1 - (ip + 1)) = len_bytes L"
    "min L 15 = unat (drop_bit 4 (src ! ip))"
    using read_lit_len_sound [OF a(2)] a(1) by auto
  have mi: "ip1 + L + 2 \<le> ip'" "ip' \<le> length src" "sub src (ip1 + L + 2) (ip' - (ip1 + L + 2)) = len_bytes M"
    "min M 15 = unat (and (src ! ip) 15)"
    using read_match_len_sound [OF m(1)] a(5) by auto
  have lf: "length (sub src ip1 L) = L"
    using a(5) by simp
  have w: "length ?w = length dst" "take (op + L) ?w = take op dst @ sub src ip1 L"
    using wild_copy_correct [of op L dst ip1 src] a by auto
  obtain d where d: "copy_match ?w (op + L) (op + L - off) off (M + 4) = Ok d"
    "length d = length ?w" "take (op + L + (M + 4)) d = repeat_match off (take (op + L) ?w) (M + 4)"
    using copy_match_correct [of off "op + L" "M + 4" ?w] off m by auto
  have tk: "token L M = src ! ip"
    using li mi by (intro token_of_nibbles)
  have ob: "[word_of_nat (off mod 256), word_of_nat (off div 256)] =
      [src ! (ip1 + L), src ! (ip1 + L + 1)]" "off < 65536"
    using offset_bytes [OF off(1) [symmetric]] by auto
  have "drop ip src = [src ! ip] @ sub src (ip + 1) (ip1 - (ip + 1)) @ sub src ip1 L @
      [src ! (ip1 + L), src ! (ip1 + L + 1)] @ sub src (ip1 + L + 2) (ip' - (ip1 + L + 2)) @ drop ip' src"
    using a(1,5) li(1) mi(1) sub_1 [of ip src] sub_2 [of "ip1 + L" src]
      drop_split [of ip 1 "ip + 1" src] drop_split [of "ip + 1" "ip1 - (ip + 1)" ip1 src]
      drop_split [of ip1 L "ip1 + L" src] drop_split [of "ip1 + L" 2 "ip1 + L + 2" src]
      drop_split [of "ip1 + L + 2" "ip' - (ip1 + L + 2)" ip' src]
    by simp
  then show ?thesis
    using off(2,3) m d w lf tk ob li mi assms(2)
    by (intro exI [of _ "Seq (sub src ip1 L) off (M + 4)"])
      (simp add: seq_bytes_def seq_ok_def)
qed

lemma step_Inl_complete:
  assumes "drop ip src = last_bytes nib fin" and "op + length fin \<le> length dst"
  shows "decompress_step src dst ip op = Ok (Inl (write_at dst op fin, op + length fin))"
proof -
  have ne: "drop ip src \<noteq> []"
    using assms(1) by (simp add: last_bytes_def)
  then have lt: "ip < length src" by simp
  have t: "src ! ip = token (length fin) nib"
    using assms(1) lt by (metis hd_drop_conv_nth last_bytes_def append_Cons list.sel(1))
  have d: "drop (ip + 1) src = len_bytes (length fin) @ fin"
    using assms(1) by (simp add: last_bytes_def drop_Suc flip: tl_drop)
  then have r: "read_lit_len src (ip + 1) (src ! ip) = Ok (ip + 1 + length (len_bytes (length fin)), length fin)"
    using lt by (intro read_lit_len_complete [where rest = fin]) (simp_all add: t token_nibbles)
  have e: "ip + 1 + length (len_bytes (length fin)) + length fin = length src"
    using arg_cong [OF d, of length] lt by simp
  have "sub src (ip + 1 + length (len_bytes (length fin))) (length fin) = fin"
    using arg_cong [OF d, of "drop (length (len_bytes (length fin)))"]
    by (simp add: sub_def add.commute)
  then show ?thesis
    using lt r e assms(2) by (auto simp: decompress_step_def Let_def copy_within_def lz4_consts)
qed

lemma step_Inr_complete:
  assumes src: "drop ip src = seq_bytes q @ rest" and ok: "seq_ok (take op dst) q"
    and op: "op + length (lits q) + 12 \<le> length dst" "op + length (lits q) + mlen q \<le> length dst"
    and rest: "6 \<le> length rest"
  shows "\<exists>dst'. decompress_step src dst ip op =
      Ok (Inr (dst', ip + length (seq_bytes q), op + length (lits q) + mlen q)) \<and>
    length dst' = length dst \<and>
    take (op + length (lits q) + mlen q) dst' = repeat_match (offs q) (take op dst @ lits q) (mlen q)"
proof -
  define L M where "L = length (lits q)" and "M = mlen q - 4"
  define ip1 where "ip1 = ip + 1 + length (len_bytes L)"
  let ?w = "wild_copy src ip1 dst op (op + L)"
  have M: "mlen q = M + 4" "op \<le> length dst"
    using ok op by (auto simp: M_def seq_ok_def)
  have lt: "ip < length src"
    using src by (cases "ip < length src") (auto simp: seq_bytes_def)
  have t: "src ! ip = token L M"
    using src lt by (metis L_def M_def hd_drop_conv_nth seq_bytes_def append_Cons list.sel(1))
  define tail where "tail = [word_of_nat (offs q mod 256), word_of_nat (offs q div 256)] @ len_bytes M @ rest"
  have d1: "drop (ip + 1) src = len_bytes L @ lits q @ tail"
    using src by (simp add: seq_bytes_def drop_Suc L_def M_def tail_def flip: tl_drop)
  have r: "read_lit_len src (ip + 1) (src ! ip) = Ok (ip1, L)"
    unfolding ip1_def using d1 lt
    by (intro read_lit_len_complete [where rest = "lits q @ tail"]) (auto simp: t token_nibbles L_def)
  have d2: "drop ip1 src = lits q @ tail"
    using arg_cong [OF d1, of "drop (length (len_bytes L))"] by (simp add: ip1_def add.commute)
  have d3: "drop (ip1 + L) src = tail"
    using arg_cong [OF d2, of "drop L"] by (simp add: L_def add.commute)
  have len: "length src = ip1 + L + length tail"
    using arg_cong [OF d2, of length] rest by (simp add: L_def tail_def)
  have l: "8 \<le> length tail" "ip1 + L + 1 < length src" "ip1 + L \<le> length src - 8"
    using rest len by (auto simp: tail_def)
  have o: "src ! (ip1 + L) = word_of_nat (offs q mod 256)" "src ! (ip1 + L + 1) = word_of_nat (offs q div 256)"
    using arg_cong [OF d3, of "\<lambda>xs. xs ! 0"] arg_cong [OF d3, of "\<lambda>xs. xs ! 1"] l
    by (auto simp: tail_def)
  have off: "unat (src ! (ip1 + L)) + 256 * unat (src ! (ip1 + L + 1)) = offs q"
    using ok unfolding o unat_byte seq_ok_def by auto
  have d4: "drop (ip1 + L + 2) src = len_bytes M @ rest"
    using arg_cong [OF d3, of "drop 2"] by (simp add: tail_def add.commute)
  have m: "read_match_len src (ip1 + L + 2) (src ! ip) = Ok (ip1 + L + 2 + length (len_bytes M), M)"
    using d4 rest l by (intro read_match_len_complete) (auto simp: t token_nibbles)
  have w: "length ?w = length dst" "take (op + L) ?w = take op dst @ sub src ip1 L"
    using wild_copy_correct [of op L dst ip1 src] op l by (auto simp: L_def)
  have sl: "sub src ip1 L = lits q"
    using d2 by (simp add: sub_def L_def)
  obtain dst' where d: "copy_match ?w (op + L) (op + L - offs q) (offs q) (M + 4) = Ok dst'"
    "length dst' = length ?w" "take (op + L + (M + 4)) dst' = repeat_match (offs q) (take (op + L) ?w) (M + 4)"
    using copy_match_correct [of "offs q" "op + L" "M + 4" ?w] ok op M w by (auto simp: L_def seq_ok_def)
  have ip': "ip1 + L + 2 + length (len_bytes M) = ip + length (seq_bytes q)"
    by (simp add: ip1_def seq_bytes_def L_def M_def)
  have "decompress_step src dst ip op = Ok (Inr (dst', ip1 + L + 2 + length (len_bytes M), op + L + (M + 4)))"
    using lt r l off m d op M w ok
    by (simp add: decompress_step_def Let_def lz4_consts L_def seq_ok_def)
  then have "decompress_step src dst ip op = Ok (Inr (dst', ip + length (seq_bytes q), op + L + (M + 4)))"
    by (simp only: ip')
  then show ?thesis
    using d w M(1) sl by (simp add: L_def)
qed

lemma copy_match_not_Panic:
  assumes "0 < off" "off \<le> op" "op + n \<le> length dst"
  shows "copy_match dst op (op - off) off n \<noteq> Panic"
proof -
  obtain d where "copy_match dst op (op - off) off n = Ok d"
    using copy_match_correct [of off op n dst] assms by blast
  then show ?thesis by simp
qed

lemma read_lit_len_not_Panic: "read_lit_len src i t \<noteq> Panic"
  by (simp add: read_lit_len_def Let_def read_ext_not_Panic lz4_consts)

lemma read_match_len_not_Panic: "src \<noteq> [] \<Longrightarrow> read_match_len src i t \<noteq> Panic"
  by (cases src) (simp_all add: read_match_len_def Let_def read_ext_not_Panic lz4_consts)

lemma step_not_Panic:
  assumes "op \<le> length dst"
  shows "decompress_step src dst ip op \<noteq> Panic"
proof
  assume p: "decompress_step src dst ip op = Panic"
  then have "src \<noteq> []"
    by (auto simp: decompress_step_def)
  note np = read_lit_len_not_Panic read_match_len_not_Panic [OF this]
  obtain ip1 L where l: "read_lit_len src (ip + 1) (src ! ip) = Ok (ip1, L)"
    using p np by (cases "read_lit_len src (ip + 1) (src ! ip)")
      (auto simp: decompress_step_def Let_def split: if_splits)
  show False
  proof (cases "op + L > length dst - 12 \<or> ip1 + L > length src - 8")
    case True
    then show False
      using p l by (auto simp: decompress_step_def Let_def copy_within_def lz4_consts split: if_splits)
  next
    case False
    let ?w = "wild_copy src ip1 dst op (op + L)"
    let ?off = "unat (src ! (ip1 + L)) + 256 * unat (src ! (ip1 + L + 1))"
    obtain ip2 M where m: "read_match_len src (ip1 + L + 2) (src ! ip) = Ok (ip2, M)"
      using p l np False by (cases "read_match_len src (ip1 + L + 2) (src ! ip)")
        (auto simp: decompress_step_def Let_def lz4_consts split: if_splits)
    have c: "?off > 0" "?off \<le> op + L" "op + L + (M + 4) \<le> length ?w"
      "copy_match ?w (op + L) (op + L - ?off) ?off (M + 4) = Panic"
      using p l m False by (auto simp: decompress_step_def Let_def lz4_consts rbind_eq_Panic split: if_splits)
    show False
      using copy_match_not_Panic [OF c(1-3)] c(4) by simp
  qed
qed

section \<open>The whole block\<close>

text \<open>
  The end-of-block rules of the format: when there is a match, at least five literals
  follow the last one and it starts at least twelve bytes before the end.
\<close>

definition end_rules :: "lz4_seq list \<Rightarrow> bytes \<Rightarrow> bool" where
  "end_rules qs fin \<longleftrightarrow> qs \<noteq> [] \<longrightarrow> 5 \<le> length fin \<and> 12 \<le> mlen (last qs) + length fin"

lemma loop_sound:
  "decompress_loop src dst ip op = Ok (dst', n) \<Longrightarrow> op \<le> length dst \<Longrightarrow>
    \<exists>qs nib fin. nib < 16 \<and> drop ip src = lz4_block qs nib fin \<and>
      expand (take op dst) qs fin = Some (take n dst') \<and> n \<le> length dst \<and> length dst' = length dst"
proof (induction src dst ip op rule: decompress_loop.induct)
  case (1 src dst ip op)
  show ?case
  proof (cases "decompress_step src dst ip op")
    case (Ok r)
    show ?thesis
    proof (cases r)
      case (Inl a)
      then have "decompress_step src dst ip op = Ok (Inl (dst', n))"
        using "1.prems"(1) Ok by (simp add: decompress_loop.simps [of src dst ip op])
      from step_Inl_sound [OF this] show ?thesis
        by (metis (no_types, lifting) lz4_block_def append_Nil concat.simps(1) expand.simps(1) list.simps(8))
    next
      case (Inr b)
      then obtain dst1 ip1 op1 where s: "decompress_step src dst ip op = Ok (Inr (dst1, ip1, op1))"
        using Ok by (cases b) auto
      obtain q where q: "drop ip src = seq_bytes q @ drop ip1 src" "seq_ok (take op dst) q"
          "op1 \<le> length dst" "length dst1 = length dst"
          "take op1 dst1 = repeat_match (offs q) (take op dst @ lits q) (mlen q)"
        using step_Inr_sound [OF s "1.prems"(2)] by blast
      have "decompress_loop src dst1 ip1 op1 = Ok (dst', n)"
        using "1.prems"(1) s by (simp add: decompress_loop.simps [of src dst ip op])
      then obtain qs nib fin where r: "nib < 16" "drop ip1 src = lz4_block qs nib fin"
          "expand (take op1 dst1) qs fin = Some (take n dst')" "n \<le> length dst1" "length dst' = length dst1"
        using "1.IH" [OF Ok Inr, of dst1 "(ip1, op1)" ip1 op1] Ok Inr s q(3,4) by auto
      have "drop ip src = lz4_block (q # qs) nib fin"
        using q(1) r(2) by (simp add: lz4_block_def)
      moreover have "expand (take op dst) (q # qs) fin = Some (take n dst')"
        using r(3) q(2,5) by simp
      ultimately show ?thesis
        using r(1,4,5) q(4) by metis
    qed
  qed (use "1.prems"(1) in \<open>simp_all add: decompress_loop.simps [of src dst ip op]\<close>)
qed

lemma expand_end_rules:
  "expand out (q # qs) fin = Some r \<Longrightarrow> end_rules (q # qs) fin \<Longrightarrow> length out + length (lits q) + 12 \<le> length r"
proof (induction qs arbitrary: out q)
  case (Cons q' qs)
  then show ?case
    by (fastforce simp: end_rules_def split: if_splits)
qed (auto simp: end_rules_def split: if_splits)

lemma expand_length: "expand out qs fin = Some r \<Longrightarrow> length out + length fin \<le> length r"
  by (induction out qs fin rule: expand.induct) (fastforce split: if_splits)+

lemma length_last_bytes: "Suc (length fin) \<le> length (last_bytes nib fin)"
  by (simp add: last_bytes_def)

lemma loop_complete:
  assumes "drop ip src = lz4_block qs nib fin" and "expand (take op dst) qs fin = Some out"
    and "end_rules qs fin" and "length out \<le> length dst" and "op \<le> length dst"
  shows "\<exists>dst'. decompress_loop src dst ip op = Ok (dst', length out) \<and>
    length dst' = length dst \<and> take (length out) dst' = out"
  using assms
proof (induction qs arbitrary: dst ip op)
  case Nil
  then have "out = take op dst @ fin" "op + length fin \<le> length dst"
    by auto
  moreover have "decompress_step src dst ip op = Ok (Inl (write_at dst op fin, op + length fin))"
    using Nil calculation by (intro step_Inl_complete) (auto simp: lz4_block_def)
  ultimately show ?case
    using Nil by (auto simp: decompress_loop.simps [of src] take_write_at_end length_write_at)
next
  case (Cons q qs)
  let ?op = "op + length (lits q) + mlen q"
  have q: "seq_ok (take op dst) q"
    and e: "expand (repeat_match (offs q) (take op dst @ lits q) (mlen q)) qs fin = Some out"
    using Cons.prems(2) by (auto split: if_splits)
  have "length (take op dst) + length (lits q) + 12 \<le> length out"
    by (rule expand_end_rules [OF Cons.prems(2,3)])
  then have fit: "op + length (lits q) + 12 \<le> length dst" "?op \<le> length dst"
    using Cons.prems(4,5) expand_length [OF e] by auto
  have er: "end_rules qs fin" "5 \<le> length fin"
    using Cons.prems(3) by (auto simp: end_rules_def split: if_splits)
  then have "6 \<le> length (lz4_block qs nib fin)"
    using length_last_bytes [of fin nib] by (simp add: lz4_block_def)
  then obtain dst1 where s: "decompress_step src dst ip op = Ok (Inr (dst1, ip + length (seq_bytes q), ?op))"
      "length dst1 = length dst" "take ?op dst1 = repeat_match (offs q) (take op dst @ lits q) (mlen q)"
    using step_Inr_complete [OF _ q fit, of ip src "lz4_block qs nib fin"] Cons.prems(1)
    by (auto simp: lz4_block_def)
  have "drop (ip + length (seq_bytes q)) src = lz4_block qs nib fin"
    using arg_cong [OF Cons.prems(1), of "drop (length (seq_bytes q))"]
    by (simp add: lz4_block_def add.commute)
  then have "\<exists>dst'. decompress_loop src dst1 (ip + length (seq_bytes q)) ?op = Ok (dst', length out) \<and>
      length dst' = length dst1 \<and> take (length out) dst' = out"
    using Cons.IH [of "ip + length (seq_bytes q)" ?op dst1] e er s Cons.prems(4) fit by simp
  then show ?case
    using s by (simp add: decompress_loop.simps [of src dst ip op])
qed

lemma loop_not_Panic: "op \<le> length dst \<Longrightarrow> decompress_loop src dst ip op \<noteq> Panic"
proof (induction src dst ip op rule: decompress_loop.induct)
  case (1 src dst ip op)
  have "decompress_loop src dst' ip' op' \<noteq> Panic"
    if "decompress_step src dst ip op = Ok (Inr (dst', ip', op'))" for dst' ip' op'
    using "1.IH" [OF that refl refl refl] step_Inr_sound [OF that "1.prems"] by auto
  then show ?case
    using step_not_Panic [OF "1.prems"]
    by (auto simp: decompress_loop.simps [of src dst ip op] split: result.splits sum.splits)
qed

lemma length_wild_copy: "length (wild_copy src ip dst op e) = length dst"
proof -
  have c: "length (fst (wild_copy_chunks src s d i e)) = length d" for s d i
    by (induction src s d i e rule: wild_copy_chunks.induct)
      (subst wild_copy_chunks.simps, auto simp: length_write_at)
  have t: "length (wild_copy_tail src s d i e) = length d" for s d i
    by (induction src s d i e rule: wild_copy_tail.induct) (subst wild_copy_tail.simps, auto)
  show ?thesis
    using c [of ip dst op] t by (auto simp: wild_copy_def split: prod.splits)
qed

lemma loop_buffer_eq: "decompress_loop src dst ip op = Ok (dst', n) \<Longrightarrow> loop_buffer src dst ip op = dst'"
proof (induction src dst ip op rule: decompress_loop.induct)
  case (1 src dst ip op)
  then show ?case
    by (auto simp: decompress_loop.simps [of src dst ip op] loop_buffer.simps [of src dst ip op]
        split: result.splits sum.splits)
qed

text \<open>What the destination held before does not matter.\<close>

lemma step_Inl_independent:
  assumes "decompress_step src dst ip op = Ok (Inl (out, n))" "length dst2 = length dst" "take op dst2 = take op dst"
  shows "\<exists>out2. decompress_step src dst2 ip op = Ok (Inl (out2, n)) \<and> length out2 = length dst \<and> take n out2 = take n out"
proof (rule decompress_step_InlE [OF assms(1)])
  fix ip1 L
  assume a: "ip < length src" "read_lit_len src (ip + 1) (src ! ip) = Ok (ip1, L)"
    "op + L \<le> length dst" "ip1 + L = length src" "n = op + L" "out = write_at dst op (sub src ip1 L)"
  have "op + L > length dst - MFLIMIT \<or> ip1 + L > length src - (2 + 1 + LAST_LITERALS)"
    using a(1,4) by (auto simp: lz4_consts)
  then have "decompress_step src dst2 ip op = Ok (Inl (write_at dst2 op (sub src ip1 L), n))"
    using a assms(2) by (simp add: decompress_step_def Let_def copy_within_def)
  moreover have l: "length (sub src ip1 L) = L"
    using a(4) by simp
  ultimately show ?thesis
    using a(3,5,6) assms(2,3) take_write_at_end [of op "sub src ip1 L" dst2] take_write_at_end [of op "sub src ip1 L" dst]
    by (simp add: length_write_at)
qed

lemma step_Inr_independent:
  assumes "decompress_step src dst ip op = Ok (Inr (out, ip', op'))" "length dst2 = length dst" "take op dst2 = take op dst"
  shows "\<exists>out2. decompress_step src dst2 ip op = Ok (Inr (out2, ip', op')) \<and> length out2 = length out \<and>
    take op' out2 = take op' out \<and> length out = length dst"
proof (rule decompress_step_InrE [OF assms(1)])
  fix ip1 L M off
  let ?w = "\<lambda>d. wild_copy src ip1 d op (op + L)"
  assume a: "ip < length src" "read_lit_len src (ip + 1) (src ! ip) = Ok (ip1, L)" "op + L \<le> length dst - 12"
    "ip1 + L \<le> length src - 8" "ip1 + L + 1 < length src"
    "off = unat (src ! (ip1 + L)) + 256 * unat (src ! (ip1 + L + 1))" "0 < off" "off \<le> op + L"
    "read_match_len src (ip1 + L + 2) (src ! ip) = Ok (ip', M)" "op' = op + L + (M + 4)"
    "op' \<le> length (?w dst)" "copy_match (?w dst) (op + L) (op + L - off) off (M + 4) = Ok out"
  have w: "length (?w d) = length dst" "take (op + L) (?w d) = take op d @ sub src ip1 L" if "length d = length dst" for d
    using wild_copy_correct [of op L d ip1 src] a(3,5) that by auto
  have c: "\<exists>e. copy_match (?w d) (op + L) (op + L - off) off (M + 4) = Ok e \<and> length e = length dst \<and>
      take op' e = repeat_match off (take (op + L) (?w d)) (M + 4)" if "length d = length dst" for d
    using copy_match_correct [of off "op + L" "M + 4" "?w d"] a(7,8,10,11) w that assms(2) by simp
  obtain e where e: "copy_match (?w dst2) (op + L) (op + L - off) off (M + 4) = Ok e" "length e = length dst"
      "take op' e = repeat_match off (take (op + L) (?w dst2)) (M + 4)"
    using c [OF assms(2)] by blast
  have "decompress_step src dst2 ip op = Ok (Inr (e, ip', op'))"
    using a(1-11) e(1) w(1) [OF assms(2)] w(1) [OF refl] assms(2) by (simp add: decompress_step_def Let_def lz4_consts)
  then show ?thesis
    using e(2,3) c [OF refl] a(12) w(2) [OF refl] w(2) [OF assms(2)] assms(3) by auto
qed

lemma loop_independent:
  "decompress_loop src dst ip op = Ok (out, n) \<Longrightarrow> length dst2 = length dst \<Longrightarrow> take op dst2 = take op dst \<Longrightarrow>
    \<exists>out2. decompress_loop src dst2 ip op = Ok (out2, n) \<and> length out2 = length dst \<and> take n out2 = take n out"
proof (induction src dst ip op arbitrary: dst2 rule: decompress_loop.induct)
  case (1 src dst ip op)
  show ?case
  proof (cases "decompress_step src dst ip op")
    case (Ok r)
    show ?thesis
    proof (cases r)
      case (Inl x)
      then show ?thesis
        using "1.prems" Ok step_Inl_independent [of src dst ip op out n dst2]
        by (auto simp: decompress_loop.simps [of src dst ip op] decompress_loop.simps [of src dst2 ip op])
    next
      case (Inr x)
      obtain d ip' op' where x: "x = (d, ip', op')"
        by (cases x)
      obtain d2 where d2: "decompress_step src dst2 ip op = Ok (Inr (d2, ip', op'))" "length d2 = length d" "take op' d2 = take op' d"
          "length d = length dst"
        using step_Inr_independent [of src dst ip op d ip' op' dst2] Ok Inr x "1.prems"(2,3) by auto
      have "decompress_loop src d ip' op' = Ok (out, n)"
        using "1.prems"(1) Ok Inr x by (simp add: decompress_loop.simps [of src dst ip op])
      then have "\<exists>out2. decompress_loop src d2 ip' op' = Ok (out2, n) \<and> length out2 = length d \<and> take n out2 = take n out"
        using "1.IH" [OF Ok Inr x [symmetric] refl _ d2(2,3)] by simp
      then show ?thesis
        using d2 by (simp add: decompress_loop.simps [of src dst2 ip op])
    qed
  qed (use "1.prems" in \<open>simp_all add: decompress_loop.simps [of src dst ip op]\<close>)
qed

lemma length_loop_buffer: "op \<le> length dst \<Longrightarrow> length (loop_buffer src dst ip op) = length dst"
proof (induction src dst ip op rule: loop_buffer.induct)
  case (1 src dst ip op)
  have "length (loop_buffer src dst' ip' op') = length dst" if "decompress_step src dst ip op = Ok (Inr (dst', ip', op'))"
    for dst' ip' op'
    using "1.IH" [OF that refl refl refl] step_Inr_sound [OF that "1.prems"] by auto
  moreover have "length (step_leftover src dst ip op) = length dst"
    by (auto simp: step_leftover_def length_wild_copy split: result.split)
  ultimately show ?case
    by (auto simp: loop_buffer.simps [of src dst ip op] split: result.split sum.split dest!: step_Inl_sound)
qed

text \<open>
  A length is at most 15 plus 255 for each byte it was read from, so on a target with a
  64-bit \<open>usize\<close> the sums of the decompressor cannot wrap for a source below \<open>2 ^ 55\<close> bytes.
\<close>

lemma read_ext_bound: "read_ext src lim ip len = Ok (ip', len') \<Longrightarrow> len' \<le> len + 255 * (ip' - ip)"
proof (induction src lim ip len rule: read_ext.induct)
  case (1 src lim ip len)
  then show ?case
    using unat_8_less [of "src ! ip"] read_ext_progress [of src lim "ip + 1" "len + 255" ip' len']
    by (auto simp: read_ext.simps [of src lim ip len] Let_def split: if_splits)
qed

lemma read_lit_len_bound: "read_lit_len src ip t = Ok (ip', n) \<Longrightarrow> n \<le> 15 + 255 * (ip' - ip)"
  using unat_8_less [of t]
  by (auto simp: read_lit_len_def Let_def lz4_consts unat_hi dest!: read_ext_bound split: if_splits)

lemma read_match_len_bound: "read_match_len src ip t = Ok (ip', n) \<Longrightarrow> n \<le> 15 + 255 * (ip' - ip)"
  by (auto simp: read_match_len_def Let_def lz4_consts unat_lo dest!: read_ext_bound split: if_splits)

lemma repeat_match_shift:
  "repeat_match off out (Suc n) = repeat_match off (out @ [out ! (length out - off)]) n"
  by (induction n) (auto simp: Let_def)

section \<open>Properties\<close>

definition sample_block :: bytes where
  "sample_block = [0x34, 1, 2, 3, 3, 0, 0x50, 9, 9, 9, 9, 9]"

lemma length_sample_block: "length sample_block = 12"
  by (simp add: sample_block_def)

lemma sample_block_decompress:
  "decompress_block sample_block (replicate 16 0) = Ok ([1, 2, 3, 1, 2, 3, 1, 2, 3, 1, 2, 9, 9, 9, 9, 9], 16)"
  by code_simp

text \<open>
  C13: Whatever \<open>decompress_block\<close> accepts is an LZ4 block: the source splits into
  sequences and a last run of literals, and the bytes reported as written are exactly
  what the block format says they expand to. The buffer keeps its length and the count
  stays inside it.
\<close>

theorem decompress_block_sound:
  assumes "decompress_block src dst = Ok (dst', n)"
  shows "\<exists>qs nib fin. src = lz4_block qs nib fin \<and> expand [] qs fin = Some (take n dst') \<and>
    n \<le> length dst \<and> length dst' = length dst"
  using loop_sound [of src dst 0 0 dst' n] assms by (fastforce simp: decompress_block_def)

theorem decompress_block_sound_witness:
  "decompress_block sample_block (replicate 16 0) = Ok ([1, 2, 3, 1, 2, 3, 1, 2, 3, 1, 2, 9, 9, 9, 9, 9], 16) \<and>
   (\<exists>qs nib fin. sample_block = lz4_block qs nib fin \<and>
      expand [] qs fin = Some [1, 2, 3, 1, 2, 3, 1, 2, 3, 1, 2, 9, 9, 9, 9, 9])"
proof -
  note e = sample_block_decompress
  with decompress_block_sound [OF e] show ?thesis
    by auto
qed

text \<open>
  C14: Every block in the LZ4 format that keeps the end-of-block rules and whose expansion
  fits the destination is decompressed: the call returns the length of the expansion and
  the buffer begins with it.
\<close>

theorem decompress_block_complete:
  assumes "expand [] qs fin = Some out" and "end_rules qs fin" and "length out \<le> length dst"
  shows "\<exists>dst'. decompress_block (lz4_block qs nib fin) dst = Ok (dst', length out) \<and>
    length dst' = length dst \<and> take (length out) dst' = out"
  using loop_complete [of 0 "lz4_block qs nib fin" qs nib fin 0 dst out] assms
  by (simp add: decompress_block_def)

theorem decompress_block_complete_witness:
  "\<exists>dst'. decompress_block (lz4_block [Seq [1, 2, 3] 3 8] 0 [9, 9, 9, 9, 9]) (replicate 20 0) = Ok (dst', 16) \<and>
    length dst' = 20 \<and> take 16 dst' = [1, 2, 3, 1, 2, 3, 1, 2, 3, 1, 2, 9, 9, 9, 9, 9]"
proof -
  let ?out = "[1, 2, 3, 1, 2, 3, 1, 2, 3, 1, 2, 9, 9, 9, 9, 9] :: bytes"
  have "repeat_match 3 [1, 2, 3] 8 = [1, 2, 3, 1, 2, 3, 1, 2, 3, 1, 2]"
    by (simp add: eval_nat_numeral repeat_match_shift del: repeat_match.simps(2))
  then have "expand [] [Seq [1, 2, 3] 3 8] [9, 9, 9, 9, 9] = Some ?out"
    by (simp add: seq_ok_def)
  moreover have "end_rules [Seq [1, 2, 3] 3 8] [9, 9, 9, 9, 9]"
    by (simp add: end_rules_def)
  ultimately have "\<exists>dst'. decompress_block (lz4_block [Seq [1, 2, 3] 3 8] 0 [9, 9, 9, 9, 9]) (replicate 20 0) =
      Ok (dst', length ?out) \<and> length dst' = length (replicate 20 0 :: bytes) \<and> take (length ?out) dst' = ?out"
    by (rule decompress_block_complete) simp
  moreover have "length ?out = 16"
    by simp
  ultimately show ?thesis
    by (simp only: length_replicate)
qed

end
