(* ===== verification/Lz4_Width.thy ===== *)
theory Lz4_Width
  imports Lz4
begin

text \<open>
  The LZ4 decompressor at the width of a target's \<open>usize\<close> (\<^verbatim>\<open>crates/ffs/src/lz4.rs\<close>). The sums of
  \<open>decompress_block\<close> that depend on lengths read from the source are formed here as the target forms them: a sum above the
  largest \<open>usize\<close>, the parameter \<open>um\<close>, is the outcome \<open>Panic\<close>, as in a build with overflow checks. The result is either that or the
  one of \<open>Lz4\<close>, and for sources of less than about \<open>um / 256\<close> bytes, which is 16 MiB on a 32-bit target, it is always the latter.
\<close>

section \<open>Sums of the target\<close>

definition usize_sum :: "nat \<Rightarrow> nat \<Rightarrow> nat \<Rightarrow> ('e, nat) result" where
  "usize_sum um a b = (case usize_add um a b of None \<Rightarrow> Panic | Some c \<Rightarrow> Ok c)"

lemma usize_sum_eq: "usize_sum um a b = (if a + b \<le> um then Ok (a + b) else Panic)"
  by (simp add: usize_sum_def usize_add_def)

function read_ext_at :: "nat \<Rightarrow> bytes \<Rightarrow> nat \<Rightarrow> nat \<Rightarrow> nat \<Rightarrow> (lz4_error, nat \<times> nat) result" where
  "read_ext_at um src lim ip len =
     (if ip \<ge> lim then Err Overrun
      else if ip \<ge> length src then Panic
      else let s = unat (src ! ip)
           in rbind (usize_sum um len s) (\<lambda>len.
              if s \<noteq> 255 then Ok (ip + 1, len) else read_ext_at um src lim (ip + 1) len))"
  by pat_completeness auto
termination
  by (relation "measure (\<lambda>(um, src, lim, ip, len). length src - ip)") auto

declare read_ext_at.simps [simp del]

definition read_lit_len_at :: "nat \<Rightarrow> bytes \<Rightarrow> nat \<Rightarrow> u8 \<Rightarrow> (lz4_error, nat \<times> nat) result" where
  "read_lit_len_at um src ip tok =
     (let lit_len = unat (drop_bit ML_BITS tok)
      in if lit_len = RUN_MASK then read_ext_at um src (length src - RUN_MASK) ip lit_len
         else Ok (ip, lit_len))"

definition read_match_len_at :: "nat \<Rightarrow> bytes \<Rightarrow> nat \<Rightarrow> u8 \<Rightarrow> (lz4_error, nat \<times> nat) result" where
  "read_match_len_at um src ip tok =
     (let match_len = unat (and tok (word_of_nat ML_MASK))
      in if match_len = ML_MASK then read_ext_at um src (length src - LAST_LITERALS + 1) ip match_len
         else Ok (ip, match_len))"

definition decompress_step_at ::
  "nat \<Rightarrow> bytes \<Rightarrow> bytes \<Rightarrow> nat \<Rightarrow> nat \<Rightarrow> (lz4_error, bytes \<times> nat + bytes \<times> nat \<times> nat) result" where
  "decompress_step_at um src dst ip op =
     (if ip \<ge> length src then Err Overrun
      else let tok = src ! ip in
        rbind (read_lit_len_at um src (ip + 1) tok) (\<lambda>(ip, lit_len).
        rbind (usize_sum um op lit_len) (\<lambda>cpy.
        rbind (if cpy > length dst - MFLIMIT then Ok True
               else rbind (usize_sum um ip lit_len) (\<lambda>e. Ok (e > length src - (2 + 1 + LAST_LITERALS)))) (\<lambda>final.
          if final
          then if cpy > length dst then Err Overrun
               else rbind (usize_sum um ip lit_len) (\<lambda>e.
                    if e \<noteq> length src then Err Overrun
                    else rbind (copy_within src ip dst op lit_len) (\<lambda>dst. Ok (Inl (dst, op + lit_len))))
          else let dst = wild_copy src ip dst op cpy; ip = ip + lit_len; op = cpy in
            if ip + 1 \<ge> length src then Err Overrun
            else let offset = unat (src ! ip) + 256 * unat (src ! (ip + 1)); ip = ip + 2 in
              if offset = 0 \<or> offset > op then Err BadOffset
              else rbind (read_match_len_at um src ip tok) (\<lambda>(ip, match_len).
                   rbind (usize_sum um match_len MIN_MATCH) (\<lambda>match_len.
                   rbind (usize_sum um op match_len) (\<lambda>copy_end.
                     if copy_end > length dst then Err Overrun
                     else rbind (copy_match dst op (op - offset) offset match_len) (\<lambda>dst.
                       Ok (Inr (dst, ip, copy_end))))))))))"

section \<open>Only an overflow makes a difference\<close>

definition narrows :: "('e, 'a) result \<Rightarrow> ('e, 'a) result \<Rightarrow> bool" where
  "narrows f g \<longleftrightarrow> f = Panic \<or> f = g"

lemma narrows_refl [simp]: "narrows f f"
  by (simp add: narrows_def)

lemma narrows_Panic [simp]: "narrows Panic f"
  by (simp add: narrows_def)

lemma narrows_rbind: "narrows f g \<Longrightarrow> (\<And>x. g = Ok x \<Longrightarrow> narrows (h x) (k x)) \<Longrightarrow> narrows (rbind f h) (rbind g k)"
  by (cases g) (auto simp: narrows_def)

lemma narrows_sum: "(a + b \<le> um \<Longrightarrow> narrows (k (a + b)) g) \<Longrightarrow> narrows (rbind (usize_sum um a b) k) g"
  by (simp add: usize_sum_eq)

lemma narrows_if:
  "(c \<Longrightarrow> narrows f g) \<Longrightarrow> (\<not> c \<Longrightarrow> narrows f' g') \<Longrightarrow> narrows (if c then f else f') (if c then g else g')"
  by simp

lemma narrows_prod:
  "(\<And>x y. p = (x, y) \<Longrightarrow> narrows (f x y) (g x y)) \<Longrightarrow> narrows (case p of (x, y) \<Rightarrow> f x y) (case p of (x, y) \<Rightarrow> g x y)"
  by (cases p) simp

lemma narrows_choice:
  "narrows f g \<Longrightarrow> narrows (if True then f else f') g" "narrows f' g \<Longrightarrow> narrows (if False then f else f') g"
  by simp_all

lemma read_ext_at_narrows: "narrows (read_ext_at um src lim ip len) (read_ext src lim ip len)"
proof (induction um src lim ip len rule: read_ext_at.induct)
  case (1 um src lim ip len)
  then show ?case
    by (auto simp: read_ext_at.simps [of um src lim ip len] read_ext.simps [of src lim ip len] usize_sum_eq Let_def)
qed

lemma read_lit_len_at_narrows: "narrows (read_lit_len_at um src ip t) (read_lit_len src ip t)"
  by (simp add: read_lit_len_at_def read_lit_len_def Let_def read_ext_at_narrows)

lemma read_match_len_at_narrows: "narrows (read_match_len_at um src ip t) (read_match_len src ip t)"
  by (simp add: read_match_len_at_def read_match_len_def Let_def read_ext_at_narrows)

lemma narrows_final:
  assumes "a + b \<le> um \<Longrightarrow> c \<or> a + b > n \<Longrightarrow> narrows (k True) g" "c \<Longrightarrow> narrows (k True) g"
    and "a + b \<le> um \<Longrightarrow> \<not> c \<Longrightarrow> \<not> a + b > n \<Longrightarrow> narrows (k False) h"
  shows "narrows (rbind (if c then Ok True else rbind (usize_sum um a b) (\<lambda>e. Ok (e > n))) k) (if c \<or> a + b > n then g else h)"
  using assms by (auto simp: usize_sum_eq narrows_def)

lemma decompress_step_at_narrows: "narrows (decompress_step_at um src dst ip op) (decompress_step src dst ip op)"
  unfolding decompress_step_at_def decompress_step_def Let_def
  by (intro narrows_choice narrows_if narrows_refl narrows_rbind [OF read_lit_len_at_narrows] narrows_prod narrows_sum narrows_final
      narrows_rbind [OF read_match_len_at_narrows])

lemma decompress_step_at_progress:
  "decompress_step_at um src dst ip op = Ok (Inr (dst', ip', op')) \<Longrightarrow> ip < ip' \<and> ip < length src"
  using decompress_step_at_narrows [of um src dst ip op] decompress_step_progress [of src dst ip op dst' ip' op']
  by (simp add: narrows_def)

function decompress_loop_at ::
  "nat \<Rightarrow> bytes \<Rightarrow> bytes \<Rightarrow> nat \<Rightarrow> nat \<Rightarrow> (lz4_error, bytes \<times> nat) result" where
  "decompress_loop_at um src dst ip op =
     (case decompress_step_at um src dst ip op of
        Ok (Inl r) \<Rightarrow> Ok r
      | Ok (Inr (dst', ip', op')) \<Rightarrow> decompress_loop_at um src dst' ip' op'
      | Err e \<Rightarrow> Err e
      | Panic \<Rightarrow> Panic)"
  by pat_completeness auto
termination
  by (relation "measure (\<lambda>(um, src, dst, ip, op). length src - ip)")
    (auto dest!: decompress_step_at_progress)

declare decompress_loop_at.simps [simp del]

definition decompress_block_at :: "nat \<Rightarrow> bytes \<Rightarrow> bytes \<Rightarrow> (lz4_error, bytes \<times> nat) result" where
  "decompress_block_at um src dst = decompress_loop_at um src dst 0 0"

lemma decompress_loop_at_narrows: "narrows (decompress_loop_at um src dst ip op) (decompress_loop src dst ip op)"
proof (induction um src dst ip op rule: decompress_loop_at.induct)
  case (1 um src dst ip op)
  consider "decompress_step_at um src dst ip op = Panic" | "decompress_step_at um src dst ip op = decompress_step src dst ip op"
    using decompress_step_at_narrows [of um src dst ip op] by (auto simp: narrows_def)
  then show ?case
    using "1.IH" by cases (auto simp: decompress_loop_at.simps [of um src dst ip op] decompress_loop.simps [of src dst ip op]
        split: result.splits sum.splits)
qed

section \<open>No overflow on short sources\<close>

lemma read_ext_at_eq:
  "len + 255 * (length src - ip) \<le> um \<Longrightarrow> read_ext_at um src lim ip len = read_ext src lim ip len"
proof (induction um src lim ip len rule: read_ext_at.induct)
  case (1 um src lim ip len)
  show ?case
  proof (cases "ip < lim \<and> ip < length src")
    case True
    have s: "unat (src ! ip) \<le> 255"
      using unat_8_less [of "src ! ip"] by simp
    have "len + 255 + 255 * (length src - Suc ip) \<le> um"
      using "1.prems" True Suc_diff_Suc [of ip "length src"] by linarith
    then show ?thesis
      using "1.IH" True s
      by (auto simp: read_ext_at.simps [of um src lim ip len] read_ext.simps [of src lim ip len] usize_sum_eq Let_def)
  qed (auto simp: read_ext_at.simps [of um src lim ip len] read_ext.simps [of src lim ip len])
qed

lemma read_lens_at_eq:
  assumes "15 + 255 * length src \<le> um"
  shows "read_lit_len_at um src ip t = read_lit_len src ip t" "read_match_len_at um src ip t = read_match_len src ip t"
proof -
  have "15 + 255 * (length src - ip) \<le> um"
    using assms by (auto intro: order_trans [rotated])
  then show "read_lit_len_at um src ip t = read_lit_len src ip t" "read_match_len_at um src ip t = read_match_len src ip t"
    by (auto simp: read_lit_len_at_def read_lit_len_def read_match_len_at_def read_match_len_def Let_def lz4_consts
        intro!: read_ext_at_eq)
qed

lemma read_ext_end: "read_ext src lim ip len = Ok (ip', len') \<Longrightarrow> ip' \<le> length src"
proof (induction src lim ip len rule: read_ext.induct)
  case (1 src lim ip len)
  then show ?case
    by (auto simp: read_ext.simps [of src lim ip len] Let_def split: if_splits)
qed

lemma read_lens_small:
  assumes "ip \<le> length src"
  shows "read_lit_len src ip t = Ok (ip', n) \<Longrightarrow> ip' \<le> length src \<and> n \<le> 15 + 255 * length src"
    "read_match_len src ip t = Ok (ip', n) \<Longrightarrow> ip' \<le> length src \<and> n \<le> 15 + 255 * length src"
proof -
  assume l: "read_lit_len src ip t = Ok (ip', n)"
  then have "ip' \<le> length src"
    using assms by (auto simp: read_lit_len_def Let_def dest: read_ext_end split: if_splits)
  then show "ip' \<le> length src \<and> n \<le> 15 + 255 * length src"
    using read_lit_len_bound [OF l] by linarith
next
  assume l: "read_match_len src ip t = Ok (ip', n)"
  then have "ip' \<le> length src"
    using assms by (auto simp: read_match_len_def Let_def dest: read_ext_end split: if_splits)
  then show "ip' \<le> length src \<and> n \<le> 15 + 255 * length src"
    using read_match_len_bound [OF l] by linarith
qed

lemma decompress_step_at_eq:
  assumes "20 + 256 * length src + length dst \<le> um" "op \<le> length dst"
  shows "decompress_step_at um src dst ip op = decompress_step src dst ip op"
proof (cases "ip < length src")
  case True
  have w: "15 + 255 * length src \<le> um"
    using assms(1) by linarith
  note eqs = read_lens_at_eq [OF w]
  show ?thesis
  proof (cases "read_lit_len src (ip + 1) (src ! ip)")
    case (Ok r)
    obtain ip1 L where r: "r = (ip1, L)"
      by (cases r)
    have L: "ip1 \<le> length src" "L \<le> 15 + 255 * length src"
      using read_lens_small(1) [of "ip + 1" src "src ! ip" ip1 L] True Ok r by auto
    have s1: "op + L \<le> um" "ip1 + L \<le> um"
      using L assms by linarith+
    show ?thesis
    proof (cases "op + L > length dst - MFLIMIT \<or> ip1 + L > length src - (2 + 1 + LAST_LITERALS)")
      case True
      then show ?thesis
        using s1 \<open>ip < length src\<close> Ok r
        by (auto simp: decompress_step_at_def decompress_step_def eqs Let_def usize_sum_eq)
    next
      case False
      then have ip2: "ip1 + L + 2 \<le> length src \<or> ip1 + L + 1 \<ge> length src"
        by linarith
      have M: "match_len + MIN_MATCH \<le> um \<and> op + L + (match_len + MIN_MATCH) \<le> um"
        if "read_match_len src (ip1 + L + 2) (src ! ip) = Ok (ip3, match_len)" "ip1 + L + 2 \<le> length src" for ip3 match_len
        using read_lens_small(2) [OF that(2,1)] False assms(1) by (auto simp: lz4_consts)
      show ?thesis
        using s1 \<open>ip < length src\<close> False ip2 M Ok r
        by (cases "read_match_len src (ip1 + L + 2) (src ! ip)")
          (auto simp: decompress_step_at_def decompress_step_def eqs Let_def usize_sum_eq)
    qed
  qed (use True in \<open>simp_all add: decompress_step_at_def decompress_step_def eqs\<close>)
qed (simp add: decompress_step_at_def decompress_step_def)

lemma decompress_loop_at_eq:
  "20 + 256 * length src + length dst \<le> um \<Longrightarrow> op \<le> length dst \<Longrightarrow>
    decompress_loop_at um src dst ip op = decompress_loop src dst ip op"
proof (induction um src dst ip op rule: decompress_loop_at.induct)
  case (1 um src dst ip op)
  note e = decompress_step_at_eq [OF "1.prems", of ip]
  have "decompress_loop_at um src dst' ip' op' = decompress_loop src dst' ip' op'"
    if "decompress_step src dst ip op = Ok (Inr (dst', ip', op'))" for dst' ip' op'
    using "1.IH" [OF that [folded e] refl refl refl] step_Inr_sound [OF that "1.prems"(2)] "1.prems"(1) by auto
  then show ?case
    by (auto simp: decompress_loop_at.simps [of um src dst ip op] decompress_loop.simps [of src dst ip op] e
        split: result.splits sum.splits)
qed

section \<open>Properties\<close>

text \<open>
  C15: the decompressor is safe at the width of its target. On any source and any destination, with any largest
  \<open>usize\<close>, it ends, and unless a sum of lengths overflows the result is the one of \<open>decompress_block\<close>, which reads and writes
  inside the two slices only, and the destination keeps its length whether decompression
  succeeds or fails. When \<open>20 + 256 * length src + length dst\<close> is a \<open>usize\<close>, as for
  sources below 15 MiB and destinations below 128 MiB on a 32-bit target, no sum overflows and the target does not panic.
\<close>

theorem decompress_block_safe:
  "(decompress_block_at um src dst = decompress_block src dst \<or> decompress_block_at um src dst = Panic) \<and>
   (20 + 256 * length src + length dst \<le> um \<longrightarrow> decompress_block_at um src dst \<noteq> Panic) \<and>
   decompress_block src dst \<noteq> Panic \<and> length (decompress_buffer src dst) = length dst \<and>
   (\<forall>dst' n. decompress_block_at um src dst = Ok (dst', n) \<longrightarrow> dst' = decompress_buffer src dst \<and> n \<le> length dst)"
proof -
  have d: "decompress_block_at um src dst = decompress_block src dst \<or> decompress_block_at um src dst = Panic"
    using decompress_loop_at_narrows [of um src dst 0 0]
    by (auto simp: narrows_def decompress_block_at_def decompress_block_def)
  have "decompress_block_at um src dst = decompress_block src dst" if "20 + 256 * length src + length dst \<le> um"
    using decompress_loop_at_eq [OF that] by (simp add: decompress_block_at_def decompress_block_def)
  moreover have "decompress_block src dst \<noteq> Panic"
    by (simp add: decompress_block_def loop_not_Panic)
  moreover have "dst' = decompress_buffer src dst \<and> n \<le> length dst" if "decompress_block src dst = Ok (dst', n)" for dst' n
    using that loop_buffer_eq [of src dst 0 0 dst' n] loop_sound [of src dst 0 0 dst' n]
    by (auto simp: decompress_block_def decompress_buffer_def)
  ultimately show ?thesis
    using d length_loop_buffer [of 0 dst src 0] by (auto simp: decompress_buffer_def)
qed

theorem decompress_block_safe_witness:
  "decompress_block_at (2 ^ 32 - 1) sample_block (replicate 16 0) \<noteq> Panic \<and>
   decompress_block_at (2 ^ 32 - 1) sample_block (replicate 16 0) =
     Ok ([1, 2, 3, 1, 2, 3, 1, 2, 3, 1, 2, 9, 9, 9, 9, 9], 16)"
  using decompress_block_safe [of "2 ^ 32 - 1" sample_block "replicate 16 0"] sample_block_decompress
  by (auto simp: length_sample_block)

end
