(* ===== verification/Locator.thy ===== *)
theory Locator
  imports Prelude
begin

text \<open>
  The location block of the initial image (\<^verbatim>\<open>crates/core/src/ffs/locator.rs\<close>): its
  forty-byte wire form, the media locator it expands to and the bounds check against
  the capacity of the platform's media window. A \<open>LocatorRef\<close> is the block it holds.
\<close>

section \<open>Blocks\<close>

definition LOCATOR_MAGIC :: bytes where
  "LOCATOR_MAGIC = [0x46, 0x53, 0x54, 0x41, 0x52, 0x54, 0x30, 0x31]"

definition LOCATOR_VERSION :: u32 where "LOCATOR_VERSION = 7"
definition LOCATOR_SIZE :: nat where "LOCATOR_SIZE = 40"

record locator_block =
  lb_magic :: bytes
  lb_version :: u32
  lb_manifest_offset :: u32
  lb_manifest_size :: u32
  lb_total_image_size :: u32
  lb_anchor_offset :: u32
  lb_microcode_offset :: u32
  lb_microcode_size :: u32
  lb_image_offset :: u32

record media_locator =
  ml_image_offset :: u64
  ml_image_size :: u64
  ml_root_offset :: u64
  ml_root_size :: u64
  ml_microcode_offset :: u64
  ml_microcode_size :: u64

definition within :: "u64 \<Rightarrow> u64 \<Rightarrow> u64 \<Rightarrow> bool" where
  "within offset sz limit =
     (case checked_add offset sz of None \<Rightarrow> False | Some end_ \<Rightarrow> end_ \<le> limit)"

definition media_validate :: "media_locator \<Rightarrow> u64 \<Rightarrow> bool" where
  "media_validate m media_capacity \<longleftrightarrow>
     ml_image_size m \<noteq> 0 \<and>
     within (ml_image_offset m) (ml_image_size m) media_capacity \<and>
     ml_root_size m = 512 \<and>
     within (ml_root_offset m) (ml_root_size m) (ml_image_size m) \<and>
     (if ml_microcode_size m = 0 then ml_microcode_offset m = 0
      else ml_microcode_offset m \<noteq> 0 \<and>
           within (ml_microcode_offset m) (ml_microcode_size m) (ml_image_size m))"

definition locator_placeholder :: locator_block where
  "locator_placeholder = \<lparr>lb_magic = LOCATOR_MAGIC, lb_version = LOCATOR_VERSION,
     lb_manifest_offset = 0, lb_manifest_size = 0, lb_total_image_size = 0,
     lb_anchor_offset = 0, lb_microcode_offset = 0, lb_microcode_size = 0,
     lb_image_offset = 0\<rparr>"

text \<open>The \<open>repr(C)\<close> image of the struct: \<open>as_bytes\<close> and \<open>read_from_bytes\<close>.\<close>

definition locator_as_bytes :: "locator_block \<Rightarrow> bytes" where
  "locator_as_bytes l = lb_magic l @ to_le_bytes (lb_version l) @
     to_le_bytes (lb_manifest_offset l) @ to_le_bytes (lb_manifest_size l) @
     to_le_bytes (lb_total_image_size l) @ to_le_bytes (lb_anchor_offset l) @
     to_le_bytes (lb_microcode_offset l) @ to_le_bytes (lb_microcode_size l) @
     to_le_bytes (lb_image_offset l)"

definition locator_from_bytes :: "bytes \<Rightarrow> locator_block option" where
  "locator_from_bytes b =
     (if length b = LOCATOR_SIZE
      then Some \<lparr>lb_magic = sub b 0 8, lb_version = le32 b 8, lb_manifest_offset = le32 b 12,
        lb_manifest_size = le32 b 16, lb_total_image_size = le32 b 20,
        lb_anchor_offset = le32 b 24, lb_microcode_offset = le32 b 28,
        lb_microcode_size = le32 b 32, lb_image_offset = le32 b 36\<rparr>
      else None)"

definition locator_write_to :: "locator_block \<Rightarrow> bytes \<Rightarrow> (unit, bytes) result" where
  "locator_write_to l output =
     (if length output < LOCATOR_SIZE then Panic
      else Ok (write_at output 0 (locator_as_bytes l)))"

definition locator_parse :: "bytes \<Rightarrow> locator_block option" where
  "locator_parse b =
     Option.bind (locator_from_bytes b) (\<lambda>block.
       if lb_magic block = LOCATOR_MAGIC \<and> lb_version block = LOCATOR_VERSION
       then Some block else None)"

definition locator_media :: "locator_block \<Rightarrow> media_locator" where
  "locator_media l = \<lparr>ml_image_offset = ucast (lb_image_offset l),
     ml_image_size = ucast (lb_total_image_size l), ml_root_offset = ucast (lb_manifest_offset l),
     ml_root_size = ucast (lb_manifest_size l), ml_microcode_offset = ucast (lb_microcode_offset l),
     ml_microcode_size = ucast (lb_microcode_size l)\<rparr>"

definition locator_read_volatile :: "bytes \<Rightarrow> locator_block option" where
  "locator_read_volatile data =
     (if length data \<noteq> LOCATOR_SIZE then None
      else locator_parse (map (\<lambda>index. data ! index) [0..<LOCATOR_SIZE]))"

definition wf_locator :: "locator_block \<Rightarrow> bool" where
  "wf_locator l \<longleftrightarrow> lb_magic l = LOCATOR_MAGIC \<and> lb_version l = LOCATOR_VERSION"

section \<open>Lemmas\<close>

lemma within_iff: "within a n lim \<longleftrightarrow> unat a + unat n \<le> unat lim"
proof (cases "unat a + unat n < 2 ^ 64")
  case True
  then show ?thesis
    by (simp add: within_def checked_add_def word_le_nat_alt unat_checked_add)
next
  case False
  then show ?thesis
    using unat_64_less [of lim] by (simp add: within_def checked_add_def)
qed

lemma length_LOCATOR_MAGIC [simp]: "length LOCATOR_MAGIC = 8"
  by (simp add: LOCATOR_MAGIC_def)

lemma locator_parse_as_bytes: "wf_locator l \<Longrightarrow> locator_parse (locator_as_bytes l) = Some l"
  by (cases l) (simp add: wf_locator_def locator_parse_def locator_from_bytes_def
      locator_as_bytes_def LOCATOR_SIZE_def le32_def byte_simps)

lemma locator_parse_eq_SomeD:
  assumes "locator_parse b = Some l"
  shows "length b = 40" "wf_locator l" "lb_magic l = sub b 0 8" "lb_version l = le32 b 8"
    "lb_manifest_offset l = le32 b 12" "lb_manifest_size l = le32 b 16"
    "lb_total_image_size l = le32 b 20" "lb_anchor_offset l = le32 b 24"
    "lb_microcode_offset l = le32 b 28" "lb_microcode_size l = le32 b 32"
    "lb_image_offset l = le32 b 36"
  using assms by (auto simp: locator_parse_def locator_from_bytes_def wf_locator_def
      LOCATOR_SIZE_def split: if_splits bind_splits)

lemma locator_as_bytes_parse:
  assumes "locator_parse b = Some l"
  shows "locator_as_bytes l = b"
proof -
  note p = locator_parse_eq_SomeD [OF assms]
  have "locator_as_bytes l = sub b 0 8 @ sub b 8 4 @ sub b 12 4 @ sub b 16 4 @ sub b 20 4 @
      sub b 24 4 @ sub b 28 4 @ sub b 32 4 @ sub b 36 4"
    using p by (simp add: locator_as_bytes_def byte_simps)
  then show ?thesis
    using p(1) by (simp add: sub_join sub_join_append sub_whole)
qed

interpretation locator_wire: wire_format locator_as_bytes "\<lambda>b. ok_or (locator_parse b) ()" wf_locator
  by unfold_locales (auto simp: locator_parse_as_bytes locator_as_bytes_parse locator_parse_eq_SomeD(2))

lemma length_locator_as_bytes: "length (lb_magic l) = 8 \<Longrightarrow> length (locator_as_bytes l) = 40"
  by (simp add: locator_as_bytes_def)

lemma map_nth_all: "length xs = n \<Longrightarrow> map (\<lambda>i. xs ! i) [0..<n] = xs"
  using map_nth [of xs] by simp

lemma locator_read_volatile_eq_parse: "locator_read_volatile b = locator_parse b"
  by (auto simp: locator_read_volatile_def map_nth_all locator_parse_def locator_from_bytes_def)

lemma unat_ucast_32_64 [simp]: "unat (ucast (w :: u32) :: u64) = unat w"
  by (simp add: unsigned_ucast_eq take_bit_nat_eq_self unat_32_less less_trans [OF unat_32_less])

section \<open>Properties\<close>

text \<open>
  C34: A locator written into an output buffer is read back unchanged by both readers,
  whatever the buffer held before and after it; a buffer shorter than the block is the
  only case in which writing panics.
\<close>

theorem locator_write_read:
  assumes "wf_locator l"
  shows "(length out < 40 \<longrightarrow> locator_write_to l out = Panic) \<and>
    (40 \<le> length out \<longrightarrow> (\<exists>out'. locator_write_to l out = Ok out' \<and> length out' = length out \<and>
       drop 40 out' = drop 40 out \<and> locator_parse (take 40 out') = Some l \<and>
       locator_read_volatile (take 40 out') = Some l))"
proof -
  have len: "length (locator_as_bytes l) = 40"
    using assms by (simp add: length_locator_as_bytes wf_locator_def)
  then show ?thesis
    by (simp add: locator_write_to_def LOCATOR_SIZE_def write_at_def locator_read_volatile_eq_parse
        locator_parse_as_bytes [OF assms])
qed

theorem locator_write_read_witness:
  "locator_write_to (locator_placeholder \<lparr>lb_manifest_size := 512\<rparr>) [] = Panic \<and>
   (\<exists>out'. locator_write_to (locator_placeholder \<lparr>lb_manifest_size := 512\<rparr>) (replicate 48 0) = Ok out' \<and>
      locator_parse (take 40 out') = Some (locator_placeholder \<lparr>lb_manifest_size := 512\<rparr>))"
  using locator_write_read [of "locator_placeholder \<lparr>lb_manifest_size := 512\<rparr>" "[]"]
    locator_write_read [of "locator_placeholder \<lparr>lb_manifest_size := 512\<rparr>" "replicate 48 0"]
  by (auto simp: wf_locator_def locator_placeholder_def)

text \<open>
  C35: A locator that passes validation stays inside the media: with the additions in
  exact arithmetic, the image lies in the media window, the 512-byte root and a present
  microcode blob lie in the image, so every read they direct is below the capacity, and
  absent microcode has offset zero.
\<close>

theorem media_validate_iff:
  "media_validate m cap \<longleftrightarrow>
     0 < unat (ml_image_size m) \<and> unat (ml_image_offset m) + unat (ml_image_size m) \<le> unat cap \<and>
     ml_root_size m = 512 \<and> unat (ml_root_offset m) + 512 \<le> unat (ml_image_size m) \<and>
     (ml_microcode_size m = 0 \<and> ml_microcode_offset m = 0 \<or>
      ml_microcode_size m \<noteq> 0 \<and> ml_microcode_offset m \<noteq> 0 \<and>
      unat (ml_microcode_offset m) + unat (ml_microcode_size m) \<le> unat (ml_image_size m))"
  by (auto simp: media_validate_def within_iff unat_gt_0)

theorem media_validate_iff_witness:
  "media_validate \<lparr>ml_image_offset = 0x21000, ml_image_size = 0x80000, ml_root_offset = 0x7fe00,
     ml_root_size = 512, ml_microcode_offset = 0, ml_microcode_size = 0\<rparr> 0x100000"
  by (simp add: media_validate_iff)

end
