(* ===== verification/Trust.thy ===== *)
theory Trust
  imports Ffs_Types
begin

text \<open>
  The constant trust policy (\<^verbatim>\<open>crates/core/src/ffs/trust.rs\<close>): the 320-byte block with
  the expected image family, the minimum security version and up to four keys. The
  borrowing reader takes the address of the slice, because it tests the alignment.
\<close>

section \<open>Blocks\<close>

definition TRUST_MAGIC :: bytes where
  "TRUST_MAGIC = [0x46, 0x53, 0x54, 0x52, 0x55, 0x53, 0x54, 0x31]"

definition TRUST_VERSION :: u32 where "TRUST_VERSION = 1"
definition TRUST_SIZE :: nat where "TRUST_SIZE = 320"

record trust_block =
  tb_magic :: bytes
  tb_version :: u32
  tb_encoded_size :: u32
  tb_minimum_security_version :: u64
  tb_key_count :: u32
  tb_reserved :: u32
  tb_image_family :: bytes
  tb_keys :: "verification_key list"

definition trust_placeholder :: trust_block where
  "trust_placeholder = \<lparr>tb_magic = TRUST_MAGIC, tb_version = TRUST_VERSION,
     tb_encoded_size = word_of_nat TRUST_SIZE, tb_minimum_security_version = 0,
     tb_key_count = 0, tb_reserved = 0, tb_image_family = replicate 16 0,
     tb_keys = replicate TRUST_MAX_KEYS key_ZERO\<rparr>"

text \<open>The \<open>repr(C)\<close> images of a key (68 bytes) and of the block.\<close>

definition key_as_bytes :: "verification_key \<Rightarrow> bytes" where
  "key_as_bytes k = [vk_key_id k, vk_algorithm k] @ vk_pad k @ vk_key_lo k @ vk_key_hi k"

definition key_at :: "bytes \<Rightarrow> nat \<Rightarrow> verification_key" where
  "key_at b n = \<lparr>vk_key_id = b ! n, vk_algorithm = b ! (n + 1), vk_pad = sub b (n + 2) 2,
     vk_key_lo = sub b (n + 4) 32, vk_key_hi = sub b (n + 36) 32\<rparr>"

definition trust_as_bytes :: "trust_block \<Rightarrow> bytes" where
  "trust_as_bytes t = tb_magic t @ to_le_bytes (tb_version t) @ to_le_bytes (tb_encoded_size t) @
     to_le_bytes (tb_minimum_security_version t) @ to_le_bytes (tb_key_count t) @
     to_le_bytes (tb_reserved t) @ tb_image_family t @ concat (map key_as_bytes (tb_keys t))"

definition trust_view :: "bytes \<Rightarrow> trust_block" where
  "trust_view b = \<lparr>tb_magic = sub b 0 8, tb_version = le32 b 8, tb_encoded_size = le32 b 12,
     tb_minimum_security_version = le64 b 16, tb_key_count = le32 b 24, tb_reserved = le32 b 28,
     tb_image_family = sub b 32 16, tb_keys = [key_at b 48, key_at b 116, key_at b 184, key_at b 252]\<rparr>"

definition trust_from_bytes :: "bytes \<Rightarrow> trust_block option" where
  "trust_from_bytes b = (if length b = TRUST_SIZE then Some (trust_view b) else None)"

definition trust_parse :: "bytes \<Rightarrow> trust_block option" where
  "trust_parse b =
     Option.bind (trust_from_bytes b) (\<lambda>block.
       if tb_magic block = TRUST_MAGIC \<and> tb_version block = TRUST_VERSION \<and>
          tb_encoded_size block = word_of_nat TRUST_SIZE \<and>
          unat (tb_key_count block) \<le> TRUST_MAX_KEYS \<and> tb_reserved block = 0
       then Some block else None)"

definition trust_valid_keys :: "trust_block \<Rightarrow> ('e, verification_key list) result" where
  "trust_valid_keys t =
     (if unat (tb_key_count t) \<le> length (tb_keys t)
      then Ok (take (unat (tb_key_count t)) (tb_keys t)) else Panic)"

definition trust_set_key_count :: "u32 \<Rightarrow> trust_block \<Rightarrow> trust_block" where
  "trust_set_key_count count t = t \<lparr>tb_key_count := count\<rparr>"

definition trust_set_minimum_security_version :: "u64 \<Rightarrow> trust_block \<Rightarrow> trust_block" where
  "trust_set_minimum_security_version version t = t \<lparr>tb_minimum_security_version := version\<rparr>"

definition trust_write_to :: "trust_block \<Rightarrow> bytes \<Rightarrow> (unit, bytes) result" where
  "trust_write_to t dest =
     (if length dest < TRUST_SIZE then Panic else Ok (write_at dest 0 (trust_as_bytes t)))"

text \<open>\<open>addr\<close> is the address of the slice \<open>data\<close>.\<close>

definition trust_read_volatile :: "nat \<Rightarrow> bytes \<Rightarrow> trust_block option" where
  "trust_read_volatile addr data =
     (if length data \<noteq> TRUST_SIZE \<or> addr mod 8 \<noteq> 0 then None
      else let magic = sub data 0 8; version = le32 data 8; sz = le32 data 12;
               count = le32 data 24; reserved = le32 data 28
           in if magic \<noteq> TRUST_MAGIC \<or> version \<noteq> TRUST_VERSION \<or> sz \<noteq> word_of_nat TRUST_SIZE \<or>
                 unat count > TRUST_MAX_KEYS \<or> reserved \<noteq> 0
              then None else Some (trust_view data))"

definition wf_trust :: "trust_block \<Rightarrow> bool" where
  "wf_trust t \<longleftrightarrow> tb_magic t = TRUST_MAGIC \<and> tb_version t = TRUST_VERSION \<and>
     tb_encoded_size t = 320 \<and> unat (tb_key_count t) \<le> 4 \<and> tb_reserved t = 0 \<and>
     length (tb_image_family t) = 16 \<and> length (tb_keys t) = 4 \<and> list_all wf_key (tb_keys t)"

section \<open>Wire lemmas\<close>

lemma length_key_as_bytes: "wf_key k \<Longrightarrow> length (key_as_bytes k) = 68"
  by (simp add: key_as_bytes_def wf_key_def)

lemma key_at_append:
  assumes "length p = n" "wf_key k"
  shows "key_at (p @ key_as_bytes k @ q) n = k"
  using assms by (cases k)
    (simp add: key_at_def key_as_bytes_def wf_key_def nth_append byte_simps)

lemma key_as_bytes_at: "n + 68 \<le> length b \<Longrightarrow> key_as_bytes (key_at b n) = sub b n 68"
proof -
  assume n: "n + 68 \<le> length b"
  have "key_as_bytes (key_at b n) = sub b n 2 @ sub b (n + 2) 2 @ sub b (n + 4) 32 @ sub b (n + 36) 32"
    using n sub_2 [of n b] by (simp add: key_as_bytes_def key_at_def)
  then show ?thesis
    by (simp add: sub_join sub_join_append)
qed

lemma wf_key_at: "n + 68 \<le> length b \<Longrightarrow> wf_key (key_at b n)"
  by (simp add: wf_key_def key_at_def)

lemma length_TRUST_MAGIC [simp]: "length TRUST_MAGIC = 8"
  by (simp add: TRUST_MAGIC_def)

lemma length_4E:
  assumes "length xs = 4"
  obtains a b c d where "xs = [a, b, c, d]"
  using assms by (auto simp: length_Suc_conv eval_nat_numeral)

lemma trust_view_as_bytes:
  assumes "wf_trust t"
  shows "trust_view (trust_as_bytes t) = t" and "length (trust_as_bytes t) = 320"
proof -
  have w: "length (tb_magic t) = 8" "length (tb_image_family t) = 16"
    using assms by (auto simp: wf_trust_def)
  obtain a b c d where k: "tb_keys t = [a, b, c, d]"
    using assms by (auto simp: wf_trust_def elim: length_4E)
  then have kw: "wf_key a" "wf_key b" "wf_key c" "wf_key d"
    using assms by (auto simp: wf_trust_def)
  define h where "h = tb_magic t @ to_le_bytes (tb_version t) @ to_le_bytes (tb_encoded_size t) @
     to_le_bytes (tb_minimum_security_version t) @ to_le_bytes (tb_key_count t) @
     to_le_bytes (tb_reserved t) @ tb_image_family t"
  have h: "length h = 48"
    using w by (simp add: h_def)
  note l = length_key_as_bytes [OF kw(1)] length_key_as_bytes [OF kw(2)]
    length_key_as_bytes [OF kw(3)] length_key_as_bytes [OF kw(4)]
  have b: "trust_as_bytes t = h @ key_as_bytes a @ key_as_bytes b @ key_as_bytes c @ key_as_bytes d"
    by (simp add: trust_as_bytes_def h_def k)
  have ks: "key_at (trust_as_bytes t) 48 = a" "key_at (trust_as_bytes t) 116 = b"
    "key_at (trust_as_bytes t) 184 = c" "key_at (trust_as_bytes t) 252 = d"
    using h l kw
      key_at_append [of h 48 a]
      key_at_append [of "h @ key_as_bytes a" 116 b]
      key_at_append [of "h @ key_as_bytes a @ key_as_bytes b" 184 c]
      key_at_append [of "h @ key_as_bytes a @ key_as_bytes b @ key_as_bytes c" 252 d "[]"]
    by (simp_all add: b)
  show "length (trust_as_bytes t) = 320"
    using h l by (simp add: b)
  show "trust_view (trust_as_bytes t) = t"
    unfolding trust_view_def ks using w k
    by (cases t) (simp add: trust_as_bytes_def le32_def le64_def byte_simps)
qed

lemma trust_parse_as_bytes: "wf_trust t \<Longrightarrow> trust_parse (trust_as_bytes t) = Some t"
  using trust_view_as_bytes [of t]
  by (simp add: trust_parse_def trust_from_bytes_def TRUST_SIZE_def TRUST_MAX_KEYS_def)
    (simp add: wf_trust_def)

lemma trust_parse_eq_SomeD:
  assumes "trust_parse b = Some t"
  shows "length b = 320" "t = trust_view b" "wf_trust t"
proof -
  show l: "length b = 320" and v: "t = trust_view b"
    using assms by (auto simp: trust_parse_def trust_from_bytes_def TRUST_SIZE_def
        split: if_splits bind_splits)
  show "wf_trust t"
    using assms l unfolding v
    by (auto simp: trust_parse_def trust_from_bytes_def TRUST_SIZE_def TRUST_MAX_KEYS_def
        wf_trust_def trust_view_def wf_key_at split: if_splits bind_splits)
qed

lemma trust_as_bytes_parse:
  assumes "trust_parse b = Some t"
  shows "trust_as_bytes t = b"
proof -
  note p = trust_parse_eq_SomeD [OF assms]
  have "trust_as_bytes t = sub b 0 8 @ sub b 8 4 @ sub b 12 4 @ sub b 16 8 @ sub b 24 4 @ sub b 28 4 @
      sub b 32 16 @ sub b 48 68 @ sub b 116 68 @ sub b 184 68 @ sub b 252 68"
    using p(1) unfolding p(2) by (simp add: trust_as_bytes_def trust_view_def key_as_bytes_at byte_simps)
  then show ?thesis
    using p(1) by (simp add: sub_join sub_join_append sub_whole)
qed

interpretation trust_wire: wire_format trust_as_bytes "\<lambda>b. ok_or (trust_parse b) ()" wf_trust
  by unfold_locales (auto simp: trust_parse_as_bytes trust_as_bytes_parse trust_parse_eq_SomeD(3))

lemma trust_read_volatile_eq_parse:
  "trust_read_volatile addr b = (if addr mod 8 = 0 then trust_parse b else None)"
  by (auto simp: trust_read_volatile_def trust_parse_def trust_from_bytes_def trust_view_def Let_def)

section \<open>Properties\<close>

text \<open>
  The two readers of the trust policy agree, and what they accept is exactly the
  image of a well-formed block: an aligned slice is accepted if and only if it is the
  written form of the block that is returned, every header field included. The keys of
  an accepted block are the first \<open>key_count\<close> of its four slots; taking them never panics.
\<close>

theorem trust_read_exact:
  "(trust_read_volatile addr b = Some t \<longleftrightarrow> addr mod 8 = 0 \<and> wf_trust t \<and> trust_as_bytes t = b) \<and>
   (trust_parse b = Some t \<longleftrightarrow> wf_trust t \<and> trust_as_bytes t = b) \<and>
   (trust_parse b = Some t \<longrightarrow>
      trust_valid_keys t = Ok (take (unat (tb_key_count t)) (tb_keys t)) \<and> unat (tb_key_count t) \<le> 4)"
proof -
  have iff: "trust_parse b = Some t \<longleftrightarrow> wf_trust t \<and> trust_as_bytes t = b"
    using trust_wire.dec_eq_Ok_iff [of b t] by simp
  then show ?thesis
    by (auto simp: trust_read_volatile_eq_parse trust_valid_keys_def wf_trust_def)
qed

definition sample_trust :: trust_block where
  "sample_trust = trust_set_key_count 1 (trust_set_minimum_security_version 7
     (trust_placeholder \<lparr>tb_image_family := replicate 16 0xa5,
        tb_keys := key_ed25519 3 (replicate 32 0x5a) # replicate 3 key_ZERO\<rparr>))"

lemma wf_sample_trust: "wf_trust sample_trust"
  by (simp add: wf_trust_def sample_trust_def trust_set_key_count_def TRUST_SIZE_def
      trust_set_minimum_security_version_def trust_placeholder_def wf_key_def key_ed25519_def
      key_ZERO_def eval_nat_numeral)

theorem trust_read_exact_witness:
  "trust_read_volatile 4096 (trust_as_bytes sample_trust) = Some sample_trust \<and>
   trust_read_volatile 4097 (trust_as_bytes sample_trust) = None \<and>
   (trust_valid_keys sample_trust :: (unit, _) result) = Ok [key_ed25519 3 (replicate 32 0x5a)]"
proof -
  have "(trust_valid_keys sample_trust :: (unit, _) result) = Ok (take 1 (tb_keys sample_trust))"
    using trust_read_exact [where 'a = unit, of 4096 "trust_as_bytes sample_trust" sample_trust] wf_sample_trust
    by (simp add: sample_trust_def trust_set_key_count_def)
  then show ?thesis
    using trust_read_exact [where 'a = unit, of 4096 "trust_as_bytes sample_trust" sample_trust] wf_sample_trust
    by (auto simp: trust_read_volatile_eq_parse sample_trust_def trust_set_key_count_def
        trust_set_minimum_security_version_def)
qed

end
