(* ===== verification/Manifest.thy ===== *)
theory Manifest
  imports Root
begin

text \<open>
  The authenticated directory, revision 2 (\<^verbatim>\<open>crates/ffs/src/manifest.rs\<close>): a header,
  the tables of regions, entries and segments and the string table. \<open>manifest_parse\<close> is
  \<open>ManifestView::parse\<close> with the whole validation; the view it returns is the four
  tables. A record of the wire is a record here, its \<open>repr(C)\<close> image is \<open>..._as_bytes\<close>
  and the field-by-field view of a byte slice is \<open>..._at\<close>. A \<open>&str\<close> is its UTF-8 bytes.
\<close>

section \<open>Errors and records\<close>

datatype reader_error =
    OutOfBounds | BadMagic | UnsupportedVersion | DeserializeError | SignatureInvalid
  | KeyNotFound | FileNotFound | DigestMismatch | RegionNotFound | UnsupportedAlgorithm
  | CannotVerifyInPlace

definition MANIFEST_MAGIC :: u32 where
  "MANIFEST_MAGIC = from_le_bytes [0x46, 0x53, 0x4d, 0x5a]"

definition MANIFEST_VERSION :: u32 where
  "MANIFEST_VERSION = DIRECTORY_REVISION"

record header =
  hd_magic :: u32
  hd_version :: u32
  hd_region_count :: u32
  hd_entry_count :: u32
  hd_segment_count :: u32
  hd_string_table_offset :: u32
  hd_string_table_size :: u32

record region_record =
  rr_name_offset :: u32
  rr_offset :: u32
  rr_size :: u32
  rr_first_entry :: u32
  rr_entry_count :: u32
  rr_kind :: u8
  rr_fill :: u8
  rr_reserved :: bytes

record entry_record =
  er_name_offset :: u32
  er_offset :: u32
  er_size :: u32
  er_first_segment :: u32
  er_segment_count :: u32
  er_file_type :: u8
  er_kind :: u8
  er_fill :: u8
  er_digest_flags :: u8
  er_sha256 :: bytes
  er_sha3_256 :: bytes

record segment_record =
  sr_name_offset :: u32
  sr_offset :: u32
  sr_stored_size :: u32
  sr_loaded_size :: u32
  sr_in_place_size :: u32
  sr_load_addr :: u64
  sr_kind :: u8
  sr_compression :: u8
  sr_flags :: u8
  sr_reserved :: u8
  sr_initialized_size :: u32
  sr_stored_digest :: bytes
  sr_loaded_digest :: bytes

definition REGION_KIND_CONTAINER :: u8 where "REGION_KIND_CONTAINER = 1"
definition REGION_KIND_RAW :: u8 where "REGION_KIND_RAW = 2"
definition ENTRY_KIND_FILE :: u8 where "ENTRY_KIND_FILE = 1"
definition ENTRY_KIND_RAW :: u8 where "ENTRY_KIND_RAW = 2"
definition DIGEST_SHA256 :: u8 where "DIGEST_SHA256 = 1"
definition DIGEST_SHA3_256 :: u8 where "DIGEST_SHA3_256 = 2"

lemmas kind_defs = REGION_KIND_CONTAINER_def REGION_KIND_RAW_def ENTRY_KIND_FILE_def
  ENTRY_KIND_RAW_def DIGEST_SHA256_def DIGEST_SHA3_256_def

record manifest_view =
  mv_regions :: "region_record list"
  mv_entries :: "entry_record list"
  mv_segments :: "segment_record list"
  mv_strings :: bytes

record manifest_summary =
  ms_regions :: nat
  ms_entries :: nat

record file_view =
  fv_entry :: entry_record
  fv_region_offset :: u32
  fv_segments :: "segment_record list"
  fv_strings :: bytes

section \<open>Wire images of the records\<close>

definition header_as_bytes :: "header \<Rightarrow> bytes" where
  "header_as_bytes h = to_le_bytes (hd_magic h) @ to_le_bytes (hd_version h) @
     to_le_bytes (hd_region_count h) @ to_le_bytes (hd_entry_count h) @
     to_le_bytes (hd_segment_count h) @ to_le_bytes (hd_string_table_offset h) @
     to_le_bytes (hd_string_table_size h)"

definition header_at :: "bytes \<Rightarrow> header" where
  "header_at b = \<lparr>hd_magic = le32 b 0, hd_version = le32 b 4, hd_region_count = le32 b 8,
     hd_entry_count = le32 b 12, hd_segment_count = le32 b 16,
     hd_string_table_offset = le32 b 20, hd_string_table_size = le32 b 24\<rparr>"

definition rr_as_bytes :: "region_record \<Rightarrow> bytes" where
  "rr_as_bytes r = to_le_bytes (rr_name_offset r) @ to_le_bytes (rr_offset r) @
     to_le_bytes (rr_size r) @ to_le_bytes (rr_first_entry r) @ to_le_bytes (rr_entry_count r) @
     [rr_kind r, rr_fill r] @ rr_reserved r"

definition rr_at :: "bytes \<Rightarrow> region_record" where
  "rr_at b = \<lparr>rr_name_offset = le32 b 0, rr_offset = le32 b 4, rr_size = le32 b 8,
     rr_first_entry = le32 b 12, rr_entry_count = le32 b 16, rr_kind = b ! 20, rr_fill = b ! 21,
     rr_reserved = sub b 22 2\<rparr>"

definition er_as_bytes :: "entry_record \<Rightarrow> bytes" where
  "er_as_bytes e = to_le_bytes (er_name_offset e) @ to_le_bytes (er_offset e) @
     to_le_bytes (er_size e) @ to_le_bytes (er_first_segment e) @
     to_le_bytes (er_segment_count e) @
     [er_file_type e, er_kind e, er_fill e, er_digest_flags e] @ er_sha256 e @ er_sha3_256 e"

definition er_at :: "bytes \<Rightarrow> entry_record" where
  "er_at b = \<lparr>er_name_offset = le32 b 0, er_offset = le32 b 4, er_size = le32 b 8,
     er_first_segment = le32 b 12, er_segment_count = le32 b 16, er_file_type = b ! 20,
     er_kind = b ! 21, er_fill = b ! 22, er_digest_flags = b ! 23, er_sha256 = sub b 24 32,
     er_sha3_256 = sub b 56 32\<rparr>"

definition sr_as_bytes :: "segment_record \<Rightarrow> bytes" where
  "sr_as_bytes s = to_le_bytes (sr_name_offset s) @ to_le_bytes (sr_offset s) @
     to_le_bytes (sr_stored_size s) @ to_le_bytes (sr_loaded_size s) @
     to_le_bytes (sr_in_place_size s) @ to_le_bytes (sr_load_addr s) @
     [sr_kind s, sr_compression s, sr_flags s, sr_reserved s] @
     to_le_bytes (sr_initialized_size s) @ sr_stored_digest s @ sr_loaded_digest s"

definition sr_at :: "bytes \<Rightarrow> segment_record" where
  "sr_at b = \<lparr>sr_name_offset = le32 b 0, sr_offset = le32 b 4, sr_stored_size = le32 b 8,
     sr_loaded_size = le32 b 12, sr_in_place_size = le32 b 16, sr_load_addr = le64 b 20,
     sr_kind = b ! 28, sr_compression = b ! 29, sr_flags = b ! 30, sr_reserved = b ! 31,
     sr_initialized_size = le32 b 32, sr_stored_digest = sub b 36 32,
     sr_loaded_digest = sub b 68 32\<rparr>"

text \<open>A table of \<open>n\<close> records of \<open>k\<close> bytes each.\<close>

definition table_at :: "nat \<Rightarrow> (bytes \<Rightarrow> 'a) \<Rightarrow> bytes \<Rightarrow> nat \<Rightarrow> 'a list" where
  "table_at k f b n = map (\<lambda>i. f (sub b (k * i) k)) [0..<n]"

section \<open>Strings\<close>

text \<open>\<open>core::str::from_utf8\<close>: well-formed UTF-8 byte sequences of the Unicode standard.\<close>

definition utf8_cont :: "u8 \<Rightarrow> bool" where
  "utf8_cont b \<longleftrightarrow> 0x80 \<le> b \<and> b \<le> 0xbf"

fun utf8_valid :: "bytes \<Rightarrow> bool" where
  "utf8_valid [] \<longleftrightarrow> True"
| "utf8_valid (b # bs) \<longleftrightarrow>
     (if b \<le> 0x7f then utf8_valid bs
      else if 0xc2 \<le> b \<and> b \<le> 0xdf then
        (case bs of c1 # rest \<Rightarrow> utf8_cont c1 \<and> utf8_valid rest | _ \<Rightarrow> False)
      else if 0xe0 \<le> b \<and> b \<le> 0xef then
        (case bs of c1 # c2 # rest \<Rightarrow>
           utf8_cont c1 \<and> (b = 0xe0 \<longrightarrow> 0xa0 \<le> c1) \<and> (b = 0xed \<longrightarrow> c1 \<le> 0x9f) \<and>
           utf8_cont c2 \<and> utf8_valid rest
         | _ \<Rightarrow> False)
      else if 0xf0 \<le> b \<and> b \<le> 0xf4 then
        (case bs of c1 # c2 # c3 # rest \<Rightarrow>
           utf8_cont c1 \<and> (b = 0xf0 \<longrightarrow> 0x90 \<le> c1) \<and> (b = 0xf4 \<longrightarrow> c1 \<le> 0x8f) \<and>
           utf8_cont c2 \<and> utf8_cont c3 \<and> utf8_valid rest
         | _ \<Rightarrow> False)
      else False)"

definition string_at :: "bytes \<Rightarrow> u32 \<Rightarrow> (reader_error, bytes) result" where
  "string_at strings offset =
     rbind (ok_or (get_from strings (unat offset)) OutOfBounds) (\<lambda>tail.
       if 0 \<in> set tail
       then let s = takeWhile (\<lambda>b. b \<noteq> 0) tail
            in if utf8_valid s then Ok s else Err DeserializeError
       else Err DeserializeError)"

definition mv_string :: "manifest_view \<Rightarrow> u32 \<Rightarrow> (reader_error, bytes) result" where
  "mv_string v offset = string_at (mv_strings v) offset"

definition checked_range :: "nat \<Rightarrow> nat \<Rightarrow> nat \<Rightarrow> nat \<Rightarrow> (reader_error, unit) result" where
  "checked_range um len start count =
     rbind (ok_or (usize_add um start count) OutOfBounds) (\<lambda>stop.
       if stop \<le> len then Ok () else Err OutOfBounds)"

section \<open>Codes\<close>

fun encode_file_type :: "file_type \<Rightarrow> u8" where
  "encode_file_type StageCode = 1"
| "encode_file_type BoardConfig = 2"
| "encode_file_type Payload = 3"
| "encode_file_type Fdt = 4"
| "encode_file_type DataFile = 5"
| "encode_file_type RawFile = 6"
| "encode_file_type Firmware = 7"
| "encode_file_type FitImage = 8"
| "encode_file_type CpuMicrocode = 9"
| "encode_file_type Initramfs = 10"

definition decode_file_type :: "u8 \<Rightarrow> (reader_error, file_type) result" where
  "decode_file_type v =
     (if v = 1 then Ok StageCode else if v = 2 then Ok BoardConfig else if v = 3 then Ok Payload
      else if v = 4 then Ok Fdt else if v = 5 then Ok DataFile else if v = 6 then Ok RawFile
      else if v = 7 then Ok Firmware else if v = 8 then Ok FitImage
      else if v = 9 then Ok CpuMicrocode else if v = 10 then Ok Initramfs
      else Err DeserializeError)"

fun encode_segment_kind :: "segment_kind \<Rightarrow> u8" where
  "encode_segment_kind CodeSeg = 1"
| "encode_segment_kind ReadOnlyData = 2"
| "encode_segment_kind ReadWriteData = 3"
| "encode_segment_kind Bss = 4"

definition decode_segment_kind :: "u8 \<Rightarrow> (reader_error, segment_kind) result" where
  "decode_segment_kind v =
     (if v = 1 then Ok CodeSeg else if v = 2 then Ok ReadOnlyData
      else if v = 3 then Ok ReadWriteData else if v = 4 then Ok Bss
      else Err DeserializeError)"

fun encode_compression :: "compression \<Rightarrow> u8" where
  "encode_compression CompNone = 0"
| "encode_compression CompLz4 = 1"

definition decode_compression :: "u8 \<Rightarrow> (reader_error, compression) result" where
  "decode_compression v =
     (if v = 0 then Ok CompNone else if v = 1 then Ok CompLz4 else Err DeserializeError)"

definition encode_segment_flags :: "segment_flags \<Rightarrow> u8" where
  "encode_segment_flags f =
     or (or (of_bool (sf_execute f)) (push_bit 1 (of_bool (sf_write f))))
        (push_bit 2 (of_bool (sf_read f)))"

definition decode_segment_flags :: "u8 \<Rightarrow> segment_flags" where
  "decode_segment_flags flags = \<lparr>sf_execute = (and flags 1 \<noteq> 0), sf_write = (and flags 2 \<noteq> 0),
     sf_read = (and flags 4 \<noteq> 0)\<rparr>"

section \<open>Validation\<close>

text \<open>The loops of \<open>ManifestView::validate\<close>, one definition each, in their order.\<close>

definition validate_region_kinds :: "nat \<Rightarrow> manifest_view \<Rightarrow> (reader_error, unit) result" where
  "validate_region_kinds um v =
     for_each (\<lambda>region. rbind (mv_string v (rr_name_offset region)) (\<lambda>_.
       if rr_kind region = REGION_KIND_CONTAINER
       then checked_range um (length (mv_entries v)) (unat (rr_first_entry region))
              (unat (rr_entry_count region))
       else if rr_kind region = REGION_KIND_RAW then Ok ()
       else Err DeserializeError)) (mv_regions v)"

definition validate_entry_kinds :: "nat \<Rightarrow> manifest_view \<Rightarrow> (reader_error, unit) result" where
  "validate_entry_kinds um v =
     for_each (\<lambda>entry. rbind (mv_string v (er_name_offset entry)) (\<lambda>_.
       if er_kind entry = ENTRY_KIND_FILE
       then rbind (decode_file_type (er_file_type entry)) (\<lambda>_.
              checked_range um (length (mv_segments v)) (unat (er_first_segment entry))
                (unat (er_segment_count entry)))
       else if er_kind entry = ENTRY_KIND_RAW then Ok ()
       else Err DeserializeError)) (mv_entries v)"

definition distinct_name :: "manifest_view \<Rightarrow> u32 \<Rightarrow> u32 \<Rightarrow> (reader_error, unit) result" where
  "distinct_name v this prev =
     rbind (mv_string v prev) (\<lambda>p. rbind (mv_string v this) (\<lambda>t.
       if p = t then Err DeserializeError else Ok ()))"

definition validate_children ::
  "nat \<Rightarrow> manifest_view \<Rightarrow> region_record \<Rightarrow> (reader_error, unit) result" where
  "validate_children um v region =
     (let first = unat (rr_first_entry region)
      in rbind (slice (mv_entries v) first (first + unat (rr_entry_count region))) (\<lambda>entries.
         for_each (\<lambda>(i, entry).
           rbind (for_each (\<lambda>prev. distinct_name v (er_name_offset entry) (er_name_offset prev))
                    (take i entries)) (\<lambda>_.
           checked_range um (unat (rr_size region)) (unat (er_offset entry)) (unat (er_size entry))))
         (List.enumerate 0 entries)))"

definition validate_regions :: "nat \<Rightarrow> manifest_view \<Rightarrow> (reader_error, unit) result" where
  "validate_regions um v =
     for_each (\<lambda>(i, region).
       if rr_reserved region \<noteq> replicate 2 0 \<or> checked_add (rr_offset region) (rr_size region) = None
       then Err OutOfBounds
       else rbind (for_each (\<lambda>prev. distinct_name v (rr_name_offset region) (rr_name_offset prev))
                     (take i (mv_regions v))) (\<lambda>_.
            if rr_kind region = REGION_KIND_CONTAINER then validate_children um v region else Ok ()))
     (List.enumerate 0 (mv_regions v))"

definition validate_files :: "nat \<Rightarrow> manifest_view \<Rightarrow> (reader_error, unit) result" where
  "validate_files um v =
     for_each (\<lambda>entry.
       if er_kind entry \<noteq> ENTRY_KIND_FILE then Ok ()
       else if er_segment_count entry = 0 \<or> er_digest_flags entry \<noteq> DIGEST_SHA256 \<or>
               er_sha3_256 entry \<noteq> replicate 32 0 \<or> er_fill entry \<noteq> 0
       then Err DeserializeError
       else let first = unat (er_first_segment entry)
            in rbind (slice (mv_segments v) first (first + unat (er_segment_count entry)))
                 (for_each (\<lambda>s. checked_range um (unat (er_size entry)) (unat (sr_offset s))
                    (unat (sr_stored_size s))))) (mv_entries v)"

definition owns_entry :: "nat \<Rightarrow> region_record \<Rightarrow> bool" where
  "owns_entry i r \<longleftrightarrow> rr_kind r = REGION_KIND_CONTAINER \<and> i \<ge> unat (rr_first_entry r) \<and>
     i < unat (rr_first_entry r) + unat (rr_entry_count r)"

definition owns_segment :: "nat \<Rightarrow> entry_record \<Rightarrow> bool" where
  "owns_segment i e \<longleftrightarrow> er_kind e = ENTRY_KIND_FILE \<and> i \<ge> unat (er_first_segment e) \<and>
     i < unat (er_first_segment e) + unat (er_segment_count e)"

definition validate_partition :: "manifest_view \<Rightarrow> (reader_error, unit) result" where
  "validate_partition v =
     rbind (for_each (\<lambda>i. if length (filter (owns_entry i) (mv_regions v)) \<noteq> 1
                         then Err DeserializeError else Ok ()) [0..<length (mv_entries v)]) (\<lambda>_.
     for_each (\<lambda>i. if length (filter (owns_segment i) (mv_entries v)) \<noteq> 1
                   then Err DeserializeError else Ok ()) [0..<length (mv_segments v)])"

definition validate_segment ::
  "manifest_view \<Rightarrow> segment_record \<Rightarrow> (reader_error, unit) result" where
  "validate_segment v s =
     rbind (mv_string v (sr_name_offset s)) (\<lambda>_.
     rbind (decode_segment_kind (sr_kind s)) (\<lambda>kind.
     rbind (decode_compression (sr_compression s)) (\<lambda>comp.
       if sr_reserved s \<noteq> 0 \<or> and (sr_flags s) (not 7) \<noteq> 0 \<or>
          sr_initialized_size s > sr_loaded_size s \<or>
          checked_add (sr_load_addr s) (ucast (sr_loaded_size s)) = None
       then Err DeserializeError
       else if comp = CompNone \<and> sr_in_place_size s \<noteq> 0 then Err DeserializeError
       else rbind (if comp = CompLz4
                   then rbind (ok_or (checked_add (sr_initialized_size s) (sr_stored_size s)) OutOfBounds)
                          (\<lambda>need. if sr_in_place_size s < need then Err DeserializeError else Ok ())
                   else Ok ()) (\<lambda>_.
            if sr_stored_size s = 0
            then if kind \<noteq> Bss \<or> sr_initialized_size s \<noteq> 0 \<or> comp \<noteq> CompNone \<or>
                    sr_stored_digest s \<noteq> replicate 32 0 \<or> sr_loaded_digest s \<noteq> replicate 32 0
                 then Err DeserializeError else Ok ()
            else if kind = Bss \<or> sr_initialized_size s = 0 then Err DeserializeError
            else if comp = CompNone \<and> (sr_stored_size s \<noteq> sr_initialized_size s \<or>
                    sr_stored_digest s \<noteq> sr_loaded_digest s)
            then Err DeserializeError
            else Ok ()))))"

definition mv_validate :: "nat \<Rightarrow> manifest_view \<Rightarrow> (reader_error, unit) result" where
  "mv_validate um v =
     rbind (validate_region_kinds um v) (\<lambda>_.
     rbind (validate_entry_kinds um v) (\<lambda>_.
     rbind (validate_regions um v) (\<lambda>_.
     rbind (validate_files um v) (\<lambda>_.
     rbind (validate_partition v) (\<lambda>_.
     for_each (validate_segment v) (mv_segments v))))))"

definition manifest_parse :: "nat \<Rightarrow> bytes \<Rightarrow> (reader_error, manifest_view) result" where
  "manifest_parse um b =
     (if length b < 28 then Err DeserializeError
      else let h = header_at b in
        if hd_magic h \<noteq> MANIFEST_MAGIC \<or> hd_version h \<noteq> MANIFEST_VERSION
        then Err UnsupportedVersion
        else let region_count = unat (hd_region_count h); entry_count = unat (hd_entry_count h);
                 segment_count = unat (hd_segment_count h);
                 strings_offset = unat (hd_string_table_offset h);
                 strings_size = unat (hd_string_table_size h)
          in rbind (ok_or (usize_mul um 24 region_count) OutOfBounds) (\<lambda>region_size.
             rbind (ok_or (usize_add um 28 region_size) OutOfBounds) (\<lambda>entry_offset.
             rbind (ok_or (usize_mul um 88 entry_count) OutOfBounds) (\<lambda>entry_size.
             rbind (ok_or (usize_add um entry_offset entry_size) OutOfBounds) (\<lambda>segment_offset.
             rbind (ok_or (usize_mul um 100 segment_count) OutOfBounds) (\<lambda>segment_size.
             rbind (ok_or (usize_add um segment_offset segment_size) OutOfBounds)
               (\<lambda>expected_strings_offset.
             if strings_offset \<noteq> expected_strings_offset then Err DeserializeError
             else rbind (ok_or (usize_add um strings_offset strings_size) OutOfBounds) (\<lambda>strings_end.
             if strings_end \<noteq> length b then Err OutOfBounds
             else rbind (ok_or (get_range b 28 entry_offset) OutOfBounds) (\<lambda>region_bytes.
             rbind (ok_or (get_range b entry_offset segment_offset) OutOfBounds) (\<lambda>entry_bytes.
             rbind (ok_or (get_range b segment_offset expected_strings_offset) OutOfBounds)
               (\<lambda>segment_bytes.
             rbind (ok_or (get_range b strings_offset strings_end) OutOfBounds) (\<lambda>strings.
               let view = \<lparr>mv_regions = table_at 24 rr_at region_bytes region_count,
                           mv_entries = table_at 88 er_at entry_bytes entry_count,
                           mv_segments = table_at 100 sr_at segment_bytes segment_count,
                           mv_strings = strings\<rparr>
               in rbind (mv_validate um view) (\<lambda>_. Ok view)))))))))))))"

section \<open>Lookups\<close>

definition mv_summary :: "manifest_view \<Rightarrow> manifest_summary" where
  "mv_summary v = \<lparr>ms_regions = length (mv_regions v), ms_entries = length (mv_entries v)\<rparr>"

definition mv_file_view ::
  "nat \<Rightarrow> manifest_view \<Rightarrow> region_record \<Rightarrow> entry_record \<Rightarrow> (reader_error, file_view) result" where
  "mv_file_view um v region entry =
     (let first = unat (er_first_segment entry); count = unat (er_segment_count entry)
      in rbind (checked_range um (length (mv_segments v)) first count) (\<lambda>_.
         rbind (slice (mv_segments v) first (first + count)) (\<lambda>segs.
         Ok \<lparr>fv_entry = entry, fv_region_offset = rr_offset region, fv_segments = segs,
             fv_strings = mv_strings v\<rparr>)))"

text \<open>
  The two nested loops that both file lookups share; \<open>hit\<close> is the condition of the
  inner \<open>if\<close> and \<open>found\<close> the mutable variable.
\<close>

fun find_in_entries ::
  "nat \<Rightarrow> manifest_view \<Rightarrow> (entry_record \<Rightarrow> (reader_error, bool) result) \<Rightarrow> region_record \<Rightarrow>
   file_view option \<Rightarrow> entry_record list \<Rightarrow> (reader_error, file_view option) result" where
  "find_in_entries um v hit region found [] = Ok found"
| "find_in_entries um v hit region found (entry # es) =
     rbind (hit entry) (\<lambda>h.
       if h
       then if found \<noteq> None then Err DeserializeError
            else rbind (mv_file_view um v region entry) (\<lambda>fv.
                 find_in_entries um v hit region (Some fv) es)
       else find_in_entries um v hit region found es)"

fun find_in_regions ::
  "nat \<Rightarrow> manifest_view \<Rightarrow> (entry_record \<Rightarrow> (reader_error, bool) result) \<Rightarrow>
   file_view option \<Rightarrow> region_record list \<Rightarrow> (reader_error, file_view option) result" where
  "find_in_regions um v hit found [] = Ok found"
| "find_in_regions um v hit found (region # rs) =
     (if rr_kind region \<noteq> REGION_KIND_CONTAINER then find_in_regions um v hit found rs
      else let first = unat (rr_first_entry region); count = unat (rr_entry_count region)
           in rbind (slice (mv_entries v) first (first + count)) (\<lambda>es.
              rbind (find_in_entries um v hit region found es) (\<lambda>found.
              find_in_regions um v hit found rs)))"

definition find_file_by_type ::
  "nat \<Rightarrow> manifest_view \<Rightarrow> file_type \<Rightarrow> (reader_error, file_view) result" where
  "find_file_by_type um v ft =
     rbind (find_in_regions um v (\<lambda>entry. Ok (er_kind entry = ENTRY_KIND_FILE \<and>
              er_file_type entry = encode_file_type ft)) None (mv_regions v))
       (\<lambda>found. ok_or found FileNotFound)"

definition find_file_by_name ::
  "nat \<Rightarrow> manifest_view \<Rightarrow> bytes \<Rightarrow> (reader_error, file_view) result" where
  "find_file_by_name um v name =
     rbind (find_in_regions um v (\<lambda>entry.
              if er_kind entry = ENTRY_KIND_FILE
              then rbind (mv_string v (er_name_offset entry)) (\<lambda>s. Ok (s = name))
              else Ok False) None (mv_regions v))
       (\<lambda>found. ok_or found FileNotFound)"

fun raw_region_loop ::
  "manifest_view \<Rightarrow> bytes \<Rightarrow> (u32 \<times> u32 \<times> u8) option \<Rightarrow> region_record list \<Rightarrow>
   (reader_error, (u32 \<times> u32 \<times> u8) option) result" where
  "raw_region_loop v name found [] = Ok found"
| "raw_region_loop v name found (region # rs) =
     rbind (mv_string v (rr_name_offset region)) (\<lambda>s.
       if s = name
       then if found \<noteq> None \<or> rr_kind region \<noteq> REGION_KIND_RAW then Err DeserializeError
            else raw_region_loop v name (Some (rr_offset region, rr_size region, rr_fill region)) rs
       else raw_region_loop v name found rs)"

definition raw_region ::
  "manifest_view \<Rightarrow> bytes \<Rightarrow> (reader_error, (u32 \<times> u32 \<times> u8) option) result" where
  "raw_region v name = raw_region_loop v name None (mv_regions v)"

definition record_digest_set :: "entry_record \<Rightarrow> digest_set" where
  "record_digest_set e =
     \<lparr>ds_sha256 = (if and (er_digest_flags e) DIGEST_SHA256 \<noteq> 0 then Some (er_sha256 e) else None),
      ds_sha3_256 = (if and (er_digest_flags e) DIGEST_SHA3_256 \<noteq> 0 then Some (er_sha3_256 e) else None)\<rparr>"

definition hstring :: "nat \<Rightarrow> bytes \<Rightarrow> (reader_error, bytes) result" where
  "hstring cap s = (if length s \<le> cap then Ok s else Err DeserializeError)"

text \<open>\<open>heapless::Vec::push\<close> over the results of a loop: it fails at the first element beyond \<open>cap\<close>.\<close>

fun push_each :: "nat \<Rightarrow> ('a \<Rightarrow> (reader_error, 'b) result) \<Rightarrow> 'b list \<Rightarrow> 'a list \<Rightarrow>
    (reader_error, 'b list) result" where
  "push_each cap f acc [] = Ok acc"
| "push_each cap f acc (x # xs) =
     rbind (f x) (\<lambda>y. if length acc < cap then push_each cap f (acc @ [y]) xs
                       else Err DeserializeError)"

definition segment_to_owned :: "bytes \<Rightarrow> segment_record \<Rightarrow> (reader_error, segment) result" where
  "segment_to_owned strings s =
     rbind (string_at strings (sr_name_offset s)) (\<lambda>n.
     rbind (hstring 32 n) (\<lambda>name.
     rbind (decode_segment_kind (sr_kind s)) (\<lambda>kind.
     rbind (decode_compression (sr_compression s)) (\<lambda>comp.
       Ok \<lparr>seg_name = name, seg_kind = kind, seg_offset = sr_offset s,
          seg_stored_size = sr_stored_size s, seg_initialized_size = sr_initialized_size s,
          seg_stored_digest = sr_stored_digest s, seg_loaded_digest = sr_loaded_digest s,
          seg_loaded_size = sr_loaded_size s, seg_in_place_size = sr_in_place_size s,
          seg_load_addr = sr_load_addr s, seg_compression = comp,
          seg_flags = decode_segment_flags (sr_flags s)\<rparr>))))"

definition entry_to_owned ::
  "manifest_view \<Rightarrow> entry_record \<Rightarrow> (reader_error, region_entry) result" where
  "entry_to_owned v e =
     rbind (mv_string v (er_name_offset e)) (\<lambda>n.
     rbind (hstring 64 n) (\<lambda>name.
     rbind (if er_kind e = ENTRY_KIND_FILE
            then let first = unat (er_first_segment e); count = unat (er_segment_count e)
                 in rbind (slice (mv_segments v) first (first + count)) (\<lambda>srs.
                    rbind (push_each 12 (segment_to_owned (mv_strings v)) [] srs) (\<lambda>segs.
                    rbind (decode_file_type (er_file_type e)) (\<lambda>ft.
                    Ok (FileContent ft segs (record_digest_set e)))))
            else if er_kind e = ENTRY_KIND_RAW then Ok (RawContent (er_fill e))
            else Err DeserializeError) (\<lambda>content.
       Ok \<lparr>re_name = name, re_offset = er_offset e, re_size = er_size e, re_content = content\<rparr>)))"

definition region_to_owned :: "manifest_view \<Rightarrow> region_record \<Rightarrow> (reader_error, region) result" where
  "region_to_owned v r =
     rbind (mv_string v (rr_name_offset r)) (\<lambda>n.
     rbind (hstring 64 n) (\<lambda>name.
     rbind (if rr_kind r = REGION_KIND_CONTAINER
            then let first = unat (rr_first_entry r); count = unat (rr_entry_count r)
                 in rbind (slice (mv_entries v) first (first + count)) (\<lambda>ers.
                    rbind (push_each 8 (entry_to_owned v) [] ers) (\<lambda>children.
                    Ok (Container children)))
            else if rr_kind r = REGION_KIND_RAW then Ok (RawRegion (rr_fill r))
            else Err DeserializeError) (\<lambda>content.
       Ok \<lparr>rg_name = name, rg_offset = rr_offset r, rg_size = rr_size r, rg_content = content\<rparr>)))"

definition to_owned_manifest :: "manifest_view \<Rightarrow> (reader_error, image_manifest) result" where
  "to_owned_manifest v =
     rbind (push_each MAX_IMAGE_REGIONS (region_to_owned v) [] (mv_regions v)) (\<lambda>regions.
     Ok \<lparr>im_regions = regions\<rparr>)"

section \<open>Tables\<close>

lemma length_table_at [simp]: "length (table_at k f b n) = n"
  by (simp add: table_at_def)

lemma table_at_Suc: "table_at k f b (Suc n) = f (sub b 0 k) # table_at k f (drop k b) n"
  by (simp add: table_at_def upt_conv_Cons map_Suc_upt [symmetric] sub_def add.commute del: upt_Suc)

lemma table_at_concat:
  assumes "\<And>x. x \<in> set xs \<Longrightarrow> length (enc x) = k \<and> f (enc x) = x"
  shows "table_at k f (concat (map enc xs)) (length xs) = xs"
  using assms
proof (induction xs)
  case Nil
  then show ?case by (simp add: table_at_def)
next
  case (Cons x xs)
  then show ?case
    by (simp add: table_at_Suc sub_append_exact)
qed

lemma concat_table_at:
  assumes "length b = k * n" and "\<And>c. length c = k \<Longrightarrow> enc (f c) = c"
  shows "concat (map enc (table_at k f b n)) = b"
  using assms(1)
proof (induction n arbitrary: b)
  case 0
  then show ?case by (simp add: table_at_def)
next
  case (Suc n)
  then have "concat (map enc (table_at k f (drop k b) n)) = drop k b" "length (sub b 0 k) = k"
    by (simp_all add: Suc.IH)
  then show ?case
    using assms(2) [of "sub b 0 k"] by (simp add: table_at_Suc sub_def)
qed

lemma length_concat_map: "(\<And>x. x \<in> set xs \<Longrightarrow> length (enc x) = k) \<Longrightarrow> length (concat (map enc xs)) = k * length xs"
  by (induction xs) auto

lemma header_at_as_bytes: "header_at (header_as_bytes h @ b) = h"
  by (cases h) (simp add: header_at_def header_as_bytes_def le32_def byte_simps)

lemma length_header_as_bytes [simp]: "length (header_as_bytes h) = 28"
  by (simp add: header_as_bytes_def)

lemma header_as_bytes_at: "28 \<le> length b \<Longrightarrow> header_as_bytes (header_at b) = sub b 0 28"
  by (simp add: header_at_def header_as_bytes_def byte_simps sub_join sub_join_append)

definition wf_rr :: "region_record \<Rightarrow> bool" where
  "wf_rr r \<longleftrightarrow> length (rr_reserved r) = 2"

definition wf_er :: "entry_record \<Rightarrow> bool" where
  "wf_er e \<longleftrightarrow> length (er_sha256 e) = 32 \<and> length (er_sha3_256 e) = 32"

definition wf_sr :: "segment_record \<Rightarrow> bool" where
  "wf_sr s \<longleftrightarrow> length (sr_stored_digest s) = 32 \<and> length (sr_loaded_digest s) = 32"

lemma rr_at_as_bytes: "wf_rr r \<Longrightarrow> length (rr_as_bytes r) = 24 \<and> rr_at (rr_as_bytes r) = r"
  by (cases r) (simp add: wf_rr_def rr_as_bytes_def rr_at_def le32_def byte_simps nth_append)

lemma er_at_as_bytes: "wf_er e \<Longrightarrow> length (er_as_bytes e) = 88 \<and> er_at (er_as_bytes e) = e"
  by (cases e) (simp add: wf_er_def er_as_bytes_def er_at_def le32_def byte_simps nth_append)

lemma sr_at_as_bytes: "wf_sr s \<Longrightarrow> length (sr_as_bytes s) = 100 \<and> sr_at (sr_as_bytes s) = s"
  by (cases s) (simp add: wf_sr_def sr_as_bytes_def sr_at_def le32_def le64_def byte_simps nth_append)

lemma rr_as_bytes_at: "length b = 24 \<Longrightarrow> rr_as_bytes (rr_at b) = b"
  using sub_2 [of 20 b] by (simp add: rr_as_bytes_def rr_at_def byte_simps)
    (simp add: sub_join sub_join_append byte_simps flip: append_Cons append_Nil)

lemma sub_4: "i + 3 < length b \<Longrightarrow> [b ! i, b ! (i + 1), b ! (i + 2), b ! (i + 3)] = sub b i 4"
proof -
  assume "i + 3 < length b"
  then have "[b ! i, b ! (i + 1)] @ [b ! (i + 2), b ! (i + 2 + 1)] = sub b i 2 @ sub b (i + 2) 2"
    using sub_2 [of i b] sub_2 [of "i + 2" b] by simp
  then show ?thesis
    by (simp add: sub_join eval_nat_numeral)
qed

lemma er_as_bytes_at: "length b = 88 \<Longrightarrow> er_as_bytes (er_at b) = b"
proof -
  assume l: "length b = 88"
  have "er_as_bytes (er_at b) = sub b 0 4 @ sub b 4 4 @ sub b 8 4 @ sub b 12 4 @ sub b 16 4 @
      sub b 20 4 @ sub b 24 32 @ sub b 56 32"
    using l sub_4 [of 20 b] by (simp add: er_as_bytes_def er_at_def byte_simps)
  then show ?thesis
    using l by (simp add: sub_join sub_join_append sub_whole)
qed

lemma sr_as_bytes_at: "length b = 100 \<Longrightarrow> sr_as_bytes (sr_at b) = b"
proof -
  assume l: "length b = 100"
  have "sr_as_bytes (sr_at b) = sub b 0 4 @ sub b 4 4 @ sub b 8 4 @ sub b 12 4 @ sub b 16 4 @
      sub b 20 8 @ sub b 28 4 @ sub b 32 4 @ sub b 36 32 @ sub b 68 32"
    using l sub_4 [of 28 b] by (simp add: sr_as_bytes_def sr_at_def byte_simps)
  then show ?thesis
    using l by (simp add: sub_join sub_join_append sub_whole)
qed

lemma wf_records_at:
  "length b = 24 \<Longrightarrow> wf_rr (rr_at b)" "length b = 88 \<Longrightarrow> wf_er (er_at b)" "length b = 100 \<Longrightarrow> wf_sr (sr_at b)"
  by (simp_all add: wf_rr_def rr_at_def wf_er_def er_at_def wf_sr_def sr_at_def)

lemma table_at_all:
  assumes "x \<in> set (table_at k f b n)" "length b = k * n" "\<And>c. length c = k \<Longrightarrow> P (f c)"
  shows "P x"
proof -
  obtain i where i: "i < n" "x = f (sub b (k * i) k)"
    using assms(1) by (auto simp: table_at_def)
  then have "k * i + k \<le> k * n"
    by (metis Suc_leI mult_Suc_right mult_le_mono2 add.commute)
  then show ?thesis
    using assms(2,3) i by simp
qed

section \<open>The directory as a wire format\<close>

definition view_header :: "manifest_view \<Rightarrow> header" where
  "view_header v = \<lparr>hd_magic = MANIFEST_MAGIC, hd_version = MANIFEST_VERSION,
     hd_region_count = word_of_nat (length (mv_regions v)),
     hd_entry_count = word_of_nat (length (mv_entries v)),
     hd_segment_count = word_of_nat (length (mv_segments v)),
     hd_string_table_offset = word_of_nat (28 + length (mv_regions v) * 24 + length (mv_entries v) * 88 +
       length (mv_segments v) * 100),
     hd_string_table_size = word_of_nat (length (mv_strings v))\<rparr>"

definition view_bytes :: "manifest_view \<Rightarrow> bytes" where
  "view_bytes v = header_as_bytes (view_header v) @ concat (map rr_as_bytes (mv_regions v)) @
     concat (map er_as_bytes (mv_entries v)) @ concat (map sr_as_bytes (mv_segments v)) @ mv_strings v"

definition wf_tables :: "manifest_view \<Rightarrow> bool" where
  "wf_tables v \<longleftrightarrow> list_all wf_rr (mv_regions v) \<and> list_all wf_er (mv_entries v) \<and>
     list_all wf_sr (mv_segments v) \<and>
     28 + length (mv_regions v) * 24 + length (mv_entries v) * 88 + length (mv_segments v) * 100 < 2 ^ 32 \<and>
     length (mv_strings v) < 2 ^ 32"

definition wf_view :: "nat \<Rightarrow> manifest_view \<Rightarrow> bool" where
  "wf_view um v \<longleftrightarrow> wf_tables v \<and> length (view_bytes v) \<le> um \<and> mv_validate um v = Ok ()"

lemma wf_tables_lengths:
  assumes "wf_tables v"
  shows "length (concat (map rr_as_bytes (mv_regions v))) = 24 * length (mv_regions v)"
    "length (concat (map er_as_bytes (mv_entries v))) = 88 * length (mv_entries v)"
    "length (concat (map sr_as_bytes (mv_segments v))) = 100 * length (mv_segments v)"
  using assms rr_at_as_bytes er_at_as_bytes sr_at_as_bytes unfolding wf_tables_def list_all_iff
  by (intro length_concat_map; blast)+

lemma length_view_bytes:
  "wf_tables v \<Longrightarrow> length (view_bytes v) = 28 + 24 * length (mv_regions v) + 88 * length (mv_entries v) +
     100 * length (mv_segments v) + length (mv_strings v)"
  by (simp add: view_bytes_def wf_tables_lengths)

lemma unat_of_small: "n < 2 ^ 32 \<Longrightarrow> unat (word_of_nat n :: u32) = n"
  by (simp add: unat_of_nat)

lemma table_at_tables:
  assumes "wf_tables v"
  shows "table_at 24 rr_at (concat (map rr_as_bytes (mv_regions v))) (length (mv_regions v)) = mv_regions v"
    "table_at 88 er_at (concat (map er_as_bytes (mv_entries v))) (length (mv_entries v)) = mv_entries v"
    "table_at 100 sr_at (concat (map sr_as_bytes (mv_segments v))) (length (mv_segments v)) = mv_segments v"
  using assms rr_at_as_bytes er_at_as_bytes sr_at_as_bytes unfolding wf_tables_def list_all_iff
  by (intro table_at_concat; blast)+

lemma view_eta: "\<lparr>mv_regions = mv_regions v, mv_entries = mv_entries v, mv_segments = mv_segments v,
    mv_strings = mv_strings v\<rparr> = v"
  by simp

lemma manifest_parse_tables:
  assumes w: "wf_tables v" and um: "length (view_bytes v) \<le> um"
  shows "manifest_parse um (view_bytes v) = rbind (mv_validate um v) (\<lambda>_. Ok v)"
proof -
  define R E S where "R = length (mv_regions v)" and "E = length (mv_entries v)" and "S = length (mv_segments v)"
  have h: "header_at (view_bytes v) = view_header v"
    by (simp add: view_bytes_def header_at_as_bytes)
  have c: "unat (hd_region_count (view_header v)) = R" "unat (hd_entry_count (view_header v)) = E"
      "unat (hd_segment_count (view_header v)) = S"
      "unat (hd_string_table_offset (view_header v)) = 28 + R * 24 + E * 88 + S * 100"
      "unat (hd_string_table_size (view_header v)) = length (mv_strings v)"
      "hd_magic (view_header v) = MANIFEST_MAGIC" "hd_version (view_header v) = MANIFEST_VERSION"
    using w unfolding view_header_def wf_tables_def R_def E_def S_def
    by (simp_all add: unat_of_small del: of_nat_add of_nat_mult)
  have l: "length (view_bytes v) = 28 + R * 24 + E * 88 + S * 100 + length (mv_strings v)"
    using length_view_bytes [OF w] by (simp add: R_def E_def S_def)
  have t: "sub (view_bytes v) 28 (24 * R) = concat (map rr_as_bytes (mv_regions v))"
      "sub (view_bytes v) (28 + 24 * R) (88 * E) = concat (map er_as_bytes (mv_entries v))"
      "sub (view_bytes v) (28 + 24 * R + 88 * E) (100 * S) = concat (map sr_as_bytes (mv_segments v))"
      "sub (view_bytes v) (28 + R * 24 + E * 88 + S * 100) (length (mv_strings v)) = mv_strings v"
    using wf_tables_lengths [OF w] unfolding view_bytes_def R_def E_def S_def
    by (simp_all add: byte_simps sub_append_exact)
  show ?thesis
    unfolding manifest_parse_def Let_def h c
    using l um t table_at_tables [OF w]
    by (simp add: ok_or_def usize_mul_def usize_add_def get_range_def R_def E_def S_def mult.commute view_eta)
qed

lemma manifest_parse_view_bytes: "wf_view um v \<Longrightarrow> manifest_parse um (view_bytes v) = Ok v"
  by (simp add: wf_view_def manifest_parse_tables)

lemma manifest_parse_eq_OkD:
  assumes "manifest_parse um b = Ok v"
  shows "view_bytes v = b" "wf_view um v"
proof -
  let ?h = "header_at b"
  define R E S where "R = unat (hd_region_count ?h)" and "E = unat (hd_entry_count ?h)"
    and "S = unat (hd_segment_count ?h)"
  have h: "28 \<le> length b" "hd_magic ?h = MANIFEST_MAGIC" "hd_version ?h = MANIFEST_VERSION"
    using assms by (auto simp: manifest_parse_def Let_def split: if_splits)
  have l: "unat (hd_string_table_offset ?h) = 28 + 24 * R + 88 * E + 100 * S"
      "28 + 24 * R + 88 * E + 100 * S + unat (hd_string_table_size ?h) = length b" "length b \<le> um"
    and v: "v = \<lparr>mv_regions = table_at 24 rr_at (sub b 28 (24 * R)) R,
       mv_entries = table_at 88 er_at (sub b (28 + 24 * R) (88 * E)) E,
       mv_segments = table_at 100 sr_at (sub b (28 + 24 * R + 88 * E) (100 * S)) S,
       mv_strings = sub b (28 + 24 * R + 88 * E + 100 * S) (length b - (28 + 24 * R + 88 * E + 100 * S))\<rparr>"
    and va: "mv_validate um v = Ok ()"
    using assms unfolding manifest_parse_def R_def E_def S_def Let_def
    by (auto simp: get_range_eq_Some split: if_splits)
  define T where "T = unat (hd_string_table_size ?h)"
  have T: "length b - (28 + 24 * R + 88 * E + 100 * S) = T"
    using l(2) by (simp add: T_def)
  have tl: "length (sub b 28 (24 * R)) = 24 * R" "length (sub b (28 + 24 * R) (88 * E)) = 88 * E"
      "length (sub b (28 + 24 * R + 88 * E) (100 * S)) = 100 * S"
      "length (sub b (28 + 24 * R + 88 * E + 100 * S) T) = T"
    using l by (simp_all add: T_def)
  have vl: "length (mv_regions v) = R" "length (mv_entries v) = E" "length (mv_segments v) = S"
      "length (mv_strings v) = T"
    using tl(4) by (simp_all add: v T)
  have "list_all wf_rr (mv_regions v)" "list_all wf_er (mv_entries v)" "list_all wf_sr (mv_segments v)"
    unfolding list_all_iff v
    using table_at_all [OF _ tl(1), of _ rr_at wf_rr] table_at_all [OF _ tl(2), of _ er_at wf_er]
      table_at_all [OF _ tl(3), of _ sr_at wf_sr] by (auto simp: wf_records_at)
  moreover have "28 + R * 24 + E * 88 + S * 100 < 2 ^ 32" "T < 2 ^ 32"
    using l(1) unat_32_less [of "hd_string_table_offset ?h"] unat_32_less [of "hd_string_table_size ?h"]
    by (simp_all add: T_def mult.commute)
  ultimately have w: "wf_tables v"
    by (simp add: wf_tables_def vl)
  have "28 + R * 24 + E * 88 + S * 100 = unat (hd_string_table_offset ?h)"
    using l(1) by simp
  then have off: "word_of_nat (28 + R * 24 + E * 88 + S * 100) = hd_string_table_offset ?h"
    by simp
  have "view_header v = ?h"
    unfolding view_header_def vl off
    by (rule header.equality) (simp_all add: h R_def E_def S_def T_def)
  moreover have "concat (map rr_as_bytes (mv_regions v)) = sub b 28 (24 * R)"
    "concat (map er_as_bytes (mv_entries v)) = sub b (28 + 24 * R) (88 * E)"
    "concat (map sr_as_bytes (mv_segments v)) = sub b (28 + 24 * R + 88 * E) (100 * S)"
    unfolding v using tl rr_as_bytes_at er_as_bytes_at sr_as_bytes_at by (simp_all add: concat_table_at)
  moreover have "mv_strings v = sub b (28 + 24 * R + 88 * E + 100 * S) T"
    by (simp add: v T)
  ultimately show vb: "view_bytes v = b"
    using h(1) l(2) unfolding view_bytes_def T_def
    by (simp add: header_as_bytes_at sub_join sub_join_append sub_whole)
  show "wf_view um v"
    using w vb l(3) va by (simp add: wf_view_def)
qed

interpretation manifest_wire: wire_format view_bytes "manifest_parse um" "wf_view um" for um
  by unfold_locales (auto simp: manifest_parse_view_bytes manifest_parse_eq_OkD)

end
