(* ===== verification/Directory.thy ===== *)
theory Directory
  imports Manifest
begin

text \<open>
  What a validated directory guarantees. \<open>valid_view\<close> says in plain arithmetic and
  quantifiers what the loops of \<open>ManifestView::validate\<close> accept: the ranges of the
  children, the uniqueness of names and the partition of the tables. On such a view no
  lookup panics, and each lookup returns the one matching record or says why not.
\<close>

section \<open>Meaning of a valid directory\<close>

definition named :: "manifest_view \<Rightarrow> u32 \<Rightarrow> bool" where
  "named v off \<longleftrightarrow> is_ok (mv_string v off)"

definition name_of :: "manifest_view \<Rightarrow> u32 \<Rightarrow> bytes" where
  "name_of v off = (case mv_string v off of Ok s \<Rightarrow> s | _ \<Rightarrow> [])"

definition child_entries :: "manifest_view \<Rightarrow> region_record \<Rightarrow> entry_record list" where
  "child_entries v r = sub (mv_entries v) (unat (rr_first_entry r)) (unat (rr_entry_count r))"

definition child_segments :: "manifest_view \<Rightarrow> entry_record \<Rightarrow> segment_record list" where
  "child_segments v e = sub (mv_segments v) (unat (er_first_segment e)) (unat (er_segment_count e))"

definition container_ok :: "manifest_view \<Rightarrow> region_record \<Rightarrow> bool" where
  "container_ok v r \<longleftrightarrow>
     unat (rr_first_entry r) + unat (rr_entry_count r) \<le> length (mv_entries v) \<and>
     distinct (map (\<lambda>e. name_of v (er_name_offset e)) (child_entries v r)) \<and>
     (\<forall>e \<in> set (child_entries v r). unat (er_offset e) + unat (er_size e) \<le> unat (rr_size r))"

definition region_ok :: "manifest_view \<Rightarrow> region_record \<Rightarrow> bool" where
  "region_ok v r \<longleftrightarrow> named v (rr_name_offset r) \<and> rr_reserved r = [0, 0] \<and>
     unat (rr_offset r) + unat (rr_size r) < 2 ^ 32 \<and>
     (rr_kind r = REGION_KIND_RAW \<or> rr_kind r = REGION_KIND_CONTAINER \<and> container_ok v r)"

definition file_ok :: "manifest_view \<Rightarrow> entry_record \<Rightarrow> bool" where
  "file_ok v e \<longleftrightarrow> is_ok (decode_file_type (er_file_type e)) \<and>
     unat (er_first_segment e) + unat (er_segment_count e) \<le> length (mv_segments v) \<and>
     er_segment_count e \<noteq> 0 \<and> er_digest_flags e = DIGEST_SHA256 \<and>
     er_sha3_256 e = replicate 32 0 \<and> er_fill e = 0 \<and>
     (\<forall>s \<in> set (child_segments v e). unat (sr_offset s) + unat (sr_stored_size s) \<le> unat (er_size e))"

definition entry_ok :: "manifest_view \<Rightarrow> entry_record \<Rightarrow> bool" where
  "entry_ok v e \<longleftrightarrow> named v (er_name_offset e) \<and>
     (er_kind e = ENTRY_KIND_RAW \<or> er_kind e = ENTRY_KIND_FILE \<and> file_ok v e)"

definition bss_ok :: "segment_record \<Rightarrow> bool" where
  "bss_ok s \<longleftrightarrow> decode_segment_kind (sr_kind s) = Ok Bss \<and> sr_stored_size s = 0 \<and>
     sr_initialized_size s = 0 \<and> decode_compression (sr_compression s) = Ok CompNone \<and>
     sr_in_place_size s = 0 \<and>
     sr_stored_digest s = replicate 32 0 \<and> sr_loaded_digest s = replicate 32 0"

definition stored_ok :: "segment_record \<Rightarrow> bool" where
  "stored_ok s \<longleftrightarrow> is_ok (decode_segment_kind (sr_kind s)) \<and> decode_segment_kind (sr_kind s) \<noteq> Ok Bss \<and>
     sr_stored_size s \<noteq> 0 \<and> sr_initialized_size s \<noteq> 0 \<and>
     (decode_compression (sr_compression s) = Ok CompNone \<and> sr_in_place_size s = 0 \<and>
        sr_stored_size s = sr_initialized_size s \<and> sr_stored_digest s = sr_loaded_digest s \<or>
      decode_compression (sr_compression s) = Ok CompLz4 \<and>
        unat (sr_initialized_size s) + unat (sr_stored_size s) \<le> unat (sr_in_place_size s))"

definition segment_ok :: "manifest_view \<Rightarrow> segment_record \<Rightarrow> bool" where
  "segment_ok v s \<longleftrightarrow> named v (sr_name_offset s) \<and> sr_reserved s = 0 \<and> and (sr_flags s) (not 7) = 0 \<and>
     unat (sr_initialized_size s) \<le> unat (sr_loaded_size s) \<and>
     unat (sr_load_addr s) + unat (sr_loaded_size s) < 2 ^ 64 \<and> (bss_ok s \<or> stored_ok s)"

definition valid_view :: "manifest_view \<Rightarrow> bool" where
  "valid_view v \<longleftrightarrow>
     (\<forall>r \<in> set (mv_regions v). region_ok v r) \<and>
     distinct (map (\<lambda>r. name_of v (rr_name_offset r)) (mv_regions v)) \<and>
     (\<forall>e \<in> set (mv_entries v). entry_ok v e) \<and>
     (\<forall>i < length (mv_entries v). \<exists>!k. k < length (mv_regions v) \<and> owns_entry i (mv_regions v ! k)) \<and>
     (\<forall>i < length (mv_segments v). \<exists>!k. k < length (mv_entries v) \<and> owns_segment i (mv_entries v ! k)) \<and>
     (\<forall>s \<in> set (mv_segments v). segment_ok v s)"

section \<open>The loops against their meaning\<close>

lemma checked_range_eq_Ok: "len \<le> um \<Longrightarrow> checked_range um len a n = Ok () \<longleftrightarrow> a + n \<le> len"
  by (auto simp: checked_range_def ok_or_def usize_add_def)

lemma checked_range_not_Panic: "checked_range um len a n \<noteq> Panic"
  by (simp add: checked_range_def rbind_eq_Panic)

lemma string_at_not_Panic [simp]: "string_at s off \<noteq> Panic"
  by (simp add: string_at_def rbind_eq_Panic Let_def)

lemma mv_string_not_Panic [simp]: "mv_string v off \<noteq> Panic"
  by (simp add: mv_string_def)

lemma named_iff: "named v off \<longleftrightarrow> mv_string v off = Ok (name_of v off)"
  by (auto simp: named_def is_ok_iff name_of_def)

lemma distinct_name_eq_Ok:
  "named v a \<Longrightarrow> named v b \<Longrightarrow> distinct_name v a b = Ok () \<longleftrightarrow> name_of v b \<noteq> name_of v a"
  by (simp add: distinct_name_def named_iff)

lemma for_each_enumerate:
  "for_each f (List.enumerate 0 xs) = Ok u \<longleftrightarrow> (\<forall>i < length xs. f (i, xs ! i) = Ok ())"
  by (auto simp: for_each_eq_Ok in_set_enumerate_eq)

lemma distinct_prefix:
  "(\<forall>i < length xs. \<forall>y \<in> set (take i xs). f y \<noteq> f (xs ! i)) \<longleftrightarrow> distinct (map f xs)"
  by (fastforce simp: distinct_conv_nth in_set_conv_nth nat_neq_iff)

lemma validate_region_kinds_eq_Ok:
  assumes "length (mv_entries v) \<le> um"
  shows "validate_region_kinds um v = Ok () \<longleftrightarrow>
    (\<forall>r \<in> set (mv_regions v). named v (rr_name_offset r) \<and>
       (rr_kind r = REGION_KIND_RAW \<or> rr_kind r = REGION_KIND_CONTAINER \<and>
          unat (rr_first_entry r) + unat (rr_entry_count r) \<le> length (mv_entries v)))"
  using assms
  by (auto simp: validate_region_kinds_def for_each_eq_Ok named_def is_ok_iff checked_range_eq_Ok kind_defs
      split: if_splits)

lemma validate_entry_kinds_eq_Ok:
  assumes "length (mv_segments v) \<le> um"
  shows "validate_entry_kinds um v = Ok () \<longleftrightarrow>
    (\<forall>e \<in> set (mv_entries v). named v (er_name_offset e) \<and>
       (er_kind e = ENTRY_KIND_RAW \<or> er_kind e = ENTRY_KIND_FILE \<and> is_ok (decode_file_type (er_file_type e)) \<and>
          unat (er_first_segment e) + unat (er_segment_count e) \<le> length (mv_segments v)))"
  using assms
  by (auto simp: validate_entry_kinds_def for_each_eq_Ok named_def is_ok_iff checked_range_eq_Ok kind_defs
      split: if_splits)

lemma validate_children_eq_Ok:
  assumes "unat (rr_first_entry r) + unat (rr_entry_count r) \<le> length (mv_entries v)"
    and "\<And>e. e \<in> set (mv_entries v) \<Longrightarrow> named v (er_name_offset e)" and "2 ^ 32 - 1 \<le> um"
  shows "validate_children um v r = Ok () \<longleftrightarrow> container_ok v r"
proof -
  let ?c = "child_entries v r"
  have n: "named v (er_name_offset e)" if "e \<in> set ?c" for e
    using that assms(2) set_sub by (fastforce simp: child_entries_def)
  have sz: "unat (rr_size r) \<le> um"
    using unat_32_less [of "rr_size r"] assms(3) by simp
  have d: "distinct_name v (er_name_offset (?c ! i)) (er_name_offset p) = Ok () \<longleftrightarrow>
      name_of v (er_name_offset p) \<noteq> name_of v (er_name_offset (?c ! i))"
    if "i < length ?c" "p \<in> set (take i ?c)" for i p
    using that n by (meson distinct_name_eq_Ok in_set_takeD nth_mem)
  have "validate_children um v r = Ok () \<longleftrightarrow> (\<forall>i < length ?c.
      rbind (for_each (\<lambda>p. distinct_name v (er_name_offset (?c ! i)) (er_name_offset p)) (take i ?c))
        (\<lambda>_. checked_range um (unat (rr_size r)) (unat (er_offset (?c ! i))) (unat (er_size (?c ! i)))) = Ok ())"
    using assms(1) by (simp add: validate_children_def Let_def slice_inside for_each_enumerate
        del: rbind_eq_Ok flip: child_entries_def)
  also have "\<dots> \<longleftrightarrow>
     (\<forall>i < length ?c. (\<forall>p \<in> set (take i ?c). name_of v (er_name_offset p) \<noteq> name_of v (er_name_offset (?c ! i))) \<and>
        unat (er_offset (?c ! i)) + unat (er_size (?c ! i)) \<le> unat (rr_size r))"
    by (simp add: for_each_eq_Ok checked_range_eq_Ok [OF sz] d cong: ball_cong_simp)
  also have "\<dots> \<longleftrightarrow> distinct (map (\<lambda>e. name_of v (er_name_offset e)) ?c) \<and>
     (\<forall>e \<in> set ?c. unat (er_offset e) + unat (er_size e) \<le> unat (rr_size r))"
    unfolding all_set_conv_all_nth distinct_prefix [symmetric] by auto
  finally show ?thesis
    using assms(1) by (simp add: container_ok_def)
qed

lemma validate_regions_eq_Ok:
  assumes n: "\<And>r. r \<in> set (mv_regions v) \<Longrightarrow> named v (rr_name_offset r)"
    and c: "\<And>r. r \<in> set (mv_regions v) \<Longrightarrow> rr_kind r = REGION_KIND_CONTAINER \<Longrightarrow>
      validate_children um v r = Ok () \<longleftrightarrow> container_ok v r"
  shows "validate_regions um v = Ok () \<longleftrightarrow>
    (\<forall>r \<in> set (mv_regions v). rr_reserved r = [0, 0] \<and> unat (rr_offset r) + unat (rr_size r) < 2 ^ 32 \<and>
       (rr_kind r = REGION_KIND_CONTAINER \<longrightarrow> container_ok v r)) \<and>
    distinct (map (\<lambda>r. name_of v (rr_name_offset r)) (mv_regions v))"
proof -
  let ?R = "mv_regions v"
  have d: "distinct_name v (rr_name_offset (?R ! i)) (rr_name_offset p) = Ok () \<longleftrightarrow>
      name_of v (rr_name_offset p) \<noteq> name_of v (rr_name_offset (?R ! i))"
    if "i < length ?R" "p \<in> set (take i ?R)" for i p
    using that n by (meson distinct_name_eq_Ok in_set_takeD nth_mem)
  have two: "replicate 2 (0 :: u8) = [0, 0]"
    by (simp add: numeral_2_eq_2)
  have "validate_regions um v = Ok () \<longleftrightarrow> (\<forall>i < length ?R.
      (if rr_reserved (?R ! i) \<noteq> replicate 2 0 \<or> checked_add (rr_offset (?R ! i)) (rr_size (?R ! i)) = None
       then Err OutOfBounds
       else rbind (for_each (\<lambda>prev. distinct_name v (rr_name_offset (?R ! i)) (rr_name_offset prev)) (take i ?R))
         (\<lambda>_. if rr_kind (?R ! i) = REGION_KIND_CONTAINER then validate_children um v (?R ! i) else Ok ())) = Ok ())"
    by (simp add: validate_regions_def for_each_enumerate del: rbind_eq_Ok)
  also have "\<dots> \<longleftrightarrow> (\<forall>i < length ?R. rr_reserved (?R ! i) = [0, 0] \<and>
      unat (rr_offset (?R ! i)) + unat (rr_size (?R ! i)) < 2 ^ 32 \<and>
      (rr_kind (?R ! i) = REGION_KIND_CONTAINER \<longrightarrow> container_ok v (?R ! i)) \<and>
      (\<forall>p \<in> set (take i ?R). name_of v (rr_name_offset p) \<noteq> name_of v (rr_name_offset (?R ! i))))"
    by (intro iff_allI imp_cong refl)
      (auto simp: for_each_eq_Ok checked_add_eq_None two not_le d c cong: ball_cong_simp split: if_splits)
  also have "\<dots> \<longleftrightarrow> (\<forall>r \<in> set ?R. rr_reserved r = [0, 0] \<and> unat (rr_offset r) + unat (rr_size r) < 2 ^ 32 \<and>
       (rr_kind r = REGION_KIND_CONTAINER \<longrightarrow> container_ok v r)) \<and>
      distinct (map (\<lambda>r. name_of v (rr_name_offset r)) ?R)"
    unfolding all_set_conv_all_nth distinct_prefix [symmetric] by auto
  finally show ?thesis .
qed

lemma validate_files_eq_Ok:
  assumes "\<And>e. e \<in> set (mv_entries v) \<Longrightarrow> er_kind e = ENTRY_KIND_FILE \<Longrightarrow>
      is_ok (decode_file_type (er_file_type e)) \<and>
      unat (er_first_segment e) + unat (er_segment_count e) \<le> length (mv_segments v)"
    and "2 ^ 32 - 1 \<le> um"
  shows "validate_files um v = Ok () \<longleftrightarrow>
    (\<forall>e \<in> set (mv_entries v). er_kind e = ENTRY_KIND_FILE \<longrightarrow> file_ok v e)"
proof -
  have sz: "unat (w :: u32) \<le> um" for w
    using unat_32_less [of w] assms(2) by simp
  have "(if er_kind e \<noteq> ENTRY_KIND_FILE then Ok ()
       else if er_segment_count e = 0 \<or> er_digest_flags e \<noteq> DIGEST_SHA256 \<or>
               er_sha3_256 e \<noteq> replicate 32 0 \<or> er_fill e \<noteq> 0
       then Err DeserializeError
       else let first = unat (er_first_segment e)
            in rbind (slice (mv_segments v) first (first + unat (er_segment_count e)))
                 (for_each (\<lambda>s. checked_range um (unat (er_size e)) (unat (sr_offset s))
                    (unat (sr_stored_size s))))) = Ok () \<longleftrightarrow>
      (er_kind e = ENTRY_KIND_FILE \<longrightarrow> file_ok v e)" if "e \<in> set (mv_entries v)" for e
    using assms(1) [OF that]
    by (auto simp: file_ok_def Let_def slice_inside for_each_eq_Ok checked_range_eq_Ok [OF sz] child_segments_def)
  then show ?thesis
    by (simp add: validate_files_def for_each_eq_Ok)
qed

lemma length_filter_1: "length (filter P xs) = 1 \<longleftrightarrow> (\<exists>!k. k < length xs \<and> P (xs ! k))"
  by (auto simp: length_filter_conv_card card_1_singleton_iff set_eq_iff Ex1_def)

lemma validate_partition_eq_Ok:
  "validate_partition v = Ok () \<longleftrightarrow>
     (\<forall>i < length (mv_entries v). \<exists>!k. k < length (mv_regions v) \<and> owns_entry i (mv_regions v ! k)) \<and>
     (\<forall>i < length (mv_segments v). \<exists>!k. k < length (mv_entries v) \<and> owns_segment i (mv_entries v ! k))"
proof -
  have "validate_partition v = Ok () \<longleftrightarrow>
     (\<forall>i < length (mv_entries v). length (filter (owns_entry i) (mv_regions v)) = 1) \<and>
     (\<forall>i < length (mv_segments v). length (filter (owns_segment i) (mv_entries v)) = 1)"
    by (auto simp: validate_partition_def for_each_eq_Ok split: if_splits)
  then show ?thesis
    by (simp only: length_filter_1)
qed

lemma unat_ucast_u32 [simp]: "unat (ucast (w :: u32) :: u64) = unat w"
  by (simp add: unsigned_ucast_eq take_bit_nat_eq_self unat_32_less less_trans [OF unat_32_less])

lemma rbind_unit_eq_Ok: "rbind m f = Ok y \<longleftrightarrow> m = Ok () \<and> f () = Ok y"
  by (cases m) auto

lemma workspace_check_eq_Ok:
  fixes a b w :: u32
  shows "rbind (ok_or (checked_add a b) OutOfBounds) (\<lambda>need. if w < need then Err DeserializeError else Ok ()) = Ok () \<longleftrightarrow>
    unat a + unat b \<le> unat w"
  using unat_32_less [of w]
  by (auto simp: checked_add_def ok_or_def word_less_nat_alt unat_checked_add split: if_splits)

lemma validate_segment_eq_Ok: "validate_segment v s = Ok () \<longleftrightarrow> segment_ok v s"
proof (cases "named v (sr_name_offset s) \<and> is_ok (decode_segment_kind (sr_kind s)) \<and>
    is_ok (decode_compression (sr_compression s))")
  case True
  then obtain n kind comp where "mv_string v (sr_name_offset s) = Ok n"
    "decode_segment_kind (sr_kind s) = Ok kind" "decode_compression (sr_compression s) = Ok comp"
    by (auto simp: named_def is_ok_iff)
  then show ?thesis
    by (cases comp; cases kind)
      (auto simp: validate_segment_def segment_ok_def bss_ok_def stored_ok_def named_def
        checked_add_eq_None word_less_nat_alt [of "sr_loaded_size s"] rbind_unit_eq_Ok workspace_check_eq_Ok
        simp del: rbind_eq_Ok split: if_splits)
next
  case False
  have "validate_segment v s \<noteq> Ok ()"
    using False unfolding validate_segment_def named_def
    by (cases "mv_string v (sr_name_offset s)"; cases "decode_segment_kind (sr_kind s)";
        cases "decode_compression (sr_compression s)") (simp_all del: rbind_eq_Ok)
  moreover have "\<not> segment_ok v s"
    using False by (auto simp: segment_ok_def bss_ok_def stored_ok_def)
  ultimately show ?thesis by simp
qed

lemma mv_validate_eq_Ok:
  assumes "2 ^ 32 - 1 \<le> um" "length (mv_entries v) \<le> um" "length (mv_segments v) \<le> um"
  shows "mv_validate um v = Ok () \<longleftrightarrow> valid_view v"
proof (cases "validate_region_kinds um v = Ok () \<and> validate_entry_kinds um v = Ok ()")
  case True
  note k = validate_region_kinds_eq_Ok [OF assms(2)] validate_entry_kinds_eq_Ok [OF assms(3)]
  have n: "named v (er_name_offset e)" if "e \<in> set (mv_entries v)" for e
    using True that by (simp add: k)
  have "validate_regions um v = Ok () \<longleftrightarrow>
    (\<forall>r \<in> set (mv_regions v). rr_reserved r = [0, 0] \<and> unat (rr_offset r) + unat (rr_size r) < 2 ^ 32 \<and>
       (rr_kind r = REGION_KIND_CONTAINER \<longrightarrow> container_ok v r)) \<and>
    distinct (map (\<lambda>r. name_of v (rr_name_offset r)) (mv_regions v))"
    using True n assms(1)
    by (intro validate_regions_eq_Ok validate_children_eq_Ok) (auto simp: k kind_defs)
  moreover have "validate_files um v = Ok () \<longleftrightarrow>
    (\<forall>e \<in> set (mv_entries v). er_kind e = ENTRY_KIND_FILE \<longrightarrow> file_ok v e)"
    using True assms(1) by (intro validate_files_eq_Ok) (auto simp: k kind_defs)
  ultimately have "mv_validate um v = Ok () \<longleftrightarrow>
     ((\<forall>r \<in> set (mv_regions v). rr_reserved r = [0, 0] \<and> unat (rr_offset r) + unat (rr_size r) < 2 ^ 32 \<and>
         (rr_kind r = REGION_KIND_CONTAINER \<longrightarrow> container_ok v r)) \<and>
      distinct (map (\<lambda>r. name_of v (rr_name_offset r)) (mv_regions v))) \<and>
     (\<forall>e \<in> set (mv_entries v). er_kind e = ENTRY_KIND_FILE \<longrightarrow> file_ok v e) \<and>
     validate_partition v = Ok () \<and> (\<forall>s \<in> set (mv_segments v). segment_ok v s)"
    using True by (simp add: mv_validate_def for_each_eq_Ok validate_segment_eq_Ok)
  also have "\<dots> \<longleftrightarrow> valid_view v"
  proof -
    have "region_ok v r \<longleftrightarrow> rr_reserved r = [0, 0] \<and> unat (rr_offset r) + unat (rr_size r) < 2 ^ 32 \<and>
         (rr_kind r = REGION_KIND_CONTAINER \<longrightarrow> container_ok v r)" if "r \<in> set (mv_regions v)" for r
      using True that by (auto simp: k region_ok_def kind_defs)
    moreover have "entry_ok v e \<longleftrightarrow> (er_kind e = ENTRY_KIND_FILE \<longrightarrow> file_ok v e)" if "e \<in> set (mv_entries v)" for e
      using True that by (auto simp: k entry_ok_def kind_defs)
    ultimately show ?thesis
      by (simp add: valid_view_def validate_partition_eq_Ok conj_ac)
  qed
  finally show ?thesis .
next
  case False
  then have "\<not> valid_view v"
    unfolding validate_region_kinds_eq_Ok [OF assms(2)] validate_entry_kinds_eq_Ok [OF assms(3)] valid_view_def
    by (auto simp: region_ok_def container_ok_def entry_ok_def file_ok_def)
  moreover have "mv_validate um v \<noteq> Ok ()"
    using False by (auto simp: mv_validate_def)
  ultimately show ?thesis by simp
qed

lemma parsed_valid:
  assumes "manifest_parse um b = Ok v" and "2 ^ 32 - 1 \<le> um"
  shows "valid_view v"
proof -
  have w: "wf_tables v" "length (view_bytes v) \<le> um" "mv_validate um v = Ok ()"
    using manifest_wire.dec_wf [OF assms(1)] by (auto simp: wf_view_def)
  then have "length (mv_entries v) \<le> um" "length (mv_segments v) \<le> um"
    using length_view_bytes [OF w(1)] by auto
  then show ?thesis
    using mv_validate_eq_Ok [OF assms(2)] w(3) by simp
qed

lemmas valid_viewD = valid_view_def [THEN iffD1]

section \<open>Lookups on a valid directory\<close>

definition the_file_view :: "manifest_view \<Rightarrow> region_record \<Rightarrow> entry_record \<Rightarrow> file_view" where
  "the_file_view v r e = \<lparr>fv_entry = e, fv_region_offset = rr_offset r, fv_segments = child_segments v e,
     fv_strings = mv_strings v\<rparr>"

definition files_where :: "manifest_view \<Rightarrow> (entry_record \<Rightarrow> bool) \<Rightarrow> file_view list" where
  "files_where v p = concat (map (\<lambda>r. map (the_file_view v r)
     (filter (\<lambda>e. er_kind e = ENTRY_KIND_FILE \<and> p e) (child_entries v r)))
     (filter (\<lambda>r. rr_kind r = REGION_KIND_CONTAINER) (mv_regions v)))"

definition the_only :: "'a list \<Rightarrow> (reader_error, 'a) result" where
  "the_only xs = (case xs of [] \<Rightarrow> Err FileNotFound | [x] \<Rightarrow> Ok x | _ \<Rightarrow> Err DeserializeError)"

definition at_most_one :: "'a list \<Rightarrow> (reader_error, 'a option) result" where
  "at_most_one xs = (case xs of [] \<Rightarrow> Ok None | [x] \<Rightarrow> Ok (Some x) | _ \<Rightarrow> Err DeserializeError)"

lemma at_most_one_bind:
  "rbind (at_most_one xs) (\<lambda>f. at_most_one (option_list f @ ys)) = at_most_one (xs @ ys)"
  if "option_list = case_option [] (\<lambda>x. [x])"
  using that by (cases xs; cases "tl xs"; cases ys) (auto simp: at_most_one_def split: list.splits)

lemma container_okD:
  "valid_view v \<Longrightarrow> r \<in> set (mv_regions v) \<Longrightarrow> rr_kind r = REGION_KIND_CONTAINER \<Longrightarrow> container_ok v r"
  by (auto simp: valid_view_def region_ok_def kind_defs)

lemma child_entry_in: "e \<in> set (child_entries v r) \<Longrightarrow> e \<in> set (mv_entries v)"
  using set_sub by (fastforce simp: child_entries_def)

lemma child_segment_in: "s \<in> set (child_segments v e) \<Longrightarrow> s \<in> set (mv_segments v)"
  using set_sub by (fastforce simp: child_segments_def)

lemma file_okD:
  "valid_view v \<Longrightarrow> e \<in> set (mv_entries v) \<Longrightarrow> er_kind e = ENTRY_KIND_FILE \<Longrightarrow> file_ok v e"
  by (auto simp: valid_view_def entry_ok_def kind_defs)

lemma mv_file_view_ok:
  assumes "file_ok v e" and "length (mv_segments v) \<le> um"
  shows "mv_file_view um v r e = Ok (the_file_view v r e)"
proof -
  have "unat (er_first_segment e) + unat (er_segment_count e) \<le> length (mv_segments v)"
    using assms(1) by (simp add: file_ok_def)
  then show ?thesis
    using assms(2) checked_range_eq_Ok [of "length (mv_segments v)" um]
    by (simp add: mv_file_view_def Let_def slice_inside the_file_view_def child_segments_def)
qed

lemma find_in_entries_eq:
  assumes "\<And>e. e \<in> set es \<Longrightarrow> hit e = Ok (er_kind e = ENTRY_KIND_FILE \<and> p e)"
    and "\<And>e. e \<in> set es \<Longrightarrow> er_kind e = ENTRY_KIND_FILE \<Longrightarrow> mv_file_view um v r e = Ok (the_file_view v r e)"
  shows "find_in_entries um v hit r found es = at_most_one (case_option [] (\<lambda>x. [x]) found @
    map (the_file_view v r) (filter (\<lambda>e. er_kind e = ENTRY_KIND_FILE \<and> p e) es))"
  using assms by (induction es arbitrary: found)
    (auto simp: at_most_one_def split: option.splits)

lemma find_in_regions_eq:
  assumes v: "valid_view v" "length (mv_segments v) \<le> um"
    and hit: "\<And>e. e \<in> set (mv_entries v) \<Longrightarrow> hit e = Ok (er_kind e = ENTRY_KIND_FILE \<and> p e)"
    and "set rs \<subseteq> set (mv_regions v)"
  shows "find_in_regions um v hit found rs = at_most_one (case_option [] (\<lambda>x. [x]) found @
    concat (map (\<lambda>r. map (the_file_view v r) (filter (\<lambda>e. er_kind e = ENTRY_KIND_FILE \<and> p e) (child_entries v r)))
     (filter (\<lambda>r. rr_kind r = REGION_KIND_CONTAINER) rs)))"
  using assms(4)
proof (induction rs arbitrary: found)
  case Nil
  then show ?case by (cases found) (auto simp: at_most_one_def)
next
  case (Cons r rs)
  show ?case
  proof (cases "rr_kind r = REGION_KIND_CONTAINER")
    case True
    let ?ms = "map (the_file_view v r) (filter (\<lambda>e. er_kind e = ENTRY_KIND_FILE \<and> p e) (child_entries v r))"
    have s: "slice (mv_entries v) (unat (rr_first_entry r)) (unat (rr_first_entry r) + unat (rr_entry_count r)) =
        (Ok (child_entries v r) :: (reader_error, _) result)"
      using container_okD [OF v(1) _ True] Cons.prems by (simp add: container_ok_def slice_inside child_entries_def)
    have e: "find_in_entries um v hit r found (child_entries v r) =
        at_most_one (case_option [] (\<lambda>x. [x]) found @ ?ms)"
      using hit child_entry_in file_okD [OF v(1)] mv_file_view_ok [OF _ v(2)]
      by (intro find_in_entries_eq) blast+
    show ?thesis
      using True s e Cons.prems at_most_one_bind [OF refl, of "case_option [] (\<lambda>x. [x]) found @ ?ms"]
      by (simp add: Cons.IH Let_def)
  qed (use Cons in simp)
qed

lemma the_only_at_most_one: "rbind (at_most_one xs) (\<lambda>f. ok_or f FileNotFound) = the_only xs"
  by (cases xs; cases "tl xs") (auto simp: at_most_one_def the_only_def)

lemma find_file_eq:
  assumes "valid_view v" "length (mv_segments v) \<le> um"
  shows "find_file_by_type um v ft = the_only (files_where v (\<lambda>e. er_file_type e = encode_file_type ft))"
    and "find_file_by_name um v n = the_only (files_where v (\<lambda>e. name_of v (er_name_offset e) = n))"
proof -
  have named: "mv_string v (er_name_offset e) = Ok (name_of v (er_name_offset e))" if "e \<in> set (mv_entries v)" for e
    using assms(1) that by (simp add: valid_view_def entry_ok_def named_iff)
  show "find_file_by_type um v ft = the_only (files_where v (\<lambda>e. er_file_type e = encode_file_type ft))"
    using find_in_regions_eq [OF assms, of _ "\<lambda>e. er_file_type e = encode_file_type ft"]
    by (simp add: find_file_by_type_def the_only_at_most_one files_where_def)
  show "find_file_by_name um v n = the_only (files_where v (\<lambda>e. name_of v (er_name_offset e) = n))"
    using find_in_regions_eq [OF assms, of _ "\<lambda>e. name_of v (er_name_offset e) = n"] named
    by (simp add: find_file_by_name_def the_only_at_most_one files_where_def)
qed

lemma raw_region_loop_eq:
  assumes "\<And>r. r \<in> set rs \<Longrightarrow> named v (rr_name_offset r)"
    and "distinct (map (\<lambda>r. name_of v (rr_name_offset r)) rs)"
    and "found \<noteq> None \<Longrightarrow> n \<notin> (\<lambda>r. name_of v (rr_name_offset r)) ` set rs"
  shows "raw_region_loop v n found rs =
    (case find (\<lambda>r. name_of v (rr_name_offset r) = n) rs of None \<Rightarrow> Ok found
     | Some r \<Rightarrow> if rr_kind r = REGION_KIND_RAW then Ok (Some (rr_offset r, rr_size r, rr_fill r))
                else Err DeserializeError)"
  using assms
proof (induction rs arbitrary: found)
  case (Cons r rs)
  have "find (\<lambda>r. name_of v (rr_name_offset r) = n) rs = None" if "name_of v (rr_name_offset r) = n"
  proof -
    have "n \<notin> (\<lambda>r. name_of v (rr_name_offset r)) ` set rs"
      using Cons.prems(2) that by simp
    then show ?thesis
      by (simp only: find_None_iff image_iff) blast
  qed
  then show ?case
    using Cons by (auto simp: named_iff)
qed simp

lemma slice_children:
  "valid_view v \<Longrightarrow> r \<in> set (mv_regions v) \<Longrightarrow> rr_kind r = REGION_KIND_CONTAINER \<Longrightarrow>
     slice (mv_entries v) (unat (rr_first_entry r)) (unat (rr_first_entry r) + unat (rr_entry_count r)) =
       Ok (child_entries v r)"
  using container_okD [of v r] by (simp add: container_ok_def slice_inside child_entries_def)

lemma slice_segments:
  "valid_view v \<Longrightarrow> e \<in> set (mv_entries v) \<Longrightarrow> er_kind e = ENTRY_KIND_FILE \<Longrightarrow>
     slice (mv_segments v) (unat (er_first_segment e)) (unat (er_first_segment e) + unat (er_segment_count e)) =
       Ok (child_segments v e)"
  using file_okD [of v e] by (simp add: file_ok_def slice_inside child_segments_def)

lemma push_each_not_Panic:
  "(\<And>x. x \<in> set xs \<Longrightarrow> f x \<noteq> Panic) \<Longrightarrow> push_each cap f acc xs \<noteq> Panic"
  by (induction cap f acc xs rule: push_each.induct) (auto simp: rbind_eq_Panic)

lemma decode_not_Panic [simp]:
  "decode_file_type x \<noteq> Panic" "decode_segment_kind x \<noteq> Panic" "decode_compression x \<noteq> Panic"
  "hstring cap s \<noteq> Panic"
  by (simp_all add: decode_file_type_def decode_segment_kind_def decode_compression_def hstring_def)

lemma entry_to_owned_not_Panic:
  assumes "valid_view v" "e \<in> set (mv_entries v)"
  shows "entry_to_owned v e \<noteq> Panic"
proof -
  have "segment_to_owned (mv_strings v) s \<noteq> Panic" for s
    by (simp add: segment_to_owned_def rbind_eq_Panic)
  then have "push_each 12 (segment_to_owned (mv_strings v)) [] ss \<noteq> Panic" for ss
    by (intro push_each_not_Panic)
  then show ?thesis
    using slice_segments [OF assms, where 'a = reader_error]
    by (simp add: entry_to_owned_def rbind_eq_Panic Let_def)
qed

lemma to_owned_manifest_not_Panic:
  assumes "valid_view v"
  shows "to_owned_manifest v \<noteq> Panic"
proof -
  have "region_to_owned v r \<noteq> Panic" if "r \<in> set (mv_regions v)" for r
  proof -
    have "push_each 8 (entry_to_owned v) [] (child_entries v r) \<noteq> Panic"
      using entry_to_owned_not_Panic [OF assms] child_entry_in by (intro push_each_not_Panic) blast
    then show ?thesis
      using slice_children [OF assms that, where 'a = reader_error]
      by (simp add: region_to_owned_def rbind_eq_Panic Let_def)
  qed
  then have "push_each MAX_IMAGE_REGIONS (region_to_owned v) [] (mv_regions v) \<noteq> Panic"
    by (intro push_each_not_Panic)
  then show ?thesis
    by (simp add: to_owned_manifest_def rbind_eq_Panic)
qed

lemma distinct_names_not_Panic [simp]: "for_each (\<lambda>prev. distinct_name v a (f prev)) xs \<noteq> Panic"
  by (rule for_each_not_Panic) (simp add: distinct_name_def rbind_eq_Panic)

lemma ranges_not_Panic [simp]: "for_each (\<lambda>s. checked_range um n (f s) (g s)) xs \<noteq> Panic"
  by (rule for_each_not_Panic) (rule checked_range_not_Panic)

lemma mv_validate_not_Panic:
  assumes "length (mv_entries v) \<le> um" "length (mv_segments v) \<le> um"
  shows "mv_validate um v \<noteq> Panic"
proof
  assume p: "mv_validate um v = Panic"
  have np: "validate_region_kinds um v \<noteq> Panic" "validate_entry_kinds um v \<noteq> Panic" "validate_partition v \<noteq> Panic"
      "for_each (validate_segment v) (mv_segments v) \<noteq> Panic"
    unfolding validate_region_kinds_def validate_entry_kinds_def validate_partition_def rbind_eq_Panic
    by (auto simp: rbind_eq_Panic checked_range_not_Panic validate_segment_def intro!: for_each_not_Panic
        split: if_splits)
  have k: "validate_region_kinds um v = Ok ()" "validate_entry_kinds um v = Ok ()"
    using p np by (auto simp: mv_validate_def rbind_eq_Panic)
  have "validate_children um v r \<noteq> Panic" if "r \<in> set (mv_regions v)" "rr_kind r = REGION_KIND_CONTAINER" for r
    using k(1) that assms(1)
    by (auto simp: validate_region_kinds_eq_Ok validate_children_def Let_def slice_inside rbind_eq_Panic
        checked_range_not_Panic kind_defs intro!: for_each_not_Panic)
  then have "validate_regions um v \<noteq> Panic"
    unfolding validate_regions_def
    by (intro for_each_not_Panic)
      (auto simp: rbind_eq_Panic in_set_enumerate_eq split: if_splits)
  moreover have "validate_files um v \<noteq> Panic"
    unfolding validate_files_def using k(2) assms(2)
    by (intro for_each_not_Panic)
      (auto simp: validate_entry_kinds_eq_Ok rbind_eq_Panic Let_def slice_inside kind_defs split: if_splits)
  ultimately show False
    using p np by (auto simp: mv_validate_def rbind_eq_Panic)
qed

lemma manifest_parse_not_Panic: "manifest_parse um b \<noteq> Panic"
proof -
  have "mv_validate um \<lparr>mv_regions = table_at 24 rr_at rb R, mv_entries = table_at 88 er_at eb E,
      mv_segments = table_at 100 sr_at sb S, mv_strings = t\<rparr> \<noteq> Panic"
    if "88 * E \<le> um" "100 * S \<le> um" for rb R eb E sb S t
    using that by (intro mv_validate_not_Panic) auto
  then show ?thesis
    by (auto simp: manifest_parse_def Let_def rbind_eq_Panic split: if_splits)
qed

lemma files_where_inside:
  assumes v: "valid_view v" and f: "f \<in> set (files_where v p)"
  shows "\<exists>r \<in> set (mv_regions v). fv_region_offset f = rr_offset r \<and> fv_entry f \<in> set (child_entries v r) \<and>
    unat (rr_offset r) + unat (rr_size r) < 2 ^ 32 \<and>
    unat (er_offset (fv_entry f)) + unat (er_size (fv_entry f)) \<le> unat (rr_size r) \<and>
    (\<forall>s \<in> set (fv_segments f). unat (sr_offset s) + unat (sr_stored_size s) \<le> unat (er_size (fv_entry f)))"
proof -
  obtain r e where r: "r \<in> set (mv_regions v)" "rr_kind r = REGION_KIND_CONTAINER" "e \<in> set (child_entries v r)"
      "er_kind e = ENTRY_KIND_FILE" "f = the_file_view v r e"
    using f by (auto simp: files_where_def)
  have "file_ok v e"
    using file_okD [OF v _ r(4)] child_entry_in [OF r(3)] by blast
  then have "\<forall>s \<in> set (fv_segments f). unat (sr_offset s) + unat (sr_stored_size s) \<le> unat (er_size e)"
    using r(5) by (auto simp: file_ok_def the_file_view_def)
  moreover have "unat (er_offset e) + unat (er_size e) \<le> unat (rr_size r)"
    using container_okD [OF v r(1,2)] r(3) by (simp add: container_ok_def)
  moreover have "unat (rr_offset r) + unat (rr_size r) < 2 ^ 32"
    using v r(1) by (simp add: valid_view_def region_ok_def)
  ultimately show ?thesis
    using r(1,3,5) by (intro bexI [of _ r]) (auto simp: the_file_view_def)
qed

lemma parsed_segments_bound:
  assumes "manifest_parse um b = Ok v"
  shows "length (mv_segments v) \<le> um"
proof -
  have w: "wf_tables v" "length (view_bytes v) \<le> um"
    using manifest_wire.dec_wf [OF assms] by (auto simp: wf_view_def)
  then show ?thesis
    using length_view_bytes [OF w(1)] by simp
qed

section \<open>Properties\<close>

text \<open>
  C12: A directory is accepted exactly when its bytes are the header, tables and string
  table of the view that is returned, with nothing before, between or after them, and
  the view is valid: names are NUL-terminated UTF-8 and unique, children lie inside
  their parents without any sum wrapping, every entry belongs to exactly one container
  and every segment to exactly one file, and each segment has the digests, sizes and
  workspace its kind and compression demand.
\<close>

theorem manifest_parse_accepts_iff:
  assumes "2 ^ 32 - 1 \<le> um"
  shows "manifest_parse um b = Ok v \<longleftrightarrow>
    view_bytes v = b \<and> wf_tables v \<and> length b \<le> um \<and> valid_view v"
proof -
  have "mv_validate um v = Ok () \<longleftrightarrow> valid_view v" if "wf_tables v" "length (view_bytes v) \<le> um"
    using mv_validate_eq_Ok [OF assms, of v] length_view_bytes [OF that(1)] that(2) by simp
  then show ?thesis
    using manifest_wire.dec_eq_Ok_iff [of um b v] by (auto simp: wf_view_def)
qed

text \<open>
  C32: No input makes the directory code panic: parsing never does, and on a view that
  parsing returned neither does any lookup or the conversion to the owned tree. Every
  slice expression of these functions is in range.
\<close>

theorem directory_never_panics:
  assumes "2 ^ 32 - 1 \<le> um"
  shows "manifest_parse um b \<noteq> Panic \<and>
    (manifest_parse um b = Ok v \<longrightarrow> find_file_by_type um v ft \<noteq> Panic \<and>
       find_file_by_name um v n \<noteq> Panic \<and> raw_region v n \<noteq> Panic \<and> to_owned_manifest v \<noteq> Panic)"
proof -
  have "find_file_by_type um v ft \<noteq> Panic \<and> find_file_by_name um v n \<noteq> Panic \<and>
      raw_region v n \<noteq> Panic \<and> to_owned_manifest v \<noteq> Panic" if p: "manifest_parse um b = Ok v"
  proof -
    have v: "valid_view v"
      by (rule parsed_valid [OF p assms])
    have "raw_region v n \<noteq> Panic"
      using v by (subst raw_region_def, subst raw_region_loop_eq)
        (auto simp: valid_view_def region_ok_def split: option.splits)
    then show ?thesis
      using find_file_eq [OF v parsed_segments_bound [OF p]] to_owned_manifest_not_Panic [OF v]
      by (simp add: the_only_def split: list.splits)
  qed
  then show ?thesis
    by (simp add: manifest_parse_not_Panic)
qed

text \<open>
  C26: Lookups are by identity. In a parsed directory, a lookup by type or by name returns
  the file when exactly one file entry of the containers matches, reports an absent file
  when none does, and an error when the choice would be ambiguous; a raw region is found by
  its name, and a container of that name is an error, not a reservation.
\<close>

theorem directory_lookups:
  assumes "manifest_parse um b = Ok v" and "2 ^ 32 - 1 \<le> um"
  shows "find_file_by_type um v ft = the_only (files_where v (\<lambda>e. er_file_type e = encode_file_type ft)) \<and>
    find_file_by_name um v n = the_only (files_where v (\<lambda>e. name_of v (er_name_offset e) = n)) \<and>
    raw_region v n = (case find (\<lambda>r. name_of v (rr_name_offset r) = n) (mv_regions v) of
        None \<Rightarrow> Ok None
      | Some r \<Rightarrow> if rr_kind r = REGION_KIND_RAW then Ok (Some (rr_offset r, rr_size r, rr_fill r))
                 else Err DeserializeError)"
proof -
  have v: "valid_view v"
    by (rule parsed_valid [OF assms])
  have "raw_region v n = (case find (\<lambda>r. name_of v (rr_name_offset r) = n) (mv_regions v) of
        None \<Rightarrow> Ok None
      | Some r \<Rightarrow> if rr_kind r = REGION_KIND_RAW then Ok (Some (rr_offset r, rr_size r, rr_fill r))
                 else Err DeserializeError)"
    unfolding raw_region_def using v
    by (intro raw_region_loop_eq) (auto simp: valid_view_def region_ok_def)
  then show ?thesis
    using find_file_eq [OF v parsed_segments_bound [OF assms(1)]] by simp
qed

text \<open>
  C25: A file found by its name or by its type in a parsed directory is an entry of a region, the region ends
  below 4 GiB, the file lies inside the region and the stored bytes of each of its segments lie inside the file,
  all in unbounded arithmetic: no media range of the file wraps.
\<close>

theorem found_file_inside_region:
  assumes "manifest_parse um b = Ok v" and "2 ^ 32 - 1 \<le> um"
    and "find_file_by_name um v n = Ok f \<or> find_file_by_type um v ft = Ok f"
  shows "\<exists>r \<in> set (mv_regions v). fv_region_offset f = rr_offset r \<and> fv_entry f \<in> set (child_entries v r) \<and>
    unat (rr_offset r) + unat (rr_size r) < 2 ^ 32 \<and>
    unat (er_offset (fv_entry f)) + unat (er_size (fv_entry f)) \<le> unat (rr_size r) \<and>
    (\<forall>s \<in> set (fv_segments f). unat (sr_offset s) + unat (sr_stored_size s) \<le> unat (er_size (fv_entry f)))"
proof -
  have v: "valid_view v"
    by (rule parsed_valid [OF assms(1,2)])
  have only: "the_only fs = Ok f \<Longrightarrow> f \<in> set fs" for fs
    by (auto simp: the_only_def split: list.splits)
  have "\<exists>p. f \<in> set (files_where v p)"
    using assms(3) unfolding find_file_eq [OF v parsed_segments_bound [OF assms(1)]] by (blast dest: only)
  then show ?thesis
    using files_where_inside [OF v] by blast
qed

section \<open>A concrete directory\<close>

definition sample_view :: manifest_view where
  "sample_view = \<lparr>
     mv_regions = [
       \<lparr>rr_name_offset = 0, rr_offset = 0x1000, rr_size = 0x800, rr_first_entry = 0, rr_entry_count = 1,
        rr_kind = 1, rr_fill = 0, rr_reserved = [0, 0]\<rparr>,
       \<lparr>rr_name_offset = 13, rr_offset = 0x2000, rr_size = 0x100, rr_first_entry = 1, rr_entry_count = 0,
        rr_kind = 2, rr_fill = 0xff, rr_reserved = [0, 0]\<rparr>],
     mv_entries = [
       \<lparr>er_name_offset = 3, er_offset = 0x40, er_size = 16, er_first_segment = 0, er_segment_count = 1,
        er_file_type = 1, er_kind = 1, er_fill = 0, er_digest_flags = 1,
        er_sha256 = replicate 32 7, er_sha3_256 = replicate 32 0\<rparr>],
     mv_segments = [
       \<lparr>sr_name_offset = 8, sr_offset = 0, sr_stored_size = 16, sr_loaded_size = 32, sr_in_place_size = 0,
        sr_load_addr = 0x80000000, sr_kind = 1, sr_compression = 0, sr_flags = 5, sr_reserved = 0,
        sr_initialized_size = 16, sr_stored_digest = replicate 32 9, sr_loaded_digest = replicate 32 9\<rparr>],
     mv_strings = [0x72, 0x6f, 0, 0x62, 0x6f, 0x6f, 0x74, 0, 0x74, 0x65, 0x78, 0x74, 0, 0x6e, 0x76, 0]\<rparr>"

lemmas sample_view_sel = arg_cong [OF sample_view_def, of mv_regions, simplified]
  arg_cong [OF sample_view_def, of mv_entries, simplified]
  arg_cong [OF sample_view_def, of mv_segments, simplified]

lemma sample_names:
  "mv_string sample_view 0 = Ok [0x72, 0x6f]" "mv_string sample_view 3 = Ok [0x62, 0x6f, 0x6f, 0x74]"
  "mv_string sample_view 8 = Ok [0x74, 0x65, 0x78, 0x74]" "mv_string sample_view 13 = Ok [0x6e, 0x76]"
  by (simp_all add: mv_string_def string_at_def sample_view_def get_from_def ok_or_def)

lemma sample_validate: "mv_validate 0xffffffff sample_view = Ok ()"
proof -
  have two: "replicate 2 (0 :: u8) = [0, 0]"
    by (simp add: numeral_2_eq_2)
  have "validate_region_kinds 0xffffffff sample_view = Ok ()"
    by (simp add: sample_names validate_region_kinds_def sample_view_sel kind_defs checked_range_def ok_or_def usize_add_def)
  moreover have "validate_entry_kinds 0xffffffff sample_view = Ok ()"
    by (simp add: sample_names validate_entry_kinds_def sample_view_sel kind_defs checked_range_def ok_or_def usize_add_def decode_file_type_def)
  moreover have "validate_regions 0xffffffff sample_view = Ok ()"
    by (simp add: sample_names validate_regions_def validate_children_def sample_view_sel kind_defs
      checked_range_def ok_or_def usize_add_def checked_add_def distinct_name_def slice_def get_range_def sub_def two)
  moreover have "validate_files 0xffffffff sample_view = Ok ()"
    by (simp add: validate_files_def sample_view_sel kind_defs checked_range_def ok_or_def usize_add_def slice_def get_range_def sub_def)
  moreover have "validate_partition sample_view = Ok ()"
    by (simp add: validate_partition_def sample_view_sel kind_defs owns_entry_def owns_segment_def)
  moreover have "for_each (validate_segment sample_view) (mv_segments sample_view) = Ok ()"
    by (simp add: sample_names validate_segment_def sample_view_sel kind_defs decode_segment_kind_def decode_compression_def checked_add_def)
  ultimately show ?thesis by (simp add: mv_validate_def)
qed
lemma sample_wf: "wf_view 0xffffffff sample_view"
proof -
  have w: "wf_tables sample_view"
    by (simp add: wf_tables_def sample_view_def wf_rr_def wf_er_def wf_sr_def)
  then show ?thesis
   by (simp add: wf_view_def sample_validate length_view_bytes) (simp add: sample_view_def)
qed

lemma sample_parse: "manifest_parse 0xffffffff (view_bytes sample_view) = Ok sample_view"
  by (rule manifest_wire.dec_enc [OF sample_wf])

lemma sample_files:
  "files_where sample_view (\<lambda>e. name_of sample_view (er_name_offset e) = [0x62, 0x6f, 0x6f, 0x74]) =
   [the_file_view sample_view (mv_regions sample_view ! 0) (mv_entries sample_view ! 0)]"
  by (simp add: files_where_def sample_view_sel kind_defs child_entries_def sub_def name_of_def sample_names)

theorem manifest_parse_accepts_iff_witness:
  "manifest_parse 0xffffffff (view_bytes sample_view) = Ok sample_view \<and> valid_view sample_view"
  using manifest_parse_accepts_iff [of "0xffffffff" "view_bytes sample_view" sample_view] sample_parse by simp

theorem directory_never_panics_witness:
  "manifest_parse 0xffffffff (view_bytes sample_view) \<noteq> Panic \<and> to_owned_manifest sample_view \<noteq> Panic"
  using directory_never_panics [of "0xffffffff" "view_bytes sample_view" sample_view StageCode "[]"] sample_parse
  by simp

theorem directory_lookups_witness:
  "find_file_by_name 0xffffffff sample_view [0x62, 0x6f, 0x6f, 0x74] =
     Ok (the_file_view sample_view (mv_regions sample_view ! 0) (mv_entries sample_view ! 0)) \<and>
   raw_region sample_view [0x6e, 0x76] = Ok (Some (0x2000, 0x100, 0xff)) \<and>
   raw_region sample_view [0x72, 0x6f] = Err DeserializeError"
  using directory_lookups [OF sample_parse, of StageCode "[0x62, 0x6f, 0x6f, 0x74]"]
    directory_lookups [OF sample_parse, of StageCode "[0x6e, 0x76]"]
    directory_lookups [OF sample_parse, of StageCode "[0x72, 0x6f]"]
  by (simp add: sample_files the_only_def) (simp add: sample_view_sel name_of_def sample_names kind_defs)

theorem found_file_inside_region_witness:
  "\<exists>f s. find_file_by_name 0xffffffff sample_view [0x62, 0x6f, 0x6f, 0x74] = Ok f \<and> s \<in> set (fv_segments f) \<and>
    unat (sr_offset s) + unat (sr_stored_size s) \<le> unat (er_size (fv_entry f)) \<and>
    (\<exists>r \<in> set (mv_regions sample_view). unat (er_offset (fv_entry f)) + unat (er_size (fv_entry f)) \<le> unat (rr_size r))"
proof -
  let ?f = "the_file_view sample_view (mv_regions sample_view ! 0) (mv_entries sample_view ! 0)"
  have f: "find_file_by_name 0xffffffff sample_view [0x62, 0x6f, 0x6f, 0x74] = Ok ?f"
    using find_file_eq(2) [OF parsed_valid [OF sample_parse] parsed_segments_bound [OF sample_parse]]
    by (simp add: sample_files the_only_def)
  have "mv_segments sample_view ! 0 \<in> set (fv_segments ?f)"
    by (simp add: the_file_view_def child_segments_def sample_view_sel sub_def)
  then show ?thesis
    using found_file_inside_region [OF sample_parse, of "[0x62, 0x6f, 0x6f, 0x74]" ?f] f
    by (intro exI [of _ ?f] exI [of _ "mv_segments sample_view ! 0"]) auto
qed

end
