(* ===== verification/Manifest_Encode.thy ===== *)
theory Manifest_Encode
  imports Directory "HOL-Library.Sublist"
begin

text \<open>
  The host-side encoder of the directory (\<open>encode_manifest\<close> and its helpers in
  \<^verbatim>\<open>crates/ffs/src/manifest.rs\<close>) and its round trip through \<open>manifest_parse\<close> and
  \<open>to_owned_manifest\<close>. The three mutable vectors of the code are threaded as
  \<open>(entries, segments, strings)\<close>; an error string of the code is a constructor.
\<close>

section \<open>The encoder\<close>

datatype encode_error =
    BadName | TooManyRegions | TooManyEntries | TooManySegments | ManifestTooLarge
  | StringTableTooLarge | InvalidDirectory reader_error

definition try_u32 :: "nat \<Rightarrow> encode_error \<Rightarrow> (encode_error, u32) result" where
  "try_u32 n e = (if n < 2 ^ 32 then Ok (word_of_nat n) else Err e)"

definition push_string :: "bytes \<Rightarrow> bytes \<Rightarrow> (encode_error, bytes \<times> u32) result" where
  "push_string strings s =
     (if s = [] \<or> 0 \<in> set s then Err BadName
      else rbind (try_u32 (length strings) StringTableTooLarge) (\<lambda>offset.
           Ok (strings @ s @ [0], offset)))"

definition encode_segment ::
  "segment_record list \<times> bytes \<Rightarrow> segment \<Rightarrow> (encode_error, segment_record list \<times> bytes) result" where
  "encode_segment = (\<lambda>(segments, strings) s.
     rbind (push_string strings (seg_name s)) (\<lambda>(strings, name_offset).
     Ok (segments @
       [\<lparr>sr_name_offset = name_offset, sr_offset = seg_offset s, sr_stored_size = seg_stored_size s,
         sr_loaded_size = seg_loaded_size s, sr_in_place_size = seg_in_place_size s,
         sr_load_addr = seg_load_addr s, sr_kind = encode_segment_kind (seg_kind s),
         sr_compression = encode_compression (seg_compression s),
         sr_flags = encode_segment_flags (seg_flags s), sr_reserved = 0,
         sr_initialized_size = seg_initialized_size s, sr_stored_digest = seg_stored_digest s,
         sr_loaded_digest = seg_loaded_digest s\<rparr>], strings)))"

fun encode_segments ::
  "segment_record list \<times> bytes \<Rightarrow> segment list \<Rightarrow> (encode_error, segment_record list \<times> bytes) result" where
  "encode_segments st [] = Ok st"
| "encode_segments st (s # ss) = rbind (encode_segment st s) (\<lambda>st. encode_segments st ss)"

type_synonym enc_state = "entry_record list \<times> segment_record list \<times> bytes"

definition encode_entry :: "enc_state \<Rightarrow> region_entry \<Rightarrow> (encode_error, enc_state) result" where
  "encode_entry = (\<lambda>(entries, segments, strings) e.
     rbind (push_string strings (re_name e)) (\<lambda>(strings, name_offset).
     let first_segment = word_of_nat (length segments) in
     rbind (case re_content e of
              FileContent ft ss digests \<Rightarrow>
                rbind (encode_segments (segments, strings) ss) (\<lambda>(segments, strings).
                let sha256 = (case ds_sha256 digests of Some d \<Rightarrow> d | None \<Rightarrow> replicate 32 0);
                    sha3_256 = (case ds_sha3_256 digests of Some d \<Rightarrow> d | None \<Rightarrow> replicate 32 0);
                    digest_flags = or (if ds_sha256 digests = None then 0 else DIGEST_SHA256)
                                      (if ds_sha3_256 digests = None then 0 else DIGEST_SHA3_256)
                in Ok (segments, strings, ENTRY_KIND_FILE, 0, encode_file_type ft, digest_flags,
                       sha256, sha3_256, word_of_nat (length ss)))
            | RawContent fill \<Rightarrow>
                Ok (segments, strings, ENTRY_KIND_RAW, fill, 0, 0, replicate 32 0, replicate 32 0, 0))
       (\<lambda>(segments, strings, kind, fill, ft, flags, sha256, sha3_256, segment_count).
     Ok (entries @
       [\<lparr>er_name_offset = name_offset, er_offset = re_offset e, er_size = re_size e,
         er_first_segment = first_segment, er_segment_count = segment_count, er_file_type = ft,
         er_kind = kind, er_fill = fill, er_digest_flags = flags, er_sha256 = sha256,
         er_sha3_256 = sha3_256\<rparr>], segments, strings))))"

fun encode_entries :: "enc_state \<Rightarrow> region_entry list \<Rightarrow> (encode_error, enc_state) result" where
  "encode_entries st [] = Ok st"
| "encode_entries st (e # es) = rbind (encode_entry st e) (\<lambda>st. encode_entries st es)"

definition encode_region ::
  "region_record list \<times> enc_state \<Rightarrow> region \<Rightarrow> (encode_error, region_record list \<times> enc_state) result" where
  "encode_region = (\<lambda>(regions, entries, segments, strings) r.
     rbind (push_string strings (rg_name r)) (\<lambda>(strings, name_offset).
     let first_entry = word_of_nat (length entries) in
     rbind (case rg_content r of
              Container children \<Rightarrow>
                rbind (encode_entries (entries, segments, strings) children) (\<lambda>st.
                Ok (st, REGION_KIND_CONTAINER, 0, word_of_nat (length children)))
            | RawRegion fill \<Rightarrow> Ok ((entries, segments, strings), REGION_KIND_RAW, fill, 0))
       (\<lambda>(st, kind, fill, entry_count).
     Ok (regions @
       [\<lparr>rr_name_offset = name_offset, rr_offset = rg_offset r, rr_size = rg_size r,
         rr_first_entry = first_entry, rr_entry_count = entry_count, rr_kind = kind,
         rr_fill = fill, rr_reserved = replicate 2 0\<rparr>], st))))"

fun encode_regions ::
  "region_record list \<times> enc_state \<Rightarrow> region list \<Rightarrow> (encode_error, region_record list \<times> enc_state) result" where
  "encode_regions st [] = Ok st"
| "encode_regions st (r # rs) = rbind (encode_region st r) (\<lambda>st. encode_regions st rs)"

definition encode_manifest :: "nat \<Rightarrow> image_manifest \<Rightarrow> (encode_error, bytes) result" where
  "encode_manifest um m =
     rbind (encode_regions ([], [], [], []) (im_regions m)) (\<lambda>(regions, entries, segments, strings).
     let string_table_offset = 28 + length regions * 24 + length entries * 88 + length segments * 100 in
     rbind (try_u32 (length regions) TooManyRegions) (\<lambda>region_count.
     rbind (try_u32 (length entries) TooManyEntries) (\<lambda>entry_count.
     rbind (try_u32 (length segments) TooManySegments) (\<lambda>segment_count.
     rbind (try_u32 string_table_offset ManifestTooLarge) (\<lambda>offset.
     rbind (try_u32 (length strings) StringTableTooLarge) (\<lambda>strings_size.
     let header = \<lparr>hd_magic = MANIFEST_MAGIC, hd_version = MANIFEST_VERSION,
           hd_region_count = region_count, hd_entry_count = entry_count,
           hd_segment_count = segment_count, hd_string_table_offset = offset,
           hd_string_table_size = strings_size\<rparr>;
         out = header_as_bytes header @ concat (map rr_as_bytes regions) @
           concat (map er_as_bytes entries) @ concat (map sr_as_bytes segments) @ strings
     in rbind (map_err InvalidDirectory (manifest_parse um out)) (\<lambda>_. Ok out)))))))"

section \<open>Values that the Rust types allow\<close>

definition wf_segment :: "segment \<Rightarrow> bool" where
  "wf_segment s \<longleftrightarrow> length (seg_name s) \<le> 32 \<and> utf8_valid (seg_name s) \<and>
     length (seg_stored_digest s) = 32 \<and> length (seg_loaded_digest s) = 32"

definition wf_digest_set :: "digest_set \<Rightarrow> bool" where
  "wf_digest_set d \<longleftrightarrow> (\<forall>h. ds_sha256 d = Some h \<longrightarrow> length h = 32) \<and> (\<forall>h. ds_sha3_256 d = Some h \<longrightarrow> length h = 32)"

definition wf_entry :: "region_entry \<Rightarrow> bool" where
  "wf_entry e \<longleftrightarrow> length (re_name e) \<le> 64 \<and> utf8_valid (re_name e) \<and>
     (case re_content e of FileContent ft ss d \<Rightarrow> length ss \<le> 12 \<and> list_all wf_segment ss \<and> wf_digest_set d
      | RawContent fill \<Rightarrow> True)"

definition wf_region :: "region \<Rightarrow> bool" where
  "wf_region r \<longleftrightarrow> length (rg_name r) \<le> 64 \<and> utf8_valid (rg_name r) \<and>
     (case rg_content r of Container es \<Rightarrow> length es \<le> 8 \<and> list_all wf_entry es | RawRegion fill \<Rightarrow> True)"

definition wf_manifest :: "image_manifest \<Rightarrow> bool" where
  "wf_manifest m \<longleftrightarrow> length (im_regions m) \<le> MAX_IMAGE_REGIONS \<and> list_all wf_region (im_regions m)"

section \<open>Each step of the encoder can be read back\<close>

lemma unat_word_of_nat_32: "n < 2 ^ 32 \<Longrightarrow> unat (word_of_nat n :: u32) = n"
  by (simp add: unat_of_nat)

lemma takeWhile_until_NUL: "0 \<notin> set s \<Longrightarrow> takeWhile (\<lambda>b. b \<noteq> (0 :: u8)) (s @ 0 # t) = s"
  by (induction s) auto

lemma push_string_read:
  assumes "push_string strs s = Ok (strs', off)" and "utf8_valid s" and "prefix strs' T"
  shows "string_at T off = Ok s" and "strs' = strs @ s @ [0]"
proof -
  obtain t where T: "T = strs @ s @ 0 # t" and nul: "0 \<notin> set s" and off: "unat off = length strs"
    and s': "strs' = strs @ s @ [0]"
    using assms(1,3) by (auto simp: push_string_def try_u32_def prefix_def unat_word_of_nat_32 split: if_splits)
  show "string_at T off = Ok s"
    using nul assms(2) by (simp add: string_at_def get_from_def off T takeWhile_until_NUL)
  show "strs' = strs @ s @ [0]"
    by (rule s')
qed

lemma decode_encode_file_type [simp]: "decode_file_type (encode_file_type ft) = Ok ft"
  by (cases ft) (simp_all add: decode_file_type_def)

lemma decode_encode_kind [simp]: "decode_segment_kind (encode_segment_kind k) = Ok k"
  by (cases k) (simp_all add: decode_segment_kind_def)

lemma decode_encode_compression [simp]: "decode_compression (encode_compression c) = Ok c"
  by (cases c) (simp_all add: decode_compression_def)

lemma decode_encode_flags [simp]: "decode_segment_flags (encode_segment_flags f) = f"
  by (cases f) (auto simp: decode_segment_flags_def encode_segment_flags_def of_bool_def)

lemma encode_segment_read:
  assumes "encode_segment (segs, strs) s = Ok (segs', strs')" and "wf_segment s"
  shows "\<exists>r. segs' = segs @ [r] \<and> prefix strs strs' \<and> wf_sr r \<and>
    (\<forall>T. prefix strs' T \<longrightarrow> segment_to_owned T r = Ok s)"
proof -
  obtain off where p: "push_string strs (seg_name s) = Ok (strs', off)"
    using assms(1) by (auto simp: encode_segment_def)
  let ?r = "\<lparr>sr_name_offset = off, sr_offset = seg_offset s, sr_stored_size = seg_stored_size s,
         sr_loaded_size = seg_loaded_size s, sr_in_place_size = seg_in_place_size s,
         sr_load_addr = seg_load_addr s, sr_kind = encode_segment_kind (seg_kind s),
         sr_compression = encode_compression (seg_compression s),
         sr_flags = encode_segment_flags (seg_flags s), sr_reserved = 0,
         sr_initialized_size = seg_initialized_size s, sr_stored_digest = seg_stored_digest s,
         sr_loaded_digest = seg_loaded_digest s\<rparr>"
  have "segment_to_owned T ?r = Ok s" if "prefix strs' T" for T
    using push_string_read(1) [OF p _ that] assms(2)
    by (simp add: segment_to_owned_def hstring_def wf_segment_def)
  moreover have "prefix strs strs'"
    using push_string_read(2) [OF p _ prefix_order.refl] assms(2) by (simp add: wf_segment_def)
  ultimately show ?thesis
    using assms p by (intro exI [of _ ?r]) (auto simp: encode_segment_def wf_segment_def wf_sr_def)
qed

lemma encode_segments_read:
  assumes "encode_segments (segs, strs) ss = Ok (segs', strs')" and "list_all wf_segment ss"
  shows "\<exists>rs. segs' = segs @ rs \<and> prefix strs strs' \<and> list_all wf_sr rs \<and>
    (\<forall>T. prefix strs' T \<longrightarrow> list_all2 (\<lambda>r s. segment_to_owned T r = Ok s) rs ss)"
  using assms
proof (induction ss arbitrary: segs strs)
  case (Cons s ss)
  obtain segs1 strs1 where 1: "encode_segment (segs, strs) s = Ok (segs1, strs1)"
    and 2: "encode_segments (segs1, strs1) ss = Ok (segs', strs')"
    using Cons.prems(1) by auto
  obtain r where r: "segs1 = segs @ [r]" "prefix strs strs1" "wf_sr r"
      "\<And>T. prefix strs1 T \<Longrightarrow> segment_to_owned T r = Ok s"
    using encode_segment_read [OF 1] Cons.prems(2) by auto
  obtain rs where rs: "segs' = segs1 @ rs" "prefix strs1 strs'" "list_all wf_sr rs"
      "\<And>T. prefix strs' T \<Longrightarrow> list_all2 (\<lambda>r s. segment_to_owned T r = Ok s) rs ss"
    using Cons.IH [OF 2] Cons.prems(2) by auto
  show ?case
    using r rs by (intro exI [of _ "r # rs"]) (auto intro: prefix_order.trans)
qed auto

lemma push_each_list_all2:
  "list_all2 (\<lambda>x y. f x = Ok y) xs ys \<Longrightarrow> length acc + length ys \<le> cap \<Longrightarrow> push_each cap f acc xs = Ok (acc @ ys)"
  by (induction cap f acc xs arbitrary: ys rule: push_each.induct) (auto simp: list_all2_Cons1)

lemma slice_prefix:
  assumes "prefix (xs @ ys) zs" "a = length xs" "n = length ys"
  shows "slice zs a (a + n) = Ok ys"
  using assms by (auto simp: slice_eq_Ok prefix_def sub_def)

text \<open>A view whose tables extend what the encoder has produced so far.\<close>

definition covers :: "manifest_view \<Rightarrow> enc_state \<Rightarrow> bool" where
  "covers v st \<longleftrightarrow> (case st of (ents, segs, strs) \<Rightarrow> prefix ents (mv_entries v) \<and> prefix segs (mv_segments v) \<and>
     prefix strs (mv_strings v)) \<and> length (mv_entries v) < 2 ^ 32 \<and> length (mv_segments v) < 2 ^ 32"

definition grows :: "enc_state \<Rightarrow> enc_state \<Rightarrow> bool" where
  "grows st st' \<longleftrightarrow> (case (st, st') of ((ents, segs, strs), (ents', segs', strs')) \<Rightarrow>
     prefix ents ents' \<and> prefix segs segs' \<and> prefix strs strs')"

lemma grows_refl: "grows st st"
  by (auto simp: grows_def)

lemma grows_trans: "grows a b \<Longrightarrow> grows b c \<Longrightarrow> grows a c"
  by (auto simp: grows_def intro: prefix_order.trans)

lemma covers_grows: "covers v st' \<Longrightarrow> grows st st' \<Longrightarrow> covers v st"
  by (auto simp: grows_def covers_def intro: prefix_order.trans)

definition wf_state :: "enc_state \<Rightarrow> bool" where
  "wf_state st \<longleftrightarrow> (case st of (ents, segs, strs) \<Rightarrow> list_all wf_er ents \<and> list_all wf_sr segs)"

lemma digest_flags_read:
  assumes "er_digest_flags r = or (if ds_sha256 d = None then 0 else DIGEST_SHA256)
      (if ds_sha3_256 d = None then 0 else DIGEST_SHA3_256)"
    and "er_sha256 r = (case ds_sha256 d of Some h \<Rightarrow> h | None \<Rightarrow> replicate 32 0)"
    and "er_sha3_256 r = (case ds_sha3_256 d of Some h \<Rightarrow> h | None \<Rightarrow> replicate 32 0)"
  shows "record_digest_set r = d"
  using assms by (cases d; cases "ds_sha256 d"; cases "ds_sha3_256 d")
    (auto simp: record_digest_set_def kind_defs)

definition file_record :: "u32 \<Rightarrow> nat \<Rightarrow> region_entry \<Rightarrow> file_type \<Rightarrow> segment list \<Rightarrow> digest_set \<Rightarrow> entry_record" where
  "file_record off first e ft ss d = \<lparr>er_name_offset = off, er_offset = re_offset e, er_size = re_size e,
     er_first_segment = word_of_nat first, er_segment_count = word_of_nat (length ss),
     er_file_type = encode_file_type ft, er_kind = ENTRY_KIND_FILE, er_fill = 0,
     er_digest_flags = or (if ds_sha256 d = None then 0 else DIGEST_SHA256)
       (if ds_sha3_256 d = None then 0 else DIGEST_SHA3_256),
     er_sha256 = (case ds_sha256 d of Some h \<Rightarrow> h | None \<Rightarrow> replicate 32 0),
     er_sha3_256 = (case ds_sha3_256 d of Some h \<Rightarrow> h | None \<Rightarrow> replicate 32 0)\<rparr>"

definition raw_record :: "u32 \<Rightarrow> nat \<Rightarrow> region_entry \<Rightarrow> u8 \<Rightarrow> entry_record" where
  "raw_record off first e fill = \<lparr>er_name_offset = off, er_offset = re_offset e, er_size = re_size e,
     er_first_segment = word_of_nat first, er_segment_count = 0, er_file_type = 0,
     er_kind = ENTRY_KIND_RAW, er_fill = fill, er_digest_flags = 0,
     er_sha256 = replicate 32 0, er_sha3_256 = replicate 32 0\<rparr>"

lemma file_record_read:
  assumes "re_content e = FileContent ft ss d" "length ss \<le> 12"
    and "mv_string v off = Ok (re_name e)" "length (re_name e) \<le> 64"
    and "prefix (segs @ rs) (mv_segments v)" "length (mv_segments v) < 2 ^ 32"
    and "list_all2 (\<lambda>r s. segment_to_owned (mv_strings v) r = Ok s) rs ss"
  shows "entry_to_owned v (file_record off (length segs) e ft ss d) = Ok e"
proof -
  let ?r = "file_record off (length segs) e ft ss d"
  have l: "length rs = length ss"
    by (rule list_all2_lengthD [OF assms(7)])
  have "length (segs @ rs) < 2 ^ 32"
    using prefix_length_le [OF assms(5)] assms(6) by simp
  then have u: "unat (er_first_segment ?r) = length segs" "unat (er_segment_count ?r) = length rs"
    using l by (simp_all add: file_record_def unat_word_of_nat_32)
  have "push_each 12 (segment_to_owned (mv_strings v)) [] rs = Ok ss"
    using push_each_list_all2 [OF assms(7), of "[]" 12] assms(2) by simp
  moreover have "record_digest_set ?r = d"
    by (rule digest_flags_read) (simp_all add: file_record_def)
  ultimately show ?thesis
    using assms(1,3,4) slice_prefix [OF assms(5) u, where 'b = reader_error]
    by (cases e) (simp add: entry_to_owned_def Let_def file_record_def hstring_def)
qed

lemma wf_records:
  "wf_digest_set d \<Longrightarrow> wf_er (file_record off first e ft ss d)" "wf_er (raw_record off first e fill)"
  by (auto simp: wf_er_def file_record_def raw_record_def wf_digest_set_def split: option.splits)

lemma encode_entry_read:
  assumes "encode_entry (ents, segs, strs) e = Ok st'" and "wf_entry e" and "wf_state (ents, segs, strs)"
  shows "\<exists>r. fst st' = ents @ [r] \<and> grows (ents, segs, strs) st' \<and> wf_state st' \<and>
    (\<forall>v. covers v st' \<longrightarrow> entry_to_owned v r = Ok e)"
proof -
  obtain strs1 off where p: "push_string strs (re_name e) = Ok (strs1, off)"
    using assms(1) by (auto simp: encode_entry_def)
  have name: "mv_string v off = Ok (re_name e)" if "prefix strs1 (mv_strings v)" for v
    using push_string_read [OF p _ that] assms(2) by (auto simp: wf_entry_def mv_string_def)
  have ps: "prefix strs strs1"
    using push_string_read(2) [OF p _ prefix_order.refl] assms(2) by (auto simp: wf_entry_def)
  show ?thesis
  proof (cases "re_content e")
    case (FileContent ft ss d)
    let ?r = "file_record off (length segs) e ft ss d"
    obtain segs2 strs2 where es: "encode_segments (segs, strs1) ss = Ok (segs2, strs2)"
      using assms(1) p FileContent by (auto simp: encode_entry_def Let_def)
    have w: "length (re_name e) \<le> 64" "length ss \<le> 12" "list_all wf_segment ss" "wf_digest_set d"
      using assms(2) FileContent by (auto simp: wf_entry_def)
    obtain rs where rs: "segs2 = segs @ rs" "prefix strs1 strs2" "list_all wf_sr rs"
        "\<And>T. prefix strs2 T \<Longrightarrow> list_all2 (\<lambda>r s. segment_to_owned T r = Ok s) rs ss"
      using encode_segments_read [OF es w(3)] by auto
    have st': "st' = (ents @ [?r], segs2, strs2)"
      using assms(1) p es FileContent by (simp add: encode_entry_def Let_def file_record_def)
    have "entry_to_owned v ?r = Ok e" if "covers v st'" for v
      using that rs(1,2,4) w name [of v]
      by (intro file_record_read [OF FileContent]) (auto simp: covers_def st' intro: prefix_order.trans)
    then show ?thesis
      using assms(3) rs ps wf_records(1) [OF w(4)]
      by (intro exI [of _ ?r]) (auto simp: st' grows_def wf_state_def intro: prefix_order.trans)
  next
    case (RawContent fill)
    let ?r = "raw_record off (length segs) e fill"
    have st': "st' = (ents @ [?r], segs, strs1)"
      using assms(1) p RawContent by (simp add: encode_entry_def Let_def raw_record_def)
    have "entry_to_owned v ?r = Ok e" if "covers v st'" for v
      using name [of v] that RawContent assms(2)
      by (cases e) (simp add: entry_to_owned_def covers_def st' raw_record_def kind_defs wf_entry_def hstring_def)
    then show ?thesis
      using assms(3) ps wf_records(2) by (intro exI [of _ ?r]) (auto simp: st' grows_def wf_state_def)
  qed
qed

lemma encode_entries_read:
  assumes "encode_entries st es = Ok st'" and "list_all wf_entry es" and "wf_state st"
  shows "\<exists>rs. fst st' = fst st @ rs \<and> grows st st' \<and> wf_state st' \<and>
    (\<forall>v. covers v st' \<longrightarrow> list_all2 (\<lambda>r e. entry_to_owned v r = Ok e) rs es)"
  using assms
proof (induction es arbitrary: st)
  case (Cons e es)
  obtain st1 where 1: "encode_entry st e = Ok st1" and 2: "encode_entries st1 es = Ok st'"
    using Cons.prems(1) by auto
  obtain r where r: "fst st1 = fst st @ [r]" "grows st st1" "wf_state st1"
      "\<And>v. covers v st1 \<Longrightarrow> entry_to_owned v r = Ok e"
    using encode_entry_read [of "fst st" "fst (snd st)" "snd (snd st)" e st1] 1 Cons.prems(2,3) by auto
  obtain rs where rs: "fst st' = fst st1 @ rs" "grows st1 st'" "wf_state st'"
      "\<And>v. covers v st' \<Longrightarrow> list_all2 (\<lambda>r e. entry_to_owned v r = Ok e) rs es"
    using Cons.IH [OF 2] Cons.prems(2) r(3) by auto
  show ?case
    using r rs by (intro exI [of _ "r # rs"]) (auto intro: grows_trans covers_grows)
qed (auto simp: grows_refl)

definition region_row :: "u32 \<Rightarrow> nat \<Rightarrow> region \<Rightarrow> nat \<Rightarrow> u8 \<Rightarrow> u8 \<Rightarrow> region_record" where
  "region_row off first r count kind fill = \<lparr>rr_name_offset = off, rr_offset = rg_offset r, rr_size = rg_size r,
     rr_first_entry = word_of_nat first, rr_entry_count = word_of_nat count, rr_kind = kind, rr_fill = fill,
     rr_reserved = replicate 2 0\<rparr>"

lemma container_row_read:
  assumes "rg_content r = Container es" "length es \<le> 8"
    and "mv_string v off = Ok (rg_name r)" "length (rg_name r) \<le> 64"
    and "prefix (ents @ rs) (mv_entries v)" "length (mv_entries v) < 2 ^ 32"
    and "list_all2 (\<lambda>r e. entry_to_owned v r = Ok e) rs es"
  shows "region_to_owned v (region_row off (length ents) r (length es) REGION_KIND_CONTAINER 0) = Ok r"
proof -
  let ?r = "region_row off (length ents) r (length es) REGION_KIND_CONTAINER 0"
  have l: "length rs = length es"
    by (rule list_all2_lengthD [OF assms(7)])
  have "length (ents @ rs) < 2 ^ 32"
    using prefix_length_le [OF assms(5)] assms(6) by simp
  then have u: "unat (rr_first_entry ?r) = length ents" "unat (rr_entry_count ?r) = length rs"
    using l by (simp_all add: region_row_def unat_word_of_nat_32)
  have "push_each 8 (entry_to_owned v) [] rs = Ok es"
    using push_each_list_all2 [OF assms(7), of "[]" 8] assms(2) by simp
  then show ?thesis
    using assms(1,3,4) slice_prefix [OF assms(5) u, where 'b = reader_error]
    by (cases r) (simp add: region_to_owned_def Let_def region_row_def hstring_def)
qed

lemma raw_row_read:
  assumes "rg_content r = RawRegion fill" "mv_string v off = Ok (rg_name r)" "length (rg_name r) \<le> 64"
  shows "region_to_owned v (region_row off first r 0 REGION_KIND_RAW fill) = Ok r"
  using assms by (cases r) (simp add: region_to_owned_def region_row_def hstring_def kind_defs)

lemma encode_region_read:
  assumes "encode_region (regs, st) r = Ok (regs', st')" and "wf_region r" and "wf_state st"
  shows "\<exists>rr. regs' = regs @ [rr] \<and> grows st st' \<and> wf_state st' \<and> wf_rr rr \<and>
    (\<forall>v. covers v st' \<longrightarrow> region_to_owned v rr = Ok r)"
proof -
  obtain ents segs strs where st: "st = (ents, segs, strs)"
    by (cases st)
  obtain strs1 off where p: "push_string strs (rg_name r) = Ok (strs1, off)"
    using assms(1) by (auto simp: encode_region_def st)
  have name: "mv_string v off = Ok (rg_name r)" if "prefix strs1 (mv_strings v)" for v
    using push_string_read [OF p _ that] assms(2) by (auto simp: wf_region_def mv_string_def)
  have g1: "grows st (ents, segs, strs1)" and len: "length (rg_name r) \<le> 64"
    using push_string_read(2) [OF p _ prefix_order.refl] assms(2) by (auto simp: wf_region_def st grows_def)
  show ?thesis
  proof (cases "rg_content r")
    case (Container es)
    let ?r = "region_row off (length ents) r (length es) REGION_KIND_CONTAINER 0"
    obtain rs where rs: "encode_entries (ents, segs, strs1) es = Ok st'" "fst st' = ents @ rs"
        "grows (ents, segs, strs1) st'" "wf_state st'"
        "\<And>v. covers v st' \<Longrightarrow> list_all2 (\<lambda>r e. entry_to_owned v r = Ok e) rs es"
      using encode_entries_read [of "(ents, segs, strs1)" es st'] assms p Container
      by (fastforce simp: encode_region_def Let_def st wf_region_def wf_state_def)
    have "region_to_owned v ?r = Ok r" if c: "covers v st'" for v
      using c covers_grows [OF c rs(3)] rs(2) rs(5) [OF c] name [of v] len assms(2) Container
      by (intro container_row_read [OF Container]) (auto simp: covers_def wf_region_def)
    moreover have "regs' = regs @ [?r]"
      using assms(1) p rs(1) Container by (simp add: encode_region_def Let_def st region_row_def)
    ultimately show ?thesis
      using rs g1 by (intro exI [of _ ?r]) (auto simp: region_row_def wf_rr_def intro: grows_trans)
  next
    case (RawRegion fill)
    let ?r = "region_row off (length ents) r 0 REGION_KIND_RAW fill"
    have "regs' = regs @ [?r]" and st': "st' = (ents, segs, strs1)"
      using assms(1) p RawRegion by (auto simp: encode_region_def Let_def st region_row_def)
    moreover have "region_to_owned v ?r = Ok r" if "covers v st'" for v
      using raw_row_read [OF RawRegion name len] that by (simp add: covers_def st')
    ultimately show ?thesis
      using g1 assms(3) by (intro exI [of _ ?r]) (auto simp: region_row_def wf_rr_def st wf_state_def)
  qed
qed

lemma encode_regions_read:
  assumes "encode_regions (regs, st) rs = Ok (regs', st')" and "list_all wf_region rs" and "wf_state st"
  shows "\<exists>rrs. regs' = regs @ rrs \<and> grows st st' \<and> wf_state st' \<and> list_all wf_rr rrs \<and>
    (\<forall>v. covers v st' \<longrightarrow> list_all2 (\<lambda>rr r. region_to_owned v rr = Ok r) rrs rs)"
  using assms
proof (induction rs arbitrary: regs st)
  case (Cons r rs)
  obtain regs1 st1 where 1: "encode_region (regs, st) r = Ok (regs1, st1)"
    and 2: "encode_regions (regs1, st1) rs = Ok (regs', st')"
    using Cons.prems(1) by auto
  obtain rr where r: "regs1 = regs @ [rr]" "grows st st1" "wf_state st1" "wf_rr rr"
      "\<And>v. covers v st1 \<Longrightarrow> region_to_owned v rr = Ok r"
    using encode_region_read [OF 1] Cons.prems(2,3) by auto
  obtain rrs where rrs: "regs' = regs1 @ rrs" "grows st1 st'" "wf_state st'" "list_all wf_rr rrs"
      "\<And>v. covers v st' \<Longrightarrow> list_all2 (\<lambda>rr r. region_to_owned v rr = Ok r) rrs rs"
    using Cons.IH [OF 2] Cons.prems(2) r(3) by auto
  show ?case
    using r rrs by (intro exI [of _ "rr # rrs"]) (auto intro: grows_trans covers_grows)
qed (auto simp: grows_refl)

lemma encode_manifest_tables:
  assumes "encode_manifest um m = Ok b" and "wf_manifest m"
  shows "\<exists>v. b = view_bytes v \<and> wf_tables v \<and> manifest_parse um b = Ok v \<and> to_owned_manifest v = Ok m"
proof -
  obtain regs ents segs strs where e: "encode_regions ([], [], [], []) (im_regions m) = Ok (regs, ents, segs, strs)"
    using assms(1) by (auto simp: encode_manifest_def)
  define v where "v = \<lparr>mv_regions = regs, mv_entries = ents, mv_segments = segs, mv_strings = strs\<rparr>"
  have sz: "28 + length regs * 24 + length ents * 88 + length segs * 100 < 2 ^ 32" "length strs < 2 ^ 32"
    and b: "b = view_bytes v" and ok: "\<exists>v'. manifest_parse um b = Ok v'"
    using assms(1) e
    by (auto simp: encode_manifest_def try_u32_def Let_def view_bytes_def view_header_def v_def split: if_splits)
  have wf: "list_all wf_region (im_regions m)" "length (im_regions m) \<le> MAX_IMAGE_REGIONS"
    using assms(2) by (auto simp: wf_manifest_def)
  have "wf_state ([], [], [])"
    by (simp add: wf_state_def)
  from encode_regions_read [OF e wf(1) this]
  have r: "wf_state (ents, segs, strs)" "list_all wf_rr regs"
    "\<And>v. covers v (ents, segs, strs) \<Longrightarrow> list_all2 (\<lambda>rr r. region_to_owned v rr = Ok r) regs (im_regions m)"
    by auto
  have w: "wf_tables v"
    using r(1,2) sz by (simp add: wf_tables_def v_def wf_state_def)
  have "length (view_bytes v) \<le> um"
    using ok manifest_wire.dec_wf [of um b] manifest_wire.enc_dec [of um b] b by (auto simp: wf_view_def)
  then have p: "manifest_parse um b = Ok v"
    using ok b manifest_parse_tables [OF w] by auto
  have "covers v (ents, segs, strs)"
    using sz by (auto simp: covers_def v_def)
  then have "push_each MAX_IMAGE_REGIONS (region_to_owned v) [] (mv_regions v) = Ok (im_regions m)"
    using push_each_list_all2 [OF r(3), of v "[]" MAX_IMAGE_REGIONS] wf(2) by (simp add: v_def)
  then have "to_owned_manifest v = Ok m"
    by (simp add: to_owned_manifest_def)
  then show ?thesis
    using b w p by blast
qed

section \<open>Properties\<close>

text \<open>
  C21: The builder's directory survives the trip to the target. Whatever manifest the
  encoder accepts on the host, the bytes it produces parse on every target whose address
  space holds them, and the owned tree read back is the manifest that was encoded:
  regions, entries, segments, names, digests and flags.
\<close>

theorem encode_manifest_roundtrip:
  assumes "encode_manifest um m = Ok b" and "wf_manifest m" and "2 ^ 32 - 1 \<le> um"
    and "2 ^ 32 - 1 \<le> um'" and "length b \<le> um'"
  shows "\<exists>v. manifest_parse um' b = Ok v \<and> to_owned_manifest v = Ok m"
proof -
  obtain v where v: "b = view_bytes v" "wf_tables v" "manifest_parse um b = Ok v" "to_owned_manifest v = Ok m"
    using encode_manifest_tables [OF assms(1,2)] by blast
  have "valid_view v"
    by (rule parsed_valid [OF v(3) assms(3)])
  then have "mv_validate um' v = Ok ()"
    using mv_validate_eq_Ok [OF assms(4), of v] length_view_bytes [OF v(2)] assms(5) v(1) by simp
  then have "manifest_parse um' b = Ok v"
    using manifest_parse_tables [OF v(2)] assms(5) v(1) by simp
  then show ?thesis
    using v(4) by blast
qed

definition sample_manifest :: image_manifest where
  "sample_manifest = \<lparr>im_regions = [
     \<lparr>rg_name = [0x72, 0x6f], rg_offset = 0x1000, rg_size = 0x800, rg_content = Container [
        \<lparr>re_name = [0x62, 0x6f, 0x6f, 0x74], re_offset = 0x40, re_size = 16,
         re_content = FileContent StageCode [
           \<lparr>seg_name = [0x74, 0x65, 0x78, 0x74], seg_kind = CodeSeg, seg_offset = 0, seg_stored_size = 16,
            seg_initialized_size = 16, seg_stored_digest = replicate 32 9, seg_loaded_digest = replicate 32 9,
            seg_loaded_size = 32, seg_in_place_size = 0, seg_load_addr = 0x80000000,
            seg_compression = CompNone, seg_flags = flags_CODE\<rparr>]
           \<lparr>ds_sha256 = Some (replicate 32 7), ds_sha3_256 = None\<rparr>\<rparr>]\<rparr>,
     \<lparr>rg_name = [0x6e, 0x76], rg_offset = 0x2000, rg_size = 0x100, rg_content = RawRegion 0xff\<rparr>]\<rparr>"

lemma sample_encode: "encode_manifest 0xffffffff sample_manifest = Ok (view_bytes sample_view)"
proof -
  have two: "replicate 2 (0 :: u8) = [0, 0]"
    by (simp add: numeral_2_eq_2)
  have e: "encode_regions ([], [], [], []) (im_regions sample_manifest) =
      Ok (mv_regions sample_view, mv_entries sample_view, mv_segments sample_view, mv_strings sample_view)"
    by (simp add: sample_manifest_def sample_view_def encode_region_def encode_entry_def encode_segment_def
        push_string_def try_u32_def kind_defs flags_CODE_def encode_segment_flags_def two)
  show ?thesis
    using sample_parse unfolding encode_manifest_def e view_bytes_def view_header_def Let_def
    by (simp add: sample_view_sel try_u32_def) (simp add: sample_view_def)
qed

theorem encode_manifest_roundtrip_witness:
  "encode_manifest 0xffffffff sample_manifest = Ok (view_bytes sample_view) \<and>
   (\<exists>v. manifest_parse 0xffffffff (view_bytes sample_view) = Ok v \<and> to_owned_manifest v = Ok sample_manifest)"
proof -
  have "wf_manifest sample_manifest"
    by (simp add: sample_manifest_def wf_manifest_def wf_region_def wf_entry_def wf_segment_def wf_digest_set_def
        MAX_IMAGE_REGIONS_def)
  moreover have "length (view_bytes sample_view) \<le> 0xffffffff"
    using sample_wf by (simp add: wf_view_def)
  ultimately show ?thesis
    using encode_manifest_roundtrip [OF sample_encode] sample_encode by simp
qed

end
