(* ===== verification/Reader.thy ===== *)
theory Reader
  imports Directory Locator Trust
begin

text \<open>
  The filesystem reader (\<^verbatim>\<open>crates/ffs/src/reader.rs\<close>) over an image held as a byte
  list: locating the anchor and the trust policy, authenticating the root and its
  directory, resolving regions, entries and segments, and checking file digests.
  \<open>um\<close> is the largest \<open>usize\<close>; \<open>D\<close> and \<open>S\<close> are the compiled-in hashes and verifiers.
\<close>

section \<open>Anchor and policy\<close>

definition read_anchor :: "bytes \<Rightarrow> nat \<Rightarrow> (reader_error, locator_block) result" where
  "read_anchor img offset =
     rbind (ok_or (get_from img offset) OutOfBounds) (\<lambda>data.
     rbind (ok_or (get_range data 0 LOCATOR_SIZE) OutOfBounds) (\<lambda>b.
     ok_or (locator_parse b) BadMagic))"

definition read_anchor_volatile :: "bytes \<Rightarrow> (reader_error, locator_block) result" where
  "read_anchor_volatile data = ok_or (locator_read_volatile data) BadMagic"

definition anchor_header_is_plausible :: "nat \<Rightarrow> bytes \<Rightarrow> nat \<Rightarrow> bool" where
  "anchor_header_is_plausible um img offset =
     (case get_range img offset (offset + 40) of
        None \<Rightarrow> False
      | Some header \<Rightarrow>
          let version = le32 header 8; manifest_offset = le32 header 12;
              manifest_size = le32 header 16; total_image_size = le32 header 20
          in if version \<noteq> LOCATOR_VERSION \<or> manifest_size = 0 then False
             else (case usize_add um (unat manifest_offset) (unat manifest_size) of
                     None \<Rightarrow> False
                   | Some manifest_end \<Rightarrow> manifest_end \<le> length img \<and>
                       (total_image_size = 0 \<or> unat total_image_size \<le> length img)))"

function scan_from :: "nat \<Rightarrow> bytes \<Rightarrow> nat \<Rightarrow> (reader_error, nat) result" where
  "scan_from um img offset =
     (if offset + LOCATOR_SIZE \<le> length img
      then if sub img offset (length LOCATOR_MAGIC) = LOCATOR_MAGIC \<and>
              anchor_header_is_plausible um img offset
           then Ok offset
           else scan_from um img (offset + 8)
      else Err BadMagic)"
  by pat_completeness auto
termination
  by (relation "measure (\<lambda>(um, img, offset). length img - offset)") (auto simp: LOCATOR_SIZE_def)

declare scan_from.simps [simp del]

definition scan_for_anchor :: "nat \<Rightarrow> bytes \<Rightarrow> (reader_error, nat) result" where
  "scan_for_anchor um img = scan_from um img 0"

definition intel_microcode :: "nat \<Rightarrow> bytes \<Rightarrow> locator_block \<Rightarrow> bytes option" where
  "intel_microcode um img anchor =
     (let start = unat (lb_microcode_offset anchor); sz = unat (lb_microcode_size anchor)
      in if start = 0 \<or> sz = 0 then None
         else Option.bind (usize_add um start sz) (\<lambda>stop. get_range img start stop))"

fun trust_scan :: "bytes \<Rightarrow> nat list \<Rightarrow> (reader_error, trust_block) result" where
  "trust_scan img [] = Err KeyNotFound"
| "trust_scan img (offset # offsets) =
     rbind (slice img offset (offset + TRUST_SIZE)) (\<lambda>b.
       case trust_parse b of Some trust \<Rightarrow> Ok trust | None \<Rightarrow> trust_scan img offsets)"

definition read_trust :: "bytes \<Rightarrow> (reader_error, trust_block) result" where
  "read_trust img =
     (let limit = length img - (TRUST_SIZE - 1)
      in trust_scan img (map (\<lambda>i. 8 * i) [0..<(limit + 7) div 8]))"

section \<open>The authenticated manifest\<close>

definition trust_policy :: "bytes \<Rightarrow> trust_block \<Rightarrow> verification_key list \<Rightarrow> root_policy" where
  "trust_policy img trust keys = \<lparr>rp_image_family = tb_image_family trust,
     rp_minimum_security_version = tb_minimum_security_version trust,
     rp_image_size = word_of_nat (length img), rp_max_directory_size = word_of_nat (length img),
     rp_keys = keys\<rparr>"

definition read_verified_manifest ::
  "digest_algs \<Rightarrow> signature_algs \<Rightarrow> nat \<Rightarrow> bytes \<Rightarrow> nat \<Rightarrow> nat \<Rightarrow> trust_block \<Rightarrow>
     (reader_error, image_manifest) result" where
  "read_verified_manifest D S um img offset sz trust =
     rbind (ok_or (usize_add um offset sz) OutOfBounds) (\<lambda>stop.
     rbind (ok_or (get_range img offset stop) OutOfBounds) (\<lambda>data.
     rbind (trust_valid_keys trust) (\<lambda>keys.
     rbind (map_err (\<lambda>_. SignatureInvalid) (authenticate_root S (trust_policy img trust keys) data)) (\<lambda>root.
     let reference = rt_directory root in
     rbind (if unat (dr_offset reference) \<le> um then Ok (unat (dr_offset reference)) else Err OutOfBounds) (\<lambda>start.
     rbind (if unat (dr_size reference) \<le> um then Ok (unat (dr_size reference)) else Err OutOfBounds) (\<lambda>sz.
     rbind (ok_or (usize_add um start sz) OutOfBounds) (\<lambda>stop.
     rbind (ok_or (get_range img start stop) OutOfBounds) (\<lambda>directory.
     rbind (map_err (\<lambda>_. DigestMismatch) (dr_verify_bytes D reference directory)) (\<lambda>_.
     rbind (manifest_parse um directory) to_owned_manifest)))))))))"

definition read_manifest ::
  "digest_algs \<Rightarrow> signature_algs \<Rightarrow> nat \<Rightarrow> bytes \<Rightarrow> locator_block \<Rightarrow> (reader_error, image_manifest) result" where
  "read_manifest D S um img anchor =
     rbind (read_trust img) (\<lambda>trust.
     read_verified_manifest D S um img (unat (lb_manifest_offset anchor)) (unat (lb_manifest_size anchor)) trust)"

definition read_manifest_volatile ::
  "digest_algs \<Rightarrow> signature_algs \<Rightarrow> nat \<Rightarrow> bytes \<Rightarrow> locator_block \<Rightarrow> (reader_error, image_manifest) result" where
  "read_manifest_volatile D S um img anchor =
     rbind (read_trust img) (\<lambda>trust.
     read_verified_manifest D S um img (unat (lb_manifest_offset anchor)) (unat (lb_manifest_size anchor)) trust)"

section \<open>Files\<close>

definition find_region :: "image_manifest \<Rightarrow> bytes \<Rightarrow> (reader_error, region) result" where
  "find_region manifest name =
     ok_or (find (\<lambda>r. rg_name r = name) (im_regions manifest)) RegionNotFound"

definition find_entry :: "region \<Rightarrow> bytes \<Rightarrow> (reader_error, region_entry) result" where
  "find_entry region name =
     (case rg_content region of
        Container children \<Rightarrow> ok_or (find (\<lambda>e. re_name e = name) children) FileNotFound
      | RawRegion fill \<Rightarrow> Err FileNotFound)"

definition read_segment_data ::
  "nat \<Rightarrow> bytes \<Rightarrow> segment \<Rightarrow> region \<Rightarrow> region_entry \<Rightarrow> (reader_error, bytes) result" where
  "read_segment_data um img seg region entry =
     rbind (ok_or (Option.bind (checked_add (rg_offset region) (re_offset entry))
              (\<lambda>n. checked_add n (seg_offset seg))) OutOfBounds) (\<lambda>n.
     let start = unat n in
     rbind (ok_or (usize_add um start (unat (seg_stored_size seg))) OutOfBounds) (\<lambda>stop.
     ok_or (get_range img start stop) OutOfBounds))"

definition verify_entry_digests ::
  "digest_algs \<Rightarrow> nat \<Rightarrow> bytes \<Rightarrow> region_entry \<Rightarrow> region \<Rightarrow> (reader_error, unit) result" where
  "verify_entry_digests D um img entry region =
     (case re_content entry of
        RawContent fill \<Rightarrow> Err CannotVerifyInPlace
      | FileContent ft segments digests \<Rightarrow>
          if length segments = 1 \<and> seg_compression (segments ! 0) = CompNone
          then rbind (read_segment_data um img (segments ! 0) region entry) (\<lambda>data.
               map_err (\<lambda>_. DigestMismatch) (verify_digest_set D data digests))
          else Err CannotVerifyInPlace)"

section \<open>Lemmas\<close>

lemma scan_from_eq_Ok:
  "scan_from um img offset = Ok off \<longleftrightarrow>
     (\<exists>k. off = offset + 8 * k \<and> off + 40 \<le> length img \<and> sub img off 8 = LOCATOR_MAGIC \<and>
        anchor_header_is_plausible um img off \<and>
        (\<forall>j < k. \<not> (sub img (offset + 8 * j) 8 = LOCATOR_MAGIC \<and>
           anchor_header_is_plausible um img (offset + 8 * j))))"
  (is "_ \<longleftrightarrow> (\<exists>k. ?P offset k)")
proof (induction um img offset rule: scan_from.induct)
  case (1 um img offset)
  let ?hit = "\<lambda>p. sub img p 8 = LOCATOR_MAGIC \<and> anchor_header_is_plausible um img p"
  let ?Q = "\<lambda>p k. off = p + 8 * k \<and> off + 40 \<le> length img \<and> ?hit off \<and> (\<forall>j < k. \<not> ?hit (p + 8 * j))"
  show ?case
  proof (cases "offset + 40 \<le> length img")
    case False
    then show ?thesis
      by (subst scan_from.simps) (auto simp: LOCATOR_SIZE_def)
  next
    case True
    show ?thesis
    proof (cases "?hit offset")
      case hit: True
      have "k = 0" if "?Q offset k" for k
        using that hit by (cases k) auto
      then show ?thesis
        using True hit by (subst scan_from.simps) (auto simp: LOCATOR_SIZE_def)
    next
      case miss: False
      have "(\<exists>k. ?Q (offset + 8) k) \<longleftrightarrow> (\<exists>k. ?Q offset k)"
      proof
        assume "\<exists>k. ?Q (offset + 8) k"
        then obtain k where "?Q (offset + 8) k" ..
        then have "?Q offset (Suc k)"
          using miss by (auto simp: less_Suc_eq_0_disj algebra_simps)
        then show "\<exists>k. ?Q offset k" by blast
      next
        assume "\<exists>k. ?Q offset k"
        then obtain k where k: "?Q offset k" ..
        with miss obtain k' where "k = Suc k'"
          by (cases k) auto
        with k have "?Q (offset + 8) k'"
          by (auto simp: algebra_simps dest: spec [of _ "Suc _"])
        then show "\<exists>k. ?Q (offset + 8) k" by blast
      qed
      moreover have "scan_from um img offset = scan_from um img (offset + 8)"
        using True miss by (subst scan_from.simps) (auto simp: LOCATOR_SIZE_def)
      moreover have "scan_from um img (offset + 8) = Ok off \<longleftrightarrow> (\<exists>k. ?Q (offset + 8) k)"
        using "1.IH" True miss by (simp add: LOCATOR_SIZE_def)
      ultimately show ?thesis by simp
    qed
  qed
qed

lemma root_verify_digest_eq_Ok:
  "root_verify_digest D b d = Ok u \<longleftrightarrow> (\<exists>h. da_sha256 D = Some h \<and> h b = d)"
  by (auto simp: root_verify_digest_def verify_digest_set_eq_Ok digest_set_matches_def)

lemma read_verified_manifest_eq_Ok:
  "read_verified_manifest D S um img offset sz trust = Ok m \<longleftrightarrow>
   (\<exists>keys root v h. offset + sz \<le> um \<and> offset + sz \<le> length img \<and> trust_valid_keys trust = (Ok keys :: (reader_error, _) result) \<and>
      authenticate_root S (trust_policy img trust keys) (sub img offset sz) = Ok root \<and>
      unat (dr_offset (rt_directory root)) + unat (dr_size (rt_directory root)) \<le> um \<and>
      unat (dr_offset (rt_directory root)) + unat (dr_size (rt_directory root)) \<le> length img \<and>
      da_sha256 D = Some h \<and>
      h (sub img (unat (dr_offset (rt_directory root))) (unat (dr_size (rt_directory root)))) = dr_digest (rt_directory root) \<and>
      manifest_parse um (sub img (unat (dr_offset (rt_directory root))) (unat (dr_size (rt_directory root)))) = Ok v \<and>
      to_owned_manifest v = Ok m)"
  (is "?l \<longleftrightarrow> ?r")
proof
  assume ?l
  then show ?r
    by (auto simp: read_verified_manifest_def Let_def get_range_eq_Some dr_verify_bytes_def
        root_verify_digest_eq_Ok split: if_splits)
next
  assume ?r
  then show ?l
    by (elim exE conjE) (simp add: read_verified_manifest_def Let_def get_range_def usize_add_def dr_verify_bytes_def
        del: rbind_eq_Ok, simp add: root_verify_digest_eq_Ok)
qed

lemma dr_validate_not_Panic: "dr_validate r n m \<noteq> Panic"
  by (simp add: dr_validate_def root_range_not_Panic)

lemma parse_slot_not_Panic: "parse_slot b i \<noteq> Panic"
  by (simp add: parse_slot_def bd_parse_def Let_def rbind_eq_Panic bd_validate_not_Panic)

lemma dr_parse_not_Panic: "dr_parse b \<noteq> Panic"
  by (simp add: dr_parse_def Let_def rbind_eq_Panic dr_validate_not_Panic)

lemma root_parse_not_Panic: "root_parse b \<noteq> Panic"
  by (simp add: root_parse_def rbind_eq_Panic parse_slot_not_Panic dr_parse_not_Panic)

lemma authenticate_root_not_Panic: "authenticate_root S p b \<noteq> Panic"
  by (simp add: authenticate_root_def rbind_eq_Panic root_parse_not_Panic dr_validate_not_Panic
      select_key_def verify_signature_not_Panic Let_def for_each_not_Panic bd_validate_not_Panic split: list.splits)

lemma trust_scan_not_Panic:
  "(\<And>i. i \<in> set is \<Longrightarrow> i + 320 \<le> length img) \<Longrightarrow> trust_scan img is \<noteq> Panic"
  by (induction img "is" rule: trust_scan.induct)
    (auto simp: rbind_eq_Panic slice_inside TRUST_SIZE_def split: option.splits)

lemma trust_scan_eq_OkD:
  "trust_scan img is = Ok t \<Longrightarrow> \<exists>i \<in> set is. trust_parse (sub img i 320) = Some t"
  by (induction img "is" rule: trust_scan.induct)
    (auto simp: slice_eq_Ok TRUST_SIZE_def split: option.splits)

lemma read_trust_not_Panic: "read_trust img \<noteq> Panic"
  unfolding read_trust_def Let_def by (rule trust_scan_not_Panic) (auto simp: TRUST_SIZE_def)

lemma read_trust_eq_OkD: "read_trust img = Ok t \<Longrightarrow> \<exists>i. i mod 8 = 0 \<and> trust_parse (sub img i 320) = Some t"
  unfolding read_trust_def Let_def
  by (drule trust_scan_eq_OkD) (metis (no_types, lifting) imageE list.set_map mod_mult_self1_is_0)

lemma dr_verify_bytes_not_Panic: "dr_verify_bytes D r b \<noteq> Panic"
  by (simp add: dr_verify_bytes_def root_verify_digest_def verify_digest_set_not_Panic)

lemma read_verified_manifest_not_Panic:
  assumes "trust_parse b = Some t" and "2 ^ 32 - 1 \<le> um"
  shows "read_verified_manifest D S um img offset sz t \<noteq> Panic"
proof -
  have k: "(trust_valid_keys t :: (reader_error, _) result) \<noteq> Panic"
    using trust_parse_eq_SomeD(3) [OF assms(1)] by (simp add: trust_valid_keys_def wf_trust_def)
  have "rbind (manifest_parse um d) to_owned_manifest \<noteq> Panic" for d
    using parsed_valid [OF _ assms(2)] manifest_parse_not_Panic to_owned_manifest_not_Panic
    by (auto simp: rbind_eq_Panic)
  then show ?thesis
    using k by (auto simp: read_verified_manifest_def rbind_eq_Panic Let_def authenticate_root_not_Panic
        dr_verify_bytes_not_Panic split: if_splits)
qed

lemma checked_sum3:
  fixes a b c :: u32
  shows "Option.bind (checked_add a b) (\<lambda>n. checked_add n c) = Some d \<longleftrightarrow>
    unat a + unat b + unat c < 2 ^ 32 \<and> d = a + b + c"
  by (auto simp: checked_add_def unat_checked_add split: if_splits bind_splits)

lemma read_segment_data_eq_Ok:
  "read_segment_data um img seg r e = Ok data \<longleftrightarrow>
     (let start = unat (rg_offset r) + unat (re_offset e) + unat (seg_offset seg); n = unat (seg_stored_size seg)
      in start < 2 ^ 32 \<and> start + n \<le> um \<and> start + n \<le> length img \<and> data = sub img start n)"
proof -
  have "unat (rg_offset r + re_offset e + seg_offset seg) =
      unat (rg_offset r) + unat (re_offset e) + unat (seg_offset seg)"
    if "unat (rg_offset r) + unat (re_offset e) + unat (seg_offset seg) < 2 ^ 32"
    using that by (simp add: unat_checked_add)
  then show ?thesis
    by (auto simp: read_segment_data_def checked_sum3 Let_def get_range_eq_Some)
qed

section \<open>Properties\<close>

text \<open>
  C2: The manifest that the reader returns is authentic: it is the owned form of a valid
  directory whose SHA-256 digest is the one in a root that authenticates under the trust
  policy found in the image, and the root is exactly the span the anchor names. Directory
  and root lie inside the image.
\<close>

theorem read_manifest_authentic:
  assumes "read_manifest D S um img anchor = Ok m"
  shows "\<exists>i trust root h v. let ref = rt_directory root; dir = sub img (unat (dr_offset ref)) (unat (dr_size ref)) in
    trust_parse (sub img i 320) = Some trust \<and>
    authenticate_root S (trust_policy img trust (take (unat (tb_key_count trust)) (tb_keys trust)))
      (sub img (unat (lb_manifest_offset anchor)) (unat (lb_manifest_size anchor))) = Ok root \<and>
    unat (lb_manifest_offset anchor) + unat (lb_manifest_size anchor) \<le> length img \<and>
    unat (dr_offset ref) + unat (dr_size ref) \<le> length img \<and>
    da_sha256 D = Some h \<and> h dir = dr_digest ref \<and>
    manifest_parse um dir = Ok v \<and> to_owned_manifest v = Ok m"
proof -
  obtain trust where t: "read_trust img = Ok trust" and r: "read_verified_manifest D S um img
      (unat (lb_manifest_offset anchor)) (unat (lb_manifest_size anchor)) trust = Ok m"
    using assms by (auto simp: read_manifest_def)
  obtain i where i: "trust_parse (sub img i 320) = Some trust"
    using read_trust_eq_OkD [OF t] by blast
  have "(trust_valid_keys trust :: (reader_error, _) result) = Ok (take (unat (tb_key_count trust)) (tb_keys trust))"
    using trust_parse_eq_SomeD(3) [OF i] by (simp add: trust_valid_keys_def wf_trust_def)
  with r i show ?thesis
    unfolding read_verified_manifest_eq_Ok Let_def
    by (intro exI [of _ i] exI [of _ trust]) auto
qed

text \<open>
  C3: The signed prefix of the root fixes the manifest up to hash collisions. If two images
  yield manifests and the first 448 bytes of their roots agree, then their directories have
  the same length and the same SHA-256 digest, and unless the two directories are
  themselves a collision the manifests are equal.
\<close>

theorem signed_prefix_fixes_manifest:
  assumes "read_manifest D S um img anchor = Ok m" and "read_manifest D S' um img' anchor' = Ok m'"
    and "take SIGNED_SIZE (sub img (unat (lb_manifest_offset anchor)) (unat (lb_manifest_size anchor))) =
         take SIGNED_SIZE (sub img' (unat (lb_manifest_offset anchor')) (unat (lb_manifest_size anchor')))"
  shows "\<exists>h pos n. let dir = sub img pos n; dir' = sub img' pos n in
    da_sha256 D = Some h \<and> h dir = h dir' \<and> length dir = n \<and> length dir' = n \<and> (dir = dir' \<longrightarrow> m = m')"
proof -
  obtain t k r h v where a: "authenticate_root S (trust_policy img t k)
      (sub img (unat (lb_manifest_offset anchor)) (unat (lb_manifest_size anchor))) = Ok r"
      "unat (dr_offset (rt_directory r)) + unat (dr_size (rt_directory r)) \<le> length img" "da_sha256 D = Some h"
      "h (sub img (unat (dr_offset (rt_directory r))) (unat (dr_size (rt_directory r)))) = dr_digest (rt_directory r)"
      "manifest_parse um (sub img (unat (dr_offset (rt_directory r))) (unat (dr_size (rt_directory r)))) = Ok v"
      "to_owned_manifest v = Ok m"
    using assms(1) by (auto simp: read_manifest_def read_verified_manifest_eq_Ok)
  obtain t' k' r' h' v' where b: "authenticate_root S' (trust_policy img' t' k')
      (sub img' (unat (lb_manifest_offset anchor')) (unat (lb_manifest_size anchor'))) = Ok r'"
      "unat (dr_offset (rt_directory r')) + unat (dr_size (rt_directory r')) \<le> length img'" "da_sha256 D = Some h'"
      "h' (sub img' (unat (dr_offset (rt_directory r'))) (unat (dr_size (rt_directory r')))) = dr_digest (rt_directory r')"
      "manifest_parse um (sub img' (unat (dr_offset (rt_directory r'))) (unat (dr_size (rt_directory r')))) = Ok v'"
      "to_owned_manifest v' = Ok m'"
    using assms(2) by (auto simp: read_manifest_def read_verified_manifest_eq_Ok)
  have "root_parse (sub img (unat (lb_manifest_offset anchor)) (unat (lb_manifest_size anchor))) = Ok r"
    "root_parse (sub img' (unat (lb_manifest_offset anchor')) (unat (lb_manifest_size anchor'))) = Ok r'"
    using a(1) b(1) by (simp_all add: authenticate_root_eq_Ok)
  then have "rt_directory r' = rt_directory r"
    using root_parse_prefix assms(3) by (fastforce simp: SIGNED_SIZE_def)
  then show ?thesis
    using a(2-6) b(2-6) by (intro exI [of _ h] exI [of _ "unat (dr_offset (rt_directory r))"]
        exI [of _ "unat (dr_size (rt_directory r))"]) (auto simp: Let_def)
qed

text \<open>
  C30: The scan returns the first eight-byte-aligned offset that holds a whole anchor with the
  magic and a plausible header, and fails exactly when there is none.
\<close>

theorem scan_finds_first_anchor:
  "scan_for_anchor um img = Ok off \<longleftrightarrow>
     (\<exists>k. off = 8 * k \<and> off + 40 \<le> length img \<and> sub img off 8 = LOCATOR_MAGIC \<and>
        anchor_header_is_plausible um img off \<and>
        (\<forall>j < k. \<not> (sub img (8 * j) 8 = LOCATOR_MAGIC \<and> anchor_header_is_plausible um img (8 * j))))"
  using scan_from_eq_Ok [of um img 0 off] by (simp add: scan_for_anchor_def)

text \<open>
  In-place verification accepts a file exactly when it has one uncompressed segment whose
  stored bytes, at the sum of the three offsets computed without wrapping and inside the image,
  match every advertised digest, of which there is at least one.
\<close>

theorem verify_entry_digests_iff:
  "verify_entry_digests D um img e r = Ok () \<longleftrightarrow>
     (\<exists>ft seg ds. re_content e = FileContent ft [seg] ds \<and> seg_compression seg = CompNone \<and>
        (let start = unat (rg_offset r) + unat (re_offset e) + unat (seg_offset seg); n = unat (seg_stored_size seg)
         in start < 2 ^ 32 \<and> start + n \<le> um \<and> start + n \<le> length img \<and>
            digest_set_matches D (sub img start n) ds))"
proof (cases "re_content e")
  case (FileContent ft segs ds)
  show ?thesis
  proof (cases "\<exists>seg. segs = [seg]")
    case True
    then show ?thesis
      by (auto simp: FileContent verify_entry_digests_def read_segment_data_eq_Ok verify_digest_set_eq_Ok Let_def)
  next
    case False
    then have "length segs \<noteq> 1"
      by (auto simp: length_Suc_conv)
    with False show ?thesis
      by (auto simp: FileContent verify_entry_digests_def)
  qed
qed (simp add: verify_entry_digests_def)

text \<open>
  C33: Reading a manifest never panics, whatever the image and the anchor hold.
\<close>

theorem read_manifest_never_panics:
  assumes "2 ^ 32 - 1 \<le> um"
  shows "read_manifest D S um img anchor \<noteq> Panic"
  using read_verified_manifest_not_Panic [OF _ assms] read_trust_not_Panic read_trust_eq_OkD
  by (fastforce simp: read_manifest_def rbind_eq_Panic)

section \<open>A concrete image\<close>

text \<open>
  A trust block, a directory and a root in that order. The sample hash maps everything to
  one digest and the sample verifier accepts the signature that repeats the key.
\<close>

definition sample_digest_algs :: digest_algs where
  "sample_digest_algs = \<lparr>da_sha256 = Some (\<lambda>_. replicate 32 9), da_sha3_256 = None\<rparr>"

definition sample_image_root :: root where
  "sample_image_root = \<lparr>rt_security_version = 7, rt_image_family = replicate 16 0xa5, rt_key_id = 3,
     rt_descriptors = [None, None],
     rt_directory = \<lparr>dr_offset = 320, dr_size = 280, dr_digest = replicate 32 9\<rparr>,
     rt_signature = replicate 64 0x5a\<rparr>"

definition sample_image :: bytes where
  "sample_image = trust_as_bytes sample_trust @ view_bytes sample_view @ root_encode sample_image_root"

definition sample_anchor :: locator_block where
  "sample_anchor = locator_placeholder \<lparr>lb_manifest_offset := 600, lb_manifest_size := 512\<rparr>"

lemma wf_sample_image_root: "wf_root sample_image_root"
  by (auto simp: wf_root_def sample_image_root_def wf_dr_def dr_validate_eq_Ok)

lemma sample_image_parts:
  "length (trust_as_bytes sample_trust) = 320" "length (view_bytes sample_view) = 280"
  "length (root_encode sample_image_root) = 512"
proof -
  show "length (trust_as_bytes sample_trust) = 320"
    by (rule trust_view_as_bytes(2) [OF wf_sample_trust])
  have "wf_tables sample_view"
    using sample_wf by (simp add: wf_view_def)
  then show "length (view_bytes sample_view) = 280"
    by (simp add: length_view_bytes) (simp add: sample_view_def)
  show "length (root_encode sample_image_root) = 512"
    using root_parse_encode [OF wf_sample_image_root] by (rule root_parse_eq_OkD)
qed

lemma sample_image_slices:
  "sub sample_image 0 320 = trust_as_bytes sample_trust" "sub sample_image 320 280 = view_bytes sample_view"
  "sub sample_image 600 512 = root_encode sample_image_root" "length sample_image = 1112"
  using sample_image_parts by (simp_all add: sample_image_def sub_def)

lemma sample_image_trust: "read_trust sample_image = Ok sample_trust"
proof -
  have "map (\<lambda>i. 8 * i) [0..<(793 + 7) div 8] = 0 # map (\<lambda>i. 8 * i) [1..<(100 :: nat)]"
    by (simp add: upt_conv_Cons)
  then show ?thesis
    using trust_parse_as_bytes [OF wf_sample_trust]
    by (simp add: read_trust_def TRUST_SIZE_def sample_image_slices slice_inside)
qed

lemma sample_image_authenticates:
  "authenticate_root sample_sig_algs (trust_policy sample_image sample_trust [key_ed25519 3 (replicate 32 0x5a)])
     (root_encode sample_image_root) = Ok sample_image_root"
  unfolding authenticate_root_eq_Ok root_parse_encode [OF wf_sample_image_root]
  by (auto simp: sample_image_root_def trust_policy_def sample_trust_def trust_set_key_count_def
      trust_set_minimum_security_version_def dr_validate_eq_Ok sample_sig_algs_def key_ed25519_def
      sample_image_slices simp flip: replicate_add)

lemma sample_image_reads:
  assumes "to_owned_manifest sample_view = Ok m"
  shows "read_manifest sample_digest_algs sample_sig_algs 0xffffffff sample_image sample_anchor = Ok m"
proof -
  have k: "trust_valid_keys sample_trust = (Ok [key_ed25519 3 (replicate 32 0x5a)] :: (reader_error, _) result)"
    by (simp add: trust_valid_keys_def sample_trust_def trust_set_key_count_def trust_set_minimum_security_version_def)
  have "unat (lb_manifest_offset sample_anchor) = 600" "unat (lb_manifest_size sample_anchor) = 512"
    "unat (dr_offset (rt_directory sample_image_root)) = 320" "unat (dr_size (rt_directory sample_image_root)) = 280"
    "dr_digest (rt_directory sample_image_root) = replicate 32 9"
    by (simp_all add: sample_anchor_def sample_image_root_def)
  then show ?thesis
    unfolding read_manifest_def sample_image_trust using assms k sample_image_authenticates sample_parse
    by (simp add: read_verified_manifest_eq_Ok sample_image_slices sample_digest_algs_def)
qed

lemma sample_view_owned: "\<exists>m. to_owned_manifest sample_view = Ok m"
  using sample_names
  by (simp add: to_owned_manifest_def sample_view_sel region_to_owned_def entry_to_owned_def segment_to_owned_def
      hstring_def kind_defs slice_def get_range_def sub_def decode_segment_kind_def decode_compression_def
      decode_file_type_def MAX_IMAGE_REGIONS_def mv_string_def)

theorem read_manifest_authentic_witness:
  "\<exists>m (root :: root) h. read_manifest sample_digest_algs sample_sig_algs 0xffffffff sample_image sample_anchor = Ok m \<and>
     da_sha256 sample_digest_algs = Some h \<and>
     h (sub sample_image (unat (dr_offset (rt_directory root))) (unat (dr_size (rt_directory root)))) =
       dr_digest (rt_directory root)"
proof -
  obtain m where m: "read_manifest sample_digest_algs sample_sig_algs 0xffffffff sample_image sample_anchor = Ok m"
    using sample_image_reads sample_view_owned by blast
  from read_manifest_authentic [OF m] m show ?thesis
    unfolding Let_def by metis
qed

theorem signed_prefix_fixes_manifest_witness:
  "\<exists>m h pos n. read_manifest sample_digest_algs sample_sig_algs 0xffffffff sample_image sample_anchor = Ok m \<and>
     da_sha256 sample_digest_algs = Some h \<and> length (sub sample_image pos n) = n"
proof -
  obtain m where m: "read_manifest sample_digest_algs sample_sig_algs 0xffffffff sample_image sample_anchor = Ok m"
    using sample_image_reads sample_view_owned by blast
  from signed_prefix_fixes_manifest [OF m m refl] m show ?thesis
    unfolding Let_def by metis
qed

theorem scan_finds_first_anchor_witness:
  "scan_for_anchor 0xffffffff (locator_as_bytes (locator_placeholder \<lparr>lb_manifest_size := 8\<rparr>)) = Ok 0"
  unfolding scan_finds_first_anchor
  by (simp add: locator_as_bytes_def locator_placeholder_def byte_simps sub_append_exact
      anchor_header_is_plausible_def get_range_def le32_def usize_add_def)

theorem read_manifest_never_panics_witness:
  "read_manifest sample_digest_algs sample_sig_algs 0xffffffff sample_image sample_anchor \<noteq> Panic"
  by (rule read_manifest_never_panics) simp

end
