(* ===== verification/Smm_Layout.thy ===== *)
theory Smm_Layout
  imports Prelude
begin

text \<open>
  Placement of the system management mode image in SMRAM (\<^verbatim>\<open>crates/smm/src/layout.rs\<close>):
  the handler and its page tables at the top, one stack, entry stub and save-state
  area per CPU below, and the identity page tables. All arithmetic is on 64-bit words
  with the checks of the code. The output buffer of \<open>compute_cpu_layout\<close> enters by its
  length, and the populated prefix is the result.
\<close>

section \<open>Data\<close>

definition SMM_ENTRY_OFFSET :: u64 where "SMM_ENTRY_OFFSET = 0x8000"
definition SMM_CODE_SEGMENT_SIZE :: u64 where "SMM_CODE_SEGMENT_SIZE = 0x10000"
definition SMM_HANDLER_ALIGNMENT :: u64 where "SMM_HANDLER_ALIGNMENT = 4096"

lemmas smm_consts = SMM_ENTRY_OFFSET_def SMM_CODE_SEGMENT_SIZE_def SMM_HANDLER_ALIGNMENT_def

datatype layout_error =
  NoEntries | TooManyEntries | BadSize | StubDoesNotFit | SmramTooSmall | Overflow

record smram_layout =
  sl_smram_base :: u64
  sl_smram_size :: u64
  sl_entry_count :: u16
  sl_save_state_size :: u32
  sl_stack_size :: u32
  sl_entry_stub_size :: u32
  sl_handler_mem_size :: u32
  sl_page_table_size :: u32

record cpu_smm_layout =
  cl_smbase :: u64
  cl_entry_addr :: u64
  cl_save_state_base :: u64
  cl_save_state_top :: u64
  cl_stack_bottom :: u64
  cl_stack_top :: u64

section \<open>Operations\<close>

definition align_up :: "u64 \<Rightarrow> u64 \<Rightarrow> (layout_error, u64) result" where
  "align_up v align =
     ok_or (map_option (\<lambda>v. and v (not (align - 1))) (checked_add v (align - 1))) Overflow"

definition compute_common_base :: "smram_layout \<Rightarrow> (layout_error, u64) result" where
  "compute_common_base l =
     (if sl_smram_size l = 0 then Err BadSize
      else rbind (ok_or (checked_add (sl_smram_base l) (sl_smram_size l)) Overflow) (\<lambda>smram_top.
           rbind (align_up (ucast (sl_handler_mem_size l)) SMM_HANDLER_ALIGNMENT) (\<lambda>h.
           rbind (align_up (ucast (sl_page_table_size l)) 4096) (\<lambda>p.
           rbind (ok_or (checked_add h p) Overflow) (\<lambda>top_reserved.
           rbind (ok_or (checked_sub smram_top top_reserved) SmramTooSmall) (\<lambda>below.
           let base = and below (not (SMM_HANDLER_ALIGNMENT - 1))
           in if base < sl_smram_base l then Err SmramTooSmall else Ok base))))))"

text \<open>The body of the loop over the CPUs.\<close>

definition cpu_slot ::
  "smram_layout \<Rightarrow> u64 \<Rightarrow> u64 \<Rightarrow> u64 \<Rightarrow> u64 \<Rightarrow> u64 \<Rightarrow> nat \<Rightarrow> (layout_error, cpu_smm_layout) result" where
  "cpu_slot l common_base stacks_end needed_ss_size per_segment first_segment_base i =
     (let segment = word_of_nat i div per_segment; in_segment = word_of_nat i mod per_segment in
      rbind (ok_or (checked_mul segment SMM_CODE_SEGMENT_SIZE) Overflow) (\<lambda>down.
      rbind (ok_or (Option.bind (checked_sub first_segment_base down) (\<lambda>v.
               Option.bind (checked_mul in_segment needed_ss_size) (checked_sub v))) SmramTooSmall) (\<lambda>smbase.
      rbind (ok_or (checked_add smbase SMM_ENTRY_OFFSET) Overflow) (\<lambda>entry_addr.
      rbind (ok_or (checked_add smbase SMM_CODE_SEGMENT_SIZE) Overflow) (\<lambda>save_state_top.
      rbind (ok_or (checked_sub save_state_top (ucast (sl_save_state_size l))) Overflow) (\<lambda>save_state_base.
      rbind (ok_or (checked_add (sl_smram_base l) (word_of_nat i * ucast (sl_stack_size l))) Overflow) (\<lambda>stack_bottom.
      rbind (ok_or (checked_add stack_bottom (ucast (sl_stack_size l))) Overflow) (\<lambda>stack_top.
        if smbase < stacks_end \<or> save_state_top > common_base then Err SmramTooSmall
        else if entry_addr + ucast (sl_entry_stub_size l) > save_state_base then Err StubDoesNotFit
        else Ok \<lparr>cl_smbase = smbase, cl_entry_addr = entry_addr, cl_save_state_base = save_state_base,
                cl_save_state_top = save_state_top, cl_stack_bottom = stack_bottom, cl_stack_top = stack_top\<rparr>))))))))"

definition compute_cpu_layout ::
  "smram_layout \<Rightarrow> nat \<Rightarrow> (layout_error, cpu_smm_layout list) result" where
  "compute_cpu_layout l out_len =
     (let count = unat (sl_entry_count l) in
      if count = 0 then Err NoEntries
      else if count > out_len then Err TooManyEntries
      else if sl_smram_size l = 0 \<or> sl_save_state_size l = 0 \<or> sl_stack_size l = 0 \<or> sl_entry_stub_size l = 0
      then Err BadSize
      else if (ucast (sl_entry_stub_size l) :: u64) \<ge> SMM_ENTRY_OFFSET then Err StubDoesNotFit
      else rbind (compute_common_base l) (\<lambda>common_base.
           rbind (ok_or (checked_mul (ucast (sl_stack_size l)) (ucast (sl_entry_count l))) Overflow) (\<lambda>total_stack.
           rbind (ok_or (checked_add (sl_smram_base l) total_stack) Overflow) (\<lambda>stacks_end.
           if stacks_end > common_base then Err SmramTooSmall
           else let needed_ss_size = max (ucast (sl_save_state_size l)) (ucast (sl_entry_stub_size l));
                    per_segment = (SMM_CODE_SEGMENT_SIZE - SMM_ENTRY_OFFSET - ucast (sl_entry_stub_size l)) div needed_ss_size
                in if per_segment = 0 then Err StubDoesNotFit
                   else rbind (ok_or (checked_sub common_base SMM_CODE_SEGMENT_SIZE) SmramTooSmall) (\<lambda>first_segment_base.
                        try_map (cpu_slot l common_base stacks_end needed_ss_size per_segment first_segment_base) [0..<count])))))"

definition compute_page_table_base :: "smram_layout \<Rightarrow> (layout_error, u64) result" where
  "compute_page_table_base l =
     rbind (compute_common_base l) (\<lambda>base.
     rbind (align_up (ucast (sl_handler_mem_size l)) SMM_HANDLER_ALIGNMENT) (\<lambda>h.
     ok_or (checked_add base h) Overflow))"

definition SMM_RELOCATION_TABLE_OFFSET :: u64 where "SMM_RELOCATION_TABLE_OFFSET = 0x9000"
definition SMM_IDENTITY_TABLE_SIZE :: nat where "SMM_IDENTITY_TABLE_SIZE = 6 * 4096"

definition identity_tables :: "u64 \<Rightarrow> u64 list" where
  "identity_tables base =
     (let pdpt = base + 4096; pds = base + 2 * 4096;
          t = replicate (SMM_IDENTITY_TABLE_SIZE div 8) 0;
          t = t[0 := or (or pdpt 1) 2];
          t = fold (\<lambda>i t. t[512 + i := or (or (pds + word_of_nat i * 4096) 1) 2]) [0..<4] t
      in fold (\<lambda>pd t. fold (\<lambda>entry t.
           t[1024 + (pd * 512 + entry) := or (or (or (push_bit 21 (word_of_nat (pd * 512 + entry))) 1) 2) (2 ^ 7)])
             [0..<512] t) [0..<4] t)"

definition build_identity_tables :: "u64 \<Rightarrow> u64 list \<times> u64" where
  "build_identity_tables base = (identity_tables base, base)"

definition build_relocation_identity_tables :: "u64 \<Rightarrow> u64 list \<times> u64" where
  "build_relocation_identity_tables default_smbase =
     build_identity_tables (default_smbase + SMM_RELOCATION_TABLE_OFFSET)"

section \<open>Arithmetic of the checks\<close>

lemma and_not_4095: "and (w :: u64) (- 4096) = push_bit 12 (drop_bit 12 w)"
proof -
  have "- 4096 = not (mask 12 :: u64)"
    by (simp add: mask_eq_exp_minus_1)
  then show ?thesis
    by (simp only:) (auto simp: bit_eq_iff bit_simps)
qed

lemma unat_align_down: "unat (and (w :: u64) (- 4096)) = unat w div 4096 * 4096"
proof -
  have "unat w div 4096 * 4096 < 2 ^ 64"
    using unat_64_less [of w] by (meson div_times_less_eq_dividend le_less_trans)
  then show ?thesis
    by (simp add: and_not_4095 push_bit_eq_mult drop_bit_eq_div unat_word_ariths unat_div)
qed

lemma align_up_eq_Ok:
  assumes "align_up v 4096 = Ok w"
  shows "unat v \<le> unat w" "4096 dvd unat w" "unat w < unat v + 4096"
proof -
  have s: "unat v + 4095 < 2 ^ 64" and w: "w = and (v + 4095) (- 4096)"
    using assms by (auto simp: align_up_def checked_add_eq_Some)
  have "unat w = (unat v + 4095) div 4096 * 4096"
    using unat_checked_add [of v 4095] s by (simp add: w unat_align_down)
  then show "unat v \<le> unat w" "4096 dvd unat w" "unat w < unat v + 4096"
    by auto
qed

lemma unat_ucast_64 [simp]: "unat (ucast (w :: u32) :: u64) = unat w" "unat (ucast (x :: u16) :: u64) = unat x"
proof -
  show "unat (ucast w :: u64) = unat w"
    by (simp add: unsigned_ucast_eq take_bit_nat_eq_self less_trans [OF unat_32_less])
  have "unat x < 2 ^ 16"
    using unsigned_less [of x, where 'a = nat] by simp
  then show "unat (ucast x :: u64) = unat x"
    by (simp add: unsigned_ucast_eq take_bit_nat_eq_self)
qed

lemma compute_common_base_eq_OkD:
  assumes "compute_common_base l = Ok cb"
  obtains h p where "align_up (ucast (sl_handler_mem_size l)) 4096 = Ok h"
    "align_up (ucast (sl_page_table_size l)) 4096 = Ok p" "unat (sl_smram_base l) \<le> unat cb" "4096 dvd unat cb"
    "unat cb + unat h + unat p \<le> unat (sl_smram_base l) + unat (sl_smram_size l)"
    "unat (sl_smram_base l) + unat (sl_smram_size l) < 2 ^ 64"
proof -
  obtain top h p tr below where t: "checked_add (sl_smram_base l) (sl_smram_size l) = Some top"
      "align_up (ucast (sl_handler_mem_size l)) 4096 = Ok h" "align_up (ucast (sl_page_table_size l)) 4096 = Ok p"
      "checked_add h p = Some tr" "checked_sub top tr = Some below" "cb = and below (- 4096)" "\<not> cb < sl_smram_base l"
    using assms by (auto simp: compute_common_base_def smm_consts Let_def split: if_splits)
  have "unat cb = unat below div 4096 * 4096"
    using t(6) by (simp add: unat_align_down)
  moreover have "unat below + (unat h + unat p) = unat (sl_smram_base l) + unat (sl_smram_size l)"
    using checked_sub_SomeD [OF t(5)] checked_add_SomeD [OF t(4)] checked_add_SomeD [OF t(1)] by simp
  moreover have "unat below div 4096 * 4096 \<le> unat below"
    by simp
  ultimately show thesis
    using t(1,2,3,7) by (intro that) (auto simp: checked_add_eq_Some word_less_nat_alt)
qed

section \<open>One CPU slot\<close>

text \<open>The facts of a successful iteration, in unbounded arithmetic.\<close>

definition slot_at :: "smram_layout \<Rightarrow> nat \<Rightarrow> nat \<Rightarrow> nat \<Rightarrow> nat \<Rightarrow> nat \<Rightarrow> nat \<Rightarrow> cpu_smm_layout \<Rightarrow> bool" where
  "slot_at l cb se N P F i c \<longleftrightarrow>
     unat (cl_smbase c) + (i div P) * 65536 + (i mod P) * N = F \<and>
     unat (cl_entry_addr c) = unat (cl_smbase c) + 32768 \<and>
     unat (cl_save_state_base c) + unat (sl_save_state_size l) = unat (cl_save_state_top c) \<and>
     unat (cl_save_state_top c) = unat (cl_smbase c) + 65536 \<and>
     unat (cl_stack_bottom c) = unat (sl_smram_base l) + i * unat (sl_stack_size l) \<and>
     unat (cl_stack_top c) = unat (cl_stack_bottom c) + unat (sl_stack_size l) \<and>
     se \<le> unat (cl_smbase c) \<and> unat (cl_save_state_top c) \<le> cb \<and>
     unat (cl_entry_addr c) + unat (sl_entry_stub_size l) \<le> unat (cl_save_state_base c)"

lemma cpu_slot_eq_OkD:
  assumes ok: "cpu_slot l cb se n p fsb i = Ok c" and i: "i < 2 ^ 16" and stub: "unat (sl_entry_stub_size l) < 32768"
  shows "slot_at l (unat cb) (unat se) (unat n) (unat p) (unat fsb) i c"
proof -
  have ui: "unat (word_of_nat i :: u64) = i"
    using i by (simp add: unat_of_nat)
  have st: "unat (word_of_nat i * ucast (sl_stack_size l) :: u64) = i * unat (sl_stack_size l)"
  proof -
    have "i * unat (sl_stack_size l) < 2 ^ 16 * 2 ^ 32"
      using i unat_32_less [of "sl_stack_size l"] by (intro mult_strict_mono) auto
    then show ?thesis
      by (simp add: unat_word_ariths ui)
  qed
  obtain down v lower where s: "checked_mul (word_of_nat i div p) 0x10000 = Some down" "checked_sub fsb down = Some v"
      "checked_mul (word_of_nat i mod p) n = Some lower" "checked_sub v lower = Some (cl_smbase c)"
      "checked_add (cl_smbase c) 0x8000 = Some (cl_entry_addr c)"
      "checked_add (cl_smbase c) 0x10000 = Some (cl_save_state_top c)"
      "checked_sub (cl_save_state_top c) (ucast (sl_save_state_size l)) = Some (cl_save_state_base c)"
      "checked_add (sl_smram_base l) (word_of_nat i * ucast (sl_stack_size l)) = Some (cl_stack_bottom c)"
      "checked_add (cl_stack_bottom c) (ucast (sl_stack_size l)) = Some (cl_stack_top c)"
      "\<not> cl_smbase c < se" "\<not> cl_save_state_top c > cb"
      "\<not> cl_entry_addr c + ucast (sl_entry_stub_size l) > cl_save_state_base c"
    using ok by (auto simp: cpu_slot_def Let_def smm_consts bind_eq_Some_conv split: if_splits)
  note e = checked_mul_SomeD [OF s(1)] checked_sub_SomeD [OF s(2)] checked_mul_SomeD [OF s(3)] checked_sub_SomeD [OF s(4)]
    checked_add_SomeD [OF s(5)] checked_add_SomeD [OF s(6)] checked_sub_SomeD [OF s(7)]
    checked_add_SomeD [OF s(8)] checked_add_SomeD [OF s(9)]
  have "unat (cl_entry_addr c) + unat (sl_entry_stub_size l) < 2 ^ 64"
    using e(5,6) stub unat_64_less [of "cl_save_state_top c"] by simp
  then have "unat (cl_entry_addr c + ucast (sl_entry_stub_size l)) = unat (cl_entry_addr c) + unat (sl_entry_stub_size l)"
    by (simp add: unat_checked_add)
  moreover have "unat down = (i div unat p) * 65536" "unat lower = (i mod unat p) * unat n"
    using e(1,3) by (simp_all add: ui unat_div unat_mod)
  then have "unat (cl_smbase c) + (i div unat p) * 65536 + (i mod unat p) * unat n = unat fsb"
    using e(2,4) by linarith
  moreover have "unat (cl_save_state_base c) + unat (sl_save_state_size l) = unat (cl_save_state_top c)"
    using e(7) by simp
  ultimately show ?thesis
    using e(5,6,8,9) s(10-12) unfolding slot_at_def by (simp add: st word_less_nat_alt not_less)
qed

section \<open>Slots do not collide\<close>

lemma mod_mult_bound: "0 < P \<Longrightarrow> P * N \<le> (K :: nat) \<Longrightarrow> (i mod P) * N + N \<le> K"
proof -
  assume "0 < P" "P * N \<le> K"
  have "(i mod P + 1) * N \<le> P * N"
    using \<open>0 < P\<close> by (intro mult_le_mono1) (simp add: Suc_leI)
  then show ?thesis
    using \<open>P * N \<le> K\<close> by simp
qed

lemma slot_descends:
  fixes b c :: nat
  assumes "b + (i div P) * 65536 + (i mod P) * N = F" "c + (j div P) * 65536 + (j mod P) * N = F"
    and "0 < P" "P * N \<le> 32768" "i < j"
  shows "c + N \<le> b"
proof (cases "i div P = j div P")
  case True
  then have "i mod P < j mod P"
    using assms(5) by (metis add_less_cancel_left div_mult_mod_eq)
  then have "(i mod P) * N + N \<le> (j mod P) * N"
    by (metis Suc_leI add.commute mult_Suc mult_le_mono1)
  then show ?thesis
    using True assms(1,2) by simp
next
  case False
  then have "i div P + 1 \<le> j div P"
    using div_le_mono [of i j P] assms(5) by linarith
  then show ?thesis
    using assms(1,2) mod_mult_bound [OF assms(3,4), of i] by linarith
qed

lemma stub_clears_save_state:
  fixes b c :: nat
  assumes "b + (i div P) * 65536 + (i mod P) * N = F" "c + (j div P) * 65536 + (j mod P) * N = F"
    and "0 < P" "P * N + stub \<le> 32768" "ss \<le> N"
  shows "b + 32768 + stub + ss \<le> c + 65536 \<or> c + 65536 \<le> b + 32768"
proof -
  have k: "P * N \<le> 32768 - stub" "stub \<le> 32768"
    using assms(4) by simp_all
  note m = mod_mult_bound [OF assms(3) k(1), of i] mod_mult_bound [OF assms(3) k(1), of j]
  consider "i div P = j div P" | "i div P + 1 \<le> j div P" | "j div P + 1 \<le> i div P"
    by linarith
  then show ?thesis
    using assms(1,2,5) k(2) m by cases linarith+
qed

section \<open>The whole layout\<close>

definition smm_regions :: "smram_layout \<Rightarrow> u64 \<Rightarrow> u64 \<Rightarrow> cpu_smm_layout list \<Rightarrow> range list" where
  "smm_regions l common_base page_tables slots =
     map (\<lambda>c. (unat (cl_stack_bottom c), unat (sl_stack_size l))) slots @
     map (\<lambda>c. (unat (cl_entry_addr c), unat (sl_entry_stub_size l))) slots @
     map (\<lambda>c. (unat (cl_save_state_base c), unat (sl_save_state_size l))) slots @
     [(unat common_base, unat (sl_handler_mem_size l)), (unat page_tables, unat (sl_page_table_size l))]"

lemma compute_cpu_layout_slots:
  assumes "compute_cpu_layout l n = Ok slots"
  obtains cb se N P F where "compute_common_base l = Ok cb" "length slots = unat (sl_entry_count l)"
    "se = unat (sl_smram_base l) + unat (sl_entry_count l) * unat (sl_stack_size l)" "se \<le> unat cb"
    "0 < P" "P * N + unat (sl_entry_stub_size l) \<le> 32768" "unat (sl_save_state_size l) \<le> N"
    "unat (sl_entry_stub_size l) \<le> N"
    "\<And>i. i < length slots \<Longrightarrow> slot_at l (unat cb) se N P F i (slots ! i)"
proof -
  define N where "N = max (ucast (sl_save_state_size l)) (ucast (sl_entry_stub_size l) :: u64)"
  define P where "P = (SMM_CODE_SEGMENT_SIZE - SMM_ENTRY_OFFSET - ucast (sl_entry_stub_size l)) div N"
  obtain cb ts se F where c: "(ucast (sl_entry_stub_size l) :: u64) < SMM_ENTRY_OFFSET" "compute_common_base l = Ok cb"
      "checked_mul (ucast (sl_stack_size l)) (ucast (sl_entry_count l)) = Some ts"
      "checked_add (sl_smram_base l) ts = Some se" "\<not> se > cb" "P \<noteq> 0"
      "try_map (cpu_slot l cb se N P F) [0..<unat (sl_entry_count l)] = Ok slots"
    using assms by (auto simp: compute_cpu_layout_def Let_def N_def P_def split: if_splits)
  have stub: "unat (sl_entry_stub_size l) < 32768"
    using c(1) by (simp add: word_less_nat_alt smm_consts)
  have len: "length slots = unat (sl_entry_count l)"
    using list_all2_lengthD [OF c(7) [unfolded try_map_eq_Ok]] by simp
  have "slot_at l (unat cb) (unat se) (unat N) (unat P) (unat F) i (slots ! i)" if "i < length slots" for i
  proof -
    have "cpu_slot l cb se N P F i = Ok (slots ! i)"
      using list_all2_nthD2 [OF c(7) [unfolded try_map_eq_Ok] that] that len by simp
    moreover have "i < 2 ^ 16"
      using that len unsigned_less [of "sl_entry_count l", where 'a = nat] by simp
    ultimately show ?thesis
      using stub by (intro cpu_slot_eq_OkD)
  qed
  moreover have "unat N = max (unat (sl_save_state_size l)) (unat (sl_entry_stub_size l))"
    by (simp add: N_def max_def word_le_nat_alt)
  moreover have "unat P * unat N + unat (sl_entry_stub_size l) \<le> 32768"
  proof -
    have "unat (0x8000 - ucast (sl_entry_stub_size l) :: u64) = 32768 - unat (sl_entry_stub_size l)"
      using stub by (simp add: unat_sub word_le_nat_alt)
    then have "unat P = (32768 - unat (sl_entry_stub_size l)) div unat N"
      by (simp add: P_def smm_consts unat_div)
    then have "unat P * unat N \<le> 32768 - unat (sl_entry_stub_size l)"
      by simp
    then show ?thesis
      using stub by simp
  qed
  moreover have "unat se = unat (sl_smram_base l) + unat (sl_entry_count l) * unat (sl_stack_size l)"
    using checked_add_SomeD [OF c(4)] checked_mul_SomeD [OF c(3)] by simp
  ultimately show thesis
    using c(2,5,6) len by (intro that [of cb "unat se" "unat P" "unat N" "unat F"])
      (auto simp: word_less_nat_alt unat_gt_0)
qed

lemma disjoint_range_split: "range_within a m r \<Longrightarrow> range_within m b s \<Longrightarrow> disjoint_range r s"
  by (auto simp: range_within_def disjoint_range_def)

lemma stacked_disjoint:
  assumes "sorted_wrt disjoint_range A" "sorted_wrt disjoint_range B" "sorted_wrt disjoint_range C"
    "sorted_wrt disjoint_range D"
    and A: "\<forall>r \<in> set A. range_within lo m r" and BC: "\<forall>r \<in> set (B @ C). range_within m k r"
    and X: "\<forall>r \<in> set B. \<forall>s \<in> set C. disjoint_range r s" and D: "\<forall>r \<in> set D. range_within k hi r"
    and "m \<le> k"
  shows "sorted_wrt disjoint_range (A @ B @ C @ D)"
proof -
  have "disjoint_range r s" if "r \<in> set A" "s \<in> set (B @ C)" for r s
    using that A BC disjoint_range_split by blast
  moreover have "disjoint_range r s" if "r \<in> set (B @ C)" "s \<in> set D" for r s
    using that BC D disjoint_range_split by blast
  moreover have "disjoint_range r s" if "r \<in> set A" "s \<in> set D" for r s
    using that A D assms(9) by (force simp: range_within_def disjoint_range_def)
  ultimately show ?thesis
    using assms(1-4) X by (auto simp: sorted_wrt_append)
qed

lemma sorted_wrt_map_nth:
  "(\<And>i j. i < j \<Longrightarrow> j < length xs \<Longrightarrow> R (f (xs ! i)) (f (xs ! j))) \<Longrightarrow> sorted_wrt R (map f xs)"
  by (simp add: sorted_wrt_iff_nth_less)

lemma page_tables_above:
  assumes "compute_common_base l = Ok cb" "compute_page_table_base l = Ok pt"
  shows "unat cb + unat (sl_handler_mem_size l) \<le> unat pt" "4096 dvd unat cb" "4096 dvd unat pt"
    "unat pt + unat (sl_page_table_size l) \<le> unat (sl_smram_base l) + unat (sl_smram_size l)"
    "unat (sl_smram_base l) \<le> unat cb"
proof -
  obtain h p where c: "align_up (ucast (sl_handler_mem_size l)) 4096 = Ok h"
      "align_up (ucast (sl_page_table_size l)) 4096 = Ok p" "unat (sl_smram_base l) \<le> unat cb" "4096 dvd unat cb"
      "unat cb + unat h + unat p \<le> unat (sl_smram_base l) + unat (sl_smram_size l)"
    using compute_common_base_eq_OkD [OF assms(1)] by metis
  have "unat pt = unat cb + unat h"
    using assms c(1) by (auto simp: compute_page_table_base_def smm_consts dest: checked_add_SomeD)
  then show "unat cb + unat (sl_handler_mem_size l) \<le> unat pt" "4096 dvd unat cb" "4096 dvd unat pt"
    "unat pt + unat (sl_page_table_size l) \<le> unat (sl_smram_base l) + unat (sl_smram_size l)"
    "unat (sl_smram_base l) \<le> unat cb"
    using align_up_eq_Ok [OF c(1)] align_up_eq_Ok [OF c(2)] c(3-5) by auto
qed

text \<open>The three tables of per-CPU regions, given the facts of every slot.\<close>

lemma slot_tables:
  assumes slot: "\<And>i. i < length slots \<Longrightarrow> slot_at l cb se N P F i (slots ! i)"
    and P: "0 < P" "P * N + unat (sl_entry_stub_size l) \<le> 32768"
    and N: "unat (sl_save_state_size l) \<le> N" "unat (sl_entry_stub_size l) \<le> N"
    and se: "se = unat (sl_smram_base l) + length slots * unat (sl_stack_size l)"
  defines "stacks \<equiv> map (\<lambda>c. (unat (cl_stack_bottom c), unat (sl_stack_size l))) slots"
    and "stubs \<equiv> map (\<lambda>c. (unat (cl_entry_addr c), unat (sl_entry_stub_size l))) slots"
    and "saves \<equiv> map (\<lambda>c. (unat (cl_save_state_base c), unat (sl_save_state_size l))) slots"
  shows "sorted_wrt disjoint_range stacks" "sorted_wrt disjoint_range stubs" "sorted_wrt disjoint_range saves"
    "\<forall>r \<in> set stacks. range_within (unat (sl_smram_base l)) se r" "\<forall>r \<in> set (stubs @ saves). range_within se cb r"
    "\<forall>r \<in> set stubs. \<forall>s \<in> set saves. disjoint_range r s"
proof -
  have P': "P * N \<le> 32768"
    using P(2) by simp
  have step: "unat (cl_smbase (slots ! j)) + N \<le> unat (cl_smbase (slots ! i))" if "i < j" "j < length slots" for i j
    using slot [of i] slot [of j] that slot_descends [OF _ _ P(1) P'] by (auto simp: slot_at_def)
  have next_stack: "i * unat (sl_stack_size l) + unat (sl_stack_size l) \<le> j * unat (sl_stack_size l)" if "i < j" for i j
    using mult_le_mono1 [of "Suc i" j] that by (simp add: add.commute)
  show "sorted_wrt disjoint_range stacks"
    unfolding stacks_def using slot next_stack
    by (intro sorted_wrt_map_nth) (fastforce simp: slot_at_def disjoint_range_def)
  show "sorted_wrt disjoint_range stubs"
    unfolding stubs_def
  proof (rule sorted_wrt_map_nth)
    fix i j assume ij: "i < j" "j < length slots"
    show "disjoint_range (unat (cl_entry_addr (slots ! i)), unat (sl_entry_stub_size l))
        (unat (cl_entry_addr (slots ! j)), unat (sl_entry_stub_size l))"
      using slot [of i] slot [of j] step [OF ij] ij N(2) by (simp add: slot_at_def disjoint_range_def)
  qed
  show "sorted_wrt disjoint_range saves"
    unfolding saves_def
  proof (rule sorted_wrt_map_nth)
    fix i j assume ij: "i < j" "j < length slots"
    show "disjoint_range (unat (cl_save_state_base (slots ! i)), unat (sl_save_state_size l))
        (unat (cl_save_state_base (slots ! j)), unat (sl_save_state_size l))"
      using slot [of i] slot [of j] step [OF ij] ij N(1) by (simp add: slot_at_def disjoint_range_def)
  qed
  show "\<forall>r \<in> set stacks. range_within (unat (sl_smram_base l)) se r"
    unfolding stacks_def se using slot next_stack [of _ "length slots"]
    by (fastforce simp: in_set_conv_nth slot_at_def range_within_def)
  show "\<forall>r \<in> set (stubs @ saves). range_within se cb r"
    unfolding stubs_def saves_def using slot
    by (fastforce simp: in_set_conv_nth slot_at_def range_within_def)
  show "\<forall>r \<in> set stubs. \<forall>s \<in> set saves. disjoint_range r s"
  proof (intro ballI)
    fix r s assume "r \<in> set stubs" "s \<in> set saves"
    then obtain i j where ij: "i < length slots" "j < length slots"
        "r = (unat (cl_entry_addr (slots ! i)), unat (sl_entry_stub_size l))"
        "s = (unat (cl_save_state_base (slots ! j)), unat (sl_save_state_size l))"
      by (auto simp: stubs_def saves_def in_set_conv_nth)
    have "unat (cl_smbase (slots ! i)) + 32768 + unat (sl_entry_stub_size l) + unat (sl_save_state_size l) \<le>
          unat (cl_smbase (slots ! j)) + 65536 \<or> unat (cl_smbase (slots ! j)) + 65536 \<le> unat (cl_smbase (slots ! i)) + 32768"
      using slot [OF ij(1)] slot [OF ij(2)] P N(1)
      by (intro stub_clears_save_state [of _ i P N F _ j]) (auto simp: slot_at_def)
    then show "disjoint_range r s"
      using slot [OF ij(1)] slot [OF ij(2)] by (auto simp: ij(3,4) slot_at_def disjoint_range_def)
  qed
qed

section \<open>The identity map\<close>

text \<open>
  The translation of the processor in long mode, for the tables in memory at \<open>base\<close>: an
  entry is present when bit 0 is set, its address field begins at bit 12, and a page
  directory entry with bit 7 maps a 2 MiB page. The page can be written when bit 1 is set in
  the entries of all three levels, which is the second part of the result.
\<close>

definition read_entry :: "nat \<Rightarrow> u64 list \<Rightarrow> nat \<Rightarrow> u64 option" where
  "read_entry base t p =
     (if base \<le> p \<and> (p - base) mod 8 = 0 \<and> (p - base) div 8 < length t then Some (t ! ((p - base) div 8)) else None)"

definition next_table :: "u64 \<Rightarrow> nat option" where
  "next_table e = (if odd (unat e) then Some (unat e div 4096 * 4096) else None)"

definition walk :: "nat \<Rightarrow> u64 list \<Rightarrow> nat \<Rightarrow> (nat \<times> bool) option" where
  "walk base t a =
     Option.bind (read_entry base t (base + 8 * (a div 2 ^ 39 mod 512))) (\<lambda>e4.
     Option.bind (next_table e4) (\<lambda>p3.
     Option.bind (read_entry base t (p3 + 8 * (a div 2 ^ 30 mod 512))) (\<lambda>e3.
     Option.bind (next_table e3) (\<lambda>p2.
     Option.bind (read_entry base t (p2 + 8 * (a div 2 ^ 21 mod 512))) (\<lambda>e2.
       if odd (unat e2) \<and> odd (unat e2 div 2 ^ 7)
       then Some (unat e2 div 2 ^ 21 * 2 ^ 21 + a mod 2 ^ 21, bit e4 1 \<and> bit e3 1 \<and> bit e2 1) else None)))))"

lemma fold_update_nth:
  "off + n \<le> length t \<Longrightarrow>
   length (fold (\<lambda>i t. t[off + i := g i]) [0..<n] t) = length t \<and>
   (\<forall>k < length t. fold (\<lambda>i t. t[off + i := g i]) [0..<n] t ! k = (if off \<le> k \<and> k < off + n then g (k - off) else t ! k))"
proof (induction n)
  case (Suc n)
  then show ?case
    by (auto simp: nth_list_update less_Suc_eq)
qed auto

lemma fold_nested:
  "fold (\<lambda>pd t. fold (\<lambda>e t. h (pd * m + e) t) [0..<m] t) [0..<n] t = fold h [0..<n * m] t"
proof (induction n)
  case (Suc n)
  have "fold h [0..<Suc n * m] t = fold h [n * m..<n * m + m] (fold h [0..<n * m] t)"
    using upt_add_eq_append [of 0 "n * m" m] by (simp add: add.commute)
  also have "[n * m..<n * m + m] = map (\<lambda>e. n * m + e) [0..<m]"
    by (simp add: map_add_upt add.commute)
  finally show ?case
    using Suc by (simp add: fold_map comp_def)
qed simp


lemma length_identity_tables: "length (identity_tables base) = 3072"
  and identity_tables_nth: "k < 3072 \<Longrightarrow> identity_tables base ! k =
    (if k = 0 then or (or (base + 4096) 1) 2
     else if 512 \<le> k \<and> k < 516 then or (or (base + 8192 + word_of_nat (k - 512) * 4096) 1) 2
     else if 1024 \<le> k then or (or (or (push_bit 21 (word_of_nat (k - 1024))) 1) 2) (2 ^ 7)
     else 0)"
proof -
  let ?t0 = "(replicate 3072 0)[0 := or (or (base + 4096) 1) 2] :: u64 list"
  let ?g = "\<lambda>i. or (or (base + 8192 + word_of_nat i * 4096) 1) (2 :: u64)"
  let ?h = "\<lambda>k. or (or (or (push_bit 21 (word_of_nat k)) 1) 2) (2 ^ 7 :: u64)"
  let ?t1 = "fold (\<lambda>i t. t[512 + i := ?g i]) [0..<4] ?t0"
  have t: "identity_tables base = fold (\<lambda>k t. t[1024 + k := ?h k]) [0..<4 * 512] ?t1"
    unfolding fold_nested [of "\<lambda>k t. t[1024 + k := ?h k]" 512 4, symmetric]
    by (simp add: identity_tables_def Let_def SMM_IDENTITY_TABLE_SIZE_def)
  note f1 = fold_update_nth [of 512 4 ?t0 ?g]
  have l1: "length ?t1 = 3072"
    using f1 by simp
  note f2 = fold_update_nth [of 1024 "4 * 512" ?t1 ?h]
  show "length (identity_tables base) = 3072"
    unfolding t using f2 l1 by simp
  assume k: "k < 3072"
  have "identity_tables base ! k = (if 1024 \<le> k then ?h (k - 1024) else ?t1 ! k)"
    unfolding t using f2 l1 k by simp
  moreover have "?t1 ! k = (if 512 \<le> k \<and> k < 516 then ?g (k - 512) else ?t0 ! k)"
    using f1 k by simp
  moreover have "?t0 ! k = (if k = 0 then or (or (base + 4096) 1) 2 else 0)"
    using k by (simp add: nth_list_update)
  ultimately show "identity_tables base ! k =
    (if k = 0 then or (or (base + 4096) 1) 2
     else if 512 \<le> k \<and> k < 516 then ?g (k - 512) else if 1024 \<le> k then ?h (k - 1024) else 0)"
    by auto
qed


lemma and_take_bit: "and (x :: u64) (take_bit n w) = and (take_bit n x) (take_bit n w)"
  by (auto simp: bit_eq_iff bit_simps)

lemma or_low_bits:
  fixes x :: u64
  assumes "unat x mod 2 ^ 12 = 0" and "c < 2 ^ 8"
  shows "or x (word_of_nat c) = x + word_of_nat c" "unat (or x (word_of_nat c)) = unat x + c"
proof -
  have u: "unat (word_of_nat c :: u64) = c"
    using assms(2) by (simp add: unat_of_nat)
  have "unat x mod 2 ^ 8 = 0"
    using assms(1) by (metis dvd_imp_mod_0 dvd_trans le_imp_power_dvd mod_0_imp_dvd numeral_le_iff semiring_norm(69,71,72,68))
  then have "take_bit 8 x = 0"
    by (intro word_eqI_unat) (simp add: take_bit_eq_mod unat_mod)
  moreover have "take_bit 8 (word_of_nat c :: u64) = word_of_nat c"
    by (intro word_eqI_unat) (use assms(2) in \<open>simp add: take_bit_eq_mod unat_mod u\<close>)
  ultimately have "and x (word_of_nat c) = 0"
    using and_take_bit [of x 8 "word_of_nat c"] by simp
  then show o: "or x (word_of_nat c) = x + word_of_nat c"
    by (simp add: disjunctive_add_eq_or)
  obtain q where q: "unat x = 4096 * q"
    using assms(1) by auto
  then have "q < 2 ^ 52"
    using unat_64_less [of x] by simp
  then have "unat x + c < 2 ^ 64"
    using assms(2) q by simp
  then show "unat (or x (word_of_nat c)) = unat x + c"
    by (simp add: o unat_checked_add u)
qed

lemma table_entry:
  fixes x :: u64
  assumes "unat x mod 4096 = 0"
  shows "next_table (or (or x 1) 2) = Some (unat x)"
proof -
  have e: "or (or x 1) 2 = or x (word_of_nat 3)"
    by (simp add: or.assoc)
  have "unat (or x (word_of_nat 3)) = unat x + 3"
    using or_low_bits(2) [of x 3] assms by simp
  then show ?thesis
    using assms unfolding next_table_def e by (auto simp: mod_eq_0_iff_dvd elim: dvdE)
qed

lemma page_entry:
  assumes "k < 2048"
  defines "e \<equiv> or (or (or (push_bit 21 (word_of_nat k)) 1) 2) (2 ^ 7) :: u64"
  shows "odd (unat e)" "odd (unat e div 2 ^ 7)" "unat e div 2 ^ 21 * 2 ^ 21 = k * 2 ^ 21"
proof -
  let ?p = "push_bit 21 (word_of_nat k) :: u64"
  have p: "unat ?p = k * 2 ^ 21"
    using assms(1) by (simp add: push_bit_eq_mult unat_word_ariths unat_of_nat)
  have e: "e = or ?p (word_of_nat 131)"
    by (simp add: e_def or.assoc)
  have u: "unat e = k * 2 ^ 21 + 131"
    using or_low_bits(2) [of ?p 131] p by (simp add: e)
  show "odd (unat e)"
    unfolding u by simp
  have "k * 2 ^ 21 + 131 = 3 + 128 * (k * 2 ^ 14 + 1)"
    by simp
  then have "unat e div 2 ^ 7 = k * 2 ^ 14 + 1"
    unfolding u by simp
  then show "odd (unat e div 2 ^ 7)"
    by simp
  show "unat e div 2 ^ 21 * 2 ^ 21 = k * 2 ^ 21"
    unfolding u by simp
qed

lemma read_entry_at:
  "i < length t \<Longrightarrow> read_entry base t (base + 8 * i) = Some (t ! i)"
  by (simp add: read_entry_def)


lemma identity_table_links:
  assumes "unat base mod 4096 = 0" "unat base + 24576 < 2 ^ 64"
  shows "next_table (identity_tables base ! 0) = Some (unat base + 8 * 512)"
    and "i < 4 \<Longrightarrow> next_table (identity_tables base ! (512 + i)) = Some (unat base + 8 * (1024 + 512 * i))"
    and "0 < j \<Longrightarrow> j < 512 \<or> 516 \<le> j \<and> j < 1024 \<Longrightarrow> next_table (identity_tables base ! j) = None"
proof -
  have u: "unat (base + 4096) = unat base + 8 * 512"
    using assms(2) by (simp add: unat_checked_add)
  show "next_table (identity_tables base ! 0) = Some (unat base + 8 * 512)"
    using table_entry [of "base + 4096"] u assms(1) by (simp add: identity_tables_nth)
  show "next_table (identity_tables base ! (512 + i)) = Some (unat base + 8 * (1024 + 512 * i))" if "i < 4"
  proof -
    have "unat (word_of_nat i * 4096 :: u64) = i * 4096"
      using that by (simp add: unat_word_ariths unat_of_nat)
    then have v: "unat (base + 8192 + word_of_nat i * 4096) = unat base + 8 * (1024 + 512 * i)"
      using assms(2) that by (simp add: unat_checked_add)
    have "unat base + 8 * (1024 + 512 * i) = unat base + 4096 * (2 + i)"
      by simp
    then have "(unat base + 8 * (1024 + 512 * i)) mod 4096 = 0"
      using assms(1) by (metis mod_mult_self2)
    then show ?thesis
      using table_entry [of "base + 8192 + word_of_nat i * 4096"] v that
      by (simp add: identity_tables_nth)
  qed
  show "next_table (identity_tables base ! j) = None" if "0 < j" "j < 512 \<or> 516 \<le> j \<and> j < 1024"
    using that by (auto simp: identity_tables_nth next_table_def)
qed

lemma bit_writable: "k = 0 \<or> 512 \<le> k \<and> k < 516 \<or> 1024 \<le> k \<and> k < 3072 \<Longrightarrow> bit (identity_tables base ! k) 1"
  by (auto simp: identity_tables_nth bit_or_iff)

lemma walk_identity:
  assumes "unat base mod 4096 = 0" "unat base + 24576 < 2 ^ 64" "a < 2 ^ 48"
  shows "walk (unat base) (identity_tables base) a = (if a < 2 ^ 32 then Some (a, True) else None)"
proof -
  let ?t = "identity_tables base" and ?b = "unat base"
  have r: "read_entry ?b ?t (?b + 8 * i) = Some (?t ! i)" if "i < 3072" for i
    using that by (simp add: read_entry_at length_identity_tables)
  note n4 = identity_table_links(1) [OF assms(1,2)]
  note n3 = identity_table_links(2) [OF assms(1,2)]
  note z = identity_table_links(3) [OF assms(1,2)]
  show ?thesis
  proof (cases "a < 2 ^ 39")
    case False
    have "a div 2 ^ 39 mod 512 = a div 2 ^ 39" "0 < a div 2 ^ 39"
      using assms(3) False by (simp_all add: div_less_iff_less_mult div_greater_zero_iff)
    moreover have "a div 2 ^ 39 < 512"
      using assms(3) by (simp add: div_less_iff_less_mult)
    ultimately show ?thesis
      using False r [of "a div 2 ^ 39"] z [of "a div 2 ^ 39"] by (simp add: walk_def)
  next
    case True
    define i where "i = a div 2 ^ 30"
    have i: "i < 512" "a div 2 ^ 30 mod 512 = i" "a div 2 ^ 39 mod 512 = 0"
      using True by (auto simp: i_def div_less_iff_less_mult)
    have w: "walk ?b ?t a = Option.bind (next_table (?t ! (512 + i))) (\<lambda>p2.
        Option.bind (read_entry ?b ?t (p2 + 8 * (a div 2 ^ 21 mod 512))) (\<lambda>e2.
       if odd (unat e2) \<and> odd (unat e2 div 2 ^ 7)
       then Some (unat e2 div 2 ^ 21 * 2 ^ 21 + a mod 2 ^ 21, bit (?t ! 0) 1 \<and> bit (?t ! (512 + i)) 1 \<and> bit e2 1) else None))"
      using r [of 0] r [of "512 + i"] i n4 by (simp add: walk_def add.assoc)
    show ?thesis
    proof (cases "i < 4")
      case False
      then have "\<not> a < 2 ^ 32"
        by (auto simp: i_def)
      then show ?thesis
        using w z [of "512 + i"] False i(1) by simp
    next
      case t: True
      define k where "k = a div 2 ^ 21"
      have a32: "a < 2 ^ 32" and "k < 2048"
        using t by (auto simp: i_def k_def)
      moreover have "i = k div 512"
        unfolding i_def k_def div_mult2_eq [symmetric] by simp
      ultimately have k: "k < 2048" "512 * i + a div 2 ^ 21 mod 512 = k"
        by (simp_all add: k_def)
      have "?t ! (1024 + k) = or (or (or (push_bit 21 (word_of_nat k)) 1) 2) (2 ^ 7)"
        using k(1) by (simp add: identity_tables_nth)
      note e = page_entry [OF k(1), folded this]
      have "read_entry ?b ?t (?b + 8 * (1024 + 512 * i) + 8 * (a div 2 ^ 21 mod 512)) = Some (?t ! (1024 + k))"
      proof -
        have "?b + 8 * (1024 + 512 * i) + 8 * (a div 2 ^ 21 mod 512) = ?b + 8 * (1024 + k)"
          unfolding k(2) [symmetric] by (simp only: distrib_left add.assoc mult.assoc)
        then show ?thesis
          using r [of "1024 + k"] k(1) by (simp only:)
      qed
      moreover have "bit (?t ! 0) 1" "bit (?t ! (512 + i)) 1" "bit (?t ! (1024 + k)) 1"
        using t k(1) by (auto intro: bit_writable simp del: One_nat_def)
      ultimately have "walk ?b ?t a = Some (k * 2 ^ 21 + a mod 2 ^ 21, True)"
        using w n3 [OF t] e by (simp del: One_nat_def)
      also have "k * 2 ^ 21 + a mod 2 ^ 21 = a"
        by (simp add: k_def)
      finally show ?thesis
        using a32 by simp
    qed
  qed
qed

lemma smm_regions_placed:
  assumes "compute_cpu_layout l n = Ok slots" and "compute_common_base l = Ok cb"
    and "compute_page_table_base l = Ok pt"
  shows "length slots = unat (sl_entry_count l) \<and>
    sorted_wrt disjoint_range (smm_regions l cb pt slots) \<and>
    (\<forall>r \<in> set (smm_regions l cb pt slots).
       range_within (unat (sl_smram_base l)) (unat (sl_smram_base l) + unat (sl_smram_size l)) r) \<and>
    (\<forall>c \<in> set slots. unat (cl_entry_addr c) = unat (cl_smbase c) + 0x8000 \<and>
       unat (cl_save_state_base c) + unat (sl_save_state_size l) = unat (cl_smbase c) + 0x10000) \<and>
    4096 dvd unat cb \<and> 4096 dvd unat pt"
proof -
  let ?lo = "unat (sl_smram_base l)" and ?hi = "unat (sl_smram_base l) + unat (sl_smram_size l)"
  obtain se N P F where c: "length slots = unat (sl_entry_count l)" "se \<le> unat cb"
      "se = ?lo + length slots * unat (sl_stack_size l)" "0 < P"
      "P * N + unat (sl_entry_stub_size l) \<le> 32768" "unat (sl_save_state_size l) \<le> N" "unat (sl_entry_stub_size l) \<le> N"
      "\<And>i. i < length slots \<Longrightarrow> slot_at l (unat cb) se N P F i (slots ! i)"
    using compute_cpu_layout_slots [OF assms(1)] assms(2) by (metis result.inject(1))
  note t = slot_tables [OF c(8,4,5,6,7,3)]
  note top = page_tables_above [OF assms(2,3)]
  let ?tops = "[(unat cb, unat (sl_handler_mem_size l)), (unat pt, unat (sl_page_table_size l))]"
  have tops: "\<forall>r \<in> set ?tops. range_within (unat cb) ?hi r" "sorted_wrt disjoint_range ?tops"
    using top by (auto simp: range_within_def disjoint_range_def)
  have widen: "range_within ?lo ?hi r" if "range_within ?lo se r \<or> range_within se (unat cb) r \<or> range_within (unat cb) ?hi r" for r
    using that c(2,3) top(1,4,5) by (auto simp: range_within_def)
  have "sorted_wrt disjoint_range (smm_regions l cb pt slots)"
    unfolding smm_regions_def by (rule stacked_disjoint [OF t(1,2,3) tops(2) t(4,5,6) tops(1) c(2)])
  moreover have "\<forall>r \<in> set (smm_regions l cb pt slots). range_within ?lo ?hi r"
    unfolding smm_regions_def using t(4,5) tops(1) widen by auto
  moreover have "\<forall>c \<in> set slots. unat (cl_entry_addr c) = unat (cl_smbase c) + 0x8000 \<and>
       unat (cl_save_state_base c) + unat (sl_save_state_size l) = unat (cl_smbase c) + 0x10000"
    using c(8) by (auto simp: in_set_conv_nth slot_at_def)
  ultimately show ?thesis
    using c(1) top(2,3) by blast
qed

section \<open>Properties\<close>

text \<open>
  C16: A successful SMRAM layout places every CPU's stack, entry stub and save-state area, the
  handler and its page tables without any two of them sharing a byte, all inside SMRAM; each
  stub starts at its CPU's SMBASE plus 0x8000 and each save state ends at SMBASE plus 0x10000,
  where the hardware looks for them; handler and page tables are page-aligned.
\<close>

theorem smm_layout_disjoint:
  assumes "compute_cpu_layout l n = Ok slots" and "compute_common_base l = Ok cb"
    and "compute_page_table_base l = Ok pt"
  shows "length slots = unat (sl_entry_count l) \<and>
    sorted_wrt disjoint_range (smm_regions l cb pt slots) \<and>
    (\<forall>r \<in> set (smm_regions l cb pt slots).
       range_within (unat (sl_smram_base l)) (unat (sl_smram_base l) + unat (sl_smram_size l)) r) \<and>
    (\<forall>c \<in> set slots. unat (cl_entry_addr c) = unat (cl_smbase c) + 0x8000 \<and>
       unat (cl_save_state_base c) + unat (sl_save_state_size l) = unat (cl_smbase c) + 0x10000) \<and>
    4096 dvd unat cb \<and> 4096 dvd unat pt"
  by (rule smm_regions_placed [OF assms])

definition sample_smram :: smram_layout where
  "sample_smram = \<lparr>sl_smram_base = 0x7f000000, sl_smram_size = 0x100000, sl_entry_count = 2,
     sl_save_state_size = 0x400, sl_stack_size = 0x1000, sl_entry_stub_size = 0x200,
     sl_handler_mem_size = 0x2800, sl_page_table_size = 0x6000\<rparr>"

definition sample_slots :: "cpu_smm_layout list" where
  "sample_slots =
    [\<lparr>cl_smbase = 0x7f0e7000, cl_entry_addr = 0x7f0ef000, cl_save_state_base = 0x7f0f6c00,
      cl_save_state_top = 0x7f0f7000, cl_stack_bottom = 0x7f000000, cl_stack_top = 0x7f001000\<rparr>,
     \<lparr>cl_smbase = 0x7f0e6c00, cl_entry_addr = 0x7f0eec00, cl_save_state_base = 0x7f0f6800,
      cl_save_state_top = 0x7f0f6c00, cl_stack_bottom = 0x7f001000, cl_stack_top = 0x7f002000\<rparr>]"

lemma sample_common_base: "compute_common_base sample_smram = Ok 0x7f0f7000"
  by (simp add: compute_common_base_def sample_smram_def align_up_def checked_add_def checked_sub_def smm_consts)

lemma sample_page_tables: "compute_page_table_base sample_smram = Ok 0x7f0fa000"
  by (simp add: compute_page_table_base_def sample_common_base)
    (simp add: sample_smram_def align_up_def checked_add_def smm_consts)

lemma sample_cpu_layout: "compute_cpu_layout sample_smram 4 = Ok sample_slots"
proof -
  have "[0..<2] = [0, 1 :: nat]"
    by (simp add: upt_rec)
  moreover have c: "sl_smram_base sample_smram = 0x7f000000" "sl_smram_size sample_smram = 0x100000"
    "sl_entry_count sample_smram = 2" "sl_save_state_size sample_smram = 0x400" "sl_stack_size sample_smram = 0x1000"
    "sl_entry_stub_size sample_smram = 0x200"
    by (simp_all add: sample_smram_def)
  ultimately show ?thesis
    by (simp add: compute_cpu_layout_def sample_common_base smm_consts checked_mul_def checked_add_def checked_sub_def
        cpu_slot_def sample_slots_def Let_def max_def)
qed

theorem smm_layout_disjoint_witness:
  "compute_cpu_layout sample_smram 4 = Ok sample_slots \<and>
   sorted_wrt disjoint_range (smm_regions sample_smram 0x7f0f7000 0x7f0fa000 sample_slots)"
  using smm_layout_disjoint [OF sample_cpu_layout sample_common_base sample_page_tables] sample_cpu_layout by simp



end
