(* ===== verification/Smm_Header.thy ===== *)
theory Smm_Header
  imports Prelude
begin

text \<open>
  The header of a native SMM image (\<^verbatim>\<open>crates/smm/src/header.rs\<close>): its 76-byte wire layout,
  the validation in \<open>parse\<close>, and the access to entry descriptors and fixups. The reading of a
  little-endian struct by zerocopy is the function \<open>header_at\<close> of its bytes. \<open>um\<close> is the
  largest \<open>usize\<close>; the unchecked sum of \<open>fixup\<close> panics when it passes it.
\<close>

section \<open>Data\<close>

definition SMM_IMAGE_MAGIC :: u32 where
  "SMM_IMAGE_MAGIC = from_le_bytes [0x46, 0x53, 0x4d, 0x4d]"

definition FLAG_COREBOOT_MODULE_ARGS :: u32 where "FLAG_COREBOOT_MODULE_ARGS = 1"
definition FLAG_COREBOOT_HEADER :: u32 where "FLAG_COREBOOT_HEADER = 2"
definition FLAG_PROTECTED_MODE :: u32 where "FLAG_PROTECTED_MODE = 4"

datatype header_error =
  HTooSmall | HBadMagic | BadHeaderSize | RangeOutOfBounds | HNotEnoughEntries | BadMemoryImage

record smm_image_header =
  ih_magic :: u32
  ih_header_size :: u16
  ih_entry_desc_size :: u16
  ih_flags :: u32
  ih_image_size :: u32
  ih_entry_count :: u16
  ih_reserved :: u16
  ih_entries_offset :: u32
  ih_handler_offset :: u32
  ih_handler_load_size :: u32
  ih_handler_mem_size :: u32
  ih_handler_entry_offset :: u32
  ih_runtime_offset :: u32
  ih_runtime_size :: u32
  ih_handler_config_offset :: u32
  ih_handler_config_capacity :: u32
  ih_module_args_offset :: u32
  ih_module_args_size :: u32
  ih_stack_size :: u32
  ih_fixups_offset :: u32
  ih_fixup_count :: u32

record entry_descriptor =
  ed_stub_offset :: u32
  ed_stub_size :: u32
  ed_entry_offset :: u32
  ed_params_offset :: u32

definition image_header_new ::
  "u32 \<Rightarrow> u32 \<Rightarrow> u16 \<Rightarrow> u32 \<Rightarrow> u32 \<Rightarrow> u32 \<Rightarrow> u32 \<Rightarrow> u32 \<Rightarrow> u32 \<Rightarrow> u32 \<Rightarrow> u32 \<Rightarrow> u32 \<Rightarrow> u32 \<Rightarrow> u32 \<Rightarrow> u32 \<Rightarrow>
   smm_image_header" where
  "image_header_new flags image_size entry_count entries_offset handler_offset handler_load_size
     handler_mem_size handler_entry_offset runtime_offset runtime_size handler_config_offset
     handler_config_capacity module_args_offset module_args_size stack_size =
   \<lparr>ih_magic = SMM_IMAGE_MAGIC, ih_header_size = 76, ih_entry_desc_size = 16, ih_flags = flags,
    ih_image_size = image_size, ih_entry_count = entry_count, ih_reserved = 0,
    ih_entries_offset = entries_offset, ih_handler_offset = handler_offset,
    ih_handler_load_size = handler_load_size, ih_handler_mem_size = handler_mem_size,
    ih_handler_entry_offset = handler_entry_offset, ih_runtime_offset = runtime_offset,
    ih_runtime_size = runtime_size, ih_handler_config_offset = handler_config_offset,
    ih_handler_config_capacity = handler_config_capacity, ih_module_args_offset = module_args_offset,
    ih_module_args_size = module_args_size, ih_stack_size = stack_size, ih_fixups_offset = 0,
    ih_fixup_count = 0\<rparr>"

definition with_fixups :: "smm_image_header \<Rightarrow> u32 \<Rightarrow> u32 \<Rightarrow> smm_image_header" where
  "with_fixups h offset count = h\<lparr>ih_fixups_offset := offset, ih_fixup_count := count\<rparr>"

section \<open>Wire layout\<close>

definition image_header_as_bytes :: "smm_image_header \<Rightarrow> bytes" where
  "image_header_as_bytes h =
     to_le_bytes (ih_magic h) @ to_le_bytes (ih_header_size h) @ to_le_bytes (ih_entry_desc_size h) @
     to_le_bytes (ih_flags h) @ to_le_bytes (ih_image_size h) @ to_le_bytes (ih_entry_count h) @
     to_le_bytes (ih_reserved h) @ to_le_bytes (ih_entries_offset h) @ to_le_bytes (ih_handler_offset h) @
     to_le_bytes (ih_handler_load_size h) @ to_le_bytes (ih_handler_mem_size h) @
     to_le_bytes (ih_handler_entry_offset h) @ to_le_bytes (ih_runtime_offset h) @
     to_le_bytes (ih_runtime_size h) @ to_le_bytes (ih_handler_config_offset h) @
     to_le_bytes (ih_handler_config_capacity h) @ to_le_bytes (ih_module_args_offset h) @
     to_le_bytes (ih_module_args_size h) @ to_le_bytes (ih_stack_size h) @
     to_le_bytes (ih_fixups_offset h) @ to_le_bytes (ih_fixup_count h)"

definition image_header_at :: "bytes \<Rightarrow> smm_image_header" where
  "image_header_at b =
     \<lparr>ih_magic = le32 b 0, ih_header_size = le16 b 4, ih_entry_desc_size = le16 b 6, ih_flags = le32 b 8,
      ih_image_size = le32 b 12, ih_entry_count = le16 b 16, ih_reserved = le16 b 18,
      ih_entries_offset = le32 b 20, ih_handler_offset = le32 b 24, ih_handler_load_size = le32 b 28,
      ih_handler_mem_size = le32 b 32, ih_handler_entry_offset = le32 b 36, ih_runtime_offset = le32 b 40,
      ih_runtime_size = le32 b 44, ih_handler_config_offset = le32 b 48,
      ih_handler_config_capacity = le32 b 52, ih_module_args_offset = le32 b 56,
      ih_module_args_size = le32 b 60, ih_stack_size = le32 b 64, ih_fixups_offset = le32 b 68,
      ih_fixup_count = le32 b 72\<rparr>"

definition descriptor_as_bytes :: "entry_descriptor \<Rightarrow> bytes" where
  "descriptor_as_bytes e = to_le_bytes (ed_stub_offset e) @ to_le_bytes (ed_stub_size e) @
     to_le_bytes (ed_entry_offset e) @ to_le_bytes (ed_params_offset e)"

definition descriptor_at :: "bytes \<Rightarrow> entry_descriptor" where
  "descriptor_at b = \<lparr>ed_stub_offset = le32 b 0, ed_stub_size = le32 b 4, ed_entry_offset = le32 b 8,
     ed_params_offset = le32 b 12\<rparr>"

section \<open>Operations\<close>

definition check_file_range :: "smm_image_header \<Rightarrow> u32 \<Rightarrow> u32 \<Rightarrow> (header_error, unit) result" where
  "check_file_range h offset sz =
     rbind (ok_or (checked_add offset sz) RangeOutOfBounds) (\<lambda>stop.
       if offset < ucast (ih_header_size h) \<or> stop > ih_image_size h then Err RangeOutOfBounds else Ok ())"

definition check_memory_range :: "smm_image_header \<Rightarrow> u32 \<Rightarrow> u32 \<Rightarrow> (header_error, unit) result" where
  "check_memory_range h offset sz =
     rbind (ok_or (checked_add offset sz) BadMemoryImage) (\<lambda>stop.
       if sz = 0 \<or> offset < ih_handler_load_size h \<or> stop > ih_handler_mem_size h
       then Err BadMemoryImage else Ok ())"

definition image_header_parse :: "bytes \<Rightarrow> (header_error, smm_image_header) result" where
  "image_header_parse img =
     (if length img < 76 then Err HTooSmall
      else let h = image_header_at img in
        if ih_magic h \<noteq> SMM_IMAGE_MAGIC then Err HBadMagic
        else if ih_header_size h \<noteq> 76 \<or> ih_entry_desc_size h \<noteq> 16 then Err BadHeaderSize
        else if unat (ih_image_size h) > length img then Err RangeOutOfBounds
        else rbind (ok_or (checked_mul (ucast (ih_entry_count h)) (ucast (ih_entry_desc_size h))) RangeOutOfBounds)
               (\<lambda>table. rbind (check_file_range h (ih_entries_offset h) table) (\<lambda>_.
             rbind (check_file_range h (ih_handler_offset h) (ih_handler_load_size h)) (\<lambda>_.
             if ih_handler_load_size h > ih_handler_mem_size h \<or>
                ih_handler_entry_offset h \<ge> ih_handler_load_size h
             then Err BadMemoryImage
             else rbind (check_memory_range h (ih_runtime_offset h) (ih_runtime_size h)) (\<lambda>_.
                  rbind (check_memory_range h (ih_handler_config_offset h) (ih_handler_config_capacity h)) (\<lambda>_.
                  rbind (if ih_module_args_offset h \<noteq> 0 \<or> ih_module_args_size h \<noteq> 0
                         then check_memory_range h (ih_module_args_offset h) (ih_module_args_size h)
                         else Ok ()) (\<lambda>_.
                  rbind (if ih_fixup_count h \<noteq> 0
                         then rbind (ok_or (checked_mul (ih_fixup_count h) 4) RangeOutOfBounds)
                                (check_file_range h (ih_fixups_offset h))
                         else Ok ()) (\<lambda>_. Ok h))))))))"

definition header_entry :: "nat \<Rightarrow> smm_image_header \<Rightarrow> bytes \<Rightarrow> u16 \<Rightarrow> (header_error, entry_descriptor) result" where
  "header_entry um h img index =
     (if index \<ge> ih_entry_count h then Err HNotEnoughEntries
      else rbind (ok_or (usize_add um (unat (ih_entries_offset h)) (unat index * 16)) RangeOutOfBounds) (\<lambda>off.
           rbind (ok_or (usize_add um off 16) RangeOutOfBounds) (\<lambda>stop.
           if stop > length img \<or> stop > unat (ih_image_size h) then Err RangeOutOfBounds
           else rbind (slice img off stop) (\<lambda>b. Ok (descriptor_at b)))))"

definition header_fixup :: "nat \<Rightarrow> smm_image_header \<Rightarrow> bytes \<Rightarrow> u32 \<Rightarrow> (header_error, u32) result" where
  "header_fixup um h img index =
     (if index \<ge> ih_fixup_count h then Err RangeOutOfBounds
      else let off = unat (ih_fixups_offset h) + unat index * 4 in
           if off + 4 > um then Panic
           else rbind (ok_or (get_range img off (off + 4)) RangeOutOfBounds) (\<lambda>b.
             let offset = from_le_bytes b in
             case checked_add offset 4 of
               None \<Rightarrow> Err BadMemoryImage
             | Some stop \<Rightarrow> if stop > ih_handler_load_size h then Err BadMemoryImage else Ok offset))"

section \<open>Validity in unbounded arithmetic\<close>

definition file_range :: "smm_image_header \<Rightarrow> nat \<Rightarrow> nat \<Rightarrow> bool" where
  "file_range h off n \<longleftrightarrow> 76 \<le> off \<and> off + n \<le> unat (ih_image_size h)"

definition memory_range :: "smm_image_header \<Rightarrow> nat \<Rightarrow> nat \<Rightarrow> bool" where
  "memory_range h off n \<longleftrightarrow> 0 < n \<and> unat (ih_handler_load_size h) \<le> off \<and> off + n \<le> unat (ih_handler_mem_size h)"

definition header_ok :: "smm_image_header \<Rightarrow> bool" where
  "header_ok h \<longleftrightarrow>
     ih_magic h = SMM_IMAGE_MAGIC \<and> ih_header_size h = 76 \<and> ih_entry_desc_size h = 16 \<and>
     file_range h (unat (ih_entries_offset h)) (16 * unat (ih_entry_count h)) \<and>
     file_range h (unat (ih_handler_offset h)) (unat (ih_handler_load_size h)) \<and>
     unat (ih_handler_load_size h) \<le> unat (ih_handler_mem_size h) \<and>
     unat (ih_handler_entry_offset h) < unat (ih_handler_load_size h) \<and>
     memory_range h (unat (ih_runtime_offset h)) (unat (ih_runtime_size h)) \<and>
     memory_range h (unat (ih_handler_config_offset h)) (unat (ih_handler_config_capacity h)) \<and>
     (ih_module_args_offset h = 0 \<and> ih_module_args_size h = 0 \<or>
      memory_range h (unat (ih_module_args_offset h)) (unat (ih_module_args_size h))) \<and>
     (ih_fixup_count h = 0 \<or> file_range h (unat (ih_fixups_offset h)) (4 * unat (ih_fixup_count h)))"

lemma check_file_range_eq_Ok:
  assumes "ih_header_size h = 76"
  shows "check_file_range h off n = Ok u \<longleftrightarrow> file_range h (unat off) (unat n)"
proof -
  have "off < 76 \<longleftrightarrow> unat off < 76"
    by (simp add: word_less_nat_alt)
  then show ?thesis
    using unat_32_less [of "ih_image_size h"] assms unat_checked_add [of off n]
    by (auto simp: check_file_range_def file_range_def checked_add_def word_less_nat_alt)
qed

lemma check_memory_range_eq_Ok:
  "check_memory_range h off n = Ok u \<longleftrightarrow> memory_range h (unat off) (unat n)"
  using unat_32_less [of "ih_handler_mem_size h"] unat_checked_add [of off n] unat_gt_0 [of n]
  by (auto simp: check_memory_range_def memory_range_def checked_add_def word_less_nat_alt)

lemma unat_ucast_32 [simp]: "unat (ucast (x :: u16) :: u32) = unat x"
proof -
  have "unat x < 2 ^ 16"
    using unsigned_less [of x, where 'a = nat] by simp
  then show ?thesis
    by (simp add: unsigned_ucast_eq take_bit_nat_eq_self)
qed

lemma unat_16_less: "unat (x :: u16) < 65536"
  using unsigned_less [of x, where 'a = nat] by simp

lemma image_header_parse_eq_Ok:
  "image_header_parse img = Ok h \<longleftrightarrow>
     76 \<le> length img \<and> h = image_header_at img \<and> header_ok h \<and> unat (ih_image_size h) \<le> length img"
proof -
  let ?h = "image_header_at img"
  have table: "checked_mul (ucast (ih_entry_count ?h)) (16 :: u32) = Some (ucast (ih_entry_count ?h) * 16)"
    "unat (ucast (ih_entry_count ?h) * 16 :: u32) = 16 * unat (ih_entry_count ?h)"
    using unat_16_less [of "ih_entry_count ?h"] by (simp_all add: checked_mul_def unat_word_ariths)
  have fix4: "(\<exists>x. checked_mul (ih_fixup_count ?h) 4 = Some x \<and> file_range ?h off (unat x)) \<longleftrightarrow>
      file_range ?h off (4 * unat (ih_fixup_count ?h))" for off
    using unat_32_less [of "ih_image_size ?h"]
    by (auto simp: checked_mul_def file_range_def unat_word_ariths mult.commute)
  show ?thesis
  proof (cases "ih_header_size ?h = 76 \<and> ih_entry_desc_size ?h = 16")
    case True
    have opt: "(if P then m else Ok ()) = (Ok u :: (header_error, unit) result) \<longleftrightarrow> \<not> P \<or> m = Ok ()" for P m u
      by simp
    have "image_header_parse img = Ok h \<longleftrightarrow> 76 \<le> length img \<and> ih_magic ?h = SMM_IMAGE_MAGIC \<and>
        unat (ih_image_size ?h) \<le> length img \<and>
        file_range ?h (unat (ih_entries_offset ?h)) (16 * unat (ih_entry_count ?h)) \<and>
        file_range ?h (unat (ih_handler_offset ?h)) (unat (ih_handler_load_size ?h)) \<and>
        \<not> (ih_handler_load_size ?h > ih_handler_mem_size ?h \<or> ih_handler_entry_offset ?h \<ge> ih_handler_load_size ?h) \<and>
        memory_range ?h (unat (ih_runtime_offset ?h)) (unat (ih_runtime_size ?h)) \<and>
        memory_range ?h (unat (ih_handler_config_offset ?h)) (unat (ih_handler_config_capacity ?h)) \<and>
        (\<not> (ih_module_args_offset ?h \<noteq> 0 \<or> ih_module_args_size ?h \<noteq> 0) \<or>
          memory_range ?h (unat (ih_module_args_offset ?h)) (unat (ih_module_args_size ?h))) \<and>
        (\<not> ih_fixup_count ?h \<noteq> 0 \<or> file_range ?h (unat (ih_fixups_offset ?h)) (4 * unat (ih_fixup_count ?h))) \<and> ?h = h"
      using True unfolding image_header_parse_def Let_def
      by (simp add: check_file_range_eq_Ok check_memory_range_eq_Ok table fix4 opt not_less not_le cong: conj_cong)
    then show ?thesis
      using True unfolding header_ok_def by (simp add: word_le_nat_alt word_less_nat_alt not_less not_le) metis
  next
    case False
    then show ?thesis
      by (auto simp: image_header_parse_def Let_def header_ok_def split: if_splits)
  qed
qed

section \<open>Reading back the wire layout\<close>

lemma length_image_header [simp]: "length (image_header_as_bytes h) = 76"
  by (simp add: image_header_as_bytes_def)

lemma image_header_at_as_bytes: "image_header_at (image_header_as_bytes h @ tail) = h"
  by (cases h) (simp add: image_header_at_def image_header_as_bytes_def le32_def le16_def byte_simps)

lemma image_header_canonical:
  "76 \<le> length img \<Longrightarrow> image_header_as_bytes (image_header_at img) = sub img 0 76"
  by (simp add: image_header_as_bytes_def image_header_at_def to_le_bytes_le32 to_le_bytes_le16 sub_join sub_join_append)

lemma descriptor_at_as_bytes: "descriptor_at (descriptor_as_bytes e) = e"
  by (cases e) (simp add: descriptor_at_def descriptor_as_bytes_def le32_def byte_simps)

section \<open>Descriptors and fixups of a parsed image\<close>

lemma header_entry_eq:
  assumes "image_header_parse img = Ok h" "2 ^ 32 \<le> um + 1"
  shows "header_entry um h img i =
    (if i < ih_entry_count h then Ok (descriptor_at (sub img (unat (ih_entries_offset h) + 16 * unat i) 16))
     else Err HNotEnoughEntries)"
proof (cases "i < ih_entry_count h")
  case True
  have p: "unat (ih_entries_offset h) + 16 * unat (ih_entry_count h) \<le> unat (ih_image_size h)"
    "unat (ih_image_size h) \<le> length img"
    using assms(1) by (auto simp: image_header_parse_eq_Ok header_ok_def file_range_def)
  have "unat i + 1 \<le> unat (ih_entry_count h)"
    using True by (simp add: word_less_nat_alt)
  then have q: "unat (ih_entries_offset h) + 16 * unat i + 16 \<le> unat (ih_image_size h)"
    using p(1) by simp
  then have u: "usize_add um (unat (ih_entries_offset h)) (unat i * 16) = Some (unat (ih_entries_offset h) + 16 * unat i)"
    "usize_add um (unat (ih_entries_offset h) + 16 * unat i) 16 = Some (unat (ih_entries_offset h) + 16 * unat i + 16)"
    using assms(2) unat_32_less [of "ih_image_size h"] by (auto simp: mult.commute)
  have s: "slice img (unat (ih_entries_offset h) + 16 * unat i) (unat (ih_entries_offset h) + 16 * unat i + 16) =
      (Ok (sub img (unat (ih_entries_offset h) + 16 * unat i) 16) :: (header_error, bytes) result)"
    using q p(2) by (subst slice_inside) auto
  have n: "\<not> i \<ge> ih_entry_count h"
    "\<not> (unat (ih_entries_offset h) + 16 * unat i + 16 > length img \<or>
       unat (ih_entries_offset h) + 16 * unat i + 16 > unat (ih_image_size h))"
    using True q p(2) by auto
  show ?thesis
    unfolding header_entry_def if_not_P [OF n(1)] u ok_or.simps rbind.simps if_not_P [OF n(2)] s if_P [OF True] ..
next
  case False
  then show ?thesis by (simp add: header_entry_def not_less)
qed

lemma header_fixup_not_Panic:
  assumes "image_header_parse img = Ok h" "2 ^ 32 \<le> um + 1"
  shows "header_fixup um h img i \<noteq> Panic"
proof (cases "i < ih_fixup_count h")
  case True
  then have "unat i + 1 \<le> unat (ih_fixup_count h)" "ih_fixup_count h \<noteq> 0"
    by (auto simp: word_less_nat_alt)
  moreover have "ih_fixup_count h = 0 \<or> unat (ih_fixups_offset h) + 4 * unat (ih_fixup_count h) \<le> unat (ih_image_size h)"
    using assms(1) by (auto simp: image_header_parse_eq_Ok header_ok_def file_range_def)
  ultimately have "unat (ih_fixups_offset h) + unat i * 4 + 4 \<le> um"
    using assms(2) unat_32_less [of "ih_image_size h"] by simp
  then show ?thesis
    using True by (auto simp: header_fixup_def Let_def rbind_eq_Panic split: option.splits)
next
  case False
  then show ?thesis by (simp add: header_fixup_def not_less)
qed

lemma header_fixup_bound:
  "header_fixup um h img i = Ok off \<Longrightarrow> unat off + 4 \<le> unat (ih_handler_load_size h)"
  by (auto simp: header_fixup_def Let_def word_less_nat_alt not_less dest!: checked_add_SomeD split: if_splits option.split_asm)

section \<open>Properties\<close>

text \<open>
  C29: an SMM image is accepted exactly when it begins with the encoding of a header that is
  valid in unbounded arithmetic and claims no more bytes than there are: descriptor table,
  handler bytes and fixup table lie behind the header and inside the image, the entry point
  lies in the initialized part, and the runtime, configuration and module-argument blocks lie
  in the memory extent behind it. The header returned is the one encoded.
\<close>

theorem smm_header_accepts_iff:
  "image_header_parse img = Ok h \<longleftrightarrow>
     (\<exists>tail. img = image_header_as_bytes h @ tail) \<and> header_ok h \<and> unat (ih_image_size h) \<le> length img"
proof
  assume a: "image_header_parse img = Ok h"
  then have l: "76 \<le> length img" "h = image_header_at img" "header_ok h" "unat (ih_image_size h) \<le> length img"
    by (auto simp: image_header_parse_eq_Ok)
  then have "img = image_header_as_bytes h @ drop 76 img"
    by (simp add: image_header_canonical sub_def)
  then show "(\<exists>tail. img = image_header_as_bytes h @ tail) \<and> header_ok h \<and> unat (ih_image_size h) \<le> length img"
    using l by blast
next
  assume a: "(\<exists>tail. img = image_header_as_bytes h @ tail) \<and> header_ok h \<and> unat (ih_image_size h) \<le> length img"
  then show "image_header_parse img = Ok h"
    by (auto simp: image_header_parse_eq_Ok image_header_at_as_bytes)
qed

end
