(* ===== verification/Smm_Runtime.thy ===== *)
theory Smm_Runtime
  imports Prelude
begin

text \<open>
  The blocks that the SMM installer, the entry stubs and the handler share
  (\<^verbatim>\<open>crates/smm/src/runtime_abi.rs\<close>). Sizes and alignments are those of \<open>repr(C)\<close>: on i686
  (\<open>x86 = True\<close>) a \<open>u64\<close> is aligned to four bytes, on x86-64 to eight, so the runtime block has
  a tail of four padding bytes there. Padding, whose bytes Rust leaves unspecified, is not
  part of the encodings.
\<close>

definition HANDLER_CONFIG_CAPACITY :: nat where "HANDLER_CONFIG_CAPACITY = 256"
definition HANDLER_CONFIG_ALIGNMENT :: nat where "HANDLER_CONFIG_ALIGNMENT = 16"

record smm_runtime =
  sr_smram_base :: u64
  sr_smram_size :: u64
  sr_num_cpus :: u16
  sr_reserved :: u16
  sr_stack_size :: u32
  sr_handler_config_offset :: u32
  sr_handler_config_size :: u32
  sr_owner :: u32

definition runtime_new :: "u64 \<Rightarrow> u64 \<Rightarrow> u16 \<Rightarrow> u32 \<Rightarrow> u32 \<Rightarrow> u32 \<Rightarrow> smm_runtime" where
  "runtime_new smram_base smram_size num_cpus stack_size handler_config_offset handler_config_size =
     \<lparr>sr_smram_base = smram_base, sr_smram_size = smram_size, sr_num_cpus = num_cpus, sr_reserved = 0,
      sr_stack_size = stack_size, sr_handler_config_offset = handler_config_offset,
      sr_handler_config_size = handler_config_size, sr_owner = 0\<rparr>"

record entry_params =
  ep_cpu :: u32
  ep_stack_size :: u32
  ep_stack_top :: u64
  ep_common_entry :: u64
  ep_runtime :: u64
  ep_coreboot_module_args :: u64
  ep_cr3 :: u64
  ep_entry_base :: u64

record module_args =
  ma_cpu :: u64
  ma_canary :: u64

definition runtime_size :: "bool \<Rightarrow> nat" where "runtime_size x86 = (if x86 then 36 else 40)"
definition u64_align :: "bool \<Rightarrow> nat" where "u64_align x86 = (if x86 then 4 else 8)"

definition runtime_as_bytes :: "smm_runtime \<Rightarrow> bytes" where
  "runtime_as_bytes r = to_le_bytes (sr_smram_base r) @ to_le_bytes (sr_smram_size r) @
     to_le_bytes (sr_num_cpus r) @ to_le_bytes (sr_reserved r) @ to_le_bytes (sr_stack_size r) @
     to_le_bytes (sr_handler_config_offset r) @ to_le_bytes (sr_handler_config_size r) @
     to_le_bytes (sr_owner r)"

definition runtime_at :: "bytes \<Rightarrow> smm_runtime" where
  "runtime_at b = \<lparr>sr_smram_base = le64 b 0, sr_smram_size = le64 b 8, sr_num_cpus = le16 b 16,
     sr_reserved = le16 b 18, sr_stack_size = le32 b 20, sr_handler_config_offset = le32 b 24,
     sr_handler_config_size = le32 b 28, sr_owner = le32 b 32\<rparr>"

definition params_as_bytes :: "entry_params \<Rightarrow> bytes" where
  "params_as_bytes p = to_le_bytes (ep_cpu p) @ to_le_bytes (ep_stack_size p) @
     to_le_bytes (ep_stack_top p) @ to_le_bytes (ep_common_entry p) @ to_le_bytes (ep_runtime p) @
     to_le_bytes (ep_coreboot_module_args p) @ to_le_bytes (ep_cr3 p) @ to_le_bytes (ep_entry_base p)"

definition params_at :: "bytes \<Rightarrow> entry_params" where
  "params_at b = \<lparr>ep_cpu = le32 b 0, ep_stack_size = le32 b 4, ep_stack_top = le64 b 8,
     ep_common_entry = le64 b 16, ep_runtime = le64 b 24, ep_coreboot_module_args = le64 b 32,
     ep_cr3 = le64 b 40, ep_entry_base = le64 b 48\<rparr>"

definition module_args_as_bytes :: "module_args \<Rightarrow> bytes" where
  "module_args_as_bytes m = to_le_bytes (ma_cpu m) @ to_le_bytes (ma_canary m)"

lemma length_runtime_as_bytes [simp]: "length (runtime_as_bytes r) = 36"
  by (simp add: runtime_as_bytes_def)

lemma length_params_as_bytes [simp]: "length (params_as_bytes p) = 56"
  by (simp add: params_as_bytes_def)

lemma length_module_args_as_bytes [simp]: "length (module_args_as_bytes m) = 16"
  by (simp add: module_args_as_bytes_def)

lemma runtime_at_as_bytes: "runtime_at (runtime_as_bytes r @ tail) = r"
  by (cases r) (simp add: runtime_at_def runtime_as_bytes_def le16_def le32_def le64_def byte_simps)

lemma params_at_as_bytes: "params_at (params_as_bytes p @ tail) = p"
  by (cases p) (simp add: params_at_def params_as_bytes_def le32_def le64_def byte_simps)

end
