(* ===== verification/Memory.thy ===== *)
theory Memory
  imports Prelude
begin

text \<open>
  Physical memory as a function from addresses to bytes, with the reads and writes of byte
  ranges that raw pointers and slices made from them stand for. A slice
  \<open>from_raw_parts_mut(addr, n)\<close> is \<open>peek m addr n\<close> for its contents and \<open>poke\<close> for what
  is stored through it.
\<close>

section \<open>Reads and writes\<close>

type_synonym memory = "nat \<Rightarrow> u8"

definition poke :: "memory \<Rightarrow> nat \<Rightarrow> bytes \<Rightarrow> memory" where
  "poke m a bs = (\<lambda>x. if a \<le> x \<and> x < a + length bs then bs ! (x - a) else m x)"

definition peek :: "memory \<Rightarrow> nat \<Rightarrow> nat \<Rightarrow> bytes" where
  "peek m a n = map m [a..<a + n]"

section \<open>Reading what was written\<close>

lemma length_peek [simp]: "length (peek m a n) = n"
  by (simp add: peek_def)

lemma nth_peek: "j < n \<Longrightarrow> peek m a n ! j = m (a + j)"
  by (simp add: peek_def)

lemma sub_peek: "i + n \<le> k \<Longrightarrow> sub (peek m a k) i n = peek m (a + i) n"
  by (rule nth_equalityI) (simp_all add: sub_nth peek_def add.assoc)

lemma poke_outside: "x < a \<or> a + length bs \<le> x \<Longrightarrow> poke m a bs x = m x"
  by (auto simp: poke_def)

lemma peek_poke_inside: "k + n \<le> length bs \<Longrightarrow> peek (poke m a bs) (a + k) n = sub bs k n"
  by (rule nth_equalityI) (auto simp: peek_def poke_def sub_def)

lemma peek_poke_same: "peek (poke m a bs) a (length bs) = bs"
  using peek_poke_inside [of 0 "length bs" bs m a] by (simp add: sub_whole)

lemma peek_poke_other: "disjoint_range (a, length bs) (b, n) \<Longrightarrow> peek (poke m a bs) b n = peek m b n"
  by (rule nth_equalityI) (auto simp: peek_def poke_def disjoint_range_def)

lemma poke_poke_inside: "k + length cs \<le> length bs \<Longrightarrow> poke (poke m a bs) (a + k) cs = poke m a (write_at bs k cs)"
  by (rule ext) (auto simp: poke_def nth_write_at length_write_at)

lemma poke_commute:
  "disjoint_range (a, length bs) (b, length cs) \<Longrightarrow> poke (poke m a bs) b cs = poke (poke m b cs) a bs"
  by (rule ext) (auto simp: poke_def disjoint_range_def)

lemma disjoint_range_sym: "disjoint_range r s \<longleftrightarrow> disjoint_range s r"
  by (auto simp: disjoint_range_def)

lemma disjoint_range_mono:
  "disjoint_range r s \<Longrightarrow> fst r \<le> fst r' \<Longrightarrow> fst r' + snd r' \<le> fst r + snd r \<Longrightarrow> disjoint_range r' s"
  by (auto simp: disjoint_range_def)

end
