(* ===== verification/Smm_Install.thy ===== *)
theory Smm_Install
  imports Memory Smm_Layout Smm_Header Smm_Runtime
begin

text \<open>
  Installation of an SMM image into SMRAM (\<^verbatim>\<open>crates/smm/src/installer.rs\<close>). Physical memory is a
  function from addresses to bytes. \<open>install_pic_image\<close> first plans, which only reads the image, then
  writes; it returns the outcome together with the memory it leaves behind, also when it
  fails. The handler configuration of type \<open>T\<close> is its byte representation and its alignment.
  \<open>x86\<close> is the compile-time choice of the i686 target, \<open>um\<close> the largest \<open>usize\<close>.
\<close>

section \<open>Data\<close>

datatype install_error =
  HeaderError header_error | LayoutError layout_error | NotEnoughEntries | BadEntryRange | BadParams |
  BadRuntime | BadHandlerConfig | BadModuleArgs | BadAlignment | AddressAbove4G | InstallOverflow | ModeMismatch

record install_config =
  ic_smram_base :: u64
  ic_smram_size :: u64
  ic_num_cpus :: u16
  ic_save_state_size :: u32
  ic_handler_config :: bytes
  ic_config_align :: nat

record installed_image =
  ii_header :: smm_image_header
  ii_common_base :: u64
  ii_common_entry :: u64
  ii_runtime_addr :: u64
  ii_cr3 :: u64
  ii_cpus :: "cpu_smm_layout list"

record relocation_config =
  rc_default_smbase :: u64
  rc_cr3 :: u64
  rc_callback :: u64
  rc_callback_arg :: u64
  rc_stack_top :: u64

section \<open>Checks\<close>

definition LOW_4G_END :: u64 where "LOW_4G_END = 2 ^ 32"

definition check_low_address :: "u64 \<Rightarrow> (install_error, unit) result" where
  "check_low_address address = (if address \<ge> LOW_4G_END then Err AddressAbove4G else Ok ())"

definition check_low_range :: "u64 \<Rightarrow> u64 \<Rightarrow> (install_error, unit) result" where
  "check_low_range base sz =
     rbind (ok_or (checked_add base sz) InstallOverflow) (\<lambda>stop.
       if base \<ge> LOW_4G_END \<or> stop > LOW_4G_END then Err AddressAbove4G else Ok ())"

definition add_offset :: "u64 \<Rightarrow> u32 \<Rightarrow> (install_error, u64) result" where
  "add_offset base offset = ok_or (checked_add base (ucast offset)) InstallOverflow"

definition check_mode :: "bool \<Rightarrow> smm_image_header \<Rightarrow> (install_error, unit) result" where
  "check_mode x86 h =
     (let protected = (and (ih_flags h) FLAG_PROTECTED_MODE \<noteq> 0)
      in if protected = x86 then Ok () else Err ModeMismatch)"

definition validate_memory_blocks :: "nat \<Rightarrow> bool \<Rightarrow> smm_image_header \<Rightarrow> (install_error, unit) result" where
  "validate_memory_blocks um x86 h =
     (if unat (ih_runtime_offset h) mod u64_align x86 \<noteq> 0 \<or> unat (ih_runtime_size h) < runtime_size x86
      then Err BadRuntime
      else if unat (ih_handler_config_offset h) mod HANDLER_CONFIG_ALIGNMENT \<noteq> 0 \<or>
              unat (ih_handler_config_capacity h) \<noteq> HANDLER_CONFIG_CAPACITY
      then Err BadHandlerConfig
      else rbind (ok_or (checked_add (ih_runtime_offset h) (ih_runtime_size h)) InstallOverflow) (\<lambda>runtime_end.
           rbind (ok_or (checked_add (ih_handler_config_offset h) (ih_handler_config_capacity h)) InstallOverflow)
             (\<lambda>config_end.
           if runtime_end > ih_handler_config_offset h then Err BadHandlerConfig
           else let flag = (and (ih_flags h) FLAG_COREBOOT_MODULE_ARGS \<noteq> 0);
                    offset = ih_module_args_offset h; sz = ih_module_args_size h
             in if offset = 0 \<and> sz = 0 \<and> \<not> flag then Ok ()
                else if offset = 0 \<or> sz = 0 then Err BadModuleArgs
                else if \<not> flag then Err BadModuleArgs
                else rbind (ok_or (usize_mul um 16 (unat (ih_entry_count h))) InstallOverflow) (\<lambda>needed.
                     if unat offset mod u64_align x86 \<noteq> 0 \<or> unat sz < needed \<or> config_end > offset
                     then Err BadModuleArgs else Ok ()))))"

definition check_entry_params :: "bool \<Rightarrow> entry_descriptor \<Rightarrow> (install_error, unit) result" where
  "check_entry_params x86 e =
     rbind (ok_or (checked_add (ed_params_offset e) 56) InstallOverflow) (\<lambda>params_end.
       if ed_params_offset e = 0 \<or> unat (ed_params_offset e) mod u64_align x86 \<noteq> 0 \<or> params_end > ed_stub_size e
       then Err BadParams else Ok ())"

definition check_entry_range ::
  "smm_image_header \<Rightarrow> bytes \<Rightarrow> entry_descriptor \<Rightarrow> (install_error, unit) result" where
  "check_entry_range h img e =
     rbind (ok_or (checked_add (ed_stub_offset e) (ed_stub_size e)) BadEntryRange) (\<lambda>stop.
       if ed_stub_offset e < ucast (ih_header_size h) \<or> stop > ih_image_size h \<or> unat stop > length img
       then Err BadEntryRange else Ok ())"

definition image_entry :: "nat \<Rightarrow> smm_image_header \<Rightarrow> bytes \<Rightarrow> nat \<Rightarrow> (install_error, entry_descriptor) result" where
  "image_entry um h img i = map_err HeaderError (header_entry um h img (word_of_nat i))"

definition image_fixup :: "nat \<Rightarrow> smm_image_header \<Rightarrow> bytes \<Rightarrow> nat \<Rightarrow> (install_error, u32) result" where
  "image_fixup um h img i = map_err HeaderError (header_fixup um h img (word_of_nat i))"

text \<open>The loop that validates the descriptors and collects the largest stub.\<close>

fun check_entries ::
  "nat \<Rightarrow> bool \<Rightarrow> smm_image_header \<Rightarrow> bytes \<Rightarrow> nat list \<Rightarrow> u32 \<Rightarrow> (install_error, u32) result" where
  "check_entries um x86 h img [] max_stub_size = Ok max_stub_size"
| "check_entries um x86 h img (i # is) max_stub_size =
     rbind (image_entry um h img i) (\<lambda>e.
     rbind (check_entry_range h img e) (\<lambda>_.
     rbind (check_entry_params x86 e) (\<lambda>_.
     check_entries um x86 h img is (max max_stub_size (ed_stub_size e)))))"

section \<open>The plan\<close>

record install_plan =
  pl_header :: smm_image_header
  pl_common_base :: u64
  pl_page_table_base :: u64
  pl_cpus :: "cpu_smm_layout list"
  pl_runtime_addr :: u64
  pl_config_addr :: u64
  pl_module_args_base :: "u64 option"
  pl_common_entry :: u64
  pl_runtime :: smm_runtime

definition check_cpu_addresses ::
  "smm_image_header \<Rightarrow> u32 \<Rightarrow> cpu_smm_layout \<Rightarrow> (install_error, unit) result" where
  "check_cpu_addresses h max_stub_size cpu =
     rbind (for_each check_low_address
       [cl_smbase cpu, cl_entry_addr cpu, cl_save_state_base cpu, cl_save_state_top cpu,
        cl_stack_bottom cpu, cl_stack_top cpu]) (\<lambda>_.
     rbind (check_low_range (cl_entry_addr cpu) (ucast max_stub_size)) (\<lambda>_.
     check_low_range (cl_stack_bottom cpu) (ucast (ih_stack_size h))))"

definition image_layout :: "install_config \<Rightarrow> smm_image_header \<Rightarrow> u32 \<Rightarrow> smram_layout" where
  "image_layout cfg h max_stub_size =
     \<lparr>sl_smram_base = ic_smram_base cfg, sl_smram_size = ic_smram_size cfg, sl_entry_count = ic_num_cpus cfg,
      sl_save_state_size = ic_save_state_size cfg, sl_stack_size = ih_stack_size h,
      sl_entry_stub_size = max_stub_size, sl_handler_mem_size = ih_handler_mem_size h,
      sl_page_table_size = word_of_nat SMM_IDENTITY_TABLE_SIZE\<rparr>"

definition validate_image ::
  "nat \<Rightarrow> bool \<Rightarrow> bytes \<Rightarrow> install_config \<Rightarrow> nat \<Rightarrow> (install_error, smm_image_header \<times> u32) result" where
  "validate_image um x86 img cfg out_len =
     rbind (map_err HeaderError (image_header_parse img)) (\<lambda>h.
     rbind (check_mode x86 h) (\<lambda>_.
     if ih_entry_count h < ic_num_cpus cfg \<or> unat (ic_num_cpus cfg) > out_len then Err NotEnoughEntries
     else rbind (validate_memory_blocks um x86 h) (\<lambda>_.
          rbind (for_each (\<lambda>i. rbind (image_fixup um h img i) (\<lambda>_. Ok ())) [0..<unat (ih_fixup_count h)]) (\<lambda>_.
          if length (ic_handler_config cfg) > unat (ih_handler_config_capacity h) \<or>
             ic_config_align cfg > HANDLER_CONFIG_ALIGNMENT
          then Err BadHandlerConfig
          else rbind (check_entries um x86 h img [0..<unat (ic_num_cpus cfg)] 0) (\<lambda>max_stub_size.
               Ok (h, max_stub_size))))))"

definition plan_install ::
  "nat \<Rightarrow> bool \<Rightarrow> bytes \<Rightarrow> install_config \<Rightarrow> nat \<Rightarrow> (install_error, install_plan) result" where
  "plan_install um x86 img cfg out_len =
     rbind (validate_image um x86 img cfg out_len) (\<lambda>(h, max_stub_size).
     rbind (ok_or (checked_add (ic_smram_base cfg) (ic_smram_size cfg)) InstallOverflow) (\<lambda>smram_top.
     if and smram_top 0xfff \<noteq> 0 then Err BadAlignment
     else let l = image_layout cfg h max_stub_size in
       rbind (map_err LayoutError (compute_common_base l)) (\<lambda>common_base.
       rbind (map_err LayoutError (compute_page_table_base l)) (\<lambda>page_table_base.
       if and page_table_base 0xfff \<noteq> 0 then Err BadAlignment
       else rbind (map_err LayoutError (compute_cpu_layout l out_len)) (\<lambda>cpus.
            rbind (add_offset common_base (ih_runtime_offset h)) (\<lambda>runtime_addr.
            rbind (add_offset common_base (ih_handler_config_offset h)) (\<lambda>config_addr.
            rbind (if ih_module_args_offset h \<noteq> 0
                   then rbind (add_offset common_base (ih_module_args_offset h)) (\<lambda>a. Ok (Some a))
                   else Ok None) (\<lambda>module_args_base.
            rbind (add_offset common_base (ih_handler_entry_offset h)) (\<lambda>common_entry.
            rbind (ok_or (checked_sub (ih_handler_config_offset h) (ih_runtime_offset h)) BadHandlerConfig)
              (\<lambda>config_relative.
            if unat config_relative mod HANDLER_CONFIG_ALIGNMENT \<noteq> 0 then Err BadHandlerConfig
            else rbind (check_low_range common_base (ucast (ih_handler_mem_size h))) (\<lambda>_.
                 rbind (check_low_range page_table_base (word_of_nat SMM_IDENTITY_TABLE_SIZE)) (\<lambda>_.
                 rbind (for_each check_low_address [common_entry, runtime_addr, config_addr, page_table_base]) (\<lambda>_.
                 rbind (case module_args_base of Some a \<Rightarrow> check_low_address a | None \<Rightarrow> Ok ()) (\<lambda>_.
                 rbind (for_each (check_cpu_addresses h max_stub_size) cpus) (\<lambda>_.
                 Ok \<lparr>pl_header = h, pl_common_base = common_base, pl_page_table_base = page_table_base,
                     pl_cpus = cpus, pl_runtime_addr = runtime_addr, pl_config_addr = config_addr,
                     pl_module_args_base = module_args_base, pl_common_entry = common_entry,
                     pl_runtime = runtime_new (ic_smram_base cfg) (ic_smram_size cfg) (ic_num_cpus cfg)
                       (ih_stack_size h) config_relative (word_of_nat (length (ic_handler_config cfg)))\<rparr>)))))))))))))))"

section \<open>Writing\<close>

text \<open>An outcome together with the memory left behind.\<close>

type_synonym 'a effect = "(install_error, 'a) result \<times> memory"

definition ebind :: "'a effect \<Rightarrow> ('a \<Rightarrow> memory \<Rightarrow> 'b effect) \<Rightarrow> 'b effect" where
  "ebind r f = (case fst r of Ok x \<Rightarrow> f x (snd r) | Err e \<Rightarrow> (Err e, snd r) | Panic \<Rightarrow> (Panic, snd r))"

definition pure :: "(install_error, 'a) result \<Rightarrow> memory \<Rightarrow> 'a effect" where
  "pure r m = (r, m)"

fun apply_fixups :: "nat \<Rightarrow> smm_image_header \<Rightarrow> bytes \<Rightarrow> u64 \<Rightarrow> nat list \<Rightarrow> memory \<Rightarrow> unit effect" where
  "apply_fixups um h img base [] m = (Ok (), m)"
| "apply_fixups um h img base (i # is) m =
     ebind (pure (image_fixup um h img i) m) (\<lambda>offset m.
       let at = unat (base + ucast offset)
       in apply_fixups um h img base is (poke m at (to_le_bytes (from_le_bytes (peek m at 4) + (ucast base :: u32)))))"

definition patch_entry_params :: "bool \<Rightarrow> u64 \<Rightarrow> entry_descriptor \<Rightarrow> entry_params \<Rightarrow> memory \<Rightarrow> unit effect" where
  "patch_entry_params x86 entry_addr e params m =
     ebind (pure (check_entry_params x86 e) m) (\<lambda>_ m.
     ebind (pure (ok_or (checked_add entry_addr (ucast (ed_params_offset e))) InstallOverflow) m) (\<lambda>params_addr m.
     (Ok (), poke m (unat params_addr) (params_as_bytes params))))"

definition install_cpu ::
  "nat \<Rightarrow> bool \<Rightarrow> bytes \<Rightarrow> install_plan \<Rightarrow> nat \<times> cpu_smm_layout \<Rightarrow> memory \<Rightarrow> unit effect" where
  "install_cpu um x86 img pl ic m =
     (let i = fst ic; cpu = snd ic; h = pl_header pl in
      ebind (pure (image_entry um h img i) m) (\<lambda>e m.
      let m = poke m (unat (cl_entry_addr cpu)) (sub img (unat (ed_stub_offset e)) (unat (ed_stub_size e)))
      in ebind (case pl_module_args_base pl of
                  Some base \<Rightarrow>
                    ebind (pure (ok_or (checked_add base (word_of_nat (i * 16))) InstallOverflow) m) (\<lambda>addr m.
                    let m = poke m (unat addr) (module_args_as_bytes \<lparr>ma_cpu = word_of_nat i, ma_canary = cl_stack_bottom cpu\<rparr>);
                        m = poke m (unat (cl_stack_bottom cpu)) (to_le_bytes (cl_stack_bottom cpu))
                    in (Ok addr, m))
                | None \<Rightarrow> (Ok 0, m)) (\<lambda>args m.
         patch_entry_params x86 (cl_entry_addr cpu) e
           \<lparr>ep_cpu = word_of_nat i, ep_stack_size = ih_stack_size h, ep_stack_top = cl_stack_top cpu,
            ep_common_entry = pl_common_entry pl, ep_runtime = pl_runtime_addr pl, ep_coreboot_module_args = args,
            ep_cr3 = snd (build_identity_tables (pl_page_table_base pl)), ep_entry_base = cl_entry_addr cpu\<rparr> m)))"

fun install_cpus ::
  "nat \<Rightarrow> bool \<Rightarrow> bytes \<Rightarrow> install_plan \<Rightarrow> (nat \<times> cpu_smm_layout) list \<Rightarrow> memory \<Rightarrow> unit effect" where
  "install_cpus um x86 img pl [] m = (Ok (), m)"
| "install_cpus um x86 img pl (ic # ics) m = ebind (install_cpu um x86 img pl ic m) (\<lambda>_. install_cpus um x86 img pl ics)"

definition write_image :: "nat \<Rightarrow> bool \<Rightarrow> bytes \<Rightarrow> install_config \<Rightarrow> install_plan \<Rightarrow> memory \<Rightarrow> unit effect" where
  "write_image um x86 img cfg pl m =
     (let h = pl_header pl; base = pl_common_base pl;
          m = poke m (unat base) (replicate (unat (ih_handler_mem_size h)) 0);
          m = poke m (unat base) (sub img (unat (ih_handler_offset h)) (unat (ih_handler_load_size h)))
      in ebind (apply_fixups um h img base [0..<unat (ih_fixup_count h)] m) (\<lambda>_ m.
         let m = poke m (unat (pl_runtime_addr pl)) (runtime_as_bytes (pl_runtime pl));
             m = poke m (unat (pl_config_addr pl)) (ic_handler_config cfg);
             m = poke m (unat (pl_page_table_base pl))
                   (concat (map to_le_bytes (fst (build_identity_tables (pl_page_table_base pl)))))
         in install_cpus um x86 img pl (List.enumerate 0 (pl_cpus pl)) m))"

definition install_pic_image ::
  "nat \<Rightarrow> bool \<Rightarrow> bytes \<Rightarrow> install_config \<Rightarrow> nat \<Rightarrow> memory \<Rightarrow> installed_image effect" where
  "install_pic_image um x86 img cfg out_len m =
     ebind (pure (plan_install um x86 img cfg out_len) m) (\<lambda>pl m.
     ebind (write_image um x86 img cfg pl m) (\<lambda>_ m.
       (Ok \<lparr>ii_header = pl_header pl, ii_common_base = pl_common_base pl, ii_common_entry = pl_common_entry pl,
           ii_runtime_addr = pl_runtime_addr pl, ii_cr3 = snd (build_identity_tables (pl_page_table_base pl)),
           ii_cpus = pl_cpus pl\<rparr>, m)))"

definition install_relocation_stub ::
  "nat \<Rightarrow> bool \<Rightarrow> bytes \<Rightarrow> relocation_config \<Rightarrow> memory \<Rightarrow> unit effect" where
  "install_relocation_stub um x86 img cfg m =
     ebind (pure (rbind (map_err HeaderError (image_header_parse img)) (\<lambda>h.
       rbind (check_mode x86 h) (\<lambda>_.
       if ih_entry_count h = 0 then Err NotEnoughEntries
       else rbind (image_entry um h img 0) (\<lambda>stub.
            rbind (check_entry_range h img stub) (\<lambda>_.
            rbind (check_entry_params x86 stub) (\<lambda>_.
            rbind (ok_or (checked_add (rc_default_smbase cfg) SMM_ENTRY_OFFSET) InstallOverflow) (\<lambda>entry_addr.
            rbind (ok_or (checked_add entry_addr (ucast (ed_stub_size stub))) InstallOverflow) (\<lambda>entry_end.
            rbind (ok_or (checked_add (rc_default_smbase cfg) SMM_RELOCATION_TABLE_OFFSET) InstallOverflow) (\<lambda>page_tables.
            if entry_end > page_tables then Err BadEntryRange
            else if and (rc_cr3 cfg) 0xfff \<noteq> 0 then Err BadAlignment
            else rbind (for_each check_low_address
                   [entry_addr, rc_cr3 cfg, rc_callback cfg, rc_callback_arg cfg, rc_stack_top cfg]) (\<lambda>_.
                 Ok (stub, entry_addr))))))))))) m) (\<lambda>(stub, entry_addr) m.
     let m = poke m (unat entry_addr) (sub img (unat (ed_stub_offset stub)) (unat (ed_stub_size stub)))
     in patch_entry_params x86 entry_addr stub
          \<lparr>ep_cpu = 0, ep_stack_size = 0, ep_stack_top = rc_stack_top cfg, ep_common_entry = rc_callback cfg,
           ep_runtime = rc_callback_arg cfg, ep_coreboot_module_args = 0, ep_cr3 = rc_cr3 cfg,
           ep_entry_base = entry_addr\<rparr> m)"

section \<open>Sequences of writes\<close>

text \<open>A sequence of writes, as address and bytes.\<close>

primrec apply_writes :: "(nat \<times> bytes) list \<Rightarrow> memory \<Rightarrow> memory" where
  "apply_writes [] m = m"
| "apply_writes (w # ws) m = apply_writes ws (poke m (fst w) (snd w))"

definition write_range :: "nat \<times> bytes \<Rightarrow> range" where
  "write_range w = (fst w, length (snd w))"

lemma apply_writes_append: "apply_writes (us @ vs) m = apply_writes vs (apply_writes us m)"
  by (induction us arbitrary: m) auto

lemma apply_writes_outside:
  "(\<And>w. w \<in> set ws \<Longrightarrow> x < fst w \<or> fst w + length (snd w) \<le> x) \<Longrightarrow> apply_writes ws m x = m x"
  by (induction ws arbitrary: m) (auto simp: poke_outside)

lemma peek_apply_other:
  "(\<And>w. w \<in> set ws \<Longrightarrow> disjoint_range (write_range w) (a, n)) \<Longrightarrow> peek (apply_writes ws m) a n = peek m a n"
  by (induction ws arbitrary: m) (auto simp: peek_poke_other write_range_def)

lemma peek_apply_same:
  "w \<in> set ws \<Longrightarrow> (\<And>v. v \<in> set ws \<Longrightarrow> v = w \<or> disjoint_range (write_range v) (write_range w)) \<Longrightarrow>
    peek (apply_writes ws m) (fst w) (length (snd w)) = snd w"
proof (induction ws arbitrary: m)
  case (Cons v ws)
  show ?case
  proof (cases "w \<in> set ws")
    case True
    then show ?thesis using Cons by auto
  next
    case False
    then have "v = w" using Cons.prems(1) by auto
    moreover have "disjoint_range (write_range u) (fst w, length (snd w))" if "u \<in> set ws" for u
      using Cons.prems(2) [of u] that False by (auto simp: write_range_def)
    ultimately show ?thesis
      by (simp add: peek_apply_other peek_poke_same)
  qed
qed simp

section \<open>Fixups\<close>

definition rebase :: "u64 \<Rightarrow> u32 list \<Rightarrow> bytes \<Rightarrow> bytes" where
  "rebase base offsets b =
     fold (\<lambda>off b. write_at b (unat off) (to_le_bytes (le32 b (unat off) + (ucast base :: u32)))) offsets b"

lemma length_rebase:
  "(\<And>x. x \<in> set offsets \<Longrightarrow> unat x + 4 \<le> length b) \<Longrightarrow> length (rebase base offsets b) = length b"
  by (induction offsets arbitrary: b) (auto simp: rebase_def length_write_at)

lemma apply_fixups_eq:
  assumes "\<And>i. i \<in> set is \<Longrightarrow> image_fixup um h img i = Ok (fx i) \<and> unat (fx i) + 4 \<le> length b"
    and "unat base + length b < 2 ^ 64"
  shows "apply_fixups um h img base is (poke m (unat base) b) = (Ok (), poke m (unat base) (rebase base (map fx is) b))"
  using assms
proof (induction "is" arbitrary: b)
  case Nil
  then show ?case by (simp add: rebase_def)
next
  case (Cons i "is")
  let ?o = "unat (fx i)"
  have f: "image_fixup um h img i = Ok (fx i)" "?o + 4 \<le> length b"
    using Cons.prems(1) by auto
  have at: "unat (base + ucast (fx i)) = unat base + ?o"
    using f(2) Cons.prems(2) by (subst unat_checked_add) auto
  have v: "from_le_bytes (peek (poke m (unat base) b) (unat base + ?o) 4) = le32 b ?o"
    using peek_poke_inside [OF f(2)] by (simp add: le32_def)
  let ?b = "write_at b ?o (to_le_bytes (le32 b ?o + ucast base))"
  have len: "length ?b = length b"
    using f(2) by (simp add: length_write_at)
  have p: "poke (poke m (unat base) b) (unat base + ?o) (to_le_bytes (le32 b ?o + (ucast base :: u32))) = poke m (unat base) ?b"
    using f(2) by (intro poke_poke_inside) simp
  have "apply_fixups um h img base is (poke m (unat base) ?b) = (Ok (), poke m (unat base) (rebase base (map fx is) ?b))"
    using Cons.prems len by (intro Cons.IH) auto
  then show ?case
    by (simp add: ebind_def pure_def f(1) at v p rebase_def)
qed

section \<open>What the plan guarantees\<close>

lemma check_entries_eq_Ok:
  assumes "check_entries um x86 h img is mx = Ok mx'"
  shows "mx \<le> mx' \<and> (\<forall>i \<in> set is. \<exists>e. image_entry um h img i = Ok e \<and> check_entry_range h img e = Ok () \<and>
    check_entry_params x86 e = Ok () \<and> ed_stub_size e \<le> mx')"
  using assms
proof (induction "is" arbitrary: mx)
  case (Cons i "is")
  then obtain e where e: "image_entry um h img i = Ok e" "check_entry_range h img e = Ok ()"
      "check_entry_params x86 e = Ok ()" and r: "check_entries um x86 h img is (max mx (ed_stub_size e)) = Ok mx'"
    by auto
  note ih = Cons.IH [OF r]
  then have "mx \<le> mx'" "ed_stub_size e \<le> mx'"
    by auto
  then show ?case
    using ih e by auto
qed simp

lemma check_entry_params_eq_Ok:
  "check_entry_params x86 e = Ok u \<Longrightarrow> unat (ed_params_offset e) + 56 \<le> unat (ed_stub_size e)"
  by (auto simp: check_entry_params_def word_less_nat_alt not_less dest!: checked_add_SomeD split: if_splits)

lemma check_entry_range_eq_Ok:
  "check_entry_range h img e = Ok u \<Longrightarrow> unat (ed_stub_offset e) + unat (ed_stub_size e) \<le> length img"
  by (auto simp: check_entry_range_def not_less dest!: checked_add_SomeD split: if_splits)

lemma check_low_address_eq_Ok: "check_low_address a = Ok u \<longleftrightarrow> unat a < 2 ^ 32"
  by (auto simp: check_low_address_def LOW_4G_END_def word_le_nat_alt)

lemma check_low_range_eq_Ok:
  "check_low_range a n = Ok u \<Longrightarrow> unat a < 2 ^ 32 \<and> unat a + unat n \<le> 2 ^ 32"
  by (auto simp: check_low_range_def LOW_4G_END_def word_le_nat_alt word_less_nat_alt not_less dest!: checked_add_SomeD
      split: if_splits)

lemma validate_image_eq_Ok:
  assumes "validate_image um x86 img cfg out_len = Ok (h, mx)"
  shows "image_header_parse img = Ok h" "unat (ic_num_cpus cfg) \<le> unat (ih_entry_count h)"
    "validate_memory_blocks um x86 h = Ok ()" "length (ic_handler_config cfg) \<le> 256"
    "\<And>i. i < unat (ih_fixup_count h) \<Longrightarrow> \<exists>off. image_fixup um h img i = Ok off"
    "check_entries um x86 h img [0..<unat (ic_num_cpus cfg)] 0 = Ok mx"
proof -
  have a: "image_header_parse img = Ok h" "\<not> ih_entry_count h < ic_num_cpus cfg"
    "validate_memory_blocks um x86 h = Ok ()"
    "for_each (\<lambda>i. rbind (image_fixup um h img i) (\<lambda>_. Ok ())) [0..<unat (ih_fixup_count h)] = Ok ()"
    "length (ic_handler_config cfg) \<le> unat (ih_handler_config_capacity h)"
    "check_entries um x86 h img [0..<unat (ic_num_cpus cfg)] 0 = Ok mx"
    using assms by (auto simp: validate_image_def split: if_splits)
  have "unat (ih_handler_config_capacity h) = 256"
    using a(3) by (auto simp: validate_memory_blocks_def HANDLER_CONFIG_CAPACITY_def split: if_splits)
  then show "image_header_parse img = Ok h" "unat (ic_num_cpus cfg) \<le> unat (ih_entry_count h)"
    "validate_memory_blocks um x86 h = Ok ()" "length (ic_handler_config cfg) \<le> 256"
    "check_entries um x86 h img [0..<unat (ic_num_cpus cfg)] 0 = Ok mx"
    using a by (auto simp: word_less_nat_alt not_less)
  show "\<exists>off. image_fixup um h img i = Ok off" if "i < unat (ih_fixup_count h)" for i
    using a(4) that by (auto simp: for_each_eq_Ok)
qed

text \<open>The loader-owned blocks follow one another behind the initialized bytes.\<close>

lemma validate_memory_blocks_eq_Ok:
  assumes "validate_memory_blocks um x86 h = Ok ()"
  shows "unat (ih_runtime_offset h) + unat (ih_runtime_size h) \<le> unat (ih_handler_config_offset h)"
    "36 \<le> unat (ih_runtime_size h)" "unat (ih_handler_config_capacity h) = 256"
    "ih_module_args_offset h \<noteq> 0 \<Longrightarrow> unat (ih_handler_config_offset h) + 256 \<le> unat (ih_module_args_offset h) \<and>
      16 * unat (ih_entry_count h) \<le> unat (ih_module_args_size h)"
proof -
  have cap: "unat (ih_handler_config_capacity h) = 256" and rs: "runtime_size x86 \<le> unat (ih_runtime_size h)"
    using assms by (auto simp: validate_memory_blocks_def HANDLER_CONFIG_CAPACITY_def split: if_splits)
  obtain re ce where re: "checked_add (ih_runtime_offset h) (ih_runtime_size h) = Some re"
      "\<not> re > ih_handler_config_offset h"
      "checked_add (ih_handler_config_offset h) (ih_handler_config_capacity h) = Some ce"
      "ih_module_args_offset h \<noteq> 0 \<Longrightarrow> \<not> ce > ih_module_args_offset h \<and> 16 * unat (ih_entry_count h) \<le> unat (ih_module_args_size h)"
    using assms by (auto simp: validate_memory_blocks_def Let_def split: if_splits)
  show "unat (ih_runtime_offset h) + unat (ih_runtime_size h) \<le> unat (ih_handler_config_offset h)"
    using checked_add_SomeD [OF re(1)] re(2) by (simp add: word_less_nat_alt)
  show "36 \<le> unat (ih_runtime_size h)" "unat (ih_handler_config_capacity h) = 256"
    using cap rs by (auto simp: runtime_size_def split: if_splits)
  show "unat (ih_handler_config_offset h) + 256 \<le> unat (ih_module_args_offset h) \<and>
      16 * unat (ih_entry_count h) \<le> unat (ih_module_args_size h)" if "ih_module_args_offset h \<noteq> 0"
    using re(4) [OF that] checked_add_SomeD [OF re(3)] cap by (simp add: word_less_nat_alt)
qed

lemma module_args_case:
  "(if off \<noteq> 0 then rbind (add_offset cb off) (\<lambda>a. Ok (Some a)) else Ok None) = Ok ma \<longleftrightarrow>
     (case ma of None \<Rightarrow> off = 0 | Some a \<Rightarrow> off \<noteq> 0 \<and> checked_add cb (ucast off) = Some a)"
  by (cases ma) (auto simp: add_offset_def)

lemma plan_install_eq_Ok:
  assumes "plan_install um x86 img cfg out_len = Ok pl"
  obtains h mx l where "validate_image um x86 img cfg out_len = Ok (h, mx)" "pl_header pl = h"
    "l = image_layout cfg h mx" "compute_common_base l = Ok (pl_common_base pl)"
    "compute_page_table_base l = Ok (pl_page_table_base pl)" "compute_cpu_layout l out_len = Ok (pl_cpus pl)"
    "checked_add (pl_common_base pl) (ucast (ih_runtime_offset h)) = Some (pl_runtime_addr pl)"
    "checked_add (pl_common_base pl) (ucast (ih_handler_config_offset h)) = Some (pl_config_addr pl)"
    "checked_add (pl_common_base pl) (ucast (ih_handler_entry_offset h)) = Some (pl_common_entry pl)"
    "case pl_module_args_base pl of None \<Rightarrow> ih_module_args_offset h = 0
       | Some a \<Rightarrow> ih_module_args_offset h \<noteq> 0 \<and> checked_add (pl_common_base pl) (ucast (ih_module_args_offset h)) = Some a"
    "check_low_range (pl_common_base pl) (ucast (ih_handler_mem_size h)) = Ok ()"
    "check_low_range (pl_page_table_base pl) (word_of_nat SMM_IDENTITY_TABLE_SIZE) = Ok ()"
    "\<And>c. c \<in> set (pl_cpus pl) \<Longrightarrow> check_cpu_addresses h mx c = Ok ()"
    "pl_runtime pl = runtime_new (ic_smram_base cfg) (ic_smram_size cfg) (ic_num_cpus cfg) (ih_stack_size h)
       (ih_handler_config_offset h - ih_runtime_offset h) (word_of_nat (length (ic_handler_config cfg)))"
proof -
  obtain h mx where v: "validate_image um x86 img cfg out_len = Ok (h, mx)"
    using assms by (auto simp: plan_install_def)
  let ?l = "image_layout cfg h mx"
  from assms [unfolded plan_install_def v rbind.simps case_prod_conv Let_def rbind_eq_Ok ok_or_eq_Ok map_err_eq_Ok
      guard_eq_Ok module_args_case for_each_eq_Ok result.inject add_offset_def]
  show thesis
    by (elim exE conjE) (rule that [OF v _ refl], auto simp: checked_sub_def split: if_splits option.split, metis)
qed

section \<open>Writing succeeds\<close>

lemma ebind_simps [simp]: "ebind (Ok x, m) f = f x m" "ebind (Err e, m) f = (Err e, m)" "ebind (Panic, m) f = (Panic, m)"
  by (simp_all add: ebind_def)

text \<open>The writes of one CPU, the patched stub last.\<close>

definition cpu_params :: "install_plan \<Rightarrow> nat \<Rightarrow> cpu_smm_layout \<Rightarrow> entry_params" where
  "cpu_params pl i cpu =
     \<lparr>ep_cpu = word_of_nat i, ep_stack_size = ih_stack_size (pl_header pl), ep_stack_top = cl_stack_top cpu,
      ep_common_entry = pl_common_entry pl, ep_runtime = pl_runtime_addr pl,
      ep_coreboot_module_args = (case pl_module_args_base pl of None \<Rightarrow> 0 | Some a \<Rightarrow> a + word_of_nat (i * 16)),
      ep_cr3 = pl_page_table_base pl, ep_entry_base = cl_entry_addr cpu\<rparr>"

definition patched_stub :: "bytes \<Rightarrow> entry_descriptor \<Rightarrow> entry_params \<Rightarrow> bytes" where
  "patched_stub img e p =
     write_at (sub img (unat (ed_stub_offset e)) (unat (ed_stub_size e))) (unat (ed_params_offset e)) (params_as_bytes p)"

definition args_writes :: "install_plan \<Rightarrow> nat \<Rightarrow> cpu_smm_layout \<Rightarrow> (nat \<times> bytes) list" where
  "args_writes pl i cpu =
     (case pl_module_args_base pl of None \<Rightarrow> []
      | Some a \<Rightarrow> [(unat a + 16 * i, module_args_as_bytes \<lparr>ma_cpu = word_of_nat i, ma_canary = cl_stack_bottom cpu\<rparr>),
                  (unat (cl_stack_bottom cpu), to_le_bytes (cl_stack_bottom cpu))])"

definition cpu_writes :: "bytes \<Rightarrow> install_plan \<Rightarrow> (nat \<Rightarrow> entry_descriptor) \<Rightarrow> nat \<times> cpu_smm_layout \<Rightarrow> (nat \<times> bytes) list" where
  "cpu_writes img pl d ic =
     args_writes pl (fst ic) (snd ic) @
     [(unat (cl_entry_addr (snd ic)), patched_stub img (d (fst ic)) (cpu_params pl (fst ic) (snd ic)))]"

text \<open>What has to hold of a CPU for its step not to fail and its writes not to touch one another.\<close>

definition cpu_ready :: "nat \<Rightarrow> bool \<Rightarrow> bytes \<Rightarrow> install_plan \<Rightarrow> (nat \<Rightarrow> entry_descriptor) \<Rightarrow> nat \<times> cpu_smm_layout \<Rightarrow> bool" where
  "cpu_ready um x86 img pl d ic \<longleftrightarrow>
     image_entry um (pl_header pl) img (fst ic) = Ok (d (fst ic)) \<and> check_entry_params x86 (d (fst ic)) = Ok () \<and>
     unat (ed_stub_offset (d (fst ic))) + unat (ed_stub_size (d (fst ic))) \<le> length img \<and>
     unat (cl_entry_addr (snd ic)) + unat (ed_stub_size (d (fst ic))) < 2 ^ 64 \<and> fst ic < 65536 \<and>
     (case pl_module_args_base pl of None \<Rightarrow> True | Some a \<Rightarrow> unat a < 2 ^ 32) \<and>
     (\<forall>w \<in> set (args_writes pl (fst ic) (snd ic)).
        disjoint_range (write_range w) (unat (cl_entry_addr (snd ic)), unat (ed_stub_size (d (fst ic)))))"

lemma install_cpu_eq:
  assumes "cpu_ready um x86 img pl d ic"
  shows "install_cpu um x86 img pl ic m = (Ok (), apply_writes (cpu_writes img pl d ic) m)"
proof -
  obtain i cpu where ic: "ic = (i, cpu)" by (cases ic)
  let ?e = "d i" and ?a = "unat (cl_entry_addr cpu)"
  let ?stub = "sub img (unat (ed_stub_offset ?e)) (unat (ed_stub_size ?e))"
  have r: "image_entry um (pl_header pl) img i = Ok ?e" "check_entry_params x86 ?e = Ok ()"
    "unat (ed_stub_offset ?e) + unat (ed_stub_size ?e) \<le> length img"
    "?a + unat (ed_stub_size ?e) < 2 ^ 64" "i < 65536"
    "case pl_module_args_base pl of None \<Rightarrow> True | Some a \<Rightarrow> unat a < 2 ^ 32"
    "\<And>w. w \<in> set (args_writes pl i cpu) \<Longrightarrow> disjoint_range (write_range w) (?a, unat (ed_stub_size ?e))"
    using assms by (auto simp: cpu_ready_def ic)
  have po: "unat (ed_params_offset ?e) + 56 \<le> unat (ed_stub_size ?e)"
    by (rule check_entry_params_eq_Ok [OF r(2)])
  have len: "length ?stub = unat (ed_stub_size ?e)"
    using r(3) by simp
  have pa: "checked_add (cl_entry_addr cpu) (ucast (ed_params_offset ?e)) = Some (cl_entry_addr cpu + ucast (ed_params_offset ?e))"
    "unat (cl_entry_addr cpu + ucast (ed_params_offset ?e)) = ?a + unat (ed_params_offset ?e)"
    using po r(4) by (auto simp: checked_add_def unat_checked_add)
  have patch: "patch_entry_params x86 (cl_entry_addr cpu) ?e prm m' =
      (Ok (), poke m' (?a + unat (ed_params_offset ?e)) (params_as_bytes prm))" for m' prm
    by (simp add: patch_entry_params_def pure_def r(2) pa)
  have stub: "poke (poke m' ?a ?stub) (?a + unat (ed_params_offset ?e)) (params_as_bytes prm) =
      poke m' ?a (patched_stub img ?e prm)" for m' prm
    unfolding patched_stub_def using po len by (intro poke_poke_inside) simp
  show ?thesis
  proof (cases "pl_module_args_base pl")
    case None
    then show ?thesis
      by (simp add: install_cpu_def ic Let_def pure_def r(1) cpu_writes_def args_writes_def patch stub
          cpu_params_def build_identity_tables_def)
  next
    case (Some b)
    have k: "unat (word_of_nat (i * 16) :: u64) = 16 * i" "unat b + 16 * i < 2 ^ 64"
      using r(5,6) Some by (auto simp: unat_of_nat simp del: of_nat_mult)
    then have b: "checked_add b (word_of_nat (i * 16)) = Some (b + word_of_nat (i * 16))"
      "unat (b + word_of_nat (i * 16)) = unat b + 16 * i"
      by (simp_all add: checked_add_def unat_checked_add del: of_nat_mult)
    let ?w1 = "module_args_as_bytes \<lparr>ma_cpu = word_of_nat i, ma_canary = cl_stack_bottom cpu\<rparr>"
    let ?w2 = "to_le_bytes (cl_stack_bottom cpu)"
    have dis: "disjoint_range (?a, length ?stub) (unat b + 16 * i, length ?w1)"
      "disjoint_range (?a, length ?stub) (unat (cl_stack_bottom cpu), length ?w2)"
      using r(7) [of "(unat b + 16 * i, ?w1)"] r(7) [of "(unat (cl_stack_bottom cpu), ?w2)"]
      by (auto simp: args_writes_def Some write_range_def len disjoint_range_def)
    let ?m = "poke (poke (poke m ?a ?stub) (unat b + 16 * i) ?w1) (unat (cl_stack_bottom cpu)) ?w2"
    have "?m = poke (poke (poke m (unat b + 16 * i) ?w1) (unat (cl_stack_bottom cpu)) ?w2) ?a ?stub"
      by (simp only: poke_commute [OF dis(1)] poke_commute [OF dis(2)])
    then show ?thesis
      by (simp add: install_cpu_def ic Let_def pure_def r(1) cpu_writes_def args_writes_def patch stub b Some
          cpu_params_def build_identity_tables_def del: of_nat_mult)
  qed
qed

lemma install_cpus_eq:
  "(\<And>ic. ic \<in> set ics \<Longrightarrow> cpu_ready um x86 img pl d ic) \<Longrightarrow>
    install_cpus um x86 img pl ics m = (Ok (), apply_writes (concat (map (cpu_writes img pl d) ics)) m)"
proof (induction ics arbitrary: m)
  case (Cons ic ics)
  have r: "cpu_ready um x86 img pl d ic"
    by (rule Cons.prems) simp
  have "install_cpus um x86 img pl ics m' = (Ok (), apply_writes (concat (map (cpu_writes img pl d) ics)) m')" for m'
    by (rule Cons.IH) (simp add: Cons.prems)
  then show ?case
    by (simp add: install_cpu_eq [OF r] apply_writes_append)
qed simp

section \<open>Placement of the writes\<close>

definition placed :: "install_config \<Rightarrow> install_plan \<Rightarrow> u32 \<Rightarrow> bool" where
  "placed cfg pl mx \<longleftrightarrow>
     (let cb = unat (pl_common_base pl); pt = unat (pl_page_table_base pl); cpus = pl_cpus pl;
          lo = unat (ic_smram_base cfg); hi = unat (ic_smram_base cfg) + unat (ic_smram_size cfg) in
      lo \<le> cb \<and> cb + unat (ih_handler_mem_size (pl_header pl)) \<le> pt \<and> pt + 24576 \<le> hi \<and>
      (\<forall>c \<in> set cpus. lo \<le> unat (cl_stack_bottom c) \<and> lo \<le> unat (cl_entry_addr c) \<and>
         unat (cl_entry_addr c) + unat mx \<le> cb \<and> (\<forall>c' \<in> set cpus. unat (cl_stack_bottom c) + 8 \<le> unat (cl_entry_addr c'))) \<and>
      (\<forall>i < length cpus. \<forall>j < length cpus. i \<noteq> j \<longrightarrow>
         disjoint_range (unat (cl_entry_addr (cpus ! i)), unat mx) (unat (cl_entry_addr (cpus ! j)), unat mx)))"

lemma layout_placed:
  assumes l: "l = image_layout cfg (pl_header pl) mx" and cpu: "compute_cpu_layout l n = Ok (pl_cpus pl)"
    and cb: "compute_common_base l = Ok (pl_common_base pl)" and pt: "compute_page_table_base l = Ok (pl_page_table_base pl)"
  shows "placed cfg pl mx"
proof -
  let ?cpus = "pl_cpus pl"
  have f: "sl_smram_base l = ic_smram_base cfg" "sl_smram_size l = ic_smram_size cfg" "sl_entry_stub_size l = mx"
    "sl_handler_mem_size l = ih_handler_mem_size (pl_header pl)" "unat (sl_page_table_size l) = 24576"
    by (simp_all add: l image_layout_def SMM_IDENTITY_TABLE_SIZE_def)
  obtain se N P F where c: "se = unat (sl_smram_base l) + length ?cpus * unat (sl_stack_size l)" "se \<le> unat (pl_common_base pl)"
      "0 < P" "P * N + unat mx \<le> 32768" "unat (sl_save_state_size l) \<le> N" "unat mx \<le> N"
      "\<And>i. i < length ?cpus \<Longrightarrow> slot_at l (unat (pl_common_base pl)) se N P F i (?cpus ! i)"
    using compute_cpu_layout_slots [OF cpu] cb f(3) by (metis result.inject(1))
  note s = c(7) [unfolded slot_at_def f(3)]
  have st: "unat (cl_stack_bottom (?cpus ! i)) \<le> se" if "i < length ?cpus" for i
    using s [OF that] c(1) that by (simp add: mult_le_mono1 less_imp_le)
  have "disjoint_range (unat (cl_entry_addr (?cpus ! i)), unat mx) (unat (cl_entry_addr (?cpus ! j)), unat mx)"
    if "i < length ?cpus" "j < length ?cpus" "i \<noteq> j" for i j
  proof -
    have d: "unat (cl_smbase (?cpus ! b)) + N \<le> unat (cl_smbase (?cpus ! a))" if "a < b" "b < length ?cpus" for a b
      using s [of a] s [of b] that slot_descends [OF _ _ c(3)] c(4) by auto
    from that(3) consider "i < j" | "j < i" by linarith
    then show ?thesis
      using d [of i j] d [of j i] that(1,2) s [OF that(1)] s [OF that(2)] c(6) by cases (simp_all add: disjoint_range_def)
  qed
  moreover have "unat (ic_smram_base cfg) \<le> unat (cl_stack_bottom (?cpus ! i)) \<and>
      unat (ic_smram_base cfg) \<le> unat (cl_entry_addr (?cpus ! i)) \<and>
      unat (cl_entry_addr (?cpus ! i)) + unat mx \<le> unat (pl_common_base pl)" if "i < length ?cpus" for i
    using s [OF that] f(1) c(1) by auto
  moreover have "unat (cl_stack_bottom (?cpus ! i)) + 8 \<le> unat (cl_entry_addr (?cpus ! j))"
    if "i < length ?cpus" "j < length ?cpus" for i j
    using st [OF that(1)] s [OF that(2)] by simp
  moreover have "unat (ic_smram_base cfg) \<le> unat (pl_common_base pl) \<and>
      unat (pl_common_base pl) + unat (ih_handler_mem_size (pl_header pl)) \<le> unat (pl_page_table_base pl) \<and>
      unat (pl_page_table_base pl) + 24576 \<le> unat (ic_smram_base cfg) + unat (ic_smram_size cfg)"
    using page_tables_above [OF cb pt] f by simp
  ultimately show ?thesis
    unfolding placed_def Let_def by (auto simp: in_set_conv_nth)
qed

text \<open>Everything a successful plan guarantees, in the form the writing part needs.\<close>

lemma planned:
  assumes plan: "plan_install um x86 img cfg out_len = Ok pl"
  obtains mx d fx where "image_header_parse img = Ok (pl_header pl)" "validate_memory_blocks um x86 (pl_header pl) = Ok ()"
    "placed cfg pl mx" "length (pl_cpus pl) = unat (ic_num_cpus cfg)"
    "unat (ic_num_cpus cfg) \<le> unat (ih_entry_count (pl_header pl))" "length (ic_handler_config cfg) \<le> 256"
    "\<And>i. i < length (pl_cpus pl) \<Longrightarrow> image_entry um (pl_header pl) img i = Ok (d i) \<and>
       check_entry_params x86 (d i) = Ok () \<and> unat (ed_stub_offset (d i)) + unat (ed_stub_size (d i)) \<le> length img \<and>
       unat (ed_stub_size (d i)) \<le> unat mx"
    "\<And>i. i < unat (ih_fixup_count (pl_header pl)) \<Longrightarrow> image_fixup um (pl_header pl) img i = Ok (fx i)"
    "unat (pl_runtime_addr pl) = unat (pl_common_base pl) + unat (ih_runtime_offset (pl_header pl))"
    "unat (pl_config_addr pl) = unat (pl_common_base pl) + unat (ih_handler_config_offset (pl_header pl))"
    "unat (pl_common_entry pl) = unat (pl_common_base pl) + unat (ih_handler_entry_offset (pl_header pl))"
    "case pl_module_args_base pl of None \<Rightarrow> ih_module_args_offset (pl_header pl) = 0
       | Some a \<Rightarrow> ih_module_args_offset (pl_header pl) \<noteq> 0 \<and>
           unat a = unat (pl_common_base pl) + unat (ih_module_args_offset (pl_header pl))"
    "unat (pl_common_base pl) + unat (ih_handler_mem_size (pl_header pl)) \<le> 2 ^ 32"
proof -
  obtain h mx l where p: "validate_image um x86 img cfg out_len = Ok (h, mx)" "pl_header pl = h"
    "l = image_layout cfg h mx" "compute_common_base l = Ok (pl_common_base pl)"
    "compute_page_table_base l = Ok (pl_page_table_base pl)" "compute_cpu_layout l out_len = Ok (pl_cpus pl)"
    "checked_add (pl_common_base pl) (ucast (ih_runtime_offset h)) = Some (pl_runtime_addr pl)"
    "checked_add (pl_common_base pl) (ucast (ih_handler_config_offset h)) = Some (pl_config_addr pl)"
    "checked_add (pl_common_base pl) (ucast (ih_handler_entry_offset h)) = Some (pl_common_entry pl)"
    "case pl_module_args_base pl of None \<Rightarrow> ih_module_args_offset h = 0
       | Some a \<Rightarrow> ih_module_args_offset h \<noteq> 0 \<and> checked_add (pl_common_base pl) (ucast (ih_module_args_offset h)) = Some a"
    "check_low_range (pl_common_base pl) (ucast (ih_handler_mem_size h)) = Ok ()"
    by (rule plan_install_eq_Ok [OF plan])
  note v = validate_image_eq_Ok [OF p(1)]
  have len: "length (pl_cpus pl) = unat (ic_num_cpus cfg)"
    using compute_cpu_layout_slots [OF p(6)] by (simp add: p(3) image_layout_def) metis
  have "\<exists>e. image_entry um h img i = Ok e \<and> check_entry_range h img e = Ok () \<and> check_entry_params x86 e = Ok () \<and>
      ed_stub_size e \<le> mx" if "i < unat (ic_num_cpus cfg)" for i
    using check_entries_eq_Ok [OF v(6)] that by auto
  then obtain d where d: "\<And>i. i < unat (ic_num_cpus cfg) \<Longrightarrow> image_entry um h img i = Ok (d i) \<and>
      check_entry_range h img (d i) = Ok () \<and> check_entry_params x86 (d i) = Ok () \<and> ed_stub_size (d i) \<le> mx"
    by metis
  obtain fx where fx: "\<And>i. i < unat (ih_fixup_count h) \<Longrightarrow> image_fixup um h img i = Ok (fx i)"
    using v(5) by metis
  show thesis
  proof (rule that [of mx d fx])
    show "placed cfg pl mx"
      using layout_placed [OF _ p(6,4,5)] p(2,3) by simp
    show "case pl_module_args_base pl of None \<Rightarrow> ih_module_args_offset (pl_header pl) = 0
       | Some a \<Rightarrow> ih_module_args_offset (pl_header pl) \<noteq> 0 \<and>
           unat a = unat (pl_common_base pl) + unat (ih_module_args_offset (pl_header pl))"
      using p(2,10) by (auto dest!: checked_add_SomeD split: option.splits)
    show "image_entry um (pl_header pl) img i = Ok (d i) \<and> check_entry_params x86 (d i) = Ok () \<and>
        unat (ed_stub_offset (d i)) + unat (ed_stub_size (d i)) \<le> length img \<and> unat (ed_stub_size (d i)) \<le> unat mx"
      if "i < length (pl_cpus pl)" for i
      using that d [of i] len p(2) check_entry_range_eq_Ok [of h img "d i"] by (simp add: word_le_nat_alt)
  qed (use p(2) v fx len checked_add_SomeD [OF p(7)] checked_add_SomeD [OF p(8)]
      checked_add_SomeD [OF p(9)] check_low_range_eq_Ok [OF p(11)] in \<open>auto simp: word_le_nat_alt\<close>)
qed

definition handler_code :: "bytes \<Rightarrow> smm_image_header \<Rightarrow> bytes" where
  "handler_code img h = sub img (unat (ih_handler_offset h)) (unat (ih_handler_load_size h))"

definition handler_writes :: "bytes \<Rightarrow> install_config \<Rightarrow> install_plan \<Rightarrow> (nat \<Rightarrow> u32) \<Rightarrow> (nat \<times> bytes) list" where
  "handler_writes img cfg pl fx =
     [(unat (pl_common_base pl), replicate (unat (ih_handler_mem_size (pl_header pl))) 0),
      (unat (pl_common_base pl), rebase (pl_common_base pl) (map fx [0..<unat (ih_fixup_count (pl_header pl))])
         (handler_code img (pl_header pl))),
      (unat (pl_runtime_addr pl), runtime_as_bytes (pl_runtime pl)),
      (unat (pl_config_addr pl), ic_handler_config cfg),
      (unat (pl_page_table_base pl), concat (map to_le_bytes (identity_tables (pl_page_table_base pl))))]"

definition all_writes ::
  "bytes \<Rightarrow> install_config \<Rightarrow> install_plan \<Rightarrow> (nat \<Rightarrow> entry_descriptor) \<Rightarrow> (nat \<Rightarrow> u32) \<Rightarrow> (nat \<times> bytes) list" where
  "all_writes img cfg pl d fx =
     handler_writes img cfg pl fx @ concat (map (cpu_writes img pl d) (List.enumerate 0 (pl_cpus pl)))"

lemma length_table_bytes: "length (concat (map to_le_bytes (identity_tables b))) = 24576"
proof -
  have "length (concat (map to_le_bytes ws)) = 8 * length ws" for ws :: "u64 list"
    by (induction ws) auto
  then show ?thesis
    by (simp add: length_identity_tables)
qed

lemma length_patched_stub:
  "check_entry_params x86 e = Ok () \<Longrightarrow> unat (ed_stub_offset e) + unat (ed_stub_size e) \<le> length img \<Longrightarrow>
    length (patched_stub img e p) = unat (ed_stub_size e)"
  using check_entry_params_eq_Ok [of x86 e "()"] by (simp add: patched_stub_def length_write_at)

lemma header_blocks:
  assumes "image_header_parse img = Ok h" "validate_memory_blocks um x86 h = Ok ()"
  shows "unat (ih_handler_load_size h) \<le> unat (ih_runtime_offset h)" "unat (ih_runtime_offset h) + 36 \<le> unat (ih_handler_config_offset h)"
    "unat (ih_handler_config_offset h) + 256 \<le> unat (ih_handler_mem_size h)"
    "unat (ih_handler_load_size h) \<le> unat (ih_handler_mem_size h)"
    "unat (ih_handler_offset h) + unat (ih_handler_load_size h) \<le> length img"
    "ih_module_args_offset h \<noteq> 0 \<Longrightarrow> unat (ih_handler_config_offset h) + 256 \<le> unat (ih_module_args_offset h) \<and>
      unat (ih_module_args_offset h) + 16 * unat (ih_entry_count h) \<le> unat (ih_handler_mem_size h)"
proof -
  have h: "header_ok h" "unat (ih_image_size h) \<le> length img"
    using assms(1) by (auto simp: image_header_parse_eq_Ok)
  note b = validate_memory_blocks_eq_Ok [OF assms(2)]
  show "unat (ih_handler_load_size h) \<le> unat (ih_runtime_offset h)" "unat (ih_runtime_offset h) + 36 \<le> unat (ih_handler_config_offset h)"
    "unat (ih_handler_config_offset h) + 256 \<le> unat (ih_handler_mem_size h)"
    "unat (ih_handler_load_size h) \<le> unat (ih_handler_mem_size h)"
    "unat (ih_handler_offset h) + unat (ih_handler_load_size h) \<le> length img"
    using h b(1-3) by (auto simp: header_ok_def memory_range_def file_range_def)
  show "unat (ih_handler_config_offset h) + 256 \<le> unat (ih_module_args_offset h) \<and>
      unat (ih_module_args_offset h) + 16 * unat (ih_entry_count h) \<le> unat (ih_handler_mem_size h)" if "ih_module_args_offset h \<noteq> 0"
    using b(4) [OF that] h(1) that by (auto simp: header_ok_def memory_range_def)
qed

text \<open>The module arguments of CPU \<open>i\<close> and its stack canary.\<close>

lemma args_write_ranges:
  assumes "w \<in> set (args_writes pl i cpu)"
  shows "\<exists>a. pl_module_args_base pl = Some a \<and>
    (write_range w = (unat a + 16 * i, 16) \<or> write_range w = (unat (cl_stack_bottom cpu), 8))"
  using assms by (cases "pl_module_args_base pl") (auto simp: args_writes_def write_range_def)

lemma enumerate_elem: "ic \<in> set (List.enumerate 0 xs) \<Longrightarrow> \<exists>i < length xs. ic = (i, xs ! i)"
  by (cases ic) (auto simp: in_set_enumerate_eq)

lemma write_image_eq:
  assumes plan: "plan_install um x86 img cfg out_len = Ok pl"
    and parse: "image_header_parse img = Ok (pl_header pl)" and blocks: "validate_memory_blocks um x86 (pl_header pl) = Ok ()"
    and placed: "placed cfg pl mx" and len: "length (pl_cpus pl) \<le> unat (ih_entry_count (pl_header pl))"
    and d: "\<And>i. i < length (pl_cpus pl) \<Longrightarrow> image_entry um (pl_header pl) img i = Ok (d i) \<and>
       check_entry_params x86 (d i) = Ok () \<and> unat (ed_stub_offset (d i)) + unat (ed_stub_size (d i)) \<le> length img \<and>
       unat (ed_stub_size (d i)) \<le> unat mx"
    and fx: "\<And>i. i < unat (ih_fixup_count (pl_header pl)) \<Longrightarrow> image_fixup um (pl_header pl) img i = Ok (fx i)"
    and args: "case pl_module_args_base pl of None \<Rightarrow> ih_module_args_offset (pl_header pl) = 0
       | Some a \<Rightarrow> ih_module_args_offset (pl_header pl) \<noteq> 0 \<and>
           unat a = unat (pl_common_base pl) + unat (ih_module_args_offset (pl_header pl))"
    and low: "unat (pl_common_base pl) + unat (ih_handler_mem_size (pl_header pl)) \<le> 2 ^ 32"
  shows "write_image um x86 img cfg pl m = (Ok (), apply_writes (all_writes img cfg pl d fx) m)"
proof -
  let ?h = "pl_header pl" and ?cb = "unat (pl_common_base pl)"
  note hb = header_blocks [OF parse blocks]
  have code: "length (handler_code img ?h) = unat (ih_handler_load_size ?h)"
    using hb(5) by (simp add: handler_code_def)
  have "unat (fx i) + 4 \<le> length (handler_code img ?h)" if "i < unat (ih_fixup_count ?h)" for i
    using fx [OF that] header_fixup_bound code by (auto simp: image_fixup_def)
  then have fix': "apply_fixups um ?h img (pl_common_base pl) [0..<unat (ih_fixup_count ?h)] (poke m' ?cb (handler_code img ?h)) =
      (Ok (), poke m' ?cb (rebase (pl_common_base pl) (map fx [0..<unat (ih_fixup_count ?h)]) (handler_code img ?h)))" for m'
    using fx low code hb(4) by (intro apply_fixups_eq) auto
  have ready: "cpu_ready um x86 img pl d ic" if ic: "ic \<in> set (List.enumerate 0 (pl_cpus pl))" for ic
  proof -
    obtain i where i: "ic = (i, pl_cpus pl ! i)" "i < length (pl_cpus pl)"
      using enumerate_elem [OF ic] by blast
    let ?c = "pl_cpus pl ! i"
    have c: "?c \<in> set (pl_cpus pl)"
      using i(2) by simp
    have p: "unat (cl_entry_addr ?c) + unat mx \<le> ?cb" "unat (cl_stack_bottom ?c) + 8 \<le> unat (cl_entry_addr ?c)"
      using placed c by (auto simp: placed_def Let_def)
    have "disjoint_range (write_range w) (unat (cl_entry_addr ?c), unat (ed_stub_size (d i)))"
      if "w \<in> set (args_writes pl i ?c)" for w
      using args_write_ranges [OF that] args p d [OF i(2)] by (auto simp: disjoint_range_def)
    moreover have "unat (cl_entry_addr ?c) + unat (ed_stub_size (d i)) < 2 ^ 64"
      using p(1) low d [OF i(2)] by simp
    moreover have "i < 65536"
      using i(2) len unat_16_less [of "ih_entry_count ?h"] by simp
    moreover have "case pl_module_args_base pl of None \<Rightarrow> True | Some a \<Rightarrow> unat a < 2 ^ 32"
      using args hb(6) low len i(2) by (auto split: option.splits)
    ultimately show ?thesis
      using d [OF i(2)] by (simp add: cpu_ready_def i(1))
  qed
  have "install_cpus um x86 img pl (List.enumerate 0 (pl_cpus pl)) m' =
      (Ok (), apply_writes (concat (map (cpu_writes img pl d) (List.enumerate 0 (pl_cpus pl)))) m')" for m'
    by (rule install_cpus_eq) (rule ready)
  then show ?thesis
    unfolding write_image_def Let_def handler_code_def [symmetric] fix' ebind_simps
    by (simp add: all_writes_def handler_writes_def build_identity_tables_def)
qed

text \<open>A successful plan, as one set of facts.\<close>

definition ready :: "nat \<Rightarrow> bool \<Rightarrow> bytes \<Rightarrow> install_config \<Rightarrow> install_plan \<Rightarrow> u32 \<Rightarrow> (nat \<Rightarrow> entry_descriptor) \<Rightarrow> (nat \<Rightarrow> u32) \<Rightarrow> bool" where
  "ready um x86 img cfg pl mx d fx \<longleftrightarrow>
     image_header_parse img = Ok (pl_header pl) \<and> validate_memory_blocks um x86 (pl_header pl) = Ok () \<and>
     placed cfg pl mx \<and> length (pl_cpus pl) = unat (ic_num_cpus cfg) \<and>
     length (pl_cpus pl) \<le> unat (ih_entry_count (pl_header pl)) \<and> length (ic_handler_config cfg) \<le> 256 \<and>
     (\<forall>i < length (pl_cpus pl). image_entry um (pl_header pl) img i = Ok (d i) \<and>
       check_entry_params x86 (d i) = Ok () \<and> unat (ed_stub_offset (d i)) + unat (ed_stub_size (d i)) \<le> length img \<and>
       unat (ed_stub_size (d i)) \<le> unat mx) \<and>
     (\<forall>i < unat (ih_fixup_count (pl_header pl)). image_fixup um (pl_header pl) img i = Ok (fx i)) \<and>
     unat (pl_runtime_addr pl) = unat (pl_common_base pl) + unat (ih_runtime_offset (pl_header pl)) \<and>
     unat (pl_config_addr pl) = unat (pl_common_base pl) + unat (ih_handler_config_offset (pl_header pl)) \<and>
     unat (pl_common_entry pl) = unat (pl_common_base pl) + unat (ih_handler_entry_offset (pl_header pl)) \<and>
     (case pl_module_args_base pl of None \<Rightarrow> ih_module_args_offset (pl_header pl) = 0
       | Some a \<Rightarrow> ih_module_args_offset (pl_header pl) \<noteq> 0 \<and>
           unat a = unat (pl_common_base pl) + unat (ih_module_args_offset (pl_header pl))) \<and>
     unat (pl_common_base pl) + unat (ih_handler_mem_size (pl_header pl)) \<le> 2 ^ 32"

lemma plan_ready:
  assumes "plan_install um x86 img cfg out_len = Ok pl"
  obtains mx d fx where "ready um x86 img cfg pl mx d fx"
proof (rule planned [OF assms], goal_cases)
  case (1 mx d fx)
  show ?case
    by (rule that [of mx d fx]) (use 1 in \<open>simp add: ready_def\<close>)
qed

lemma ready_write_image:
  "plan_install um x86 img cfg out_len = Ok pl \<Longrightarrow> ready um x86 img cfg pl mx d fx \<Longrightarrow>
    write_image um x86 img cfg pl m = (Ok (), apply_writes (all_writes img cfg pl d fx) m)"
  unfolding ready_def by (elim conjE) (rule write_image_eq; blast)

lemma length_handler_code:
  assumes "ready um x86 img cfg pl mx d fx"
  shows "length (rebase (pl_common_base pl) (map fx [0..<unat (ih_fixup_count (pl_header pl))])
    (handler_code img (pl_header pl))) = unat (ih_handler_load_size (pl_header pl))"
proof -
  have p: "image_header_parse img = Ok (pl_header pl)" "validate_memory_blocks um x86 (pl_header pl) = Ok ()"
    "\<forall>i < unat (ih_fixup_count (pl_header pl)). image_fixup um (pl_header pl) img i = Ok (fx i)"
    using assms by (auto simp: ready_def)
  have code: "length (handler_code img (pl_header pl)) = unat (ih_handler_load_size (pl_header pl))"
    using header_blocks(5) [OF p(1,2)] by (simp add: handler_code_def)
  then show ?thesis
    using p(3) header_fixup_bound by (subst length_rebase) (auto simp: image_fixup_def)
qed

text \<open>The ranges of all writes: the handler's own, the page tables, and those of the CPUs.\<close>

lemma handler_write_ranges:
  assumes "ready um x86 img cfg pl mx d fx" "w \<in> set (handler_writes img cfg pl fx)"
  shows "unat (pl_common_base pl) \<le> fst w \<and> fst w + length (snd w) \<le> unat (pl_common_base pl) + unat (ih_handler_mem_size (pl_header pl)) \<or>
    write_range w = (unat (pl_page_table_base pl), 24576)"
  using assms(2) length_handler_code [OF assms(1)] assms(1) header_blocks [of img "pl_header pl" um x86]
  by (auto simp: handler_writes_def write_range_def length_table_bytes ready_def)

lemma cpu_write_ranges:
  assumes r: "ready um x86 img cfg pl mx d fx" and ic: "ic \<in> set (List.enumerate 0 (pl_cpus pl))"
    and w: "w \<in> set (cpu_writes img pl d ic)"
  obtains i c where "ic = (i, c)" "i < length (pl_cpus pl)" "c = pl_cpus pl ! i"
    "w = (unat (cl_entry_addr c), patched_stub img (d i) (cpu_params pl i c)) \<and> length (snd w) = unat (ed_stub_size (d i)) \<or>
     (\<exists>a. pl_module_args_base pl = Some a \<and> unat a + 16 * i + 16 \<le> unat (pl_common_base pl) + unat (ih_handler_mem_size (pl_header pl)) \<and>
        unat (pl_config_addr pl) + 256 \<le> unat a \<and> write_range w = (unat a + 16 * i, 16)) \<or>
     write_range w = (unat (cl_stack_bottom c), 8)"
proof -
  obtain i where i: "ic = (i, pl_cpus pl ! i)" "i < length (pl_cpus pl)"
    using enumerate_elem [OF ic] by blast
  let ?c = "pl_cpus pl ! i"
  have p: "image_header_parse img = Ok (pl_header pl)" "validate_memory_blocks um x86 (pl_header pl) = Ok ()"
    "length (pl_cpus pl) \<le> unat (ih_entry_count (pl_header pl))" "check_entry_params x86 (d i) = Ok ()"
    "unat (ed_stub_offset (d i)) + unat (ed_stub_size (d i)) \<le> length img"
    "unat (pl_config_addr pl) = unat (pl_common_base pl) + unat (ih_handler_config_offset (pl_header pl))"
    using r i(2) by (auto simp: ready_def)
  note hb = header_blocks [OF p(1,2)]
  consider "w = (unat (cl_entry_addr ?c), patched_stub img (d i) (cpu_params pl i ?c))" | "w \<in> set (args_writes pl i ?c)"
    using w by (auto simp: cpu_writes_def i(1))
  then show thesis
  proof cases
    case 1
    then show ?thesis
      using that [OF i(1,2) refl] length_patched_stub [OF p(4,5)] by simp
  next
    case 2
    have k: "i + 1 \<le> unat (ih_entry_count (pl_header pl))"
      using i(2) p(3) by simp
    obtain a where a: "pl_module_args_base pl = Some a"
        "write_range w = (unat a + 16 * i, 16) \<or> write_range w = (unat (cl_stack_bottom ?c), 8)"
      using args_write_ranges [OF 2] by blast
    then have "ih_module_args_offset (pl_header pl) \<noteq> 0"
        "unat a = unat (pl_common_base pl) + unat (ih_module_args_offset (pl_header pl))"
      using r by (auto simp: ready_def)
    then show ?thesis
      using that [OF i(1,2) refl] a hb(6) k p(6) by auto
  qed
qed

lemma ready_bounds:
  assumes "ready um x86 img cfg pl mx d fx"
  shows "unat (ic_smram_base cfg) \<le> unat (pl_common_base pl)"
    "unat (pl_common_base pl) + unat (ih_handler_mem_size (pl_header pl)) \<le> unat (pl_page_table_base pl)"
    "unat (pl_page_table_base pl) + 24576 \<le> unat (ic_smram_base cfg) + unat (ic_smram_size cfg)"
    "c \<in> set (pl_cpus pl) \<Longrightarrow> unat (ic_smram_base cfg) \<le> unat (cl_stack_bottom c) \<and>
       unat (ic_smram_base cfg) \<le> unat (cl_entry_addr c) \<and> unat (cl_entry_addr c) + unat mx \<le> unat (pl_common_base pl) \<and>
       unat (cl_stack_bottom c) + 8 \<le> unat (pl_common_base pl)"
    "c \<in> set (pl_cpus pl) \<Longrightarrow> c' \<in> set (pl_cpus pl) \<Longrightarrow> unat (cl_stack_bottom c) + 8 \<le> unat (cl_entry_addr c')"
    "i < length (pl_cpus pl) \<Longrightarrow> j < length (pl_cpus pl) \<Longrightarrow> i \<noteq> j \<Longrightarrow>
       disjoint_range (unat (cl_entry_addr (pl_cpus pl ! i)), unat mx) (unat (cl_entry_addr (pl_cpus pl ! j)), unat mx)"
    "i < length (pl_cpus pl) \<Longrightarrow> unat (ed_stub_size (d i)) \<le> unat mx"
proof -
  have p: "placed cfg pl mx" "\<forall>i < length (pl_cpus pl). unat (ed_stub_size (d i)) \<le> unat mx"
    using assms by (auto simp: ready_def)
  show "unat (ic_smram_base cfg) \<le> unat (pl_common_base pl)"
    "unat (pl_common_base pl) + unat (ih_handler_mem_size (pl_header pl)) \<le> unat (pl_page_table_base pl)"
    "unat (pl_page_table_base pl) + 24576 \<le> unat (ic_smram_base cfg) + unat (ic_smram_size cfg)"
    "c \<in> set (pl_cpus pl) \<Longrightarrow> c' \<in> set (pl_cpus pl) \<Longrightarrow> unat (cl_stack_bottom c) + 8 \<le> unat (cl_entry_addr c')"
    "i < length (pl_cpus pl) \<Longrightarrow> j < length (pl_cpus pl) \<Longrightarrow> i \<noteq> j \<Longrightarrow>
       disjoint_range (unat (cl_entry_addr (pl_cpus pl ! i)), unat mx) (unat (cl_entry_addr (pl_cpus pl ! j)), unat mx)"
    "i < length (pl_cpus pl) \<Longrightarrow> unat (ed_stub_size (d i)) \<le> unat mx"
    using p unfolding placed_def Let_def by blast+
  show "unat (ic_smram_base cfg) \<le> unat (cl_stack_bottom c) \<and>
       unat (ic_smram_base cfg) \<le> unat (cl_entry_addr c) \<and> unat (cl_entry_addr c) + unat mx \<le> unat (pl_common_base pl) \<and>
       unat (cl_stack_bottom c) + 8 \<le> unat (pl_common_base pl)" if "c \<in> set (pl_cpus pl)"
    using p(1) that unfolding placed_def Let_def by fastforce
qed

text \<open>Where the writes of all CPUs go: into the stubs, below the handler, or into the module arguments.\<close>

lemma cpu_write_place:
  assumes r: "ready um x86 img cfg pl mx d fx"
    and w: "w \<in> set (concat (map (cpu_writes img pl d) (List.enumerate 0 (pl_cpus pl))))"
  shows "unat (ic_smram_base cfg) \<le> fst w"
    "fst w + length (snd w) \<le> unat (pl_common_base pl) \<or>
     unat (pl_config_addr pl) + 256 \<le> fst w \<and> fst w + length (snd w) \<le> unat (pl_common_base pl) + unat (ih_handler_mem_size (pl_header pl))"
    "i < length (pl_cpus pl) \<Longrightarrow> w = (unat (cl_entry_addr (pl_cpus pl ! i)), patched_stub img (d i) (cpu_params pl i (pl_cpus pl ! i))) \<or>
       disjoint_range (write_range w) (unat (cl_entry_addr (pl_cpus pl ! i)), unat (ed_stub_size (d i)))"
proof -
  obtain ic where ic: "ic \<in> set (List.enumerate 0 (pl_cpus pl))" "w \<in> set (cpu_writes img pl d ic)"
    using w by auto
  obtain j c where j: "ic = (j, c)" "j < length (pl_cpus pl)" "c = pl_cpus pl ! j" and
    cases: "w = (unat (cl_entry_addr c), patched_stub img (d j) (cpu_params pl j c)) \<and> length (snd w) = unat (ed_stub_size (d j)) \<or>
     (\<exists>a. pl_module_args_base pl = Some a \<and> unat a + 16 * j + 16 \<le> unat (pl_common_base pl) + unat (ih_handler_mem_size (pl_header pl)) \<and>
        unat (pl_config_addr pl) + 256 \<le> unat a \<and> write_range w = (unat a + 16 * j, 16)) \<or>
     write_range w = (unat (cl_stack_bottom c), 8)"
    by (rule cpu_write_ranges [OF r ic])
  have c: "c \<in> set (pl_cpus pl)"
    using j by simp
  note b = ready_bounds [OF r] and bc = ready_bounds(4) [OF r c] and sz = ready_bounds(7) [OF r j(2)]
  have cfg: "unat (pl_common_base pl) \<le> unat (pl_config_addr pl)"
    using r by (simp add: ready_def)
  show "unat (ic_smram_base cfg) \<le> fst w"
    using cases bc b(1) cfg by (auto simp: write_range_def)
  show "fst w + length (snd w) \<le> unat (pl_common_base pl) \<or>
     unat (pl_config_addr pl) + 256 \<le> fst w \<and> fst w + length (snd w) \<le> unat (pl_common_base pl) + unat (ih_handler_mem_size (pl_header pl))"
    using cases bc sz by (auto simp: write_range_def)
  show "w = (unat (cl_entry_addr (pl_cpus pl ! i)), patched_stub img (d i) (cpu_params pl i (pl_cpus pl ! i))) \<or>
       disjoint_range (write_range w) (unat (cl_entry_addr (pl_cpus pl ! i)), unat (ed_stub_size (d i)))"
    if i: "i < length (pl_cpus pl)"
  proof (cases "i = j")
    case True
    then show ?thesis
      using cases j(3) bc b(5) [OF c c] cfg sz by (auto simp: disjoint_range_def)
  next
    case False
    have "disjoint_range (unat (cl_entry_addr c), unat mx) (unat (cl_entry_addr (pl_cpus pl ! i)), unat mx)"
      using b(6) [OF j(2) i] False j(3) by simp
    moreover have "unat (cl_stack_bottom c) + 8 \<le> unat (cl_entry_addr (pl_cpus pl ! i))"
      "unat (cl_entry_addr (pl_cpus pl ! i)) + unat mx \<le> unat (pl_common_base pl)"
      using b(5) [OF c nth_mem [OF i]] b(4) [OF nth_mem [OF i]] by auto
    ultimately show ?thesis
      using cases sz b(7) [OF i] cfg by (auto simp: disjoint_range_def write_range_def)
  qed
qed

lemma writes_inside:
  assumes r: "ready um x86 img cfg pl mx d fx" and w: "w \<in> set (all_writes img cfg pl d fx)"
  shows "unat (ic_smram_base cfg) \<le> fst w \<and> fst w + length (snd w) \<le> unat (ic_smram_base cfg) + unat (ic_smram_size cfg)"
proof -
  note b = ready_bounds(1-3) [OF r]
  consider "w \<in> set (handler_writes img cfg pl fx)"
    | "w \<in> set (concat (map (cpu_writes img pl d) (List.enumerate 0 (pl_cpus pl))))"
    using w by (auto simp: all_writes_def)
  then show ?thesis
  proof cases
    case 1
    then show ?thesis
      using handler_write_ranges [OF r 1] b by (auto simp: write_range_def)
  next
    case 2
    then show ?thesis
      using cpu_write_place(1,2) [OF r 2] b by auto
  qed
qed

section \<open>The installed memory\<close>

lemma installed_stub:
  assumes r: "ready um x86 img cfg pl mx d fx" and i: "i < length (pl_cpus pl)"
  shows "peek (apply_writes (all_writes img cfg pl d fx) m) (unat (cl_entry_addr (pl_cpus pl ! i))) (unat (ed_stub_size (d i))) =
    patched_stub img (d i) (cpu_params pl i (pl_cpus pl ! i))"
proof -
  let ?w = "(unat (cl_entry_addr (pl_cpus pl ! i)), patched_stub img (d i) (cpu_params pl i (pl_cpus pl ! i)))"
  have len: "length (snd ?w) = unat (ed_stub_size (d i))"
    using r i length_patched_stub [of x86 "d i" img] by (simp add: ready_def)
  have "(i, pl_cpus pl ! i) \<in> set (List.enumerate 0 (pl_cpus pl))"
    using i by (simp add: in_set_enumerate_eq)
  then have "?w \<in> set (concat (map (cpu_writes img pl d) (List.enumerate 0 (pl_cpus pl))))"
    by (force simp: cpu_writes_def)
  from peek_apply_same [OF this, of "apply_writes (handler_writes img cfg pl fx) m"] show ?thesis
    using cpu_write_place(3) [OF r _ i] len by (simp add: all_writes_def apply_writes_append write_range_def)
qed

text \<open>Blocks of the handler that the CPUs' writes do not reach.\<close>

lemma handler_block_kept:
  assumes r: "ready um x86 img cfg pl mx d fx" and a: "unat (pl_common_base pl) \<le> a"
    and n: "a + n \<le> unat (pl_config_addr pl) + 256 \<or> unat (pl_page_table_base pl) \<le> a"
  shows "peek (apply_writes (all_writes img cfg pl d fx) m) a n = peek (apply_writes (handler_writes img cfg pl fx) m) a n"
  unfolding all_writes_def apply_writes_append
proof (rule peek_apply_other)
  fix w assume w: "w \<in> set (concat (map (cpu_writes img pl d) (List.enumerate 0 (pl_cpus pl))))"
  show "disjoint_range (write_range w) (a, n)"
    using cpu_write_place(2) [OF r w] a n ready_bounds(2) [OF r] by (auto simp: disjoint_range_def write_range_def)
qed

lemma ordered_pokes:
  assumes "a + length code \<le> r" "r + length rt \<le> c" "c + length cf \<le> t"
    and m': "m' = apply_writes [(a, z), (a, code), (r, rt), (c, cf), (t, tables)] m"
  shows "peek m' a (length code) = code" "peek m' r (length rt) = rt" "peek m' c (length cf) = cf"
    "peek m' t (length tables) = tables"
  using assms(1-3) by (simp_all add: m' peek_poke_other disjoint_range_def peek_poke_same)

lemma installed_handler:
  assumes r: "ready um x86 img cfg pl mx d fx" and m': "m' = apply_writes (all_writes img cfg pl d fx) m"
  shows "peek m' (unat (pl_common_base pl)) (unat (ih_handler_load_size (pl_header pl))) =
      rebase (pl_common_base pl) (map fx [0..<unat (ih_fixup_count (pl_header pl))]) (handler_code img (pl_header pl))"
    "peek m' (unat (pl_runtime_addr pl)) 36 = runtime_as_bytes (pl_runtime pl)"
    "peek m' (unat (pl_config_addr pl)) (length (ic_handler_config cfg)) = ic_handler_config cfg"
    "peek m' (unat (pl_page_table_base pl)) 24576 = concat (map to_le_bytes (identity_tables (pl_page_table_base pl)))"
proof -
  let ?cb = "unat (pl_common_base pl)" and ?h = "pl_header pl"
  let ?code = "rebase (pl_common_base pl) (map fx [0..<unat (ih_fixup_count ?h)]) (handler_code img ?h)"
  let ?tb = "concat (map to_le_bytes (identity_tables (pl_page_table_base pl)))"
  have p: "image_header_parse img = Ok ?h" "validate_memory_blocks um x86 ?h = Ok ()" "length (ic_handler_config cfg) \<le> 256"
    "unat (pl_runtime_addr pl) = ?cb + unat (ih_runtime_offset ?h)"
    "unat (pl_config_addr pl) = ?cb + unat (ih_handler_config_offset ?h)"
    using r by (auto simp: ready_def)
  note hb = header_blocks [OF p(1,2)] and b = ready_bounds(2) [OF r] and code = length_handler_code [OF r]
  have o: "?cb + length ?code \<le> unat (pl_runtime_addr pl)"
    "unat (pl_runtime_addr pl) + length (runtime_as_bytes (pl_runtime pl)) \<le> unat (pl_config_addr pl)"
    "unat (pl_config_addr pl) + length (ic_handler_config cfg) \<le> unat (pl_page_table_base pl)"
    "unat (pl_config_addr pl) + 256 \<le> unat (pl_page_table_base pl)"
    unfolding code using hb(1-3) p(3-5) b by auto
  note five = ordered_pokes [OF o(1-3) refl, of "replicate (unat (ih_handler_mem_size ?h)) 0" ?tb m, folded handler_writes_def]
  note kept = handler_block_kept [OF r, of _ _ m, folded m']
  show "peek m' ?cb (unat (ih_handler_load_size ?h)) = ?code"
    using kept [of ?cb "length ?code"] five(1) o p(5) code by simp
  show "peek m' (unat (pl_runtime_addr pl)) 36 = runtime_as_bytes (pl_runtime pl)"
    using kept [of "unat (pl_runtime_addr pl)" 36] five(2) o(2) p(4) by simp
  show "peek m' (unat (pl_config_addr pl)) (length (ic_handler_config cfg)) = ic_handler_config cfg"
    using kept [of "unat (pl_config_addr pl)" "length (ic_handler_config cfg)"] five(3) p(3,5) by simp
  show "peek m' (unat (pl_page_table_base pl)) 24576 = ?tb"
    using kept [of "unat (pl_page_table_base pl)" 24576] five(4) b by (simp only: length_table_bytes) simp
qed

section \<open>Planning cannot panic\<close>

named_theorems no_panic "operations whose outcome is never a panic"

lemma check_file_range_np [no_panic]: "check_file_range h off n \<noteq> Panic"
  by (simp add: check_file_range_def rbind_eq_Panic)

lemma check_memory_range_np [no_panic]: "check_memory_range h off n \<noteq> Panic"
  by (simp add: check_memory_range_def rbind_eq_Panic)

lemma image_header_parse_np [no_panic]: "image_header_parse img \<noteq> Panic"
  by (simp add: image_header_parse_def Let_def rbind_eq_Panic guard_eq_Panic no_panic)

lemma check_mode_np [no_panic]: "check_mode x86 h \<noteq> Panic"
  by (simp add: check_mode_def Let_def)

lemma validate_memory_blocks_np [no_panic]: "validate_memory_blocks um x86 h \<noteq> Panic"
  by (simp add: validate_memory_blocks_def Let_def rbind_eq_Panic)

lemma check_entry_params_np [no_panic]: "check_entry_params x86 e \<noteq> Panic"
  by (simp add: check_entry_params_def rbind_eq_Panic)

lemma check_entry_range_np [no_panic]: "check_entry_range h img e \<noteq> Panic"
  by (simp add: check_entry_range_def rbind_eq_Panic)

lemma check_low_np [no_panic]: "check_low_address a \<noteq> Panic" "check_low_range a n \<noteq> Panic" "add_offset a off \<noteq> Panic"
  by (simp_all add: check_low_address_def check_low_range_def add_offset_def rbind_eq_Panic)

lemma layout_np [no_panic]: "compute_common_base l \<noteq> Panic" "compute_page_table_base l \<noteq> Panic" "align_up v a \<noteq> Panic"
  by (simp_all add: compute_common_base_def compute_page_table_base_def align_up_def Let_def rbind_eq_Panic)

lemma cpu_slot_np [no_panic]: "cpu_slot l cb se n p f i \<noteq> Panic"
  by (simp add: cpu_slot_def Let_def rbind_eq_Panic)

lemma compute_cpu_layout_np [no_panic]: "compute_cpu_layout l n \<noteq> Panic"
  by (simp add: compute_cpu_layout_def Let_def rbind_eq_Panic no_panic try_map_not_Panic)

lemma check_cpu_addresses_np [no_panic]: "check_cpu_addresses h mx c \<noteq> Panic"
  by (simp add: check_cpu_addresses_def rbind_eq_Panic no_panic)

lemma image_entry_np:
  "image_header_parse img = Ok h \<Longrightarrow> 2 ^ 32 \<le> um + 1 \<Longrightarrow> image_entry um h img i \<noteq> Panic"
  by (simp add: image_entry_def header_entry_eq)

lemma check_entries_np:
  "image_header_parse img = Ok h \<Longrightarrow> 2 ^ 32 \<le> um + 1 \<Longrightarrow> check_entries um x86 h img is mx \<noteq> Panic"
  by (induction "is" arbitrary: mx) (auto simp: rbind_eq_Panic no_panic image_entry_np)

lemma validate_image_np:
  assumes "2 ^ 32 \<le> um + 1"
  shows "validate_image um x86 img cfg n \<noteq> Panic"
proof -
  have "for_each (\<lambda>i. rbind (image_fixup um h img i) (\<lambda>_. Ok ())) is \<noteq> Panic" if "image_header_parse img = Ok h" for h "is"
    using header_fixup_not_Panic [OF that assms]
    by (intro for_each_not_Panic) (auto simp: rbind_eq_Panic image_fixup_def)
  then show ?thesis
    using check_entries_np [OF _ assms] by (auto simp: validate_image_def rbind_eq_Panic no_panic)
qed

lemma plan_install_np:
  assumes "2 ^ 32 \<le> um + 1"
  shows "plan_install um x86 img cfg n \<noteq> Panic"
  using validate_image_np [OF assms] for_each_not_Panic [of _ "check_cpu_addresses _ _"]
  by (simp add: plan_install_def Let_def rbind_eq_Panic guard_eq_Panic no_panic split_beta split: option.split)

section \<open>Outcome of an installation\<close>

lemma install_plan_fails:
  "plan_install um x86 img cfg n = Err e \<Longrightarrow> install_pic_image um x86 img cfg n m = (Err e, m)"
  by (simp add: install_pic_image_def pure_def)

lemma install_plan_succeeds:
  assumes "plan_install um x86 img cfg n = Ok pl" "ready um x86 img cfg pl mx d fx"
  shows "install_pic_image um x86 img cfg n m =
    (Ok \<lparr>ii_header = pl_header pl, ii_common_base = pl_common_base pl, ii_common_entry = pl_common_entry pl,
        ii_runtime_addr = pl_runtime_addr pl, ii_cr3 = pl_page_table_base pl, ii_cpus = pl_cpus pl\<rparr>,
     apply_writes (all_writes img cfg pl d fx) m)"
  using ready_write_image [OF assms] by (simp add: install_pic_image_def pure_def assms(1) build_identity_tables_def)

text \<open>The entry parameters a stub finds, from the addresses the installation reports.\<close>

definition expected_params :: "installed_image \<Rightarrow> nat \<Rightarrow> entry_params" where
  "expected_params inst i =
     \<lparr>ep_cpu = word_of_nat i, ep_stack_size = ih_stack_size (ii_header inst),
      ep_stack_top = cl_stack_top (ii_cpus inst ! i), ep_common_entry = ii_common_entry inst,
      ep_runtime = ii_runtime_addr inst,
      ep_coreboot_module_args = (if ih_module_args_offset (ii_header inst) = 0 then 0
        else ii_common_base inst + ucast (ih_module_args_offset (ii_header inst)) + word_of_nat (i * 16)),
      ep_cr3 = ii_cr3 inst, ep_entry_base = cl_entry_addr (ii_cpus inst ! i)\<rparr>"

lemma cpu_params_expected:
  assumes "plan_install um x86 img cfg n = Ok pl"
  shows "cpu_params pl i (pl_cpus pl ! i) = expected_params \<lparr>ii_header = pl_header pl, ii_common_base = pl_common_base pl,
    ii_common_entry = pl_common_entry pl, ii_runtime_addr = pl_runtime_addr pl, ii_cr3 = pl_page_table_base pl, ii_cpus = pl_cpus pl\<rparr> i"
proof -
  have "case pl_module_args_base pl of None \<Rightarrow> ih_module_args_offset (pl_header pl) = 0
       | Some a \<Rightarrow> ih_module_args_offset (pl_header pl) \<noteq> 0 \<and>
          checked_add (pl_common_base pl) (ucast (ih_module_args_offset (pl_header pl))) = Some a"
  proof (rule plan_install_eq_Ok [OF assms], goal_cases)
    case (1 h mx l)
    then show ?case
      by (simp only:)
  qed
  then show ?thesis
    by (auto simp: cpu_params_def expected_params_def checked_add_eq_Some split: option.splits)
qed

section \<open>Properties\<close>

text \<open>
  C17: installing an SMM image never panics; every error is reported before the first write, so
  a failed installation leaves memory as it was; and a successful one changes no byte outside
  the configured SMRAM range, for every image, configuration and number of CPUs.
\<close>

theorem install_contained:
  assumes "2 ^ 32 \<le> um + 1"
  shows "case install_pic_image um x86 img cfg n m of
      (Ok inst, m') \<Rightarrow> \<forall>a. a < unat (ic_smram_base cfg) \<or> unat (ic_smram_base cfg) + unat (ic_smram_size cfg) \<le> a \<longrightarrow> m' a = m a
    | (Err e, m') \<Rightarrow> m' = m
    | (Panic, m') \<Rightarrow> False"
proof (cases "plan_install um x86 img cfg n")
  case (Ok pl)
  obtain mx d fx where r: "ready um x86 img cfg pl mx d fx"
    by (rule plan_ready [OF Ok])
  have "apply_writes (all_writes img cfg pl d fx) m a = m a"
    if "a < unat (ic_smram_base cfg) \<or> unat (ic_smram_base cfg) + unat (ic_smram_size cfg) \<le> a" for a
    using that writes_inside [OF r] by (intro apply_writes_outside) fastforce
  then show ?thesis
    by (simp add: install_plan_succeeds [OF Ok r])
qed (use plan_install_np [OF assms] in \<open>auto simp: install_plan_fails\<close>)

theorem install_contained_witness:
  "fst (install_pic_image (2 ^ 32 - 1) False [] \<lparr>ic_smram_base = 0, ic_smram_size = 0, ic_num_cpus = 1,
     ic_save_state_size = 0, ic_handler_config = [], ic_config_align = 1\<rparr> 1 (\<lambda>_. 7)) = Err (HeaderError HTooSmall) \<and>
   snd (install_pic_image (2 ^ 32 - 1) False [] \<lparr>ic_smram_base = 0, ic_smram_size = 0, ic_num_cpus = 1,
     ic_save_state_size = 0, ic_handler_config = [], ic_config_align = 1\<rparr> 1 (\<lambda>_. 7)) = (\<lambda>_. 7)"
proof -
  let ?c = "\<lparr>ic_smram_base = 0, ic_smram_size = 0, ic_num_cpus = 1,
     ic_save_state_size = 0, ic_handler_config = [], ic_config_align = 1\<rparr>"
  have "plan_install (2 ^ 32 - 1) False [] ?c 1 = Err (HeaderError HTooSmall)"
    by (simp add: plan_install_def validate_image_def image_header_parse_def)
  then have "fst (install_pic_image (2 ^ 32 - 1) False [] ?c 1 (\<lambda>_. 7)) = Err (HeaderError HTooSmall)"
    by (simp add: install_plan_fails)
  then show ?thesis
    using install_contained [where um = "2 ^ 32 - 1" and ?x86.0 = False and img = "[]" and cfg = ?c and n = 1 and m = "\<lambda>_. 7"] by (auto split: prod.splits)
qed

text \<open>
  C18: after a successful installation every CPU's stub is in memory at its entry address, the
  image's bytes with the parameter block filled in: its index, its stack, the handler's entry,
  the runtime block and the page tables. The handler's code is there, rebased to its address by
  the fixups of the image, and so are the runtime block, the handler configuration and the
  identity page tables that CR3 names. No later write has damaged any of them.
\<close>

theorem install_contents:
  assumes "install_pic_image um x86 img cfg n m = (Ok inst, m')"
  shows "image_header_parse img = Ok (ii_header inst) \<and> length (ii_cpus inst) = unat (ic_num_cpus cfg) \<and>
    (\<forall>i < length (ii_cpus inst). \<exists>e. image_entry um (ii_header inst) img i = Ok e \<and>
       peek m' (unat (cl_entry_addr (ii_cpus inst ! i))) (unat (ed_stub_size e)) =
         patched_stub img e (expected_params inst i)) \<and>
    (\<exists>fx. (\<forall>i < unat (ih_fixup_count (ii_header inst)). image_fixup um (ii_header inst) img i = Ok (fx i)) \<and>
       peek m' (unat (ii_common_base inst)) (unat (ih_handler_load_size (ii_header inst))) =
         rebase (ii_common_base inst) (map fx [0..<unat (ih_fixup_count (ii_header inst))]) (handler_code img (ii_header inst))) \<and>
    runtime_at (peek m' (unat (ii_runtime_addr inst)) 36) =
      runtime_new (ic_smram_base cfg) (ic_smram_size cfg) (ic_num_cpus cfg) (ih_stack_size (ii_header inst))
        (ih_handler_config_offset (ii_header inst) - ih_runtime_offset (ii_header inst))
        (word_of_nat (length (ic_handler_config cfg))) \<and>
    peek m' (unat (ii_common_base inst) + unat (ih_handler_config_offset (ii_header inst))) (length (ic_handler_config cfg)) =
      ic_handler_config cfg \<and>
    peek m' (unat (ii_cr3 inst)) 24576 = concat (map to_le_bytes (identity_tables (ii_cr3 inst)))"
proof (cases "plan_install um x86 img cfg n")
  case (Ok pl)
  obtain mx d fx where r: "ready um x86 img cfg pl mx d fx"
    by (rule plan_ready [OF Ok])
  let ?inst = "\<lparr>ii_header = pl_header pl, ii_common_base = pl_common_base pl, ii_common_entry = pl_common_entry pl,
        ii_runtime_addr = pl_runtime_addr pl, ii_cr3 = pl_page_table_base pl, ii_cpus = pl_cpus pl\<rparr>"
  have inst: "inst = ?inst" and m': "m' = apply_writes (all_writes img cfg pl d fx) m"
    using assms by (auto simp: install_plan_succeeds [OF Ok r])
  have f: "image_header_parse img = Ok (pl_header pl)" "length (pl_cpus pl) = unat (ic_num_cpus cfg)"
    "\<And>i. i < length (pl_cpus pl) \<Longrightarrow> image_entry um (pl_header pl) img i = Ok (d i)"
    "\<forall>i < unat (ih_fixup_count (pl_header pl)). image_fixup um (pl_header pl) img i = Ok (fx i)"
    "unat (pl_config_addr pl) = unat (pl_common_base pl) + unat (ih_handler_config_offset (pl_header pl))"
    using r by (auto simp: ready_def)
  note h = installed_handler [OF r m']
  have rt: "pl_runtime pl = runtime_new (ic_smram_base cfg) (ic_smram_size cfg) (ic_num_cpus cfg) (ih_stack_size (pl_header pl))
       (ih_handler_config_offset (pl_header pl) - ih_runtime_offset (pl_header pl)) (word_of_nat (length (ic_handler_config cfg)))"
  proof (rule plan_install_eq_Ok [OF Ok], goal_cases)
    case (1 h mx l)
    then show ?case
      by (simp only:)
  qed
  have "\<exists>e. image_entry um (pl_header pl) img i = Ok e \<and>
       peek m' (unat (cl_entry_addr (pl_cpus pl ! i))) (unat (ed_stub_size e)) = patched_stub img e (expected_params ?inst i)"
    if "i < length (pl_cpus pl)" for i
    using f(3) [OF that] installed_stub [OF r that, of m] cpu_params_expected [OF Ok, of i] m' by auto
  moreover have "runtime_at (peek m' (unat (pl_runtime_addr pl)) 36) = pl_runtime pl"
    using h(2) runtime_at_as_bytes [of "pl_runtime pl" "[]"] by simp
  ultimately show ?thesis
    using f(1,2,4) h(1,3,4) rt by (auto simp: inst f(5))
qed (use assms in \<open>auto simp: install_pic_image_def pure_def\<close>)

text \<open>
  A sample image for one CPU: sixteen handler bytes with one fixup, a 64-byte stub with its
  parameters at offset 8, no module arguments.
\<close>

definition smm_sample_header :: smm_image_header where
  "smm_sample_header = with_fixups (image_header_new 0 176 1 76 92 16 320 0 16 40 64 256 0 0 0x1000) 108 1"

definition smm_sample_descriptor :: entry_descriptor where
  "smm_sample_descriptor = \<lparr>ed_stub_offset = 112, ed_stub_size = 64, ed_entry_offset = 0, ed_params_offset = 8\<rparr>"

definition smm_sample_image :: bytes where
  "smm_sample_image = image_header_as_bytes smm_sample_header @ descriptor_as_bytes smm_sample_descriptor @
     replicate 16 0x90 @ to_le_bytes (4 :: u32) @ replicate 64 0xf4"

definition smm_sample_install :: install_config where
  "smm_sample_install = \<lparr>ic_smram_base = 0x7f000000, ic_smram_size = 0x100000, ic_num_cpus = 1,
     ic_save_state_size = 0x400, ic_handler_config = [1, 2, 3], ic_config_align = 8\<rparr>"

lemma smm_sample_parse: "image_header_parse smm_sample_image = Ok smm_sample_header"
proof -
  have "header_ok smm_sample_header" "unat (ih_image_size smm_sample_header) = 176"
    by (simp_all add: header_ok_def file_range_def memory_range_def smm_sample_header_def image_header_new_def with_fixups_def)
  moreover have "length smm_sample_image = 176"
    by (simp add: smm_sample_image_def descriptor_as_bytes_def)
  moreover have "image_header_at smm_sample_image = smm_sample_header"
    by (simp add: smm_sample_image_def image_header_at_as_bytes)
  ultimately show ?thesis
    by (simp add: image_header_parse_eq_Ok)
qed

lemmas smm_sample_header_defs = smm_sample_header_def image_header_new_def with_fixups_def

lemma smm_sample_entry:
  assumes "2 ^ 32 \<le> um + 1"
  shows "image_entry um smm_sample_header smm_sample_image 0 = Ok smm_sample_descriptor"
proof -
  have "sub smm_sample_image 76 16 = descriptor_as_bytes smm_sample_descriptor"
    by (simp add: smm_sample_image_def sub_def descriptor_as_bytes_def)
  then show ?thesis
    by (simp add: image_entry_def header_entry_eq [OF smm_sample_parse assms] descriptor_at_as_bytes)
      (simp add: smm_sample_header_defs descriptor_at_as_bytes)
qed

lemma smm_sample_fixup:
  assumes "112 \<le> um"
  shows "image_fixup um smm_sample_header smm_sample_image 0 = Ok 4"
proof -
  have "get_range smm_sample_image 108 112 = Some (to_le_bytes (4 :: u32))"
    by (simp add: get_range_def smm_sample_image_def sub_def descriptor_as_bytes_def)
  then show ?thesis
    using assms by (simp add: image_fixup_def header_fixup_def smm_sample_header_defs checked_add_def)
qed

lemma smm_sample_validate:
  assumes "2 ^ 32 \<le> um + 1"
  shows "validate_image um False smm_sample_image smm_sample_install 1 = Ok (smm_sample_header, 64)"
proof -
  have "check_mode False smm_sample_header = Ok ()" "validate_memory_blocks um False smm_sample_header = Ok ()"
    by (simp_all add: check_mode_def validate_memory_blocks_def smm_sample_header_defs FLAG_PROTECTED_MODE_def
        FLAG_COREBOOT_MODULE_ARGS_def u64_align_def runtime_size_def HANDLER_CONFIG_ALIGNMENT_def
        HANDLER_CONFIG_CAPACITY_def checked_add_def)
  moreover have "unat (ih_fixup_count smm_sample_header) = 1" "ih_entry_count smm_sample_header = 1"
    "ih_handler_config_capacity smm_sample_header = 256"
    by (simp_all add: smm_sample_header_defs)
  moreover have "check_entry_range smm_sample_header smm_sample_image smm_sample_descriptor = Ok ()"
    "check_entry_params False smm_sample_descriptor = Ok ()" "ed_stub_size smm_sample_descriptor = 64"
    by (simp_all add: check_entry_range_def check_entry_params_def smm_sample_descriptor_def smm_sample_header_defs
        checked_add_def u64_align_def smm_sample_image_def descriptor_as_bytes_def)
  ultimately show ?thesis
    using assms smm_sample_entry [OF assms] smm_sample_fixup [of um]
    by (simp add: validate_image_def smm_sample_parse smm_sample_install_def HANDLER_CONFIG_ALIGNMENT_def)
qed

lemma smm_sample_plan:
  assumes "2 ^ 32 \<le> um + 1"
  shows "\<exists>pl. plan_install um False smm_sample_image smm_sample_install 1 = Ok pl"
proof -
  let ?l = "image_layout smm_sample_install smm_sample_header 64"
  have l: "?l = \<lparr>sl_smram_base = 0x7f000000, sl_smram_size = 0x100000, sl_entry_count = 1, sl_save_state_size = 0x400,
      sl_stack_size = 0x1000, sl_entry_stub_size = 64, sl_handler_mem_size = 320, sl_page_table_size = 0x6000\<rparr>"
    by (simp add: image_layout_def smm_sample_install_def smm_sample_header_defs SMM_IDENTITY_TABLE_SIZE_def)
  have s: "sl_smram_base ?l = 0x7f000000" "sl_smram_size ?l = 0x100000" "sl_entry_count ?l = 1"
    "sl_save_state_size ?l = 0x400" "sl_stack_size ?l = 0x1000" "sl_entry_stub_size ?l = 64"
    by (simp_all add: l)
  have b: "compute_common_base ?l = Ok 0x7f0f9000"
    by (simp add: l compute_common_base_def align_up_def checked_add_def checked_sub_def smm_consts)
  have p: "compute_page_table_base ?l = Ok 0x7f0fa000"
    by (simp add: compute_page_table_base_def b) (simp add: l align_up_def checked_add_def smm_consts)
  let ?c = "\<lparr>cl_smbase = 0x7f0e9000, cl_entry_addr = 0x7f0f1000, cl_save_state_base = 0x7f0f8c00,
      cl_save_state_top = 0x7f0f9000, cl_stack_bottom = 0x7f000000, cl_stack_top = 0x7f001000\<rparr>"
  have c: "compute_cpu_layout ?l 1 = Ok [?c]"
    by (simp add: compute_cpu_layout_def b s smm_consts checked_mul_def checked_add_def checked_sub_def cpu_slot_def
        Let_def max_def)
  have "check_cpu_addresses smm_sample_header 64 ?c = Ok ()"
    by (simp add: check_cpu_addresses_def check_low_address_def check_low_range_def LOW_4G_END_def checked_add_def
        smm_sample_header_defs)
  moreover have "ic_smram_base smm_sample_install = 0x7f000000" "ic_smram_size smm_sample_install = 0x100000"
    "ih_runtime_offset smm_sample_header = 16" "ih_handler_config_offset smm_sample_header = 64"
    "ih_handler_entry_offset smm_sample_header = 0" "ih_module_args_offset smm_sample_header = 0"
    "ih_handler_mem_size smm_sample_header = 320"
    by (simp_all add: smm_sample_header_defs smm_sample_install_def)
  ultimately show ?thesis
    by (simp add: plan_install_def smm_sample_validate [OF assms] b p c Let_def add_offset_def checked_add_def
        checked_sub_def check_low_range_def check_low_address_def LOW_4G_END_def HANDLER_CONFIG_ALIGNMENT_def
        SMM_IDENTITY_TABLE_SIZE_def del: One_nat_def)
qed

theorem install_contents_witness:
  "\<exists>inst m'. install_pic_image (2 ^ 64 - 1) False smm_sample_image smm_sample_install 1 (\<lambda>_. 0) = (Ok inst, m') \<and>
     image_header_parse smm_sample_image = Ok (ii_header inst) \<and>
     peek m' (unat (ii_common_base inst) + 64) 3 = [1, 2, 3]"
proof -
  obtain pl where p: "plan_install (2 ^ 64 - 1) False smm_sample_image smm_sample_install 1 = Ok pl"
    using smm_sample_plan [of "2 ^ 64 - 1"] by auto
  obtain mx d fx where "ready (2 ^ 64 - 1) False smm_sample_image smm_sample_install pl mx d fx"
    by (rule plan_ready [OF p])
  then obtain inst m' where i: "install_pic_image (2 ^ 64 - 1) False smm_sample_image smm_sample_install 1 (\<lambda>_. 0) = (Ok inst, m')"
    using install_plan_succeeds [OF p, of mx d fx "\<lambda>_. 0"] by blast
  note c = install_contents [OF i]
  then have "ii_header inst = smm_sample_header"
    by (simp add: smm_sample_parse)
  then have "unat (ih_handler_config_offset (ii_header inst)) = 64" "ic_handler_config smm_sample_install = [1, 2, 3]"
    by (simp_all add: smm_sample_header_defs smm_sample_install_def)
  then show ?thesis
    using c i by (auto simp: numeral_3_eq_3)
qed

end
