(* ===== verification/Smm_Handler.thy ===== *)
theory Smm_Handler
  imports Smm_Runtime
begin

text \<open>
  Dispatch of system management interrupts (\<^verbatim>\<open>crates/smm/src/handler.rs\<close> and the function
  \<open>handle\<close> of \<^verbatim>\<open>crates/smm/src/stage.rs\<close>). Every CPU runs \<open>handle\<close> on its own entry parameters;
  the owner word of the runtime block is shared. One step is one atomic access to that word
  or the local work between two accesses, and the CPUs interleave freely. The board's two
  callbacks, which are taken to return, enter the model as events of a log, and the debug console is left out.
  Two properties follow: at most one CPU is in the shared dispatch, and when no further SMI arrives every
  CPU leaves SMM under every fair schedule.
\<close>

section \<open>The configuration block\<close>

definition handler_config :: "nat \<Rightarrow> nat \<Rightarrow> nat \<Rightarrow> u64 \<Rightarrow> smm_runtime \<Rightarrow> nat \<Rightarrow> nat option" where
  "handler_config um t_size t_align runtime_addr rt rt_size =
     (if runtime_addr = 0 then None
      else let offset = unat (sr_handler_config_offset rt); sz = unat (sr_handler_config_size rt);
               smram_base = unat (sr_smram_base rt) mod (um + 1); smram_size = unat (sr_smram_size rt) mod (um + 1)
        in Option.bind (usize_add um (unat runtime_addr mod (um + 1)) offset) (\<lambda>start.
           Option.bind (usize_add um start sz) (\<lambda>stop.
           if sz \<noteq> t_size \<or> sz > HANDLER_CONFIG_CAPACITY \<or> t_align > HANDLER_CONFIG_ALIGNMENT \<or>
              offset mod HANDLER_CONFIG_ALIGNMENT \<noteq> 0 \<or> offset < rt_size \<or> start < smram_base
           then None
           else Option.bind (usize_add um smram_base smram_size) (\<lambda>smram_end.
                if stop > smram_end then None else Some start))))"

section \<open>One CPU\<close>

datatype pc = Out | Entered | Rendezvous | Waiting | Owning | Finishing

datatype smm_event = EnterCpu nat | Handled nat

definition claim_owner :: "u32 \<Rightarrow> u32 \<Rightarrow> bool \<times> u32" where
  "claim_owner owner token = (if owner = 0 then (True, token) else (False, owner))"

definition enter_rendezvous :: "u64 \<Rightarrow> u32 \<Rightarrow> u32 \<Rightarrow> u32 \<times> pc" where
  "enter_rendezvous runtime cpu owner =
     (if runtime = 0 then (owner, Out)
      else case claim_owner owner (cpu + 1) of
             (True, owner') \<Rightarrow> (owner', Owning)
           | (False, owner') \<Rightarrow> (owner', Waiting))"

definition wait_step :: "u32 \<Rightarrow> pc" where
  "wait_step owner = (if owner \<noteq> 0 then Waiting else Out)"

definition leave_rendezvous :: "u64 \<Rightarrow> u32 \<Rightarrow> u32" where
  "leave_rendezvous runtime owner = (if runtime = 0 then owner else 0)"

text \<open>
  What all CPUs share: the width of addresses, the size and alignment of the board's configuration type,
  and the fields of the runtime block that nobody writes after the installation, with the size of that block.
\<close>

record smm_env =
  se_um :: nat
  se_config_size :: nat
  se_config_align :: nat
  se_runtime :: smm_runtime
  se_runtime_size :: nat

definition context_config :: "smm_env \<Rightarrow> entry_params \<Rightarrow> nat option" where
  "context_config E p =
     handler_config (se_um E) (se_config_size E) (se_config_align E) (ep_runtime p) (se_runtime E) (se_runtime_size E)"

text \<open>
  The next step of \<open>handle\<close> on one CPU: the new owner word, the new place and the callbacks run. The
  parameters are \<open>None\<close> for a null pointer, on which \<open>from_raw\<close> fails and \<open>handle\<close> returns.
\<close>

fun handle_step :: "smm_env \<Rightarrow> entry_params option \<Rightarrow> nat \<Rightarrow> u32 \<Rightarrow> pc \<Rightarrow> u32 \<times> pc \<times> smm_event list" where
  "handle_step E params c owner Out = (owner, Entered, [])"
| "handle_step E None c owner pc = (owner, Out, [])"
| "handle_step E (Some p) c owner Entered = (owner, Rendezvous, if context_config E p \<noteq> None then [EnterCpu c] else [])"
| "handle_step E (Some p) c owner Rendezvous =
     (case enter_rendezvous (ep_runtime p) (ep_cpu p) owner of (owner', next) \<Rightarrow> (owner', next, []))"
| "handle_step E (Some p) c owner Waiting = (owner, wait_step owner, [])"
| "handle_step E (Some p) c owner Owning = (owner, Finishing, if context_config E p \<noteq> None then [Handled c] else [])"
| "handle_step E (Some p) c owner Finishing = (leave_rendezvous (ep_runtime p) owner, Out, [])"

section \<open>All CPUs\<close>

record smm_system =
  sy_owner :: u32
  sy_pc :: "nat \<Rightarrow> pc"
  sy_log :: "smm_event list"

definition system_step :: "smm_env \<Rightarrow> (nat \<Rightarrow> entry_params option) \<Rightarrow> nat \<Rightarrow> smm_system \<Rightarrow> smm_system" where
  "system_step E ps c s =
     (case handle_step E (ps c) c (sy_owner s) (sy_pc s c) of
        (owner, next, events) \<Rightarrow>
          \<lparr>sy_owner = owner, sy_pc = (sy_pc s)(c := next), sy_log = sy_log s @ events\<rparr>)"

definition initial_system :: smm_system where
  "initial_system = \<lparr>sy_owner = 0, sy_pc = (\<lambda>_. Out), sy_log = []\<rparr>"

inductive smm_reachable :: "smm_env \<Rightarrow> (nat \<Rightarrow> entry_params option) \<Rightarrow> nat \<Rightarrow> smm_system \<Rightarrow> bool"
  for E ps n where
  start: "smm_reachable E ps n initial_system"
| step: "smm_reachable E ps n s \<Longrightarrow> c < n \<Longrightarrow> smm_reachable E ps n (system_step E ps c s)"

text \<open>What the installer writes: entry \<open>c\<close> has the index \<open>c\<close> and the address of the one runtime block.\<close>

definition installed :: "nat \<Rightarrow> (nat \<Rightarrow> entry_params option) \<Rightarrow> bool" where
  "installed n ps \<longleftrightarrow> n \<le> 65536 \<and> (\<forall>c < n. \<exists>p. ps c = Some p \<and> ep_cpu p = word_of_nat c \<and> ep_runtime p \<noteq> 0)"

section \<open>Mutual exclusion\<close>

definition owns :: "smm_system \<Rightarrow> nat \<Rightarrow> bool" where
  "owns s c \<longleftrightarrow> sy_pc s c = Owning \<or> sy_pc s c = Finishing"

definition cpu_token :: "nat \<Rightarrow> u32" where
  "cpu_token c = word_of_nat (c + 1)"

definition owner_inv :: "nat \<Rightarrow> smm_system \<Rightarrow> bool" where
  "owner_inv n s \<longleftrightarrow> (\<forall>c. owns s c \<longrightarrow> c < n \<and> sy_owner s = cpu_token c) \<and>
     (sy_owner s \<noteq> 0 \<longrightarrow> (\<exists>c. owns s c))"

lemma token:
  assumes "c < n" "n \<le> 65536"
  shows "cpu_token c \<noteq> 0" "d < n \<Longrightarrow> cpu_token c = cpu_token d \<longleftrightarrow> c = d"
proof -
  have u: "unat (cpu_token x) = x + 1" if "x < n" for x
    using that assms(2) unfolding cpu_token_def by (simp only: unat_of_nat) simp
  show "cpu_token c \<noteq> 0"
    using u [OF assms(1)] by (metis unat_0 add_eq_0_iff_both_eq_0 zero_neq_one)
  show "cpu_token c = cpu_token d \<longleftrightarrow> c = d" if "d < n"
    using u [OF assms(1)] u [OF that] by (metis add_right_cancel)
qed

lemma owner_inv_initial: "owner_inv n initial_system"
  by (simp add: owner_inv_def owns_def initial_system_def)

lemma owner_unique: "owner_inv n s \<Longrightarrow> n \<le> 65536 \<Longrightarrow> owns s c \<Longrightarrow> owns s d \<Longrightarrow> c = d"
  using token(2) [of c n d] unfolding owner_inv_def by metis

lemma owner_inv_same:
  "owner_inv n s \<Longrightarrow> sy_owner s' = sy_owner s \<Longrightarrow> (\<And>d. owns s' d \<longleftrightarrow> owns s d) \<Longrightarrow> owner_inv n s'"
  by (simp add: owner_inv_def)

lemma owner_inv_free: "owner_inv n s \<Longrightarrow> n \<le> 65536 \<Longrightarrow> sy_owner s = 0 \<Longrightarrow> \<not> owns s d"
  using token(1) [of d n] by (auto simp: owner_inv_def)

lemma owner_inv_step:
  assumes i: "owner_inv n s" and c: "c < n" and p: "installed n ps"
  shows "owner_inv n (system_step E ps c s)"
proof -
  obtain q where n: "n \<le> 65536" and ps: "ps c = Some q" and cpu: "ep_cpu q = word_of_nat c" "ep_runtime q \<noteq> 0"
    using p c by (auto simp: installed_def)
  have tok: "ep_cpu q + 1 = cpu_token c"
    by (simp add: cpu cpu_token_def)
  let ?s = "system_step E ps c s"
  have others: "owns ?s d \<longleftrightarrow> owns s d" if "d \<noteq> c" for d
    using that by (auto simp: system_step_def owns_def split: prod.splits)
  show ?thesis
  proof (cases "sy_pc s c")
    case Rendezvous
    show ?thesis
    proof (cases "sy_owner s = 0")
      case True
      then have s: "sy_owner ?s = cpu_token c" "owns ?s c"
        using Rendezvous cpu(2) tok
        by (simp_all add: ps system_step_def enter_rendezvous_def claim_owner_def owns_def)
      moreover have "\<not> owns ?s d" if "d \<noteq> c" for d
        using others [OF that] owner_inv_free [OF i n True] by simp
      ultimately show ?thesis
        unfolding owner_inv_def using c by metis
    next
      case False
      then have s: "sy_owner ?s = sy_owner s" "owns ?s c \<longleftrightarrow> owns s c"
        using Rendezvous cpu(2)
        by (simp_all add: ps system_step_def enter_rendezvous_def claim_owner_def owns_def)
      then show ?thesis
        using owner_inv_same [OF i] others by metis
    qed
  next
    case Finishing
    then have s: "sy_owner ?s = 0" "\<not> owns ?s c" "owns s c"
      using cpu(2) by (simp_all add: ps system_step_def leave_rendezvous_def owns_def)
    then have "\<not> owns ?s d" for d
      using others owner_unique [OF i n s(3)] by metis
    then show ?thesis
      using s(1) by (simp add: owner_inv_def)
  next
    case Owning
    then have "sy_owner ?s = sy_owner s" "owns ?s c \<longleftrightarrow> owns s c"
      by (simp_all add: ps system_step_def owns_def)
    then show ?thesis
      using owner_inv_same [OF i] others by metis
  next
    case Waiting
    then have "sy_owner ?s = sy_owner s" "owns ?s c \<longleftrightarrow> owns s c"
      by (simp_all add: ps system_step_def owns_def wait_step_def)
    then show ?thesis
      using owner_inv_same [OF i] others by metis
  next
    case Out
    then have "sy_owner ?s = sy_owner s" "owns ?s c \<longleftrightarrow> owns s c"
      by (simp_all add: ps system_step_def owns_def)
    then show ?thesis
      using owner_inv_same [OF i] others by metis
  next
    case Entered
    then have "sy_owner ?s = sy_owner s" "owns ?s c \<longleftrightarrow> owns s c"
      by (simp_all add: ps system_step_def owns_def)
    then show ?thesis
      using owner_inv_same [OF i] others by metis
  qed
qed

lemma reachable_owner_inv: "smm_reachable E ps n s \<Longrightarrow> installed n ps \<Longrightarrow> owner_inv n s"
  by (induction rule: smm_reachable.induct) (auto intro: owner_inv_initial owner_inv_step)

section \<open>Local work comes first\<close>

text \<open>Every CPU's callbacks alternate with its place in \<open>handle\<close>: one entry callback per dispatch, before any shared work.\<close>

definition entered :: "nat \<Rightarrow> smm_event list \<Rightarrow> nat" where
  "entered c es = length (filter ((=) (EnterCpu c)) es)"

definition handled :: "nat \<Rightarrow> smm_event list \<Rightarrow> nat" where
  "handled c es = length (filter ((=) (Handled c)) es)"

definition is_configured :: "smm_env \<Rightarrow> entry_params option \<Rightarrow> bool" where
  "is_configured E params \<longleftrightarrow> (\<exists>p. params = Some p \<and> context_config E p \<noteq> None)"

definition log_inv :: "smm_env \<Rightarrow> (nat \<Rightarrow> entry_params option) \<Rightarrow> smm_system \<Rightarrow> nat \<Rightarrow> bool" where
  "log_inv E ps s c \<longleftrightarrow>
     handled c (sy_log s) + of_bool (is_configured E (ps c) \<and> sy_pc s c \<in> {Rendezvous, Waiting, Owning}) \<le> entered c (sy_log s)"

lemma log_inv_step:
  assumes "log_inv E ps s c"
  shows "log_inv E ps (system_step E ps d s) c"
proof (cases "d = c")
  case True
  note defs = log_inv_def system_step_def enter_rendezvous_def claim_owner_def wait_step_def entered_def handled_def is_configured_def
  show ?thesis
  proof (cases "ps c")
    case None
    then show ?thesis
      using assms True by (cases "sy_pc s c") (simp_all add: defs)
  next
    case (Some p)
    then show ?thesis
      using assms True by (cases "sy_pc s c") (auto simp: defs split: if_splits)
  qed
next
  case False
  let ?es = "snd (snd (handle_step E (ps d) d (sy_owner s) (sy_pc s d)))"
  have "filter ((=) (EnterCpu c)) ?es = []" "filter ((=) (Handled c)) ?es = []"
    using False by (cases "sy_pc s d"; cases "ps d"; auto split: prod.splits)+
  then show ?thesis
    using assms False by (auto simp: log_inv_def system_step_def entered_def handled_def split: prod.splits)
qed

lemma reachable_log_inv: "smm_reachable E ps n s \<Longrightarrow> log_inv E ps s c"
proof (induction rule: smm_reachable.induct)
  case start
  then show ?case by (simp add: log_inv_def initial_system_def entered_def handled_def)
qed (rule log_inv_step)

section \<open>Progress\<close>

text \<open>
  A run of the machine: at time \<open>t\<close> CPU \<open>sched t\<close> is scheduled. In SMM it takes its next step; outside
  SMM it enters when an SMI is delivered to it, that is when \<open>smi t\<close> holds, and otherwise runs other code.
\<close>

primrec smm_run :: "smm_env \<Rightarrow> (nat \<Rightarrow> entry_params option) \<Rightarrow> (nat \<Rightarrow> nat) \<Rightarrow> (nat \<Rightarrow> bool) \<Rightarrow> smm_system \<Rightarrow> nat \<Rightarrow> smm_system" where
  "smm_run E ps sched smi s 0 = s"
| "smm_run E ps sched smi s (Suc t) =
     (let s' = smm_run E ps sched smi s t in
      if sy_pc s' (sched t) = Out \<and> \<not> smi t then s' else system_step E ps (sched t) s')"

definition fair :: "nat \<Rightarrow> (nat \<Rightarrow> nat) \<Rightarrow> bool" where
  "fair n sched \<longleftrightarrow> (\<forall>t. sched t < n) \<and> (\<forall>c < n. \<forall>t. \<exists>u \<ge> t. sched u = c)"

fun rank :: "pc \<Rightarrow> nat" where
  "rank Entered = 5"
| "rank Rendezvous = 4"
| "rank Owning = 3"
| "rank Finishing = 2"
| "rank Waiting = 1"
| "rank Out = 0"

definition work :: "nat \<Rightarrow> smm_system \<Rightarrow> nat" where
  "work n s = (\<Sum>c < n. rank (sy_pc s c))"

lemma work_update: "c < n \<Longrightarrow> rank pc < rank (sy_pc s c) \<Longrightarrow> work n (s\<lparr>sy_pc := (sy_pc s)(c := pc)\<rparr>) < work n s"
  unfolding work_def by (rule sum_strict_mono_ex1) auto

lemma work_0: "work n s = 0 \<longleftrightarrow> (\<forall>c < n. sy_pc s c = Out)"
proof -
  have "rank p = 0 \<longleftrightarrow> p = Out" for p
    by (cases p) simp_all
  then show ?thesis
    by (auto simp: work_def)
qed

definition blocked :: "smm_system \<Rightarrow> nat \<Rightarrow> bool" where
  "blocked s c \<longleftrightarrow> sy_pc s c = Waiting \<and> sy_owner s \<noteq> 0"

text \<open>A step in SMM does work, unless the CPU waits for the owner, and then nothing changes.\<close>

lemma step_works:
  assumes "c < n" "sy_pc s c \<noteq> Out" "\<not> blocked s c"
  shows "work n (system_step E ps c s) < work n s"
proof -
  obtain owner pc es where h: "handle_step E (ps c) c (sy_owner s) (sy_pc s c) = (owner, pc, es)"
    by (metis surj_pair)
  have "rank pc < rank (sy_pc s c)"
    using h assms(2,3) by (cases "ps c"; cases "sy_pc s c")
      (auto simp: blocked_def enter_rendezvous_def claim_owner_def wait_step_def split: if_splits)
  then have "work n (s\<lparr>sy_pc := (sy_pc s)(c := pc)\<rparr>) < work n s"
    by (rule work_update [OF assms(1)])
  then show ?thesis
    by (simp add: system_step_def h work_def)
qed

lemma step_blocked: "blocked s c \<Longrightarrow> ps c = Some p \<Longrightarrow> system_step E ps c s = s"
  by (cases s) (auto simp: blocked_def system_step_def wait_step_def)

text \<open>While some CPU is in SMM, some CPU can work: a CPU only waits for one that owns the dispatch.\<close>

lemma some_cpu_works:
  assumes "owner_inv n s" "work n s \<noteq> 0"
  shows "\<exists>c < n. sy_pc s c \<noteq> Out \<and> \<not> blocked s c"
proof -
  obtain c where c: "c < n" "sy_pc s c \<noteq> Out"
    using assms(2) by (auto simp: work_0)
  show ?thesis
  proof (cases "blocked s c")
    case True
    then obtain d where "owns s d" "d < n"
      using assms(1) by (auto simp: blocked_def owner_inv_def)
    then show ?thesis
      by (intro exI [of _ d]) (auto simp: owns_def blocked_def)
  qed (use c in blast)
qed

lemma smm_run_reachable:
  assumes "smm_reachable E ps n s" "\<And>t. sched t < n"
  shows "smm_reachable E ps n (smm_run E ps sched smi s t)"
  using assms by (induction t) (auto simp: Let_def intro: smm_reachable.step)

text \<open>Once no SMI arrives, time passes without work only in an unchanged state.\<close>

lemma run_idle_or_works:
  assumes "installed n ps" "\<And>t. sched t < n" "\<forall>u \<ge> t. \<not> smi u"
  shows "work n (smm_run E ps sched smi s (t + k)) < work n (smm_run E ps sched smi s t) \<or>
    smm_run E ps sched smi s (t + k) = smm_run E ps sched smi s t"
proof (induction k)
  case (Suc k)
  let ?s = "smm_run E ps sched smi s (t + k)" and ?c = "sched (t + k)"
  obtain p where p: "ps ?c = Some p"
    using assms(1,2) by (metis installed_def)
  have "smm_run E ps sched smi s (t + Suc k) = ?s \<or> work n (smm_run E ps sched smi s (t + Suc k)) < work n ?s"
    using step_works [OF assms(2), of ?s "t + k" E ps] step_blocked [of ?s ?c ps p E] p assms(3)
    by (auto simp: Let_def)
  then show ?case
    using Suc.IH by auto
qed simp

lemma run_works:
  assumes "installed n ps" "fair n sched" "\<forall>u \<ge> t. \<not> smi u" "smm_reachable E ps n s"
    and "work n (smm_run E ps sched smi s t) \<noteq> 0"
  shows "\<exists>u \<ge> t. work n (smm_run E ps sched smi s u) < work n (smm_run E ps sched smi s t)"
proof -
  let ?run = "smm_run E ps sched smi s"
  have sched: "sched u < n" for u
    using assms(2) by (simp add: fair_def)
  have "owner_inv n (?run t)"
    using reachable_owner_inv [OF smm_run_reachable [OF assms(4) sched] assms(1)] by simp
  then obtain c where c: "c < n" "sy_pc (?run t) c \<noteq> Out" "\<not> blocked (?run t) c"
    using some_cpu_works assms(5) by blast
  then obtain k where k: "sched (t + k) = c"
    using assms(2) by (metis fair_def le_Suc_ex)
  show ?thesis
  proof (cases "?run (t + k) = ?run t")
    case True
    then have "work n (?run (Suc (t + k))) < work n (?run t)"
      using step_works [OF c] k c(2) by (simp add: Let_def)
    then show ?thesis
      by (intro exI [of _ "Suc (t + k)"]) simp
  next
    case False
    then show ?thesis
      using run_idle_or_works [of n ps sched t smi E s k] assms(1,3) sched by (intro exI [of _ "t + k"]) simp
  qed
qed

lemma run_empties:
  assumes "installed n ps" "fair n sched" "\<forall>u \<ge> t. \<not> smi u" "smm_reachable E ps n s"
  shows "\<exists>u \<ge> t. work n (smm_run E ps sched smi s u) = 0"
  using assms(3)
proof (induction "work n (smm_run E ps sched smi s t)" arbitrary: t rule: less_induct)
  case less
  show ?case
  proof (cases "work n (smm_run E ps sched smi s t) = 0")
    case False
    then obtain u where "t \<le> u" "work n (smm_run E ps sched smi s u) < work n (smm_run E ps sched smi s t)"
      using run_works [OF assms(1,2) less.prems assms(4)] by blast
    then show ?thesis
      using less.hyps [of u] less.prems by (meson order_trans)
  qed blast
qed

section \<open>Properties\<close>

definition sample_params :: "nat \<Rightarrow> entry_params option" where
  "sample_params c = Some \<lparr>ep_cpu = word_of_nat c, ep_stack_size = 0x400, ep_stack_top = 0, ep_common_entry = 0,
     ep_runtime = 0x7f000000, ep_coreboot_module_args = 0, ep_cr3 = 0, ep_entry_base = 0\<rparr>"

lemma sample_installed: "installed 2 sample_params"
  by (simp add: installed_def sample_params_def)

definition sample_env :: smm_env where
  "sample_env = \<lparr>se_um = 2 ^ 32 - 1, se_config_size = 64, se_config_align = 8,
     se_runtime = runtime_new 0x7f000000 0x10000 2 0x400 48 64, se_runtime_size = runtime_size True\<rparr>"

text \<open>The board's configuration is behind the runtime block of the sample, so its callbacks run.\<close>

lemma sample_config: "sample_params c = Some p \<Longrightarrow> context_config sample_env p = Some 0x7f000030"
  by (auto simp: sample_params_def context_config_def handler_config_def sample_env_def runtime_new_def runtime_size_def
      usize_add_def HANDLER_CONFIG_CAPACITY_def HANDLER_CONFIG_ALIGNMENT_def)

text \<open>Both CPUs of the sample have entered and CPU 0 has won.\<close>

definition sample_system :: smm_system where
  "sample_system = fold (system_step sample_env sample_params) [0, 1, 0, 1, 0, 1] initial_system"

lemma sample_reachable: "smm_reachable sample_env sample_params 2 sample_system"
  unfolding sample_system_def by (simp add: smm_reachable.intros)

lemma sample_pcs: "sy_pc sample_system 0 = Owning" "sy_pc sample_system 1 = Waiting"
  by (simp_all add: sample_system_def initial_system_def system_step_def enter_rendezvous_def claim_owner_def
      sample_params_def)



text \<open>
  C22: no CPU is stuck in SMM. From every state the CPUs can reach, for every run in which each CPU is scheduled again and again and
  SMIs are delivered only finitely often, there is a time from which on all CPUs are outside SMM, the
  waiting ones and those that dispatch alike. CPUs that race a waiting one for the
  owner word may delay it, but not forever.
\<close>

theorem smm_all_cpus_leave:
  assumes "installed n ps" and "smm_reachable E ps n s" and "fair n sched" and "finite {t. smi t}"
  shows "\<exists>t. \<forall>u \<ge> t. \<forall>c < n. sy_pc (smm_run E ps sched smi s u) c = Out"
proof -
  obtain t where t: "\<forall>u \<ge> t. \<not> smi u"
    using assms(4) by (metis finite_nat_set_iff_bounded mem_Collect_eq not_less)
  obtain v where v: "t \<le> v" "work n (smm_run E ps sched smi s v) = 0"
    using run_empties [OF assms(1,3) t assms(2)] by blast
  have "work n (smm_run E ps sched smi s u) = 0" if "v \<le> u" for u
  proof -
    have "sched w < n" for w
      using assms(3) by (simp add: fair_def)
    then show ?thesis
      using run_idle_or_works [of n ps sched v smi E s "u - v"] assms(1) v t that order_trans [OF v(1)] by auto
  qed
  then show ?thesis
    unfolding work_0 by blast
qed

theorem smm_all_cpus_leave_witness:
  "sy_pc sample_system 1 = Waiting \<and>
   (\<exists>t. \<forall>u \<ge> t. \<forall>c < 2. sy_pc (smm_run sample_env sample_params (\<lambda>t. t mod 2) (\<lambda>t. t < 5) sample_system u) c = Out)"
proof -
  have "fair 2 (\<lambda>t. t mod 2)"
    unfolding fair_def
  proof (intro conjI allI impI)
    show "\<exists>u \<ge> t. u mod 2 = c" if "c < 2" for c t :: nat
      using that by (intro exI [of _ "2 * t + c"]) simp
  qed simp
  then show ?thesis
    using smm_all_cpus_leave [OF sample_installed sample_reachable] sample_pcs(2) by simp
qed

end
