(* ===== verification/Save_State.thy ===== *)
theory Save_State
  imports Prelude
begin

text \<open>
  The x86 SMM state-save area (\<^verbatim>\<open>crates/smm/src/save_state.rs\<close>). The window of one CPU is the
  byte list that ends at \<open>top\<close>; a field at \<open>top.sub(off)\<close> is at index \<open>length w - off\<close>. An access
  below the window, which would break the contract of \<open>from_top\<close>, is the outcome \<open>Panic\<close>. Writers
  return the updated window.
\<close>

section \<open>Formats\<close>

definition REVISION_OFFSET :: nat where "REVISION_OFFSET = 0x104"

datatype save_state_format = IntelEm64t | Amd64 | IntelLegacy | Amd64OrIntelLegacy

fun format_name :: "save_state_format \<Rightarrow> string" where
  "format_name IntelEm64t = ''Intel EM64T100/101''"
| "format_name Amd64 = ''AMD64''"
| "format_name IntelLegacy = ''Intel legacy''"
| "format_name Amd64OrIntelLegacy = ''AMD64 or Intel legacy''"

definition accepts_amd64 :: "u32 \<Rightarrow> bool" where
  "accepts_amd64 revision \<longleftrightarrow> revision = 0x00020064 \<or> revision = 0x00030064"

definition accepts_legacy :: "u32 \<Rightarrow> bool" where
  "accepts_legacy revision \<longleftrightarrow> and revision (2 ^ 17) \<noteq> 0 \<and> \<not> accepts_amd64 revision"

fun accepts :: "save_state_format \<Rightarrow> u32 \<Rightarrow> bool" where
  "accepts IntelEm64t revision \<longleftrightarrow> revision = 0x00030100 \<or> revision = 0x00030101"
| "accepts Amd64 revision \<longleftrightarrow> accepts_amd64 revision"
| "accepts IntelLegacy revision \<longleftrightarrow> accepts_legacy revision"
| "accepts Amd64OrIntelLegacy revision \<longleftrightarrow> accepts_amd64 revision \<or> accepts_legacy revision"

fun smbase_offset :: "save_state_format \<Rightarrow> u32 \<Rightarrow> nat" where
  "smbase_offset IntelEm64t revision = 0x108"
| "smbase_offset IntelLegacy revision = 0x108"
| "smbase_offset Amd64 revision = 0x100"
| "smbase_offset Amd64OrIntelLegacy revision = (if accepts_amd64 revision then 0x100 else 0x108)"

datatype amd64_register = Rax | Rcx | Rdx | Rip

fun register_offset :: "amd64_register \<Rightarrow> nat" where
  "register_offset Rax = 0x08"
| "register_offset Rcx = 0x10"
| "register_offset Rdx = 0x18"
| "register_offset Rip = 0x88"

datatype save_state_error = RevisionMismatch save_state_format u32

section \<open>Access\<close>

definition ss_read :: "bytes \<Rightarrow> nat \<Rightarrow> nat \<Rightarrow> (save_state_error, bytes) result" where
  "ss_read w off n = (if n \<le> off \<and> off \<le> length w then Ok (sub w (length w - off) n) else Panic)"

definition ss_write :: "bytes \<Rightarrow> nat \<Rightarrow> bytes \<Rightarrow> (save_state_error, bytes) result" where
  "ss_write w off b = (if length b \<le> off \<and> off \<le> length w then Ok (write_at w (length w - off) b) else Panic)"

definition read_u32 :: "bytes \<Rightarrow> nat \<Rightarrow> (save_state_error, u32) result" where
  "read_u32 w off = rbind (ss_read w off 4) (\<lambda>b. Ok (from_le_bytes b))"

definition write_u32 :: "bytes \<Rightarrow> nat \<Rightarrow> u32 \<Rightarrow> (save_state_error, bytes) result" where
  "write_u32 w off v = ss_write w off (to_le_bytes v)"

definition read_u64 :: "bytes \<Rightarrow> nat \<Rightarrow> (save_state_error, u64) result" where
  "read_u64 w off = rbind (ss_read w off 8) (\<lambda>b. Ok (from_le_bytes b))"

definition write_u64 :: "bytes \<Rightarrow> nat \<Rightarrow> u64 \<Rightarrow> (save_state_error, bytes) result" where
  "write_u64 w off v = ss_write w off (to_le_bytes v)"

definition ss_revision :: "save_state_format \<Rightarrow> bytes \<Rightarrow> (save_state_error, u32) result" where
  "ss_revision fmt w =
     rbind (read_u32 w REVISION_OFFSET) (\<lambda>actual.
       if accepts fmt actual then Ok actual else Err (RevisionMismatch fmt actual))"

definition amd64_revision :: "save_state_format \<Rightarrow> bytes \<Rightarrow> (save_state_error, unit) result" where
  "amd64_revision fmt w =
     rbind (ss_revision fmt w) (\<lambda>actual.
       if (fmt = Amd64 \<or> fmt = Amd64OrIntelLegacy) \<and> accepts Amd64 actual then Ok ()
       else Err (RevisionMismatch Amd64 actual))"

definition read_amd64 :: "save_state_format \<Rightarrow> bytes \<Rightarrow> amd64_register \<Rightarrow> (save_state_error, u64) result" where
  "read_amd64 fmt w register = rbind (amd64_revision fmt w) (\<lambda>_. read_u64 w (register_offset register))"

definition write_amd64 ::
  "save_state_format \<Rightarrow> bytes \<Rightarrow> amd64_register \<Rightarrow> u64 \<Rightarrow> (save_state_error, bytes) result" where
  "write_amd64 fmt w register v = rbind (amd64_revision fmt w) (\<lambda>_. write_u64 w (register_offset register) v)"

definition write_smbase :: "save_state_format \<Rightarrow> bytes \<Rightarrow> u32 \<Rightarrow> (save_state_error, bytes) result" where
  "write_smbase fmt w smbase =
     rbind (ss_revision fmt w) (\<lambda>revision. write_u32 w (smbase_offset fmt revision) smbase)"

section \<open>Fields\<close>

text \<open>The contract of \<open>from_top\<close>: the window reaches at least down to the lowest field.\<close>

definition window :: "bytes \<Rightarrow> bool" where
  "window w \<longleftrightarrow> 0x108 \<le> length w"

definition revision_word :: "bytes \<Rightarrow> u32" where
  "revision_word w = le32 w (length w - 0x104)"

lemma ss_revision_eq:
  "window w \<Longrightarrow> ss_revision fmt w =
     (if accepts fmt (revision_word w) then Ok (revision_word w) else Err (RevisionMismatch fmt (revision_word w)))"
  by (simp add: ss_revision_def read_u32_def ss_read_def window_def REVISION_OFFSET_def revision_word_def le32_def)

lemma amd64_revision_eq:
  "window w \<Longrightarrow> amd64_revision fmt w =
     (if (fmt = Amd64 \<or> fmt = Amd64OrIntelLegacy) \<and> accepts_amd64 (revision_word w) then Ok ()
      else if accepts fmt (revision_word w) then Err (RevisionMismatch Amd64 (revision_word w))
      else Err (RevisionMismatch fmt (revision_word w)))"
  by (auto simp: amd64_revision_def ss_revision_eq)

lemma smbase_offset_cases: "smbase_offset fmt r = 0x100 \<or> smbase_offset fmt r = 0x108"
  by (cases fmt) auto

lemma register_offset_cases: "register_offset r \<in> {0x08, 0x10, 0x18, 0x88}"
  by (cases r) auto

lemma ss_write_field:
  assumes "ss_write w off b = Ok w'" "m \<le> k" "k \<le> length w" "k \<le> off - length b \<or> off \<le> k - m"
  shows "length w' = length w" "sub w' (length w - off) (length b) = b" "length b \<le> off" "off \<le> length w"
    "sub w' (length w - k) m = sub w (length w - k) m"
proof -
  have w: "length b \<le> off" "off \<le> length w" "w' = write_at w (length w - off) b"
    using assms(1) by (auto simp: ss_write_def split: if_splits)
  then have i: "length w - off + length b \<le> length w"
    by simp
  show "length w' = length w" "sub w' (length w - off) (length b) = b" "length b \<le> off" "off \<le> length w"
    using w i by (simp_all add: length_write_at sub_write_at_same)
  have "length w - k + m \<le> length w - off \<or> length w - off + length b \<le> length w - k"
    using assms(2-4) w(1,2) by auto
  then show "sub w' (length w - k) m = sub w (length w - k) m"
    unfolding w(3) by (rule sub_write_at_other [OF i])
qed

section \<open>Properties\<close>

lemma sample_window_revision: "window (replicate 4 0 @ to_le_bytes (0x30064 :: u32) @ replicate 256 0)"
  "revision_word (replicate 4 0 @ to_le_bytes (0x30064 :: u32) @ replicate 256 0) = 0x30064"
  by (simp_all add: window_def revision_word_def le32_def byte_simps)

text \<open>
  C36: \<open>write_smbase\<close> keeps the documented layouts. The revision word is 0x104 below the top of the window. The revisions
  0x30100 and 0x30101 select the Intel EM64T layout, 0x20064 and 0x30064 the AMD64 layout, any
  other with bit 17 the legacy layout; the write succeeds exactly when the selected format covers the layout found.
  It then puts the four bytes of the new SMBASE 0x100 below the top for AMD64 and 0x108 below
  it for both Intel layouts, and changes no other byte: the revision and every AMD64 register read as before.
  Otherwise it reports the format expected and the revision found.
\<close>

theorem write_smbase_spec:
  assumes "0x108 \<le> length w" and "r = le32 w (length w - 0x104)"
    and "amd64 \<longleftrightarrow> r = 0x20064 \<or> r = 0x30064"
  shows "write_smbase IntelEm64t w v =
      (if r = 0x30100 \<or> r = 0x30101 then Ok (write_at w (length w - 0x108) (to_le_bytes v)) else Err (RevisionMismatch IntelEm64t r)) \<and>
    write_smbase Amd64 w v =
      (if amd64 then Ok (write_at w (length w - 0x100) (to_le_bytes v)) else Err (RevisionMismatch Amd64 r)) \<and>
    write_smbase IntelLegacy w v =
      (if bit r 17 \<and> \<not> amd64 then Ok (write_at w (length w - 0x108) (to_le_bytes v)) else Err (RevisionMismatch IntelLegacy r)) \<and>
    write_smbase Amd64OrIntelLegacy w v =
      (if amd64 then Ok (write_at w (length w - 0x100) (to_le_bytes v))
       else if bit r 17 then Ok (write_at w (length w - 0x108) (to_le_bytes v)) else Err (RevisionMismatch Amd64OrIntelLegacy r)) \<and>
    (\<forall>fmt w'. write_smbase fmt w v = Ok w' \<longrightarrow> length w' = length w \<and> le32 w' (length w - 0x104) = r \<and>
       le32 w' (length w - (if amd64 then 0x100 else 0x108)) = v \<and> (\<forall>reg. read_amd64 fmt w' reg = read_amd64 fmt w reg))"
proof -
  have win: "window w" and r: "revision_word w = r"
    using assms(1,2) by (simp_all add: window_def revision_word_def)
  have bit17: "and r (2 ^ 17) \<noteq> 0 \<longleftrightarrow> bit r 17"
    using and_exp_eq_0_iff_not_bit [of r 17] by simp
  have w: "write_smbase fmt w v = (if accepts fmt r then Ok (write_at w (length w - smbase_offset fmt r) (to_le_bytes v))
      else Err (RevisionMismatch fmt r))" for fmt
    using win smbase_offset_cases [of fmt r] assms(1)
    by (auto simp: write_smbase_def ss_revision_eq r write_u32_def ss_write_def)
  have frame: "length w' = length w \<and> le32 w' (length w - 0x104) = r \<and> le32 w' (length w - (if amd64 then 0x100 else 0x108)) = v \<and>
      (\<forall>reg. read_amd64 fmt w' reg = read_amd64 fmt w reg)" if ok: "write_smbase fmt w v = Ok w'" for fmt w'
  proof -
    have a: "accepts fmt r" and s: "ss_write w (smbase_offset fmt r) (to_le_bytes v) = Ok w'"
      using ok win by (auto simp: write_smbase_def ss_revision_eq r write_u32_def split: if_splits)
    have o: "smbase_offset fmt r = (if amd64 then 0x100 else 0x108)"
      using a assms(3) by (cases fmt) (auto simp: accepts_amd64_def accepts_legacy_def)
    have f: "length w' = length w" "sub w' (length w - 0x104) 4 = sub w (length w - 0x104) 4"
      "sub w' (length w - smbase_offset fmt r) 4 = to_le_bytes v"
      using ss_write_field [OF s, of 4 "0x104"] assms(1) smbase_offset_cases [of fmt r] by auto
    have "sub w' (length w - register_offset reg) 8 = sub w (length w - register_offset reg) 8" for reg
      using ss_write_field(5) [OF s, of 8 "register_offset reg"] assms(1) smbase_offset_cases [of fmt r] register_offset_cases [of reg]
      by auto
    then have "read_amd64 fmt w' reg = read_amd64 fmt w reg" for reg
      using f(1,2) win
      by (simp add: read_amd64_def amd64_revision_eq window_def revision_word_def le32_def read_u64_def ss_read_def)
    then show ?thesis
      using f(1,2) f(3) [unfolded o] assms(2) by (simp add: le32_def)
  qed
  have amd: "accepts_amd64 r \<longleftrightarrow> amd64" and leg: "accepts_legacy r \<longleftrightarrow> bit r 17 \<and> \<not> amd64"
    unfolding accepts_legacy_def bit17 accepts_amd64_def assms(3) by blast+
  have "write_smbase Amd64OrIntelLegacy w v =
      (if amd64 then Ok (write_at w (length w - 0x100) (to_le_bytes v))
       else if bit r 17 then Ok (write_at w (length w - 0x108) (to_le_bytes v)) else Err (RevisionMismatch Amd64OrIntelLegacy r))"
    by (simp add: w amd leg)
  then show ?thesis
    using frame by (intro conjI; simp only: w accepts.simps smbase_offset.simps amd leg; blast)
qed

theorem write_smbase_spec_witness:
  "\<exists>w'. write_smbase Amd64 (replicate 4 0 @ to_le_bytes (0x30064 :: u32) @ replicate 256 0) 0x70000000 = Ok w' \<and>
     le32 w' 8 = 0x70000000"
proof -
  let ?w = "replicate 4 0 @ to_le_bytes (0x30064 :: u32) @ replicate 256 0"
  have l: "length ?w = 264" by simp
  have "le32 ?w (264 - 0x104) = 0x30064"
    using sample_window_revision(2) by (simp add: revision_word_def)
  then show ?thesis
    using write_smbase_spec [of ?w "0x30064" True "0x70000000", unfolded l] by (fastforce simp: l)
qed

text \<open>
  A register written into an AMD64 save state is read back as written, every other
  register keeps its value, and no byte outside the eight of the register changes. The write
  is refused unless the revision is one of the AMD64 layout.
\<close>

theorem write_amd64_spec:
  assumes "window w"
  shows "(case write_amd64 fmt w r v of
      Ok w' \<Rightarrow> read_amd64 fmt w' r = Ok v \<and> (\<forall>s. s \<noteq> r \<longrightarrow> read_amd64 fmt w' s = read_amd64 fmt w s) \<and>
        (\<forall>k < length w. k < length w - register_offset r \<or> length w - register_offset r + 8 \<le> k \<longrightarrow> w' ! k = w ! k)
    | Err _ \<Rightarrow> \<not> (accepts_amd64 (revision_word w) \<and> (fmt = Amd64 \<or> fmt = Amd64OrIntelLegacy))
    | Panic \<Rightarrow> False)"
proof (cases "(fmt = Amd64 \<or> fmt = Amd64OrIntelLegacy) \<and> accepts_amd64 (revision_word w)")
  case True
  let ?o = "register_offset r"
  have o: "?o \<in> {0x08, 0x10, 0x18, 0x88}" "0x108 \<le> length w"
    using register_offset_cases assms by (auto simp: window_def)
  define w' where "w' = write_at w (length w - ?o) (to_le_bytes v)"
  have ok: "ss_write w ?o (to_le_bytes v) = Ok w'"
    using o by (auto simp: ss_write_def w'_def)
  have i: "length w - ?o + length (to_le_bytes v) \<le> length w"
    using o by auto
  have f: "length w' = length w" "sub w' (length w - ?o) 8 = to_le_bytes v"
    "sub w' (length w - 0x104) 4 = sub w (length w - 0x104) 4"
    using ss_write_field [OF ok, of 4 "0x104"] o by auto
  have rev: "revision_word w' = revision_word w" "window w'"
    using f assms by (simp_all add: revision_word_def le32_def window_def)
  have other: "sub w' (length w - register_offset s) 8 = sub w (length w - register_offset s) 8" if "s \<noteq> r" for s
    using ss_write_field(5) [OF ok, of 8 "register_offset s"] o that by (cases s; cases r) auto
  have rd: "read_amd64 fmt x s = Ok (from_le_bytes (sub x (length x - register_offset s) 8))"
    if "window x" "revision_word x = revision_word w" for x s
    using that True register_offset_cases [of s]
    by (auto simp: read_amd64_def amd64_revision_eq read_u64_def ss_read_def window_def)
  have "\<forall>k < length w. k < length w - ?o \<or> length w - ?o + 8 \<le> k \<longrightarrow> w' ! k = w ! k"
    using i by (auto simp: w'_def nth_write_at)
  then show ?thesis
    using True assms f other rev ok by (simp add: rd write_amd64_def amd64_revision_eq write_u64_def)
next
  case False
  then show ?thesis
    using assms by (auto simp: write_amd64_def amd64_revision_eq)
qed

theorem write_amd64_spec_witness:
  "window (replicate 4 0 @ to_le_bytes (0x30064 :: u32) @ replicate 256 0) \<and>
   (\<exists>w'. write_amd64 Amd64 (replicate 4 0 @ to_le_bytes (0x30064 :: u32) @ replicate 256 0) Rax 0x1234 = Ok w' \<and>
      read_amd64 Amd64 w' Rax = Ok 0x1234)"
proof -
  let ?w = "replicate 4 0 @ to_le_bytes (0x30064 :: u32) @ replicate 256 0"
  show ?thesis
    using sample_window_revision write_amd64_spec [OF sample_window_revision(1), of Amd64 Rax "0x1234"]
    by (auto simp: accepts_amd64_def split: result.splits)
qed

end
