(* ===== verification/Store.thy ===== *)
theory Store
  imports Prelude
begin

text \<open>
  The firmware store (\<^verbatim>\<open>crates/store/src/lib.rs\<close>), a transfer list in one memory window.
  A store is the physical base of the list and the bytes of the window from there on;
  every operation returns the updated window. \<open>usize\<close> is 64 bits wide, where no sum of
  the code can wrap because every size field is a 32-bit word. A write outside the
  window, which would be undefined behaviour of the \<open>unsafe\<close> copy, is the outcome \<open>Panic\<close>.
\<close>

section \<open>Data\<close>

definition SIGNATURE :: u32 where "SIGNATURE = 0x4a0fb10b"
definition VERSION :: u8 where "VERSION = 1"
definition HEADER_SIZE :: nat where "HEADER_SIZE = 24"
definition ENTRY_HEADER_SIZE :: nat where "ENTRY_HEADER_SIZE = 8"
definition GRANULE :: nat where "GRANULE = 8"
definition FLAG_HAS_CHECKSUM :: u32 where "FLAG_HAS_CHECKSUM = 1"

lemmas store_consts = HEADER_SIZE_def ENTRY_HEADER_SIZE_def GRANULE_def

record list_header =
  lh_signature :: u32
  lh_checksum :: u8
  lh_version :: u8
  lh_header_size :: u8
  lh_alignment :: u8
  lh_used_size :: u32
  lh_max_size :: u32
  lh_flags :: u32
  lh_reserved :: u32

record entry_header =
  eh_tag :: bytes
  eh_header_size :: u8
  eh_data_size :: u32

type_synonym tag = u32

definition VOID :: tag where "VOID = 0"

definition tag_vendor :: "u16 \<Rightarrow> ('e, tag) result" where
  "tag_vendor index = (if index < 0x1000 then Ok (0xfff000 + ucast index) else Panic)"

definition tag_from_bytes :: "bytes \<Rightarrow> tag" where
  "tag_from_bytes b = from_le_bytes [b ! 0, b ! 1, b ! 2, 0]"

definition tag_to_bytes :: "tag \<Rightarrow> bytes" where
  "tag_to_bytes t = take 3 (to_le_bytes t)"

record entry =
  en_tag :: tag
  en_offset :: nat
  en_size :: nat

datatype store_error = Misaligned | TooSmall | Invalid | Full | NotLast | BadTag

record store =
  st_base :: nat
  st_mem :: bytes

definition next_multiple_of :: "nat \<Rightarrow> nat \<Rightarrow> nat" where
  "next_multiple_of n k = (n + k - 1) div k * k"

definition entry_end :: "entry \<Rightarrow> nat" where
  "entry_end e = en_offset e + next_multiple_of (en_size e) GRANULE"

section \<open>Headers in memory\<close>

definition lh_as_bytes :: "list_header \<Rightarrow> bytes" where
  "lh_as_bytes h = to_le_bytes (lh_signature h) @
     [lh_checksum h, lh_version h, lh_header_size h, lh_alignment h] @
     to_le_bytes (lh_used_size h) @ to_le_bytes (lh_max_size h) @ to_le_bytes (lh_flags h) @
     to_le_bytes (lh_reserved h)"

definition lh_at :: "bytes \<Rightarrow> list_header" where
  "lh_at b = \<lparr>lh_signature = le32 b 0, lh_checksum = b ! 4, lh_version = b ! 5,
     lh_header_size = b ! 6, lh_alignment = b ! 7, lh_used_size = le32 b 8,
     lh_max_size = le32 b 12, lh_flags = le32 b 16, lh_reserved = le32 b 20\<rparr>"

definition eh_as_bytes :: "entry_header \<Rightarrow> bytes" where
  "eh_as_bytes h = eh_tag h @ [eh_header_size h] @ to_le_bytes (eh_data_size h)"

definition eh_at :: "bytes \<Rightarrow> entry_header" where
  "eh_at b = \<lparr>eh_tag = sub b 0 3, eh_header_size = b ! 3, eh_data_size = le32 b 4\<rparr>"

definition store_read :: "store \<Rightarrow> nat \<Rightarrow> nat \<Rightarrow> bytes" where
  "store_read st offset n = sub (st_mem st) offset n"

definition store_write :: "store \<Rightarrow> nat \<Rightarrow> bytes \<Rightarrow> (store_error, store) result" where
  "store_write st offset b =
     (if offset + length b \<le> length (st_mem st)
      then Ok (st\<lparr>st_mem := write_at (st_mem st) offset b\<rparr>) else Panic)"

definition store_header :: "store \<Rightarrow> list_header" where
  "store_header st = lh_at (store_read st 0 HEADER_SIZE)"

definition write_header :: "store \<Rightarrow> list_header \<Rightarrow> (store_error, store) result" where
  "write_header st h = store_write st 0 (lh_as_bytes h)"

definition write_entry_header :: "store \<Rightarrow> nat \<Rightarrow> tag \<Rightarrow> nat \<Rightarrow> (store_error, store) result" where
  "write_entry_header st offset t data_size =
     store_write st offset (eh_as_bytes \<lparr>eh_tag = tag_to_bytes t,
       eh_header_size = word_of_nat ENTRY_HEADER_SIZE, eh_data_size = word_of_nat data_size\<rparr>)"

definition used :: "store \<Rightarrow> nat" where
  "used st = unat (lh_used_size (store_header st))"

definition max_size :: "store \<Rightarrow> nat" where
  "max_size st = unat (lh_max_size (store_header st))"

definition entry_at :: "store \<Rightarrow> nat \<Rightarrow> entry option" where
  "entry_at st offset =
     (if offset mod GRANULE \<noteq> 0 \<or> offset + ENTRY_HEADER_SIZE > used st then None
      else let h = eh_at (store_read st offset ENTRY_HEADER_SIZE);
               header_size = unat (eh_header_size h)
           in if header_size < ENTRY_HEADER_SIZE \<or> header_size mod GRANULE \<noteq> 0 then None
              else let e = \<lparr>en_tag = tag_from_bytes (eh_tag h), en_offset = offset + header_size,
                           en_size = unat (eh_data_size h)\<rparr>
                   in if en_offset e + next_multiple_of (en_size e) GRANULE \<le> used st then Some e else None)"

section \<open>Creating and opening\<close>

definition store_create :: "nat \<Rightarrow> bytes \<Rightarrow> nat \<Rightarrow> (store_error, store) result" where
  "store_create base mem window =
     (if base mod GRANULE \<noteq> 0 then Err Misaligned
      else let max = (min window (2 ^ 32 - 1) div GRANULE) * GRANULE
           in if max < HEADER_SIZE then Err TooSmall
              else write_header \<lparr>st_base = base, st_mem = mem\<rparr>
                \<lparr>lh_signature = SIGNATURE, lh_checksum = 0, lh_version = VERSION,
                 lh_header_size = word_of_nat HEADER_SIZE, lh_alignment = 3,
                 lh_used_size = word_of_nat HEADER_SIZE, lh_max_size = word_of_nat max,
                 lh_flags = 0, lh_reserved = 0\<rparr>)"

lemma entry_at_progress: "entry_at st offset = Some e \<Longrightarrow> offset < entry_end e \<and> entry_end e \<le> used st"
  by (auto simp: entry_at_def entry_end_def Let_def store_consts split: if_splits)

text \<open>The loop of \<open>open\<close>: the offset where the chain of entries stops, \<open>None\<close> at a bad entry.\<close>

function chain_end :: "store \<Rightarrow> nat \<Rightarrow> nat option" where
  "chain_end st offset =
     (if offset < used st
      then case entry_at st offset of None \<Rightarrow> None | Some e \<Rightarrow> chain_end st (entry_end e)
      else Some offset)"
  by pat_completeness auto
termination
  by (relation "measure (\<lambda>(st, offset). used st - offset)") (auto dest: entry_at_progress)

declare chain_end.simps [simp del]

definition checksum :: "store \<Rightarrow> nat \<Rightarrow> u8" where
  "checksum st n = fold (\<lambda>i sum. sum + st_mem st ! i) [0..<n] 0"

definition store_open :: "nat \<Rightarrow> bytes \<Rightarrow> nat \<Rightarrow> (store_error, store) result" where
  "store_open base mem window =
     (if base mod GRANULE \<noteq> 0 then Err Misaligned
      else if window < HEADER_SIZE then Err TooSmall
      else let st = \<lparr>st_base = base, st_mem = mem\<rparr>; h = store_header st; u = unat (lh_used_size h);
               max = unat (lh_max_size h); header_size = unat (lh_header_size h)
        in if lh_signature h \<noteq> SIGNATURE \<or> lh_version h \<noteq> VERSION \<or> header_size < HEADER_SIZE \<or>
              header_size mod GRANULE \<noteq> 0 \<or> u < header_size \<or> u mod GRANULE \<noteq> 0 \<or> u > max
           then Err Invalid
           else if max > window then Err TooSmall
           else if unat (lh_alignment h) \<ge> 64 then Err Invalid
           else if base mod 2 ^ unat (lh_alignment h) \<noteq> 0 then Err Misaligned
           else if and (lh_flags h) FLAG_HAS_CHECKSUM \<noteq> 0 \<and> checksum st u \<noteq> 0 then Err Invalid
           else (case chain_end st header_size of
                   None \<Rightarrow> Err Invalid
                 | Some offset \<Rightarrow> if offset \<noteq> u then Err Invalid else Ok st))"

section \<open>Entries\<close>

definition address :: "store \<Rightarrow> entry \<Rightarrow> nat" where
  "address st e = st_base st + en_offset e"

definition entry_bytes :: "store \<Rightarrow> entry \<Rightarrow> bytes" where
  "entry_bytes st e = sub (st_mem st) (en_offset e) (en_size e)"

text \<open>The iterator \<open>entries\<close>, run to its end from \<open>offset\<close>.\<close>

function entries_from :: "store \<Rightarrow> nat \<Rightarrow> entry list" where
  "entries_from st offset =
     (if offset < used st
      then case entry_at st offset of
             None \<Rightarrow> []
           | Some e \<Rightarrow> if en_tag e \<noteq> VOID then e # entries_from st (entry_end e) else entries_from st (entry_end e)
      else [])"
  by pat_completeness auto
termination
  by (relation "measure (\<lambda>(st, offset). used st - offset)") (auto dest: entry_at_progress)

declare entries_from.simps [simp del]

definition entries :: "store \<Rightarrow> entry list" where
  "entries st = entries_from st (unat (lh_header_size (store_header st)))"

definition store_find :: "store \<Rightarrow> tag \<Rightarrow> entry option" where
  "store_find st t = find (\<lambda>e. en_tag e = t) (entries st)"

definition store_add :: "store \<Rightarrow> tag \<Rightarrow> nat \<Rightarrow> u8 \<Rightarrow> (store_error, entry \<times> store) result" where
  "store_add st t sz align_log2 =
     (if t = VOID \<or> t \<ge> 2 ^ 24 then Err BadTag
      else if unat align_log2 \<ge> 64 then Err Misaligned
      else let align = max (2 ^ unat align_log2) GRANULE
        in if st_base st mod align \<noteq> 0 then Err Misaligned
           else let u = used st;
                    padding = next_multiple_of (u + ENTRY_HEADER_SIZE) align - (u + ENTRY_HEADER_SIZE);
                    offset = u + padding + ENTRY_HEADER_SIZE
             in if sz \<ge> 2 ^ 32 then Err Full
                else let stop = offset + next_multiple_of sz GRANULE
                  in if stop > max_size st then Err Full
                     else rbind (if padding \<noteq> 0 then write_entry_header st u VOID (padding - ENTRY_HEADER_SIZE) else Ok st) (\<lambda>st.
                          rbind (write_entry_header st (offset - ENTRY_HEADER_SIZE) t sz) (\<lambda>st.
                          let h = store_header st
                          in rbind (write_header st (h\<lparr>lh_used_size := word_of_nat stop,
                                     lh_alignment := max (lh_alignment h) (max align_log2 3)\<rparr>)) (\<lambda>st.
                             Ok (\<lparr>en_tag = t, en_offset = offset, en_size = sz\<rparr>, st)))))"

definition resize_last :: "store \<Rightarrow> entry \<Rightarrow> nat \<Rightarrow> (store_error, entry \<times> store) result" where
  "resize_last st e sz =
     (if en_offset e < ENTRY_HEADER_SIZE then Panic
      else if entry_at st (en_offset e - ENTRY_HEADER_SIZE) \<noteq> Some e \<or> entry_end e \<noteq> used st then Err NotLast
      else let resized = e\<lparr>en_size := sz\<rparr>
        in if sz > 2 ^ 32 - 1 \<or> entry_end resized > max_size st then Err Full
           else rbind (write_entry_header st (en_offset e - ENTRY_HEADER_SIZE) (en_tag e) sz) (\<lambda>st.
                rbind (write_header st ((store_header st)\<lparr>lh_used_size := word_of_nat (entry_end resized)\<rparr>)) (\<lambda>st.
                Ok (resized, st))))"

definition limit :: "store \<Rightarrow> nat \<Rightarrow> (store_error, nat \<times> store) result" where
  "limit st granule =
     (let h = store_header st;
          limited = min (next_multiple_of (used st) (max granule GRANULE)) (unat (lh_max_size h))
      in rbind (write_header st (h\<lparr>lh_max_size := word_of_nat limited\<rparr>)) (\<lambda>st. Ok (limited, st)))"

text \<open>\<open>dest\<close> and \<open>mem\<close> are the address and the bytes of the destination window.\<close>

definition relocate :: "store \<Rightarrow> nat \<Rightarrow> bytes \<Rightarrow> nat \<Rightarrow> (store_error, store) result" where
  "relocate st dest mem window =
     (let align = 2 ^ unat (lh_alignment (store_header st))
      in if dest mod align \<noteq> 0 then Err Misaligned
         else let max = (min window (2 ^ 32 - 1) div GRANULE) * GRANULE
           in if max < used st then Err TooSmall
              else rbind (store_write \<lparr>st_base = dest, st_mem = mem\<rparr> 0 (sub (st_mem st) 0 (used st))) (\<lambda>moved.
                   write_header moved ((store_header moved)\<lparr>lh_max_size := word_of_nat max\<rparr>)))"

section \<open>Headers read back\<close>

lemma length_lh_as_bytes [simp]: "length (lh_as_bytes h) = 24"
  by (simp add: lh_as_bytes_def)

lemma lh_at_as_bytes: "lh_at (lh_as_bytes h) = h"
  by (cases h) (simp add: lh_at_def lh_as_bytes_def le32_def byte_simps nth_append)

lemma tag_bytes:
  assumes "unat t < 2 ^ 24"
  shows "length (tag_to_bytes t) = 3" "tag_from_bytes (tag_to_bytes t) = t"
proof -
  show "length (tag_to_bytes t) = 3"
    by (simp add: tag_to_bytes_def)
  obtain a b c d where e: "to_le_bytes t = [a, b, c, d]"
    by (simp add: to_le_bytes_def)
  have "le_dec (to_le_bytes t) = unat t"
    unfolding to_le_bytes_def le_dec_enc using unat_32_less [of t] by simp
  then have "le_dec [a, b, c, d] = unat t"
    by (simp only: e)
  then have "unat d = 0"
    using assms by simp
  then have "d = 0"
    by (simp add: unat_eq_zero)
  have "tag_from_bytes (tag_to_bytes t) = from_le_bytes (to_le_bytes t)"
    by (simp add: tag_from_bytes_def tag_to_bytes_def e \<open>d = 0\<close>)
  then show "tag_from_bytes (tag_to_bytes t) = t"
    by simp
qed

lemma store_write_eq_Ok:
  "store_write st off b = Ok st' \<longleftrightarrow> off + length b \<le> length (st_mem st) \<and> st' = st\<lparr>st_mem := write_at (st_mem st) off b\<rparr>"
  by (auto simp: store_write_def)

lemma write_header_fields:
  assumes "write_header st h = Ok st'"
  shows "store_header st' = h" "st_base st' = st_base st" "length (st_mem st') = length (st_mem st)"
    "24 \<le> off \<Longrightarrow> sub (st_mem st') off n = sub (st_mem st) off n"
  using assms sub_write_at_same [of 0 "lh_as_bytes h" "st_mem st"]
  by (auto simp: write_header_def store_write_eq_Ok store_header_def store_read_def HEADER_SIZE_def
      lh_at_as_bytes length_write_at sub_write_at_other)

lemma write_entry_header_fields:
  assumes "write_entry_header st off t sz = Ok st'" and "24 \<le> off"
  shows "store_header st' = store_header st" "st_base st' = st_base st" "length (st_mem st') = length (st_mem st)"
    "o1 + n \<le> off \<or> off + 8 \<le> o1 \<Longrightarrow> sub (st_mem st') o1 n = sub (st_mem st) o1 n"
    "unat t < 2 ^ 24 \<Longrightarrow> sub (st_mem st') off 8 = eh_as_bytes \<lparr>eh_tag = tag_to_bytes t, eh_header_size = 8, eh_data_size = word_of_nat sz\<rparr>"
proof -
  let ?b = "eh_as_bytes \<lparr>eh_tag = tag_to_bytes t, eh_header_size = 8, eh_data_size = word_of_nat sz\<rparr>"
  have l: "length ?b = 8"
    by (simp add: eh_as_bytes_def tag_to_bytes_def)
  have w: "off + length ?b \<le> length (st_mem st)" "st' = st\<lparr>st_mem := write_at (st_mem st) off ?b\<rparr>"
    using assms(1) by (auto simp: write_entry_header_def store_write_eq_Ok ENTRY_HEADER_SIZE_def)
  show "store_header st' = store_header st" "st_base st' = st_base st" "length (st_mem st') = length (st_mem st)"
    "o1 + n \<le> off \<or> off + 8 \<le> o1 \<Longrightarrow> sub (st_mem st') o1 n = sub (st_mem st) o1 n"
    using w l assms(2) by (auto simp: store_header_def store_read_def HEADER_SIZE_def sub_write_at_other length_write_at)
  show "sub (st_mem st') off 8 = ?b" if "unat t < 2 ^ 24"
    using sub_write_at_same [OF w(1)] w(2) l by simp
qed

text \<open>The entry whose header the code has just written.\<close>

lemma entry_at_written:
  assumes b: "sub (st_mem st) off 8 = eh_as_bytes \<lparr>eh_tag = tag_to_bytes t, eh_header_size = 8, eh_data_size = word_of_nat sz\<rparr>"
    and "unat t < 2 ^ 24" "sz < 2 ^ 32" "off mod 8 = 0" "off + 8 + next_multiple_of sz 8 \<le> used st"
  shows "entry_at st off = Some \<lparr>en_tag = t, en_offset = off + 8, en_size = sz\<rparr>"
proof -
  have "eh_at (eh_as_bytes \<lparr>eh_tag = tag_to_bytes t, eh_header_size = 8, eh_data_size = word_of_nat sz\<rparr>) =
      \<lparr>eh_tag = tag_to_bytes t, eh_header_size = 8, eh_data_size = word_of_nat sz\<rparr>"
    using tag_bytes(1) [OF assms(2)] by (simp add: eh_at_def eh_as_bytes_def le32_def byte_simps nth_append)
  then show ?thesis
    using assms(2-5) tag_bytes(2) [OF assms(2)]
    by (simp add: entry_at_def store_read_def store_consts b Let_def unat_of_nat)
qed

section \<open>Chains of entries\<close>

inductive path :: "store \<Rightarrow> nat \<Rightarrow> entry list \<Rightarrow> nat \<Rightarrow> bool" for st where
  here: "path st off [] off"
| step: "entry_at st off = Some e \<Longrightarrow> path st (entry_end e) es p \<Longrightarrow> path st off (e # es) p"

inductive_simps path_Nil: "path st off [] p"
inductive_simps path_Cons: "path st off (e # es) p"

lemma path_append: "path st off (es @ fs) p \<longleftrightarrow> (\<exists>q. path st off es q \<and> path st q fs p)"
  by (induction es arbitrary: off) (auto simp: path_Nil path_Cons)

lemma path_mono: "path st off es p \<Longrightarrow> off \<le> p"
  by (induction rule: path.induct) (auto dest: entry_at_progress)

lemma path_chain: "path st off es (used st) \<Longrightarrow>
    chain_end st off = Some (used st) \<and> entries_from st off = filter (\<lambda>e. en_tag e \<noteq> VOID) es"
proof (induction off es "used st" rule: path.induct)
  case here
  show ?case by (simp add: chain_end.simps [of st "used st"] entries_from.simps [of st "used st"])
next
  case (step off e es)
  then have "off < used st"
    using entry_at_progress [OF step(1)] by simp
  then show ?case
    using step by (simp add: chain_end.simps [of st off] entries_from.simps [of st off])
qed

lemma chain_path: "chain_end st off = Some (used st) \<Longrightarrow> \<exists>es. path st off es (used st)"
proof (induction st off rule: chain_end.induct)
  case (1 st off)
  show ?case
  proof (cases "off < used st")
    case True
    then obtain e where e: "entry_at st off = Some e" "chain_end st (entry_end e) = Some (used st)"
      using "1.prems" by (auto simp: chain_end.simps [of st off] split: option.splits)
    then show ?thesis
      using "1.IH" [OF True e(1) e(2)] path.step [OF e(1)] by blast
  next
    case False
    then show ?thesis
      using "1.prems" path.here [of st "used st"] by (auto simp: chain_end.simps [of st off])
  qed
qed

text \<open>A path only looks at the bytes below its end.\<close>

definition agree :: "store \<Rightarrow> store \<Rightarrow> nat \<Rightarrow> bool" where
  "agree st st' p \<longleftrightarrow> (\<forall>off n. 24 \<le> off \<and> off + n \<le> p \<longrightarrow> sub (st_mem st') off n = sub (st_mem st) off n)"

lemma agree_le: "agree st st' p \<Longrightarrow> q \<le> p \<Longrightarrow> agree st st' q"
  by (auto simp: agree_def)

lemma agree_trans: "agree st st' p \<Longrightarrow> agree st' st'' p \<Longrightarrow> agree st st'' p"
  by (simp add: agree_def)

lemma entry_at_agree:
  assumes "agree st st' p" "24 \<le> off" "entry_at st off = Some e" "entry_end e \<le> p" "p \<le> used st'"
  shows "entry_at st' off = Some e"
proof -
  have "off + 8 \<le> entry_end e"
    using assms(3) by (auto simp: entry_at_def entry_end_def Let_def store_consts split: if_splits)
  then have "store_read st' off 8 = store_read st off 8" "off + 8 \<le> used st'"
    using assms(1,2,4,5) by (auto simp: agree_def store_read_def)
  then show ?thesis
    using assms(3-5) by (auto simp: entry_at_def entry_end_def Let_def store_consts split: if_splits)
qed

lemma path_agree:
  assumes "path st off es p" "agree st st' p" "24 \<le> off" "p \<le> used st'"
  shows "path st' off es p"
  using assms
proof (induction rule: path.induct)
  case (step off e es p)
  have "entry_end e \<le> p" "off < entry_end e"
    using path_mono [OF step(2)] entry_at_progress [OF step(1)] by auto
  then show ?case
    using step entry_at_agree [OF step(4,5,1)] by (auto intro: path.step)
qed (rule path.here)

lemma path_entry:
  "path st off es p \<Longrightarrow> e \<in> set es \<Longrightarrow> off + 8 \<le> en_offset e \<and> en_offset e + en_size e \<le> p \<and> entry_end e \<le> p"
proof (induction rule: path.induct)
  case (step off x es p)
  have "off + 8 \<le> en_offset x" "en_offset x + en_size x \<le> entry_end x" "entry_end x \<le> p"
    using step(1) path_mono [OF step(2)]
    by (auto simp: entry_at_def entry_end_def Let_def store_consts next_multiple_of_def split: if_splits)
  then show ?case
    using step by auto
qed simp

lemma path_disjoint:
  "path st off es p \<Longrightarrow> sorted_wrt (\<lambda>a b. en_offset a + en_size a + 8 \<le> en_offset b) es"
proof (induction rule: path.induct)
  case (step off x es p)
  have "en_offset x + en_size x \<le> entry_end x"
    by (simp add: entry_end_def next_multiple_of_def GRANULE_def)
  then show ?case
    using step(3) path_entry [OF step(2)] by fastforce
qed simp

text \<open>A chain is dense when every entry header has its minimal size, as those that \<open>add\<close> writes.\<close>

fun dense :: "nat \<Rightarrow> entry list \<Rightarrow> bool" where
  "dense off [] = True"
| "dense off (e # es) = (en_offset e = off + 8 \<and> dense (entry_end e) es)"

lemma dense_append: "path st off es p \<Longrightarrow> dense off (es @ fs) \<longleftrightarrow> dense off es \<and> dense p fs"
  by (induction rule: path.induct) auto

lemma path_headers:
  assumes "path st off es p" "dense off es" "used st' = used st"
    and "\<And>x. x \<in> set es \<Longrightarrow> sub (st_mem st') (en_offset x - 8) 8 = sub (st_mem st) (en_offset x - 8) 8"
  shows "path st' off es p"
  using assms
proof (induction rule: path.induct)
  case (step off e es p)
  have "store_read st' off 8 = store_read st off 8"
    using step(4) step(6) [of e] by (simp add: store_read_def)
  then have "entry_at st' off = entry_at st off"
    using step(5) unfolding entry_at_def store_consts by (simp only:)
  then have "entry_at st' off = Some e"
    using step(1) by simp
  then show ?case
    using step by (auto intro: path.step)
qed (rule path.here)

lemma path_last:
  assumes "path st off es p" "e \<in> set es" "entry_end e = p"
  obtains xs q where "es = xs @ [e]" "path st off xs q" "entry_at st q = Some e"
proof -
  obtain xs ys where x: "es = xs @ e # ys"
    using assms(2) by (meson split_list)
  then obtain q where q: "path st off xs q" "entry_at st q = Some e" "path st p ys p"
    using assms(1,3) by (auto simp: path_append path_Cons)
  have "ys = []"
    using q(3) by cases (use entry_at_progress path_mono in fastforce)+
  then show thesis
    using that x q by simp
qed

section \<open>The invariant\<close>

definition first_entry :: "store \<Rightarrow> nat" where
  "first_entry st = unat (lh_header_size (store_header st))"

definition store_ok :: "store \<Rightarrow> bool" where
  "store_ok st \<longleftrightarrow>
     lh_signature (store_header st) = SIGNATURE \<and> lh_version (store_header st) = VERSION \<and>
     24 \<le> first_entry st \<and> first_entry st mod 8 = 0 \<and> used st mod 8 = 0 \<and> used st \<le> max_size st \<and>
     max_size st \<le> length (st_mem st) \<and> st_base st mod 8 = 0 \<and>
     unat (lh_alignment (store_header st)) < 64 \<and>
     st_base st mod 2 ^ unat (lh_alignment (store_header st)) = 0 \<and>
     and (lh_flags (store_header st)) FLAG_HAS_CHECKSUM = 0 \<and>
     chain_end st (first_entry st) = Some (used st)"

definition all_path :: "store \<Rightarrow> entry list \<Rightarrow> bool" where
  "all_path st es \<longleftrightarrow> path st (first_entry st) es (used st)"

lemma all_path_entries: "all_path st es \<Longrightarrow> entries st = filter (\<lambda>e. en_tag e \<noteq> VOID) es"
  using path_chain by (auto simp: all_path_def entries_def first_entry_def)

lemma store_ok_path: "store_ok st \<Longrightarrow> \<exists>es. all_path st es \<and> entries st = filter (\<lambda>e. en_tag e \<noteq> VOID) es"
  using chain_path [of st "first_entry st"] all_path_entries [of st] unfolding store_ok_def all_path_def by blast

lemma store_eta: "\<lparr>st_base = st_base st, st_mem = st_mem st\<rparr> = st"
  by (cases st) simp

lemma store_ok_opens: "store_ok st \<Longrightarrow> max_size st \<le> w \<Longrightarrow> store_open (st_base st) (st_mem st) w = Ok st"
proof -
  assume a: "store_ok st" "max_size st \<le> w"
  have "first_entry st \<le> used st"
    using store_ok_path [OF a(1)] by (auto simp: all_path_def dest: path_mono)
  then show ?thesis
    using a by (simp add: store_open_def store_ok_def first_entry_def used_def max_size_def Let_def
        store_consts store_eta)
qed

lemma used_less: "used st < 2 ^ 32" and max_size_less: "max_size st < 2 ^ 32"
  using unat_32_less by (auto simp: used_def max_size_def)

text \<open>How the operations keep the invariant: they rewrite these three fields of the list header.\<close>

lemma store_ok_update:
  assumes ok: "store_ok st" and b: "st_base st' = base" "base mod 8 = 0" "base mod 2 ^ unat a = 0" "unat a < 64"
    and h: "store_header st' = (store_header st)\<lparr>lh_used_size := word_of_nat u, lh_alignment := a, lh_max_size := word_of_nat m\<rparr>"
    and m: "u mod 8 = 0" "u \<le> m" "m \<le> length (st_mem st')" "m < 2 ^ 32"
    and p: "path st' (first_entry st) es u"
  shows "store_ok st'" "all_path st' es" "used st' = u" "max_size st' = m"
proof -
  show u: "used st' = u" "max_size st' = m"
    using h m by (simp_all add: used_def max_size_def unat_of_nat)
  have "first_entry st' = first_entry st"
    by (simp add: first_entry_def h)
  then show "all_path st' es"
    using p u by (simp add: all_path_def)
  then show "store_ok st'"
    using ok b m path_chain u \<open>first_entry st' = first_entry st\<close>
    by (auto simp: store_ok_def all_path_def h)
qed

section \<open>The operations keep the invariant\<close>

lemma next_multiple_of_ge: "0 < k \<Longrightarrow> n \<le> next_multiple_of n k"
  unfolding next_multiple_of_def
  using div_mult_mod_eq [of "n + k - 1" k] mod_less_divisor [of k "n + k - 1"] by linarith

lemma next_multiple_of_mod [simp]: "next_multiple_of n k mod k = 0"
  by (simp add: next_multiple_of_def)

lemma next_multiple_of_8: "n mod 8 = 0 \<Longrightarrow> next_multiple_of n 8 = n"
  by (simp add: next_multiple_of_def) presburger

lemma max_align: "max (2 ^ n) 8 = (2::nat) ^ max n 3"
proof -
  have "n \<le> 3 \<longleftrightarrow> (2::nat) ^ n \<le> 8"
    using power_increasing_iff [of "2::nat" n 3] by simp
  then show ?thesis
    by (auto simp: max_def)
qed

lemma mod_8_max: "x mod 2 ^ max n 3 = 0 \<Longrightarrow> (x::nat) mod 2 ^ n = 0 \<and> x mod 8 = 0"
proof -
  assume "x mod 2 ^ max n 3 = 0"
  then have "2 ^ max n 3 dvd x" by auto
  moreover have "(2::nat) ^ n dvd 2 ^ max n 3" "(2::nat) ^ 3 dvd 2 ^ max n 3"
    by (simp_all only: power_le_dvd le_imp_power_dvd max.cobounded1 max.cobounded2)
  ultimately have "2 ^ n dvd x" "2 ^ 3 dvd x"
    by (metis dvd_trans)+
  then show ?thesis by auto
qed

lemma create_ok:
  assumes "store_create base mem w = Ok st" "w \<le> length mem"
  shows "store_ok st" "all_path st []" "st_base st = base" "length (st_mem st) = length mem"
proof -
  define m where "m = (min w (2 ^ 32 - 1) div 8) * 8"
  have m: "m \<le> w" "m < 2 ^ 32"
    by (auto simp: m_def min_def)
  have w: "base mod 8 = 0" "24 \<le> m"
    "write_header \<lparr>st_base = base, st_mem = mem\<rparr> \<lparr>lh_signature = SIGNATURE, lh_checksum = 0, lh_version = VERSION,
      lh_header_size = 24, lh_alignment = 3, lh_used_size = 24, lh_max_size = word_of_nat m, lh_flags = 0, lh_reserved = 0\<rparr> = Ok st"
    using assms(1) by (auto simp: store_create_def store_consts Let_def m_def split: if_splits)
  note f = write_header_fields [OF w(3)]
  have u: "used st = 24" "first_entry st = 24" "max_size st = m"
    using m by (simp_all add: used_def first_entry_def max_size_def f unat_of_nat)
  then show "all_path st []"
    by (simp add: all_path_def path_Nil)
  then show "store_ok st" "st_base st = base" "length (st_mem st) = length mem"
    using f w m assms(2) u path_chain [of st 24 "[]"]
    by (auto simp: store_ok_def f(1) all_path_def)
qed

text \<open>Where \<open>add\<close> puts the entry, and the two headers it writes.\<close>

definition place :: "nat \<Rightarrow> u8 \<Rightarrow> nat" where
  "place u a = next_multiple_of (u + 8) (2 ^ max (unat a) 3) - 8"

lemma place:
  assumes "u mod 8 = 0"
  shows "u \<le> place u a" "place u a mod 8 = 0" "(place u a + 8) mod 2 ^ unat a = 0"
    "place u a \<noteq> u \<Longrightarrow> u + 8 \<le> place u a"
proof -
  let ?p = "next_multiple_of (u + 8) (2 ^ max (unat a) 3)"
  have g: "u + 8 \<le> ?p"
    by (simp add: next_multiple_of_ge)
  have m: "?p mod 2 ^ unat a = 0" "?p mod 8 = 0"
    using mod_8_max [of ?p "unat a"] by (simp_all only: next_multiple_of_mod simp_thms)
  show "u \<le> place u a" "(place u a + 8) mod 2 ^ unat a = 0"
    using g m by (simp_all add: place_def)
  show m8: "place u a mod 8 = 0"
    using g m(2) unfolding place_def by presburger
  show "u + 8 \<le> place u a" if "place u a \<noteq> u"
    using g m8 that assms unfolding place_def by presburger
qed

lemma store_add_alt:
  assumes "used st mod 8 = 0" and q: "q = place (used st) a"
  shows "store_add st t sz a =
    (if t = VOID \<or> t \<ge> 2 ^ 24 then Err BadTag
     else if unat a \<ge> 64 \<or> st_base st mod 2 ^ max (unat a) 3 \<noteq> 0 then Err Misaligned
     else if sz \<ge> 2 ^ 32 \<or> q + 8 + next_multiple_of sz 8 > max_size st then Err Full
     else rbind (if q \<noteq> used st then write_entry_header st (used st) VOID (q - used st - 8) else Ok st) (\<lambda>s1.
          rbind (write_entry_header s1 q t sz) (\<lambda>s2.
          rbind (write_header s2 ((store_header s2)\<lparr>lh_used_size := word_of_nat (q + 8 + next_multiple_of sz 8),
             lh_alignment := max (lh_alignment (store_header s2)) (max a 3)\<rparr>)) (\<lambda>s3.
          Ok (\<lparr>en_tag = t, en_offset = q + 8, en_size = sz\<rparr>, s3)))))"
proof -
  let ?p = "next_multiple_of (used st + 8) (2 ^ max (unat a) 3)"
  have g: "used st + 8 \<le> ?p"
    by (simp add: next_multiple_of_ge)
  then have o: "used st + (?p - (used st + 8)) + 8 = q + 8"
    "?p - (used st + 8) - 8 = q - used st - 8"
    "?p - (used st + 8) \<noteq> 0 \<longleftrightarrow> q \<noteq> used st" "q + 8 - 8 = q"
    by (auto simp: q place_def)
  show ?thesis
    unfolding store_add_def store_consts max_align Let_def o by simp
qed

lemma store_add_Ok:
  assumes u: "used st mod 8 = 0" and q: "q = place (used st) a" and ok: "store_add st t sz a = Ok (e, st')"
  obtains s1 s2 where "t \<noteq> VOID" "t < 2 ^ 24" "unat a < 64" "st_base st mod 2 ^ max (unat a) 3 = 0"
    "sz < 2 ^ 32" "q + 8 + next_multiple_of sz 8 \<le> max_size st"
    "(if q \<noteq> used st then write_entry_header st (used st) VOID (q - used st - 8) else Ok st) = Ok s1"
    "write_entry_header s1 q t sz = Ok s2"
    "write_header s2 ((store_header s2)\<lparr>lh_used_size := word_of_nat (q + 8 + next_multiple_of sz 8),
       lh_alignment := max (lh_alignment (store_header s2)) (max a 3)\<rparr>) = Ok st'"
    "e = \<lparr>en_tag = t, en_offset = q + 8, en_size = sz\<rparr>"
proof -
  note f = ok [unfolded store_add_alt [OF u q]]
  have n: "\<not> (t = VOID \<or> t \<ge> 2 ^ 24)" "\<not> (unat a \<ge> 64 \<or> st_base st mod 2 ^ max (unat a) 3 \<noteq> 0)"
    "\<not> (sz \<ge> 2 ^ 32 \<or> q + 8 + next_multiple_of sz 8 > max_size st)"
    using f by (metis result.distinct(1))+
  from f obtain s1 s2 where
    "(if q \<noteq> used st then write_entry_header st (used st) VOID (q - used st - 8) else Ok st) = Ok s1"
    "write_entry_header s1 q t sz = Ok s2"
    "write_header s2 ((store_header s2)\<lparr>lh_used_size := word_of_nat (q + 8 + next_multiple_of sz 8),
       lh_alignment := max (lh_alignment (store_header s2)) (max a 3)\<rparr>) = Ok st'"
    "e = \<lparr>en_tag = t, en_offset = q + 8, en_size = sz\<rparr>"
    unfolding if_not_P [OF n(1)] if_not_P [OF n(2)] if_not_P [OF n(3)] rbind_eq_Ok result.inject prod.inject by blast
  then show thesis
    using n by (intro that) (simp_all only: linorder_not_le linorder_not_less de_Morgan_disj not_not not_False_eq_True)
qed

lemma tag_bound: "t < 2 ^ 24 \<Longrightarrow> unat (t :: tag) < 2 ^ 24"
  by (simp add: word_less_nat_alt)

lemma VOID_bound: "unat VOID < 2 ^ 24"
  by (simp add: VOID_def)

text \<open>The padding entry and the new entry are appended to the chain.\<close>

lemma padding_written:
  assumes "u mod 8 = 0" "24 \<le> u" "u + 8 \<le> q" "q mod 8 = 0" "q < 2 ^ 32"
    and w: "write_entry_header st u VOID (q - u - 8) = Ok s1"
  shows "agree st s1 u" "store_header s1 = store_header st" "st_base s1 = st_base st"
    "length (st_mem s1) = length (st_mem st)"
    "agree s1 s' q \<Longrightarrow> q \<le> used s' \<Longrightarrow> path s' u [\<lparr>en_tag = VOID, en_offset = u + 8, en_size = q - u - 8\<rparr>] q"
proof -
  note f = write_entry_header_fields [OF w assms(2)]
  show "agree st s1 u" "store_header s1 = store_header st" "st_base s1 = st_base st"
    "length (st_mem s1) = length (st_mem st)"
    by (simp_all add: agree_def f)
  assume a: "agree s1 s' q" "q \<le> used s'"
  have m: "(q - u - 8) mod 8 = 0"
    using assms(1,4) by presburger
  have "sub (st_mem s') u 8 = sub (st_mem s1) u 8"
    using a assms(2,3) by (simp add: agree_def)
  then have "entry_at s' u = Some \<lparr>en_tag = VOID, en_offset = u + 8, en_size = q - u - 8\<rparr>"
    using assms a(2) f(5) [OF VOID_bound] VOID_bound m by (intro entry_at_written) (auto simp: next_multiple_of_8)
  then show "path s' u [\<lparr>en_tag = VOID, en_offset = u + 8, en_size = q - u - 8\<rparr>] q"
    using assms(3) m by (auto simp: path_Cons path_Nil entry_end_def GRANULE_def next_multiple_of_8)
qed

text \<open>One header written at the end of the chain, then the list header: the common end of \<open>add\<close> and \<open>resize_last\<close>.\<close>

lemma used_word: "lh_used_size (store_header st) = word_of_nat u \<Longrightarrow> u < 2 ^ 32 \<Longrightarrow> used st = u"
  by (simp add: used_def unat_of_nat)

lemma last_written:
  assumes "24 \<le> q" "q mod 8 = 0" "unat t < 2 ^ 24" "sz < 2 ^ 32" "q + 8 + next_multiple_of sz 8 < 2 ^ 32"
    and w2: "write_entry_header s1 q t sz = Ok s2"
    and w3: "write_header s2 ((store_header s2)\<lparr>lh_used_size := word_of_nat (q + 8 + next_multiple_of sz 8),
       lh_alignment := al\<rparr>) = Ok s3"
  shows "agree s1 s3 q" "st_base s3 = st_base s1" "length (st_mem s3) = length (st_mem s1)"
    "store_header s3 = (store_header s1)\<lparr>lh_used_size := word_of_nat (q + 8 + next_multiple_of sz 8), lh_alignment := al\<rparr>"
    "path s3 q [\<lparr>en_tag = t, en_offset = q + 8, en_size = sz\<rparr>] (q + 8 + next_multiple_of sz 8)"
proof -
  note f2 = write_entry_header_fields [OF w2 assms(1)] and f3 = write_header_fields [OF w3]
  show "agree s1 s3 q" "st_base s3 = st_base s1" "length (st_mem s3) = length (st_mem s1)"
    "store_header s3 = (store_header s1)\<lparr>lh_used_size := word_of_nat (q + 8 + next_multiple_of sz 8), lh_alignment := al\<rparr>"
    by (simp_all add: agree_def f2 f3)
  have u: "used s3 = q + 8 + next_multiple_of sz 8"
    using used_word [OF _ assms(5), of s3] by (simp add: f3(1))
  have "entry_at s3 q = Some \<lparr>en_tag = t, en_offset = q + 8, en_size = sz\<rparr>"
    using assms(1-4) f2(5) [OF assms(3)] u f3(4) by (intro entry_at_written) auto
  then show "path s3 q [\<lparr>en_tag = t, en_offset = q + 8, en_size = sz\<rparr>] (q + 8 + next_multiple_of sz 8)"
    by (auto simp: path_Cons path_Nil entry_end_def GRANULE_def)
qed

lemma optional_padding:
  assumes "u mod 8 = 0" "24 \<le> u" "q mod 8 = 0" "q < 2 ^ 32"
    and w: "q = u \<and> s1 = st \<or> u + 8 \<le> q \<and> write_entry_header st u VOID (q - u - 8) = Ok s1"
  shows "agree st s1 u \<and> store_header s1 = store_header st \<and> st_base s1 = st_base st \<and>
    length (st_mem s1) = length (st_mem st) \<and>
    (\<exists>pad. (\<forall>x\<in>set pad. en_tag x = VOID) \<and> dense u pad \<and> (\<forall>s'. agree s1 s' q \<and> q \<le> used s' \<longrightarrow> path s' u pad q))"
  using w
proof
  assume a: "q = u \<and> s1 = st"
  then have "\<forall>x\<in>set []. en_tag x = VOID" "dense u []" "\<forall>s'. agree s1 s' q \<and> q \<le> used s' \<longrightarrow> path s' u [] q"
    by (simp_all add: path_Nil)
  then have "\<exists>pad. (\<forall>x\<in>set pad. en_tag x = VOID) \<and> dense u pad \<and> (\<forall>s'. agree s1 s' q \<and> q \<le> used s' \<longrightarrow> path s' u pad q)"
    by blast
  then show ?thesis
    using a by (simp add: agree_def)
next
  let ?e = "\<lparr>en_tag = VOID, en_offset = u + 8, en_size = q - u - 8\<rparr>"
  assume a: "u + 8 \<le> q \<and> write_entry_header st u VOID (q - u - 8) = Ok s1"
  note f = padding_written [OF assms(1,2) _ assms(3,4)]
  have "\<forall>x\<in>set [?e]. en_tag x = VOID" "dense u [?e]"
    by simp_all
  moreover have "\<forall>s'. agree s1 s' q \<and> q \<le> used s' \<longrightarrow> path s' u [?e] q"
    using f(5) a by blast
  ultimately have "\<exists>pad. (\<forall>x\<in>set pad. en_tag x = VOID) \<and> dense u pad \<and> (\<forall>s'. agree s1 s' q \<and> q \<le> used s' \<longrightarrow> path s' u pad q)"
    by blast
  then show ?thesis
    using f(1-4) a by blast
qed

lemma max_u8: "unat (max a b :: u8) = max (unat a) (unat b)"
  by (simp add: max_def word_le_nat_alt)

lemma add_ok:
  assumes ok: "store_ok st" and p: "all_path st es" and a: "store_add st t sz al = Ok (e, st')"
  shows "store_ok st'" "\<exists>pad. all_path st' (es @ pad @ [e]) \<and> (\<forall>x\<in>set pad. en_tag x = VOID) \<and>
      (dense (first_entry st) es \<longrightarrow> dense (first_entry st') (es @ pad @ [e]))"
    "agree st st' (used st)" "st_base st' = st_base st" "length (st_mem st') = length (st_mem st)"
    "en_tag e = t" "en_size e = sz" "en_offset e mod 2 ^ unat al = 0" "st_base st mod 2 ^ unat al = 0"
    "used st + 8 \<le> en_offset e" "unat al \<le> unat (lh_alignment (store_header st'))" "max_size st' = max_size st"
    "unat (lh_alignment (store_header st)) \<le> unat (lh_alignment (store_header st'))"
proof -
  define q where "q = place (used st) al"
  let ?stop = "q + 8 + next_multiple_of sz 8"
  have ok': "used st mod 8 = 0" "st_base st mod 8 = 0" "24 \<le> first_entry st"
    "unat (lh_alignment (store_header st)) < 64" "st_base st mod 2 ^ unat (lh_alignment (store_header st)) = 0"
    "max_size st \<le> length (st_mem st)"
    using ok by (auto simp: store_ok_def)
  note pl = place [OF ok'(1), of al, folded q_def]
  have u24: "24 \<le> used st"
    using ok'(3) p path_mono by (fastforce simp: all_path_def)
  then have q24: "24 \<le> q"
    using pl(1) by simp
  obtain s1 s2 where t: "t \<noteq> VOID" "t < 2 ^ 24" and al: "unat al < 64" "st_base st mod 2 ^ max (unat al) 3 = 0"
    and sz: "sz < 2 ^ 32" "?stop \<le> max_size st"
    and w1: "(if q \<noteq> used st then write_entry_header st (used st) VOID (q - used st - 8) else Ok st) = Ok s1"
    and w2: "write_entry_header s1 q t sz = Ok s2"
    and w3: "write_header s2 ((store_header s2)\<lparr>lh_used_size := word_of_nat ?stop,
       lh_alignment := max (lh_alignment (store_header s2)) (max al 3)\<rparr>) = Ok st'"
    and e: "e = \<lparr>en_tag = t, en_offset = q + 8, en_size = sz\<rparr>"
    by (rule store_add_Ok [OF ok'(1) q_def a])
  have stop: "?stop < 2 ^ 32"
    using sz(2) max_size_less [of st] by simp
  have "q = used st \<and> s1 = st \<or> used st + 8 \<le> q \<and> write_entry_header st (used st) VOID (q - used st - 8) = Ok s1"
    using w1 pl(4) by (auto split: if_splits)
  from optional_padding [OF ok'(1) u24 pl(2) _ this] stop
  obtain pad where i1: "agree st s1 (used st)" "store_header s1 = store_header st" "st_base s1 = st_base st"
    "length (st_mem s1) = length (st_mem st)" and pad: "\<forall>x\<in>set pad. en_tag x = VOID"
      "\<And>s'. agree s1 s' q \<Longrightarrow> q \<le> used s' \<Longrightarrow> path s' (used st) pad q" "dense (used st) pad"
    by auto
  let ?al = "max (lh_alignment (store_header s2)) (max al 3)"
  note l = last_written [OF q24 pl(2) tag_bound [OF t(2)] sz(1) stop w2 w3]
  have us: "used st' = ?stop"
    using l(4) stop by (intro used_word) simp_all
  show ag: "agree st st' (used st)"
    using agree_trans [OF i1(1)] agree_le [OF l(1) pl(1)] by blast
  have pes: "path st' (first_entry st) es (used st)"
    using path_agree [OF _ ag] p ok'(3) us pl(1) by (simp add: all_path_def)
  have ppad: "path st' (used st) pad q"
    using pad(2) [OF l(1)] us by simp
  with pes have pp: "path st' (first_entry st) (es @ pad @ [e]) ?stop"
    using l(5) e by (auto simp: path_append)
  have h2: "store_header s2 = store_header st"
    using i1(2) write_entry_header_fields(1) [OF w2 q24] by simp
  have "unat ?al = unat (lh_alignment (store_header st)) \<or> unat ?al = max (unat al) 3"
    by (simp add: h2 max_u8) linarith
  then have al8: "st_base st mod 2 ^ unat ?al = 0" "unat ?al < 64"
    using al ok'(4,5) by auto
  have "lh_max_size (store_header st) = word_of_nat (max_size st)"
    by (simp add: max_size_def)
  then have hd: "store_header st' = (store_header st)\<lparr>lh_used_size := word_of_nat ?stop, lh_alignment := ?al,
      lh_max_size := word_of_nat (max_size st)\<rparr>"
    using l(4) i1(2) by simp
  show b: "st_base st' = st_base st" and len: "length (st_mem st') = length (st_mem st)"
    using l(2,3) i1(3,4) by simp_all
  have s8: "?stop mod 8 = 0"
    using pl(2) by (metis mod_add_eq next_multiple_of_mod mod_add_self2 add_0 mod_0)
  note r = store_ok_update [OF ok b ok'(2) al8 hd s8 sz(2) _ max_size_less pp]
  show "store_ok st'" "max_size st' = max_size st"
    using r ok'(6) len by simp_all
  have "first_entry st' = first_entry st"
    by (simp add: first_entry_def hd)
  moreover have "dense (first_entry st) (es @ pad @ [e])" if "dense (first_entry st) es"
    using that pad(3) dense_append [OF pes] dense_append [OF ppad] e by simp
  ultimately show "\<exists>pad. all_path st' (es @ pad @ [e]) \<and> (\<forall>x\<in>set pad. en_tag x = VOID) \<and>
      (dense (first_entry st) es \<longrightarrow> dense (first_entry st') (es @ pad @ [e]))"
    using r(2) ok'(6) len pad(1) by auto
  show "en_tag e = t" "en_size e = sz" "used st + 8 \<le> en_offset e" "en_offset e mod 2 ^ unat al = 0"
    using pl(1,3) by (simp_all add: e)
  show "st_base st mod 2 ^ unat al = 0"
    using mod_8_max [OF al(2)] by simp
  show "unat al \<le> unat (lh_alignment (store_header st'))"
    "unat (lh_alignment (store_header st)) \<le> unat (lh_alignment (store_header st'))"
    by (simp_all add: hd max_u8 h2)
qed

lemma entry_at_tag: "entry_at st off = Some e \<Longrightarrow> unat (en_tag e) < 2 ^ 24"
proof -
  have "unat (from_le_bytes [a, b, c, 0] :: u32) < 2 ^ 24" for a b c :: u8
  proof -
    have "le_dec [a, b, c, 0] < 2 ^ 24"
      using unat_8_less [of a] unat_8_less [of b] unat_8_less [of c] by simp
    then show ?thesis
      unfolding from_le_bytes_def by (simp only: unat_of_nat) simp
  qed
  then show "entry_at st off = Some e \<Longrightarrow> unat (en_tag e) < 2 ^ 24"
    by (auto simp: entry_at_def tag_from_bytes_def Let_def split: if_splits)
qed

lemma resize_last_ok:
  assumes ok: "store_ok st" and p: "all_path st es" and d: "dense (first_entry st) es" and e: "e \<in> set es"
    and r: "resize_last st e sz = Ok (e', st')"
  shows "\<exists>xs. es = xs @ [e] \<and> all_path st' (xs @ [e'])" "store_ok st'" "dense (first_entry st') (butlast es @ [e'])"
    "e' = e\<lparr>en_size := sz\<rparr>" "agree st st' (en_offset e - 8)" "st_base st' = st_base st"
    "length (st_mem st') = length (st_mem st)" "lh_alignment (store_header st') = lh_alignment (store_header st)"
proof -
  define q where "q = en_offset e - 8"
  let ?stop = "q + 8 + next_multiple_of sz 8"
  obtain s2 where o8: "8 \<le> en_offset e" and en: "entry_end e = used st" and sz: "sz < 2 ^ 32" "?stop \<le> max_size st"
    and w2: "write_entry_header st q (en_tag e) sz = Ok s2"
    and w3: "write_header s2 ((store_header s2)\<lparr>lh_used_size := word_of_nat ?stop\<rparr>) = Ok st'"
    and e': "e' = e\<lparr>en_size := sz\<rparr>"
    using r by (auto simp: resize_last_def store_consts entry_end_def q_def Let_def split: if_splits)
  show "e' = e\<lparr>en_size := sz\<rparr>" by (rule e')
  obtain xs q' where xs: "es = xs @ [e]" "path st (first_entry st) xs q'" "entry_at st q' = Some e"
    using path_last [OF p [unfolded all_path_def] e en] by blast
  have "q' = q"
    using d dense_append [OF xs(2)] by (simp add: xs(1) q_def)
  have ok': "24 \<le> first_entry st" "used st mod 8 = 0" "st_base st mod 8 = 0"
    "unat (lh_alignment (store_header st)) < 64" "st_base st mod 2 ^ unat (lh_alignment (store_header st)) = 0"
    "max_size st \<le> length (st_mem st)"
    using ok by (auto simp: store_ok_def)
  have q24: "24 \<le> q" and q8: "q mod 8 = 0"
    using path_mono [OF xs(2)] ok'(1) xs(3) \<open>q' = q\<close> by (auto simp: entry_at_def store_consts split: if_splits)
  have stop: "?stop < 2 ^ 32"
    using sz(2) max_size_less [of st] by simp
  have h2: "store_header s2 = store_header st"
    using write_entry_header_fields(1) [OF w2 q24] .
  let ?al = "lh_alignment (store_header st)"
  have w3': "write_header s2 ((store_header s2)\<lparr>lh_used_size := word_of_nat ?stop, lh_alignment := ?al\<rparr>) = Ok st'"
    using w3 by (simp add: h2)
  note l = last_written [OF q24 q8 entry_at_tag [OF xs(3)] sz(1) stop w2 w3']
  have eq: "\<lparr>en_tag = en_tag e, en_offset = q + 8, en_size = sz\<rparr> = e'"
    using o8 by (cases e) (simp add: e' q_def)
  have us: "used st' = ?stop"
    using l(4) stop by (intro used_word) simp_all
  have pxs: "path st' (first_entry st) xs q"
    using path_agree [OF _ l(1) ok'(1)] xs(2) us \<open>q' = q\<close> by simp
  then have pp: "path st' (first_entry st) (xs @ [e']) ?stop"
    using l(5) eq by (auto simp: path_append)
  have hd: "store_header st' = (store_header st)\<lparr>lh_used_size := word_of_nat ?stop, lh_alignment := ?al,
      lh_max_size := word_of_nat (max_size st)\<rparr>"
    using l(4) by (simp add: max_size_def)
  have s8: "?stop mod 8 = 0"
    using q8 by (metis mod_add_eq next_multiple_of_mod mod_add_self2 add_0 mod_0)
  note r = store_ok_update [OF ok l(2) ok'(3,5,4) hd s8 sz(2) _ max_size_less pp]
  show "store_ok st'" "\<exists>xs. es = xs @ [e] \<and> all_path st' (xs @ [e'])"
    "st_base st' = st_base st" "length (st_mem st') = length (st_mem st)" "agree st st' (en_offset e - 8)"
    using r(1,2) l(1-3) ok'(6) xs(1) by (simp_all add: q_def)
  show "lh_alignment (store_header st') = lh_alignment (store_header st)"
    by (simp add: hd)
  have "first_entry st' = first_entry st" "en_offset e' = q + 8"
    using o8 by (simp_all add: first_entry_def hd e' q_def)
  then show "dense (first_entry st') (butlast es @ [e'])"
    using d dense_append [OF xs(2)] \<open>q' = q\<close> by (simp add: xs(1))
qed

lemma limit_ok:
  assumes ok: "store_ok st" and p: "all_path st es" and l: "limit st g = Ok (n, st')"
  shows "store_ok st'" "all_path st' es" "max_size st' = n" "used st \<le> n" "n \<le> max_size st"
    "st_base st' = st_base st" "first_entry st' = first_entry st" "agree st st' (length (st_mem st))"
    "lh_alignment (store_header st') = lh_alignment (store_header st)"
proof -
  have n: "n = min (next_multiple_of (used st) (max g 8)) (max_size st)"
    and w: "write_header st ((store_header st)\<lparr>lh_max_size := word_of_nat n\<rparr>) = Ok st'"
    using l by (auto simp: limit_def store_consts Let_def max_size_def)
  note f = write_header_fields [OF w]
  have ok': "24 \<le> first_entry st" "used st mod 8 = 0" "used st \<le> max_size st" "max_size st \<le> length (st_mem st)"
    "st_base st mod 8 = 0" "unat (lh_alignment (store_header st)) < 64"
    "st_base st mod 2 ^ unat (lh_alignment (store_header st)) = 0"
    using ok by (auto simp: store_ok_def)
  show nb: "used st \<le> n" "n \<le> max_size st"
    using ok'(3) next_multiple_of_ge [of "max g 8" "used st"] by (auto simp: n)
  have u: "used st' = used st"
    by (simp add: used_def f(1))
  show ag: "agree st st' (length (st_mem st))"
    by (simp add: agree_def f)
  show b: "st_base st' = st_base st" "first_entry st' = first_entry st"
    "lh_alignment (store_header st') = lh_alignment (store_header st)"
    by (simp_all add: first_entry_def f)
  have "path st' (first_entry st) es (used st)"
    using path_agree [OF _ agree_le [OF ag]] p ok' u by (simp add: all_path_def)
  moreover have "store_header st' = (store_header st)\<lparr>lh_used_size := word_of_nat (used st),
      lh_alignment := lh_alignment (store_header st), lh_max_size := word_of_nat n\<rparr>"
    by (simp add: f(1) used_def)
  moreover have "n < 2 ^ 32" "n \<le> length (st_mem st')"
    using nb(2) max_size_less [of st] ok'(4) by (auto simp: f)
  ultimately show "store_ok st'" "all_path st' es" "max_size st' = n"
    using store_ok_update [OF ok b(1) ok'(5,7,6) _ ok'(2) nb(1)] by blast+
qed

lemma relocate_ok:
  assumes ok: "store_ok st" and p: "all_path st es" and r: "relocate st dest mem w = Ok st'"
    and w: "w \<le> length mem" and d8: "dest mod 8 = 0"
  shows "store_ok st'" "all_path st' es" "st_base st' = dest" "agree st st' (used st)"
    "first_entry st' = first_entry st" "length (st_mem st') = length mem"
    "lh_alignment (store_header st') = lh_alignment (store_header st)"
proof -
  define m where "m = (min w (2 ^ 32 - 1) div 8) * 8"
  have m: "m \<le> w" "m < 2 ^ 32"
    by (auto simp: m_def min_def)
  have ok': "24 \<le> first_entry st" "used st mod 8 = 0" "used st \<le> max_size st" "max_size st \<le> length (st_mem st)"
    "unat (lh_alignment (store_header st)) < 64"
    using ok by (auto simp: store_ok_def)
  have u24: "24 \<le> used st"
    using ok'(1) p path_mono by (fastforce simp: all_path_def)
  obtain s1 where al: "dest mod 2 ^ unat (lh_alignment (store_header st)) = 0" and um: "used st \<le> m"
    and w1: "store_write \<lparr>st_base = dest, st_mem = mem\<rparr> 0 (sub (st_mem st) 0 (used st)) = Ok s1"
    and w2: "write_header s1 ((store_header s1)\<lparr>lh_max_size := word_of_nat m\<rparr>) = Ok st'"
    using r by (auto simp: relocate_def store_consts Let_def m_def split: if_splits)
  have len: "length (sub (st_mem st) 0 (used st)) = used st"
    using ok'(3,4) by simp
  have s1: "st_base s1 = dest" "length (st_mem s1) = length mem"
    "off + n \<le> used st \<Longrightarrow> sub (st_mem s1) off n = sub (st_mem st) off n" for off n
  proof -
    have e: "s1 = \<lparr>st_base = dest, st_mem = write_at mem 0 (sub (st_mem st) 0 (used st))\<rparr>" "used st \<le> length mem"
      using w1 len by (auto simp: store_write_eq_Ok)
    then show "st_base s1 = dest" "length (st_mem s1) = length mem"
      using len by (simp_all add: length_write_at)
    show "sub (st_mem s1) off n = sub (st_mem st) off n" if "off + n \<le> used st"
      using that len by (simp add: e write_at_def byte_simps)
  qed
  have h1: "store_header s1 = store_header st"
    using s1(3) [of 0 24] u24 by (simp add: store_header_def store_read_def HEADER_SIZE_def)
  note f = write_header_fields [OF w2]
  show b: "st_base st' = dest" and "length (st_mem st') = length mem" "first_entry st' = first_entry st"
    "lh_alignment (store_header st') = lh_alignment (store_header st)"
    by (simp_all add: f s1 first_entry_def h1)
  show ag: "agree st st' (used st)"
    by (simp add: agree_def f s1)
  have "used st' = used st"
    by (simp add: used_def f h1)
  then have "path st' (first_entry st) es (used st)"
    using path_agree [OF _ ag] p ok' by (simp add: all_path_def)
  moreover have "store_header st' = (store_header st)\<lparr>lh_used_size := word_of_nat (used st),
      lh_alignment := lh_alignment (store_header st), lh_max_size := word_of_nat m\<rparr>"
    by (simp add: f(1) h1 used_def)
  moreover have "m \<le> length (st_mem st')"
    using m w by (simp add: f s1)
  ultimately show "store_ok st'" "all_path st' es"
    using store_ok_update [OF ok b d8 al ok'(5) _ ok'(2) um _ m(2)] by blast+
qed

lemma relocate_max:
  assumes "relocate st dest mem w = Ok st'"
  shows "dest mod 2 ^ unat (lh_alignment (store_header st)) = 0" "max_size st' \<le> w"
proof -
  let ?m = "(min w (2 ^ 32 - 1) div 8) * 8"
  obtain s1 where al: "dest mod 2 ^ unat (lh_alignment (store_header st)) = 0"
    and w2: "write_header s1 ((store_header s1)\<lparr>lh_max_size := word_of_nat ?m\<rparr>) = Ok st'"
    using assms by (auto simp: relocate_def store_consts Let_def split: if_splits)
  show "dest mod 2 ^ unat (lh_alignment (store_header st)) = 0" by (rule al)
  define m where "m = ?m"
  have "m \<le> w" "m < 2 ^ 32"
    by (auto simp: min_def m_def)
  then show "max_size st' \<le> w"
    unfolding max_size_def write_header_fields(1) [OF w2] m_def [symmetric] by (simp add: unat_of_nat)
qed

section \<open>Data\<close>

text \<open>The caller writes the bytes that \<open>bytes_mut\<close> hands out.\<close>

definition bytes_mut :: "store \<Rightarrow> entry \<Rightarrow> bytes \<Rightarrow> store" where
  "bytes_mut st e d = st\<lparr>st_mem := write_at (st_mem st) (en_offset e) d\<rparr>"

lemma bytes_mut_ok:
  assumes ok: "store_ok st" and p: "all_path st es" and d: "dense (first_entry st) es" and e: "e \<in> set es"
    and n: "length b = en_size e"
  shows "store_ok (bytes_mut st e b)" "all_path (bytes_mut st e b) es" "first_entry (bytes_mut st e b) = first_entry st"
    "entry_bytes (bytes_mut st e b) e = b" "store_header (bytes_mut st e b) = store_header st"
    "x \<in> set es \<Longrightarrow> x \<noteq> e \<Longrightarrow> entry_bytes (bytes_mut st e b) x = entry_bytes st x"
proof -
  let ?s = "bytes_mut st e b"
  have ok': "24 \<le> first_entry st" "used st \<le> max_size st" "max_size st \<le> length (st_mem st)"
    using ok by (auto simp: store_ok_def)
  have pe: "32 \<le> en_offset y" "en_offset y + en_size y \<le> used st" if "y \<in> set es" for y
    using path_entry [OF p [unfolded all_path_def] that] ok'(1) by auto
  have ins: "en_offset e + length b \<le> length (st_mem st)"
    using pe(2) [OF e] ok' n by simp
  have apart: "x \<noteq> e \<Longrightarrow> en_offset x + en_size x + 8 \<le> en_offset e \<or> en_offset e + en_size e + 8 \<le> en_offset x"
    if "x \<in> set es" for x
    using path_disjoint [OF p [unfolded all_path_def]] e that
    by (auto simp: sorted_wrt_iff_nth_less in_set_conv_nth) (metis linorder_neqE_nat)
  have h: "store_header ?s = store_header st"
    using pe(1) [OF e] ins by (simp add: store_header_def store_read_def HEADER_SIZE_def bytes_mut_def sub_write_at_other)
  then have u: "used ?s = used st" "first_entry ?s = first_entry st" "max_size ?s = max_size st"
    by (simp_all add: used_def first_entry_def max_size_def)
  show "first_entry ?s = first_entry st" "store_header ?s = store_header st"
    by (rule u h)+
  have "path ?s (first_entry st) es (used st)"
  proof (rule path_headers [OF p [unfolded all_path_def] d u(1)])
    fix x assume x: "x \<in> set es"
    have "en_offset x - 8 + 8 \<le> en_offset e \<or> en_offset e + length b \<le> en_offset x - 8"
      using apart [OF x] pe(1) [OF x] n by (cases "x = e") auto
    then show "sub (st_mem ?s) (en_offset x - 8) 8 = sub (st_mem st) (en_offset x - 8) 8"
      using ins by (simp add: bytes_mut_def sub_write_at_other)
  qed
  then show "all_path ?s es"
    by (simp add: all_path_def u)
  then have "chain_end ?s (first_entry st) = Some (used st)"
    using path_chain [of ?s] by (simp add: all_path_def u)
  then show "store_ok ?s"
    using ok length_write_at [OF ins] by (simp add: store_ok_def h u) (simp add: bytes_mut_def)
  show "entry_bytes ?s e = b"
    using sub_write_at_same [OF ins] n by (simp add: bytes_mut_def entry_bytes_def)
  show "entry_bytes ?s x = entry_bytes st x" if "x \<in> set es" "x \<noteq> e"
    using apart [OF that] n ins by (auto simp: bytes_mut_def entry_bytes_def intro!: sub_write_at_other)
qed

section \<open>The store as an append-only log\<close>

text \<open>
  What the stages rely on: a tagged log whose entries keep their place and content while
  others are appended, so that a tag looked up later names the entry first added under it.
\<close>

locale tagged_log =
  fixes inv :: "'s \<Rightarrow> bool" and items :: "'s \<Rightarrow> 'i list" and key :: "'i \<Rightarrow> 'k"
    and content :: "'s \<Rightarrow> 'i \<Rightarrow> 'b" and append :: "'s \<Rightarrow> 'k \<Rightarrow> 'a \<Rightarrow> ('e, 'i \<times> 's) result"
  assumes append_inv: "inv s \<Longrightarrow> append s k a = Ok (i, s') \<Longrightarrow> inv s'"
    and append_items: "inv s \<Longrightarrow> append s k a = Ok (i, s') \<Longrightarrow> items s' = items s @ [i]"
    and append_key: "inv s \<Longrightarrow> append s k a = Ok (i, s') \<Longrightarrow> key i = k"
    and append_content: "inv s \<Longrightarrow> append s k a = Ok (i, s') \<Longrightarrow> x \<in> set (items s) \<Longrightarrow> content s' x = content s x"
begin

definition lookup :: "'s \<Rightarrow> 'k \<Rightarrow> 'i option" where
  "lookup s k = find (\<lambda>i. key i = k) (items s)"

primrec append_all :: "'s \<Rightarrow> ('k \<times> 'a) list \<Rightarrow> ('e, 's) result" where
  "append_all s [] = Ok s"
| "append_all s (x # xs) = rbind (append s (fst x) (snd x)) (\<lambda>(i, s'). append_all s' xs)"

lemma lookup_append:
  assumes "inv s" "append s k a = Ok (i, s')"
  shows "lookup s' k' = (case lookup s k' of Some j \<Rightarrow> Some j | None \<Rightarrow> if k' = k then Some i else None)"
proof -
  have "find P (xs @ [i]) = (case find P xs of Some j \<Rightarrow> Some j | None \<Rightarrow> if P i then Some i else None)" for P xs
    by (induction xs) auto
  then show ?thesis
    using append_key [OF assms] by (auto simp: lookup_def append_items [OF assms] split: option.splits)
qed

lemma append_all_keeps:
  assumes "inv s" "append_all s xs = Ok s'"
  shows "inv s' \<and> (\<exists>new. items s' = items s @ new \<and> map key new = map fst xs) \<and>
    (\<forall>x\<in>set (items s). content s' x = content s x)"
  using assms
proof (induction xs arbitrary: s)
  case (Cons x xs)
  then obtain i s1 where a: "append s (fst x) (snd x) = Ok (i, s1)" and r: "append_all s1 xs = Ok s'"
    by auto
  have s1: "inv s1" "items s1 = items s @ [i]" "key i = fst x"
    using append_inv append_items append_key Cons.prems(1) a by auto
  obtain new where new: "inv s'" "items s' = items s1 @ new" "map key new = map fst xs"
    "\<forall>x\<in>set (items s1). content s' x = content s1 x"
    using Cons.IH [OF s1(1) r] by auto
  then have "items s' = items s @ (i # new)" "map key (i # new) = map fst (x # xs)"
    using s1 by auto
  moreover have "\<forall>y\<in>set (items s). content s' y = content s y"
    using new(4) append_content [OF Cons.prems(1) a] s1(2) by simp
  ultimately show ?case
    using new(1) by blast
qed auto

end

definition store_inv :: "store \<Rightarrow> bool" where
  "store_inv st \<longleftrightarrow> store_ok st \<and> (\<exists>es. all_path st es \<and> dense (first_entry st) es) \<and>
     3 \<le> unat (lh_alignment (store_header st))"

lemma entry_bytes_agree:
  assumes "store_ok st" "all_path st es" "x \<in> set es" "agree st st' (used st)"
  shows "entry_bytes st' x = entry_bytes st x"
  using path_entry [OF assms(2) [unfolded all_path_def] assms(3)] assms(1,4)
  by (simp add: entry_bytes_def agree_def store_ok_def)

lemma store_add_tag: "store_add st t sz al = Ok (e, st') \<Longrightarrow> en_tag e = t"
  by (auto simp: store_add_def Let_def split: if_splits)

lemma store_add_inv:
  assumes i: "store_inv st" and a: "store_add st t sz al = Ok (e, st')"
  shows "store_inv st'" "entries st' = entries st @ [e]" "x \<in> set (entries st) \<Longrightarrow> entry_bytes st' x = entry_bytes st x"
proof -
  obtain es where ok: "store_ok st" "all_path st es" "dense (first_entry st) es"
      "3 \<le> unat (lh_alignment (store_header st))"
    using i by (auto simp: store_inv_def)
  note f = add_ok [OF ok(1,2) a]
  then obtain pad where pad: "all_path st' (es @ pad @ [e])" "\<forall>x\<in>set pad. en_tag x = VOID"
      "dense (first_entry st') (es @ pad @ [e])"
    using ok(3) by blast
  then show "store_inv st'"
    unfolding store_inv_def using f(1) f(13) ok(4) by auto
  have "t \<noteq> VOID"
    using a by (auto simp: store_add_def split: if_splits)
  moreover have "filter (\<lambda>e. en_tag e \<noteq> VOID) pad = []"
    using pad(2) by (simp add: filter_empty_conv)
  ultimately show "entries st' = entries st @ [e]"
    using all_path_entries [OF pad(1)] all_path_entries [OF ok(2)] f(6) by simp
  show "entry_bytes st' x = entry_bytes st x" if "x \<in> set (entries st)"
    using that entry_bytes_agree [OF ok(1,2) _ f(3)] all_path_entries [OF ok(2)] by auto
qed

interpretation store_log: tagged_log store_inv entries en_tag entry_bytes "\<lambda>st t (sz, al). store_add st t sz al"
  by unfold_locales (auto simp: store_add_inv store_add_tag dest: store_add_inv)

lemma store_find_lookup: "store_find st t = store_log.lookup st t"
  by (simp add: store_find_def store_log.lookup_def)

section \<open>Every store the program can make\<close>

text \<open>The stores reached from \<open>create\<close> by the operations, with the log each is meant to hold.\<close>

inductive run :: "store \<Rightarrow> entry list \<Rightarrow> bool" where
  create: "store_create base mem w = Ok st \<Longrightarrow> w \<le> length mem \<Longrightarrow> run st []"
| add: "run st es \<Longrightarrow> store_add st t sz al = Ok (e, st') \<Longrightarrow> run st' (es @ [e])"
| resize: "run st es \<Longrightarrow> e \<in> set es \<Longrightarrow> resize_last st e sz = Ok (e', st') \<Longrightarrow> run st' (butlast es @ [e'])"
| put: "run st es \<Longrightarrow> e \<in> set es \<Longrightarrow> length b = en_size e \<Longrightarrow> run (bytes_mut st e b) es"
| limit: "run st es \<Longrightarrow> limit st g = Ok (n, st') \<Longrightarrow> run st' es"
| relocate: "run st es \<Longrightarrow> relocate st dest mem w = Ok st' \<Longrightarrow> w \<le> length mem \<Longrightarrow> run st' es"
| reopen: "run st es \<Longrightarrow> store_open (st_base st) (st_mem st) w = Ok st' \<Longrightarrow> run st' es"

lemma store_invE:
  assumes "store_inv st"
  obtains es where "store_ok st" "all_path st es" "dense (first_entry st) es"
    "3 \<le> unat (lh_alignment (store_header st))" "entries st = filter (\<lambda>e. en_tag e \<noteq> VOID) es"
  using assms all_path_entries by (auto simp: store_inv_def)

lemma store_invI:
  "store_ok st \<Longrightarrow> all_path st es \<Longrightarrow> dense (first_entry st) es \<Longrightarrow> 3 \<le> unat (lh_alignment (store_header st)) \<Longrightarrow>
    store_inv st \<and> entries st = filter (\<lambda>e. en_tag e \<noteq> VOID) es"
  using all_path_entries by (auto simp: store_inv_def)

lemma create_inv: "store_create base mem w = Ok st \<Longrightarrow> w \<le> length mem \<Longrightarrow> store_inv st \<and> entries st = []"
proof -
  assume a: "store_create base mem w = Ok st" "w \<le> length mem"
  have "lh_alignment (store_header st) = 3"
    using a(1) write_header_fields(1) by (auto simp: store_create_def Let_def split: if_splits)
  then show ?thesis
    using create_ok [OF a] store_invI [of st "[]"] by simp
qed

lemma resize_last_inv:
  assumes i: "store_inv st" and e: "e \<in> set (entries st)" and r: "resize_last st e sz = Ok (e', st')"
  shows "store_inv st' \<and> entries st' = butlast (entries st) @ [e']"
proof -
  obtain es where s: "store_ok st" "all_path st es" "dense (first_entry st) es"
    "3 \<le> unat (lh_alignment (store_header st))" "entries st = filter (\<lambda>e. en_tag e \<noteq> VOID) es"
    by (rule store_invE [OF i])
  have e': "e \<in> set es" "en_tag e \<noteq> VOID"
    using e by (auto simp: s(5))
  note f = resize_last_ok [OF s(1-3) e'(1) r]
  obtain xs where xs: "es = xs @ [e]" "all_path st' (xs @ [e'])"
    using f(1) by blast
  then have "store_inv st' \<and> entries st' = filter (\<lambda>e. en_tag e \<noteq> VOID) (xs @ [e'])"
    using f(2,3,8) s(4) by (intro store_invI) simp_all
  then show ?thesis
    using s(5) xs(1) e'(2) f(4) by simp
qed

lemma bytes_mut_inv:
  assumes i: "store_inv st" and e: "e \<in> set (entries st)" and n: "length b = en_size e"
  shows "store_inv (bytes_mut st e b) \<and> entries (bytes_mut st e b) = entries st"
proof -
  obtain es where s: "store_ok st" "all_path st es" "dense (first_entry st) es"
    "3 \<le> unat (lh_alignment (store_header st))" "entries st = filter (\<lambda>e. en_tag e \<noteq> VOID) es"
    by (rule store_invE [OF i])
  have "e \<in> set es"
    using e by (auto simp: s(5))
  note f = bytes_mut_ok [OF s(1-3) this n]
  show ?thesis
    using store_invI [of "bytes_mut st e b" es] f s by simp
qed

lemma limit_inv: "store_inv st \<Longrightarrow> limit st g = Ok (n, st') \<Longrightarrow> store_inv st' \<and> entries st' = entries st"
proof -
  assume i: "store_inv st" and l: "limit st g = Ok (n, st')"
  obtain es where s: "store_ok st" "all_path st es" "dense (first_entry st) es"
    "3 \<le> unat (lh_alignment (store_header st))" "entries st = filter (\<lambda>e. en_tag e \<noteq> VOID) es"
    by (rule store_invE [OF i])
  show ?thesis
    using store_invI [of st' es] limit_ok [OF s(1,2) l] s by simp
qed

lemma relocate_inv:
  assumes "store_inv st" and r: "relocate st dest mem w = Ok st'" and "w \<le> length mem"
  shows "store_inv st' \<and> entries st' = entries st"
proof -
  obtain es where s: "store_ok st" "all_path st es" "dense (first_entry st) es"
    "3 \<le> unat (lh_alignment (store_header st))" "entries st = filter (\<lambda>e. en_tag e \<noteq> VOID) es"
    by (rule store_invE [OF assms(1)])
  have "dest mod 2 ^ unat (lh_alignment (store_header st)) = 0"
    using r by (auto simp: relocate_def Let_def split: if_splits)
  then have "dest mod 8 = 0"
    using mod_8_max [of dest "unat (lh_alignment (store_header st))"] s(4) by (simp add: max_def)
  from relocate_ok [OF s(1,2) r assms(3) this] show ?thesis
    using store_invI [of st' es] s by simp
qed

lemma reopen_same: "store_open base mem w = Ok st \<Longrightarrow> st = \<lparr>st_base = base, st_mem = mem\<rparr>"
  by (auto simp: store_open_def Let_def split: if_splits option.splits)

lemma run_inv: "run st es \<Longrightarrow> store_inv st \<and> entries st = es"
proof (induction rule: run.induct)
  case (add st es t sz al e st')
  then show ?case using store_add_inv(1,2) [of st t sz al e st'] by simp
next
  case (reopen st es w st')
  then show ?case using reopen_same [OF reopen(2)] by (simp add: store_eta)
next
  case (resize st es e sz e' st')
  then show ?case using resize_last_inv [of st e sz e' st'] by simp
next
  case (put st es e b)
  then show ?case using bytes_mut_inv [of st e b] by simp
next
  case (limit st es g n st')
  then show ?case using limit_inv [of st g n st'] by simp
next
  case (relocate st es dest mem w st')
  then show ?case using relocate_inv [of st dest mem w st'] by simp
qed (rule create_inv)

section \<open>Properties\<close>

lemma store_inv_layout:
  assumes "store_inv st"
  shows "sorted_wrt (\<lambda>a b. en_offset a + en_size a + 8 \<le> en_offset b) (entries st)"
    "e \<in> set (entries st) \<Longrightarrow> 32 \<le> en_offset e \<and> en_offset e + en_size e \<le> used st"
    "used st \<le> max_size st" "max_size st \<le> length (st_mem st)" "used st mod 8 = 0"
proof -
  obtain es where s: "store_ok st" "all_path st es" "entries st = filter (\<lambda>e. en_tag e \<noteq> VOID) es"
    using store_invE [OF assms] by metis
  show "used st \<le> max_size st" "max_size st \<le> length (st_mem st)" "used st mod 8 = 0"
    using s(1) by (auto simp: store_ok_def)
  show "sorted_wrt (\<lambda>a b. en_offset a + en_size a + 8 \<le> en_offset b) (entries st)"
    unfolding s(3) by (rule sorted_wrt_filter [OF path_disjoint [OF s(2) [unfolded all_path_def]]])
  show "32 \<le> en_offset e \<and> en_offset e + en_size e \<le> used st" if "e \<in> set (entries st)"
    using that path_entry [OF s(2) [unfolded all_path_def], of e] s(1) by (auto simp: s(3) store_ok_def)
qed

definition sample_store :: store where
  "sample_store = \<lparr>st_base = 0x1000, st_mem = lh_as_bytes \<lparr>lh_signature = SIGNATURE, lh_checksum = 0,
     lh_version = VERSION, lh_header_size = 24, lh_alignment = 3, lh_used_size = 24, lh_max_size = 128,
     lh_flags = 0, lh_reserved = 0\<rparr> @ replicate 104 0\<rparr>"

lemma sample_created: "store_create 0x1000 (replicate 128 0) 128 = Ok sample_store"
  by (simp add: store_create_def store_consts Let_def write_header_def store_write_def sample_store_def write_at_def)

lemma sample_run: "run sample_store []"
  by (rule run.create [OF sample_created]) simp

text \<open>
  C20: a store made by any sequence of the operations, with the log of what was added and
  resized, can be opened again and holds exactly that log: \<open>entries\<close> returns the log in
  order, the data of different entries never overlap and all lie behind the list header
  and below the used size, inside the window.
\<close>

theorem store_refines_log:
  assumes "run st es"
  shows "store_open (st_base st) (st_mem st) (length (st_mem st)) = Ok st \<and> entries st = es \<and>
    sorted_wrt (\<lambda>a b. en_offset a + en_size a + 8 \<le> en_offset b) es \<and>
    (\<forall>e\<in>set es. 32 \<le> en_offset e \<and> en_offset e + en_size e \<le> used st) \<and>
    used st \<le> max_size st \<and> max_size st \<le> length (st_mem st)"
proof -
  note i = run_inv [OF assms]
  then have "store_ok st" by (simp add: store_inv_def)
  then show ?thesis
    using i store_inv_layout [of st] store_ok_opens [of st "length (st_mem st)"] by auto
qed

theorem store_refines_log_witness:
  "run sample_store [] \<and> store_open 0x1000 (st_mem sample_store) 128 = Ok sample_store"
  using sample_run store_refines_log [OF sample_run] by (simp add: sample_store_def)

lemma store_inv_first: "store_inv st \<Longrightarrow> 24 \<le> used st"
proof -
  assume i: "store_inv st"
  obtain es where "store_ok st" "all_path st es"
    using store_invE [OF i] by metis
  then show ?thesis
    using path_mono [of st "first_entry st" es "used st"] by (simp add: store_ok_def all_path_def)
qed

lemma write_Ok: "off + length b \<le> length (st_mem st) \<Longrightarrow> \<exists>st'. store_write st off b = Ok st' \<and> length (st_mem st') = length (st_mem st)"
  by (simp add: store_write_def length_write_at)

lemma write_entry_header_Ok: "off + 8 \<le> length (st_mem st) \<Longrightarrow> \<exists>st'. write_entry_header st off t sz = Ok st' \<and> length (st_mem st') = length (st_mem st)"
  unfolding write_entry_header_def by (rule write_Ok) (simp add: eh_as_bytes_def tag_to_bytes_def)

lemma write_header_Ok: "24 \<le> length (st_mem st) \<Longrightarrow> \<exists>st'. write_header st h = Ok st' \<and> length (st_mem st') = length (st_mem st)"
  unfolding write_header_def by (rule write_Ok) simp

lemma store_add_Ok_iff:
  assumes "store_inv st" and q: "q = place (used st) a"
  shows "(\<exists>e st'. store_add st t sz a = Ok (e, st')) \<longleftrightarrow> t \<noteq> VOID \<and> t < 2 ^ 24 \<and> unat a < 64 \<and>
      st_base st mod 2 ^ max (unat a) 3 = 0 \<and> sz < 2 ^ 32 \<and> q + 8 + next_multiple_of sz 8 \<le> max_size st"
    (is "?l \<longleftrightarrow> ?r") and "store_add st t sz a \<noteq> Panic"
proof -
  have u: "used st mod 8 = 0" "max_size st \<le> length (st_mem st)" "24 \<le> used st"
    using store_inv_layout [OF assms(1)] store_inv_first [OF assms(1)] by auto
  note alt = store_add_alt [OF u(1) q]
  have q': "used st \<le> q"
    using place(1) [OF u(1)] q by simp
  have r: "\<exists>e st'. store_add st t sz a = Ok (e, st')" if ?r
  proof -
    have len: "q + 8 \<le> length (st_mem st)" "used st + 8 \<le> length (st_mem st)" "24 \<le> length (st_mem st)"
      using that u q' by auto
    obtain s1 where s1: "(if q \<noteq> used st then write_entry_header st (used st) VOID (q - used st - 8) else Ok st) = Ok s1"
        "length (st_mem s1) = length (st_mem st)"
      using write_entry_header_Ok [OF len(2)] by (cases "q = used st") auto
    obtain s2 where s2: "write_entry_header s1 q t sz = Ok s2" "length (st_mem s2) = length (st_mem s1)"
      using write_entry_header_Ok [of q s1] len(1) s1(2) by auto
    have n: "\<not> (t = VOID \<or> t \<ge> 2 ^ 24)" "\<not> (unat a \<ge> 64 \<or> st_base st mod 2 ^ max (unat a) 3 \<noteq> 0)"
      "\<not> (sz \<ge> 2 ^ 32 \<or> q + 8 + next_multiple_of sz 8 > max_size st)"
      using that by (simp_all only: linorder_not_le linorder_not_less de_Morgan_disj not_not simp_thms)
    show ?thesis
      unfolding alt if_not_P [OF n(1)] if_not_P [OF n(2)] if_not_P [OF n(3)] s1(1) rbind.simps s2(1)
      using write_header_Ok [of s2] s2(2) s1(2) len(3) by fastforce
  qed
  have l: "?r" if "store_add st t sz a = Ok (e, st')" for e st'
    by (rule store_add_Ok [OF u(1) q that]) (intro conjI)
  show "?l \<longleftrightarrow> ?r"
    by (intro iffI; (elim exE)?) (rule l r, assumption)+
  show "store_add st t sz a \<noteq> Panic"
  proof (cases ?r)
    case True
    then show ?thesis using r by auto
  next
    case False
    then show ?thesis
      unfolding alt by (auto simp del: rbind_eq_Ok)
  qed
qed

lemma store_write_frame:
  assumes "store_write st off b = Ok st'" "x < off \<or> off + length b \<le> x" "x < length (st_mem st)"
  shows "st_mem st' ! x = st_mem st ! x" "length (st_mem st') = length (st_mem st)"
  using assms by (auto simp: store_write_def nth_write_at length_write_at split: if_splits)

lemma entry_header_frame:
  assumes "write_entry_header st off t sz = Ok st'" "x < off \<or> off + 8 \<le> x" "x < length (st_mem st)"
  shows "st_mem st' ! x = st_mem st ! x" "length (st_mem st') = length (st_mem st)"
  using store_write_frame [OF assms(1) [unfolded write_entry_header_def]] assms(2,3)
  by (simp_all add: eh_as_bytes_def tag_to_bytes_def)

text \<open>Apart from the list header, \<open>add\<close> writes between the used end and the data of the new entry only.\<close>

lemma store_add_frame:
  assumes u: "used st mod 8 = 0" and a: "store_add st t sz al = Ok (e, st')"
    and x: "24 \<le> x" "x < length (st_mem st)" "x < used st \<or> en_offset e \<le> x"
  shows "st_mem st' ! x = st_mem st ! x"
proof -
  define q where "q = place (used st) al"
  note pl = place [OF u, of al, folded q_def]
  obtain s1 s2 where w1: "(if q \<noteq> used st then write_entry_header st (used st) VOID (q - used st - 8) else Ok st) = Ok s1"
    and w2: "write_entry_header s1 q t sz = Ok s2"
    and w3: "write_header s2 ((store_header s2)\<lparr>lh_used_size := word_of_nat (q + 8 + next_multiple_of sz 8),
       lh_alignment := max (lh_alignment (store_header s2)) (max al 3)\<rparr>) = Ok st'"
    and e: "e = \<lparr>en_tag = t, en_offset = q + 8, en_size = sz\<rparr>"
    by (rule store_add_Ok [OF u q_def a])
  have x1: "x < used st \<or> used st + 8 \<le> x" "x < q \<or> q + 8 \<le> x"
    using x(3) pl(1) e by auto
  have s1: "st_mem s1 ! x = st_mem st ! x" "length (st_mem s1) = length (st_mem st)"
    using w1 entry_header_frame [OF _ x1(1) x(2)] by (auto split: if_splits)
  have s2: "st_mem s2 ! x = st_mem s1 ! x" "length (st_mem s2) = length (st_mem s1)"
    using entry_header_frame [OF w2 x1(2)] x(2) s1(2) by auto
  have "st_mem st' ! x = st_mem s2 ! x"
    using store_write_frame(1) [OF w3 [unfolded write_header_def]] x(1,2) s1(2) s2(2) by simp
  then show ?thesis
    using s1(1) s2(1) by simp
qed

text \<open>
  C27: on every store the program can make, \<open>add\<close> succeeds exactly when the tag is a 24-bit
  tag other than void, the alignment is below 64 bits and honoured by the base, and the
  padded entry ends below the maximum size; it never writes outside the window. It then
  appends one entry, whose data begin at the next multiple of the alignment behind its header and whose address has the alignment
  asked for. Behind the list header it changes no byte but those between the old end of
  the list and the data of the new entry, so the data of all others are kept, and a lookup finds the new entry unless an older one has the tag.
\<close>

theorem store_add_spec:
  assumes "run st es"
  shows "store_add st t sz a \<noteq> Panic \<and>
    ((\<exists>r. store_add st t sz a = Ok r) \<longleftrightarrow>
       t \<noteq> VOID \<and> t < 2 ^ 24 \<and> unat a < 64 \<and> st_base st mod 2 ^ max (unat a) 3 = 0 \<and> sz < 2 ^ 32 \<and>
       next_multiple_of (used st + 8) (2 ^ max (unat a) 3) + next_multiple_of sz 8 \<le> max_size st) \<and>
    (\<forall>e st'. store_add st t sz a = Ok (e, st') \<longrightarrow>
       entries st' = es @ [e] \<and> en_tag e = t \<and> en_size e = sz \<and>
       en_offset e = next_multiple_of (used st + 8) (2 ^ max (unat a) 3) \<and> address st' e mod 2 ^ unat a = 0 \<and>
       length (st_mem st') = length (st_mem st) \<and>
       (\<forall>x. 24 \<le> x \<and> x < length (st_mem st) \<and> \<not> (used st \<le> x \<and> x < en_offset e) \<longrightarrow> st_mem st' ! x = st_mem st ! x) \<and>
       (\<forall>x\<in>set es. entry_bytes st' x = entry_bytes st x) \<and>
       store_find st' t = (case store_find st t of Some x \<Rightarrow> Some x | None \<Rightarrow> Some e))"
proof -
  have i: "store_inv st" "entries st = es"
    using run_inv [OF assms] by auto
  obtain fs where fs: "store_ok st" "all_path st fs"
    using store_invE [OF i(1)] by metis
  have p: "place (used st) a + 8 = next_multiple_of (used st + 8) (2 ^ max (unat a) 3)"
    using next_multiple_of_ge [of "2 ^ max (unat a) 3" "used st + 8"] by (simp add: place_def)
  have u: "used st mod 8 = 0"
    using store_inv_layout [OF i(1)] by auto
  show ?thesis
  proof (intro conjI allI impI)
    show "store_add st t sz a \<noteq> Panic"
      by (rule store_add_Ok_iff(2) [OF i(1) refl])
    show "(\<exists>r. store_add st t sz a = Ok r) \<longleftrightarrow>
       t \<noteq> VOID \<and> t < 2 ^ 24 \<and> unat a < 64 \<and> st_base st mod 2 ^ max (unat a) 3 = 0 \<and> sz < 2 ^ 32 \<and>
       next_multiple_of (used st + 8) (2 ^ max (unat a) 3) + next_multiple_of sz 8 \<le> max_size st"
      using store_add_Ok_iff(1) [OF i(1) refl, of t sz a] unfolding p by (metis surj_pair)
  next
    fix e st'
    assume ok: "store_add st t sz a = Ok (e, st')"
    note f = add_ok [OF fs ok]
    show "en_tag e = t" "en_size e = sz" "length (st_mem st') = length (st_mem st)"
      using f(5-7) by simp_all
    show "en_offset e = next_multiple_of (used st + 8) (2 ^ max (unat a) 3)"
      by (rule store_add_Ok [OF u refl ok]) (simp add: p)
    show "address st' e mod 2 ^ unat a = 0"
      using f(4,8,9) by (simp add: address_def mod_add_eq dvd_add mod_eq_0_iff_dvd)
    show "entries st' = es @ [e]"
      using store_add_inv [OF i(1) ok] i(2) by simp
    show "\<forall>x\<in>set es. entry_bytes st' x = entry_bytes st x"
      using store_add_inv [OF i(1) ok] i(2) by simp
    show "store_find st' t = (case store_find st t of Some x \<Rightarrow> Some x | None \<Rightarrow> Some e)"
      using store_log.lookup_append [OF i(1), of t "(sz, a)" e st' t] ok by (simp add: store_find_lookup)
    show "st_mem st' ! x = st_mem st ! x"
      if "24 \<le> x \<and> x < length (st_mem st) \<and> \<not> (used st \<le> x \<and> x < en_offset e)" for x
      using store_add_frame [OF u ok, of x] that by auto
  qed
qed

theorem store_add_spec_witness:
  "run sample_store [] \<and> (case store_add sample_store 0xfff005 16 4 of
      Ok (e, st') \<Rightarrow> entries st' = [e] \<and> address st' e mod 16 = 0 \<and> store_find st' 0xfff005 = Some e
    | _ \<Rightarrow> False)"
proof -
  have u: "used sample_store = 24" "max_size sample_store = 128" "st_base sample_store mod 16 = 0"
    by (simp_all add: used_def max_size_def sample_store_def store_header_def store_read_def HEADER_SIZE_def
        byte_simps lh_at_as_bytes)
  have n: "next_multiple_of 32 16 = 32" "next_multiple_of 16 8 = 16"
    by (simp_all add: next_multiple_of_def)
  have f: "store_find sample_store 0xfff005 = None"
    using run_inv [OF sample_run] by (simp add: store_find_def)
  show ?thesis
    using sample_run store_add_spec [OF sample_run, of "0xfff005" 16 4] u n f
    by (auto simp: VOID_def split: result.splits)
qed

text \<open>
  C31: \<open>relocate\<close> copies a store without changing what it holds: where it succeeds, the store
  at the destination can be opened, has the same entries with the same offsets and bytes,
  and keeps every power-of-two alignment the list records.
\<close>

theorem store_relocate_preserves:
  assumes "run st es" and "relocate st dest mem w = Ok st'" and "w \<le> length mem"
  shows "store_open dest (st_mem st') w = Ok st' \<and> entries st' = es \<and>
    (\<forall>e\<in>set es. entry_bytes st' e = entry_bytes st e \<and>
      (\<forall>k \<le> unat (lh_alignment (store_header st)). address st e mod 2 ^ k = 0 \<longrightarrow> address st' e mod 2 ^ k = 0))"
proof -
  have i: "store_inv st" "entries st = es"
    using run_inv [OF assms(1)] by auto
  obtain fs where s: "store_ok st" "all_path st fs" "entries st = filter (\<lambda>e. en_tag e \<noteq> VOID) fs"
      "3 \<le> unat (lh_alignment (store_header st))"
    using store_invE [OF i(1)] by metis
  have d: "dest mod 2 ^ unat (lh_alignment (store_header st)) = 0" "max_size st' \<le> w"
    using relocate_max [OF assms(2)] by auto
  then have d8: "dest mod 8 = 0"
    using mod_8_max [of dest "unat (lh_alignment (store_header st))"] s(4) by (simp add: max_def)
  note f = relocate_ok [OF s(1,2) assms(2,3) d8]
  have "entry_bytes st' e = entry_bytes st e" if "e \<in> set es" for e
    using entry_bytes_agree [OF s(1,2) _ f(4)] that s(3) i(2) by auto
  moreover have "address st' e mod 2 ^ k = 0"
    if "k \<le> unat (lh_alignment (store_header st))" "address st e mod 2 ^ k = 0" for e k
  proof -
    have "2 ^ k dvd dest" "2 ^ k dvd st_base st"
      using d(1) s(1) that(1) power_le_dvd [of 2 _ _ k] by (auto simp: store_ok_def)
    then show ?thesis
      using that(2) f(3) by (simp add: address_def dvd_add_right_iff mod_eq_0_iff_dvd)
  qed
  ultimately show ?thesis
    using store_ok_opens [OF f(1) d(2)] f(3) relocate_inv [OF i(1) assms(2,3)] i(2) by auto
qed

lemma relocate_succeeds:
  assumes "store_inv st" "dest mod 2 ^ unat (lh_alignment (store_header st)) = 0"
    "used st \<le> (min w (2 ^ 32 - 1) div 8) * 8" "w \<le> length mem"
  shows "\<exists>st'. relocate st dest mem w = Ok st'"
proof -
  have u: "used st \<le> length (st_mem st)" "24 \<le> used st"
    using store_inv_layout(3,4) [OF assms(1)] store_inv_first [OF assms(1)] by auto
  define m where "m = (min w (2 ^ 32 - 1) div 8) * 8"
  have "used st \<le> m" "m \<le> w"
    using assms(3) unfolding m_def by auto
  obtain s1 where s1: "store_write \<lparr>st_base = dest, st_mem = mem\<rparr> 0 (sub (st_mem st) 0 (used st)) = Ok s1"
      "length (st_mem s1) = length mem"
    using write_Ok [of 0 "sub (st_mem st) 0 (used st)" "\<lparr>st_base = dest, st_mem = mem\<rparr>"] u \<open>used st \<le> m\<close> \<open>m \<le> w\<close> assms(4)
    by auto
  then obtain s2 where "write_header s1 ((store_header s1)\<lparr>lh_max_size := word_of_nat m\<rparr>) = Ok s2"
    using write_header_Ok [of s1] u(2) \<open>used st \<le> m\<close> \<open>m \<le> w\<close> assms(4) by fastforce
  then show ?thesis
    using s1(1) assms(2) \<open>used st \<le> m\<close>
    unfolding relocate_def Let_def store_consts m_def [symmetric] by simp
qed

theorem store_relocate_preserves_witness:
  "\<exists>e st st'. store_add sample_store 0xfff005 16 4 = Ok (e, st) \<and> relocate st 0 (replicate 128 0) 128 = Ok st' \<and>
     store_open 0 (st_mem st') 128 = Ok st' \<and> entries st' = [e] \<and> entry_bytes st' e = entry_bytes st e"
proof -
  have i: "store_inv sample_store" "entries sample_store = []"
    using run_inv [OF sample_run] by auto
  have u: "used sample_store = 24" "max_size sample_store = 128" "st_base sample_store mod 16 = 0"
    by (simp_all add: used_def max_size_def sample_store_def store_header_def store_read_def HEADER_SIZE_def
        byte_simps lh_at_as_bytes)
  have "\<exists>e st. store_add sample_store 0xfff005 16 4 = Ok (e, st)"
    using u by (subst store_add_Ok_iff(1) [OF i(1) refl]) (simp add: VOID_def place_def next_multiple_of_def)
  then obtain e st where a: "store_add sample_store 0xfff005 16 4 = Ok (e, st)" by blast
  have r: "run st [e]"
    using run.add [OF sample_run a] by simp
  have inv: "store_inv st"
    using run_inv [OF r] by simp
  obtain fs where "store_ok sample_store" "all_path sample_store fs"
    using store_invE [OF i(1)] by metis
  then have "max_size st = 128"
    using add_ok(12) [OF _ _ a] u(2) by simp
  then have "used st \<le> (min 128 (2 ^ 32 - 1) div 8) * 8"
    using store_inv_layout(3) [OF inv] by simp
  then obtain st' where "relocate st 0 (replicate 128 0) 128 = Ok st'"
    using relocate_succeeds [OF inv, of 0 128 "replicate 128 0"] by auto
  then show ?thesis
    using store_relocate_preserves [OF r] a by fastforce
qed

end
