(* ===== verification/Boot_Media.thy ===== *)
theory Boot_Media
  imports Memory
begin

text \<open>
  Access to the boot medium (\<^verbatim>\<open>crates/core/src/services/boot_media.rs\<close>, \<^verbatim>\<open>firmware.rs\<close>). The
  trait \<open>BootMedia\<close> is a record of its three methods; its implementations build such records:
  flash mapped into memory, linearly or through the windows of a firmware image, a block device,
  and a sub-region of another medium. \<open>read_at\<close> takes the buffer and returns its outcome with the
  buffer it leaves behind. A memory-mapped view is its address and its bytes. \<open>um\<close> is the largest \<open>usize\<close>;
  an addition that overflows without a check aborts.
\<close>

section \<open>Errors\<close>

datatype service_error =
  ServiceTimeout | InvalidParam | HardwareError | NoDevice | NotSupported | NotInitialized | IoError

section \<open>Firmware image windows\<close>

record firmware_window =
  fw_flash_offset :: u64
  fw_cpu_base :: u64
  fw_size :: u64

definition EMPTY_WINDOW :: firmware_window where
  "EMPTY_WINDOW = \<lparr>fw_flash_offset = 0, fw_cpu_base = 0, fw_size = 0\<rparr>"

definition flash_end :: "firmware_window \<Rightarrow> u64 option" where
  "flash_end w = checked_add (fw_flash_offset w) (fw_size w)"

definition cpu_end :: "firmware_window \<Rightarrow> u64 option" where
  "cpu_end w = checked_add (fw_cpu_base w) (fw_size w)"

definition window_contains :: "u64 \<Rightarrow> firmware_window \<Rightarrow> bool" where
  "window_contains offset w =
     (case flash_end w of None \<Rightarrow> False | Some stop \<Rightarrow> offset \<ge> fw_flash_offset w \<and> offset < stop)"

record firmware_image =
  fi_size :: u64
  fi_windows :: "firmware_window list"
  fi_window_count :: u8

definition single_window :: "u64 \<Rightarrow> u64 \<Rightarrow> firmware_image" where
  "single_window base sz =
     \<lparr>fi_size = sz,
      fi_windows = [\<lparr>fw_flash_offset = 0, fw_cpu_base = base, fw_size = sz\<rparr>, EMPTY_WINDOW, EMPTY_WINDOW, EMPTY_WINDOW],
      fi_window_count = 1\<rparr>"

text \<open>The subtraction overflows, which a checked build panics on, for an image above 4 GiB.\<close>

definition x86_top_of_4g :: "u64 \<Rightarrow> ('e, firmware_image) result" where
  "x86_top_of_4g sz =
     (case checked_sub 0x100000000 sz of None \<Rightarrow> Panic | Some base \<Rightarrow> Ok (single_window base sz))"

definition active_windows :: "firmware_image \<Rightarrow> firmware_window list" where
  "active_windows i = take (min (unat (fi_window_count i)) (length (fi_windows i))) (fi_windows i)"

definition image_validate :: "firmware_image \<Rightarrow> (service_error, unit) result" where
  "image_validate i =
     (if unat (fi_window_count i) > length (fi_windows i) then Err InvalidParam
      else for_each (\<lambda>w.
        rbind (ok_or (flash_end w) InvalidParam) (\<lambda>stop.
        rbind (ok_or (cpu_end w) InvalidParam) (\<lambda>_.
        if stop > fi_size i then Err InvalidParam else Ok ()))) (active_windows i))"

definition contiguous_window :: "firmware_image \<Rightarrow> firmware_window option" where
  "contiguous_window i =
     (if fi_window_count i = 1
      then let w = fi_windows i ! 0
           in if fw_flash_offset w = 0 \<and> fw_size w = fi_size i then Some w else None
      else None)"

definition image_translate :: "firmware_image \<Rightarrow> u64 \<Rightarrow> u64 option" where
  "image_translate i offset =
     (case find (window_contains offset) (active_windows i) of
        None \<Rightarrow> None
      | Some w \<Rightarrow> checked_add (fw_cpu_base w) (offset - fw_flash_offset w))"

section \<open>Flash maps\<close>

datatype flash_map = LinearMap nat | FirmwareImageMap firmware_image

fun map_translate :: "nat \<Rightarrow> flash_map \<Rightarrow> nat \<Rightarrow> nat" where
  "map_translate um (LinearMap base) offset = base + offset"
| "map_translate um (FirmwareImageMap i) offset =
     (case image_translate i (word_of_nat offset) of None \<Rightarrow> 0 | Some a \<Rightarrow> unat a mod (um + 1))"

fun contiguous_len :: "nat \<Rightarrow> flash_map \<Rightarrow> nat \<Rightarrow> nat \<Rightarrow> nat" where
  "contiguous_len um (LinearMap base) offset max_len = max_len"
| "contiguous_len um (FirmwareImageMap i) offset max_len =
     (case find (window_contains (word_of_nat offset)) (active_windows i) of
        None \<Rightarrow> 0
      | Some w \<Rightarrow>
          (case flash_end w of
             None \<Rightarrow> 0
           | Some stop \<Rightarrow> min (unat (stop - word_of_nat offset) mod (um + 1)) max_len))"

text \<open>An empty slice has the dangling address 1.\<close>

fun as_contiguous_slice :: "nat \<Rightarrow> memory \<Rightarrow> flash_map \<Rightarrow> nat \<Rightarrow> (nat \<times> bytes) option" where
  "as_contiguous_slice um m (LinearMap base) sz =
     (if sz = 0 then Some (1, [])
      else if base = 0 then None
      else Some (base, peek m base sz))"
| "as_contiguous_slice um m (FirmwareImageMap i) sz =
     (case contiguous_window i of
        None \<Rightarrow> None
      | Some w \<Rightarrow>
          if unat (fw_size w) mod (um + 1) \<noteq> sz then None
          else if sz = 0 then Some (1, [])
          else if fw_cpu_base w = 0 then None
          else let a = unat (fw_cpu_base w) mod (um + 1) in Some (a, peek m a sz))"

section \<open>Media\<close>

record boot_media =
  bm_read_at :: "nat \<Rightarrow> bytes \<Rightarrow> (service_error, nat) result \<times> bytes"
  bm_size :: nat
  bm_slice :: "(nat \<times> bytes) option"

definition out_of_bounds :: "nat \<Rightarrow> nat \<Rightarrow> nat \<Rightarrow> nat \<Rightarrow> bool" where
  "out_of_bounds um offset len sz =
     (case usize_add um offset len of None \<Rightarrow> True | Some stop \<Rightarrow> stop > sz)"

lemma contiguous_len_le: "contiguous_len um fm offset n \<le> n"
  by (cases fm) (auto split: option.split)

function copy_chunks ::
  "nat \<Rightarrow> memory \<Rightarrow> flash_map \<Rightarrow> nat \<Rightarrow> nat \<Rightarrow> bytes \<Rightarrow> (service_error, nat) result \<times> bytes" where
  "copy_chunks um m fm offset copied buf =
     (if copied < length buf
      then let flash_offset = offset + copied;
               chunk_len = contiguous_len um fm flash_offset (length buf - copied)
           in if chunk_len = 0 then (Err InvalidParam, buf)
              else copy_chunks um m fm offset (copied + chunk_len)
                     (write_at buf copied (peek m (map_translate um fm flash_offset) chunk_len))
      else (Ok (length buf), buf))"
  by pat_completeness auto

termination
proof (relation "measure (\<lambda>(um, m, fm, offset, copied, buf). length buf - copied)", goal_cases)
  case (2 um m fm offset copied buf fo n)
  then show ?case
    using contiguous_len_le [of um fm fo "length buf - copied"] by (auto simp: write_at_def)
qed simp

declare copy_chunks.simps [simp del]

definition memory_mapped :: "nat \<Rightarrow> memory \<Rightarrow> flash_map \<Rightarrow> nat \<Rightarrow> boot_media" where
  "memory_mapped um m fm sz =
     \<lparr>bm_read_at = (\<lambda>offset buf.
        if out_of_bounds um offset (length buf) sz then (Err InvalidParam, buf)
        else copy_chunks um m fm offset 0 buf),
      bm_size = sz,
      bm_slice = as_contiguous_slice um m fm sz\<rparr>"

definition block_device_media ::
  "nat \<Rightarrow> (u64 \<Rightarrow> bytes \<Rightarrow> (service_error, nat) result \<times> bytes) \<Rightarrow> u64 \<Rightarrow> nat \<Rightarrow> boot_media" where
  "block_device_media um read base_offset media_size =
     \<lparr>bm_read_at = (\<lambda>offset buf.
        if out_of_bounds um offset (length buf) media_size then (Err InvalidParam, buf)
        else case checked_add base_offset (word_of_nat offset) of
               None \<Rightarrow> (Panic, buf)
             | Some at \<Rightarrow> read at buf),
      bm_size = media_size,
      bm_slice = None\<rparr>"

text \<open>The addition and the slice inside the parent were checked by the constructor.\<close>

definition sub_region :: "nat \<Rightarrow> boot_media \<Rightarrow> nat \<Rightarrow> nat \<Rightarrow> boot_media option" where
  "sub_region um parent offset sz =
     (if out_of_bounds um offset sz (bm_size parent) then None
      else Some
        \<lparr>bm_read_at = (\<lambda>at buf.
           if out_of_bounds um at (length buf) sz then (Err InvalidParam, buf)
           else bm_read_at parent (offset + at) buf),
         bm_size = sz,
         bm_slice = map_option (\<lambda>(a, s). (a + offset, sub s offset sz)) (bm_slice parent)\<rparr>)"

section \<open>Temporary memory\<close>

record temp_arena =
  ta_base :: nat
  ta_size :: nat
  ta_used :: nat

definition arena_new :: "nat \<Rightarrow> u64 \<Rightarrow> u64 \<Rightarrow> (service_error, temp_arena) result" where
  "arena_new um base sz =
     (if unat base > um then Err InvalidParam
      else if unat sz > um then Err InvalidParam
      else if sz \<noteq> 0 \<and> base = 0 then Err InvalidParam
      else rbind (ok_or (usize_add um (unat base) (unat sz)) InvalidParam) (\<lambda>_.
           Ok \<lparr>ta_base = unat base, ta_size = unat sz, ta_used = 0\<rparr>))"

definition arena_reset :: "temp_arena \<Rightarrow> temp_arena" where
  "arena_reset t = t\<lparr>ta_used := 0\<rparr>"

text \<open>
  Masking with \<open>!(align - 1)\<close> rounds down to a multiple of the power of two. The result is the
  address of the allocation and the arena behind it.
\<close>

fun is_power_of_two :: "nat \<Rightarrow> bool" where
  "is_power_of_two n = (if n \<le> 1 then n = 1 else if n mod 2 = 0 then is_power_of_two (n div 2) else False)"

declare is_power_of_two.simps [simp del]

definition arena_alloc :: "nat \<Rightarrow> temp_arena \<Rightarrow> nat \<Rightarrow> nat \<Rightarrow> (nat \<times> temp_arena) option" where
  "arena_alloc um t len align =
     (let align = max align 1 in
      if \<not> is_power_of_two align then None
      else Option.bind (usize_add um (ta_base t) (ta_used t)) (\<lambda>raw_start.
           Option.bind (usize_add um raw_start (align - 1)) (\<lambda>padded.
           let aligned_start = padded div align * align in
           if aligned_start < ta_base t then None
           else let start = aligned_start - ta_base t in
             Option.bind (usize_add um start len) (\<lambda>stop.
             if stop > ta_size t then None
             else Some (aligned_start, t\<lparr>ta_used := stop\<rparr>)))))"

definition read_to_temp ::
  "nat \<Rightarrow> boot_media \<Rightarrow> nat \<Rightarrow> nat \<Rightarrow> temp_arena \<Rightarrow> memory \<Rightarrow> (service_error, bytes) result \<times> temp_arena \<times> memory" where
  "read_to_temp um media offset len arena m =
     (case arena_alloc um arena len 8 of
        None \<Rightarrow> (Err InvalidParam, arena, m)
      | Some (at, arena') \<Rightarrow>
          (case bm_read_at media offset (peek m at len) of
             (r, buf) \<Rightarrow> (rbind r (\<lambda>n. if n \<noteq> len then Err InvalidParam else Ok buf), arena', poke m at buf)))"

section \<open>Interface: a medium that shows some contents\<close>

text \<open>
  A medium may refuse a read, but a complete read gives exactly the bytes at the
  offset, and a mapped view is all of them.
\<close>

locale boot_media_view =
  fixes media :: boot_media and content :: bytes
  assumes view_size: "bm_size media = length content"
    and view_keeps: "bm_read_at media offset buf = (r, buf') \<Longrightarrow> length buf' = length buf"
    and view_read: "bm_read_at media offset buf = (Ok n, buf') \<Longrightarrow> n = length buf \<Longrightarrow>
      offset + n \<le> length content \<and> buf' = sub content offset n"
    and view_slice: "bm_slice media = Some (a, bs) \<Longrightarrow> bs = content"
begin

lemma sub_region_view:
  assumes "sub_region um media offset sz = Some r"
  shows "boot_media_view r (sub content offset sz)"
proof -
  have b: "offset + sz \<le> length content"
    using assms by (auto simp: sub_region_def out_of_bounds_def view_size split: if_splits option.splits)
  have r: "bm_size r = sz" "bm_slice r = map_option (\<lambda>(a, s). (a + offset, sub s offset sz)) (bm_slice media)"
    "bm_read_at r = (\<lambda>at buf. if out_of_bounds um at (length buf) sz then (Err InvalidParam, buf)
       else bm_read_at media (offset + at) buf)"
    using assms by (auto simp: sub_region_def split: if_splits)
  show ?thesis
  proof
    show "bm_size r = length (sub content offset sz)"
      using b by (simp add: r)
  next
    fix at buf res buf'
    assume "bm_read_at r at buf = (res, buf')"
    then show "length buf' = length buf"
      using view_keeps by (auto simp: r split: if_splits)
  next
    fix at buf n buf'
    assume a: "bm_read_at r at buf = (Ok n, buf')" "n = length buf"
    then have "at + n \<le> sz" and p: "bm_read_at media (offset + at) buf = (Ok n, buf')"
      by (auto simp: r out_of_bounds_def split: if_splits option.splits)
    then show "at + n \<le> length (sub content offset sz) \<and> buf' = sub (sub content offset sz) at n"
      using view_read [OF p a(2)] b by (simp add: sub_sub)
  next
    fix a bs
    assume "bm_slice r = Some (a, bs)"
    then show "bs = sub content offset sz"
      using view_slice by (auto simp: r)
  qed
qed

end

section \<open>Linear maps\<close>

lemma out_of_bounds_iff: "\<not> out_of_bounds um offset len sz \<longleftrightarrow> offset + len \<le> um \<and> offset + len \<le> sz"
  by (auto simp: out_of_bounds_def usize_add_def)

lemma write_at_whole: "length ys = length xs \<Longrightarrow> write_at xs 0 ys = ys"
  by (simp add: write_at_def)

lemma copy_chunks_done: "copy_chunks um m fm offset (length buf) buf = (Ok (length buf), buf)"
  by (subst copy_chunks.simps) simp

lemma linear_copy:
  "copy_chunks um m (LinearMap base) offset 0 buf = (Ok (length buf), peek m (base + offset) (length buf))"
proof (cases "buf = []")
  case True
  then show ?thesis by (subst copy_chunks.simps) (simp add: peek_def)
next
  case False
  then show ?thesis
    using copy_chunks_done [of um m "LinearMap base" offset "peek m (base + offset) (length buf)"]
    by (subst copy_chunks.simps) (simp add: write_at_whole Let_def)
qed

interpretation linear_flash: boot_media_view "memory_mapped um m (LinearMap base) sz" "peek m base sz"
proof
  show "bm_size (memory_mapped um m (LinearMap base) sz) = length (peek m base sz)"
    by (simp add: memory_mapped_def)
next
  fix offset buf r buf'
  assume "bm_read_at (memory_mapped um m (LinearMap base) sz) offset buf = (r, buf')"
  then show "length buf' = length buf"
    by (auto simp: memory_mapped_def linear_copy split: if_splits)
next
  fix offset buf n buf'
  assume "bm_read_at (memory_mapped um m (LinearMap base) sz) offset buf = (Ok n, buf')" "n = length buf"
  then show "offset + n \<le> length (peek m base sz) \<and> buf' = sub (peek m base sz) offset n"
    by (auto simp: memory_mapped_def linear_copy out_of_bounds_iff sub_peek split: if_splits)
next
  fix a bs
  assume "bm_slice (memory_mapped um m (LinearMap base) sz) = Some (a, bs)"
  then show "bs = peek m base sz"
    by (auto simp: memory_mapped_def peek_def split: if_splits)
qed

section \<open>Windowed maps\<close>

text \<open>
  What the hardware promises: every active window shows the bytes of the image at its offset,
  and lies in the address space of the target.
\<close>

locale firmware_windows =
  fixes um :: nat and m :: memory and image :: firmware_image and content :: bytes
  assumes usize: "um < 2 ^ 64" "length content \<le> um"
    and four: "length (fi_windows image) = 4"
    and image_size: "unat (fi_size image) = length content"
    and shown: "w \<in> set (active_windows image) \<Longrightarrow> k < unat (fw_size w) \<Longrightarrow>
      m (unat (fw_cpu_base w) + k) = content ! (unat (fw_flash_offset w) + k)"
    and placed: "w \<in> set (active_windows image) \<Longrightarrow> unat (fw_flash_offset w) + unat (fw_size w) \<le> length content \<and>
      unat (fw_cpu_base w) + unat (fw_size w) \<le> um + 1"
begin

lemma window_contains_iff:
  assumes "w \<in> set (active_windows image)" "k < length content"
  shows "window_contains (word_of_nat k) w \<longleftrightarrow>
    unat (fw_flash_offset w) \<le> k \<and> k < unat (fw_flash_offset w) + unat (fw_size w)"
proof -
  have "k < 2 ^ 64"
    using assms(2) usize by simp
  then have k: "unat (word_of_nat k :: u64) = k"
    by (simp add: unat_of_nat)
  have e: "flash_end w = Some (fw_flash_offset w + fw_size w)"
    "unat (fw_flash_offset w + fw_size w) = unat (fw_flash_offset w) + unat (fw_size w)"
    using placed [OF assms(1)] usize by (auto simp: flash_end_def checked_add_def unat_checked_add)
  show ?thesis
    unfolding window_contains_def e(1) option.case word_le_nat_alt word_less_nat_alt k e(2) ..
qed

definition covered :: "nat \<Rightarrow> bool" where
  "covered k \<longleftrightarrow> (\<exists>w \<in> set (active_windows image). window_contains (word_of_nat k) w)"

lemma found_window:
  assumes "covered k" "k < length content"
  obtains w where "find (window_contains (word_of_nat k)) (active_windows image) = Some w"
    "w \<in> set (active_windows image)" "unat (fw_flash_offset w) \<le> k" "k < unat (fw_flash_offset w) + unat (fw_size w)"
proof -
  obtain w where w: "find (window_contains (word_of_nat k)) (active_windows image) = Some w"
    using assms(1) by (cases "find (window_contains (word_of_nat k)) (active_windows image)")
      (auto simp: find_None_iff covered_def)
  then have "w \<in> set (active_windows image)" "window_contains (word_of_nat k) w"
    by (auto simp: find_Some_iff)
  then show thesis
    using that w window_contains_iff [OF _ assms(2)] by blast
qed

lemma uncovered_len: "\<not> covered k \<Longrightarrow> contiguous_len um (FirmwareImageMap image) k n = 0"
  using find_None_iff [of "window_contains (word_of_nat k)" "active_windows image"]
  by (auto simp: covered_def)

lemma covered_chunk:
  assumes "covered k" "k < length content" "0 < n"
  obtains c where "contiguous_len um (FirmwareImageMap image) k n = c" "0 < c" "c \<le> n" "k + c \<le> length content"
    "peek m (map_translate um (FirmwareImageMap image) k) c = sub content k c" "\<And>j. j < c \<Longrightarrow> covered (k + j)"
proof -
  obtain w where f: "find (window_contains (word_of_nat k)) (active_windows image) = Some w"
      and w: "w \<in> set (active_windows image)" and r: "unat (fw_flash_offset w) \<le> k"
        "k < unat (fw_flash_offset w) + unat (fw_size w)"
    by (rule found_window [OF assms(1,2)])
  have p: "unat (fw_flash_offset w) + unat (fw_size w) \<le> length content"
    "unat (fw_cpu_base w) + unat (fw_size w) \<le> um + 1"
    using placed [OF w] by auto
  have k: "unat (word_of_nat k :: u64) = k"
    using assms(2) usize by (simp add: unat_of_nat)
  let ?d = "k - unat (fw_flash_offset w)" and ?c = "min (unat (fw_flash_offset w) + unat (fw_size w) - k) n"
  have e: "flash_end w = Some (fw_flash_offset w + fw_size w)"
    "unat (fw_flash_offset w + fw_size w) = unat (fw_flash_offset w) + unat (fw_size w)"
    using p usize by (auto simp: flash_end_def checked_add_def unat_checked_add)
  have "unat (fw_flash_offset w + fw_size w - word_of_nat k) = unat (fw_flash_offset w) + unat (fw_size w) - k"
    using r(2) by (subst unat_sub) (simp_all add: word_le_nat_alt k e(2))
  moreover have "unat (fw_flash_offset w) + unat (fw_size w) - k \<le> um"
    using p(1) usize by simp
  ultimately have c: "contiguous_len um (FirmwareImageMap image) k n = ?c"
    by (simp add: f e(1))
  have d: "unat (word_of_nat k - fw_flash_offset w :: u64) = ?d"
    using r(1) by (subst unat_sub) (simp_all add: word_le_nat_alt k)
  have a: "unat (fw_cpu_base w) + ?d \<le> um"
    using p(2) r by simp
  then have s: "checked_add (fw_cpu_base w) (word_of_nat k - fw_flash_offset w) =
      Some (fw_cpu_base w + (word_of_nat k - fw_flash_offset w))"
    "unat (fw_cpu_base w + (word_of_nat k - fw_flash_offset w)) = unat (fw_cpu_base w) + ?d"
    using usize(1) by (auto simp: checked_add_def d unat_checked_add)
  have t: "map_translate um (FirmwareImageMap image) k = unat (fw_cpu_base w) + ?d"
    using a by (simp add: image_translate_def f s)
  have "peek m (unat (fw_cpu_base w) + ?d) ?c = sub content k ?c"
  proof (rule nth_equalityI)
    fix j
    assume "j < length (peek m (unat (fw_cpu_base w) + ?d) ?c)"
    then have j: "j < ?c" by simp
    then have "?d + j < unat (fw_size w)"
      using r by linarith
    then have "m (unat (fw_cpu_base w) + (?d + j)) = content ! (unat (fw_flash_offset w) + (?d + j))"
      by (rule shown [OF w])
    moreover have "unat (fw_flash_offset w) + (?d + j) = k + j" "k + ?c \<le> length content"
      using r p(1) by auto
    ultimately show "peek m (unat (fw_cpu_base w) + ?d) ?c ! j = sub content k ?c ! j"
      using j by (simp only: nth_peek sub_nth add.assoc)
  qed (use p(1) r in simp)
  moreover have "covered (k + j)" if "j < ?c" for j
  proof -
    have "k + j < unat (fw_flash_offset w) + unat (fw_size w)"
      using that by linarith
    then have "window_contains (word_of_nat (k + j)) w"
      using p(1) r(1) window_contains_iff [OF w, of "k + j"] by simp
    then show ?thesis
      unfolding covered_def using w by blast
  qed
  ultimately show thesis
    using that [OF c] assms(3) p(1) r t by simp
qed

lemma window_copy:
  assumes "copied \<le> length buf" "offset + length buf \<le> length content"
    and "\<And>k. offset + copied \<le> k \<Longrightarrow> k < offset + length buf \<Longrightarrow> covered k"
  shows "copy_chunks um m (FirmwareImageMap image) offset copied buf =
    (Ok (length buf), take copied buf @ sub content (offset + copied) (length buf - copied))"
  using assms
proof (induction "length buf - copied" arbitrary: copied buf rule: less_induct)
  case less
  show ?case
  proof (cases "copied = length buf")
    case True
    then show ?thesis by (simp add: copy_chunks_done sub_def)
  next
    case False
    then have lt: "copied < length buf" "offset + copied < length content"
      using less.prems by auto
    obtain c where c: "contiguous_len um (FirmwareImageMap image) (offset + copied) (length buf - copied) = c"
        "0 < c" "c \<le> length buf - copied"
        "peek m (map_translate um (FirmwareImageMap image) (offset + copied)) c = sub content (offset + copied) c"
    proof (rule covered_chunk [of "offset + copied" "length buf - copied"], goal_cases)
      case 1
      then show ?case using less.prems(3) lt by simp
    qed (use lt in auto)
    let ?b = "write_at buf copied (sub content (offset + copied) c)"
    have l: "length (sub content (offset + copied) c) = c"
      using c(3) less.prems(2) lt by simp
    then have lb: "length ?b = length buf"
      using c(3) lt by (simp add: length_write_at)
    have "copy_chunks um m (FirmwareImageMap image) offset (copied + c) ?b =
      (Ok (length ?b), take (copied + c) ?b @ sub content (offset + (copied + c)) (length ?b - (copied + c)))"
      using less.prems c lt by (intro less.hyps) (auto simp: lb)
    moreover have "take (copied + c) ?b = take copied buf @ sub content (offset + copied) c"
      using l lt c(3) by (simp add: write_at_def)
    moreover have "sub content (offset + copied) c @ sub content (offset + copied + c) (length buf - (copied + c)) =
        sub content (offset + copied) (length buf - copied)"
      using c(3) lt by (subst sub_join) auto
    ultimately show ?thesis
      using lt c by (subst copy_chunks.simps) (simp add: Let_def lb add.assoc)
  qed
qed

lemma window_copy_fails:
  assumes "copied \<le> length buf" "offset + length buf \<le> length content"
    and "offset + copied \<le> k" "k < offset + length buf" "\<not> covered k"
  shows "\<exists>buf'. copy_chunks um m (FirmwareImageMap image) offset copied buf = (Err InvalidParam, buf') \<and> length buf' = length buf"
  using assms
proof (induction "length buf - copied" arbitrary: copied buf rule: less_induct)
  case less
  then have lt: "copied < length buf" "offset + copied < length content"
    by auto
  show ?case
  proof (cases "covered (offset + copied)")
    case False
    then show ?thesis
      using lt uncovered_len [OF False] by (subst copy_chunks.simps) simp
  next
    case True
    obtain c where c: "contiguous_len um (FirmwareImageMap image) (offset + copied) (length buf - copied) = c"
        "0 < c" "c \<le> length buf - copied" "offset + copied + c \<le> length content"
        "peek m (map_translate um (FirmwareImageMap image) (offset + copied)) c = sub content (offset + copied) c"
        "\<And>j. j < c \<Longrightarrow> covered (offset + copied + j)"
      by (rule covered_chunk [OF True lt(2), of "length buf - copied"]) (use lt in auto)
    let ?b = "write_at buf copied (sub content (offset + copied) c)"
    have lb: "length ?b = length buf"
      using c(3,4) lt by (simp add: length_write_at)
    have "offset + (copied + c) \<le> k"
      using c(6) [of "k - (offset + copied)"] less.prems(3,5) by (cases "k < offset + copied + c") (simp_all, linarith)
    then have "\<exists>buf'. copy_chunks um m (FirmwareImageMap image) offset (copied + c) ?b = (Err InvalidParam, buf') \<and>
        length buf' = length ?b"
      using less.prems c lt by (intro less.hyps) (auto simp: lb)
    then show ?thesis
      using lt c by (subst copy_chunks.simps) (simp add: Let_def lb)
  qed
qed

lemma window_read:
  "case bm_read_at (memory_mapped um m (FirmwareImageMap image) (length content)) offset buf of (r, buf') \<Rightarrow>
     length buf' = length buf \<and>
     (if offset + length buf \<le> length content \<and> (\<forall>k. offset \<le> k \<and> k < offset + length buf \<longrightarrow> covered k)
      then r = Ok (length buf) \<and> buf' = sub content offset (length buf) else r = Err InvalidParam)"
proof (cases "offset + length buf \<le> length content")
  case True
  then have r: "bm_read_at (memory_mapped um m (FirmwareImageMap image) (length content)) offset buf =
      copy_chunks um m (FirmwareImageMap image) offset 0 buf"
    using usize(2) out_of_bounds_iff [of um offset "length buf" "length content"] by (simp add: memory_mapped_def)
  show ?thesis
  proof (cases "\<forall>k. offset \<le> k \<and> k < offset + length buf \<longrightarrow> covered k")
    case all: True
    then have "copy_chunks um m (FirmwareImageMap image) offset 0 buf = (Ok (length buf), sub content offset (length buf))"
      using window_copy [of 0 buf offset] True by simp
    then show ?thesis
      using True all by (simp add: r)
  next
    case False
    then obtain k where k: "offset \<le> k" "k < offset + length buf" "\<not> covered k"
      by blast
    then obtain buf' where "copy_chunks um m (FirmwareImageMap image) offset 0 buf = (Err InvalidParam, buf')"
        "length buf' = length buf"
      using window_copy_fails [of 0 buf offset k] True by auto
    then show ?thesis
      using False by (simp add: r)
  qed
next
  case False
  then have "out_of_bounds um offset (length buf) (length content)"
    using out_of_bounds_iff by blast
  then show ?thesis
    using False by (simp add: memory_mapped_def)
qed

lemma covered_iff:
  "k < length content \<Longrightarrow> covered k \<longleftrightarrow>
    (\<exists>w \<in> set (active_windows image). unat (fw_flash_offset w) \<le> k \<and> k < unat (fw_flash_offset w) + unat (fw_size w))"
  by (simp add: covered_def window_contains_iff)

lemma window_slice:
  assumes "bm_slice (memory_mapped um m (FirmwareImageMap image) (length content)) = Some (a, bs)"
  shows "bs = content"
proof -
  obtain w where c: "contiguous_window image = Some w"
    using assms by (auto simp: memory_mapped_def split: option.splits)
  then have w: "fi_window_count image = 1" "w = fi_windows image ! 0" "fw_flash_offset w = 0" "fw_size w = fi_size image"
    by (auto simp: contiguous_window_def Let_def split: if_splits)
  then have "w \<in> set (active_windows image)"
    using four by (cases "fi_windows image") (simp_all add: active_windows_def)
  note sh = shown [OF this, unfolded w(3,4) image_size] and pl = placed [OF this]
  have "length content = 0 \<or> bs = peek m (unat (fw_cpu_base w) mod (um + 1)) (length content)"
    using assms c by (auto simp: memory_mapped_def Let_def split: if_splits)
  moreover have "length content = 0 \<or> unat (fw_cpu_base w) \<le> um"
    using pl by (cases content) (auto simp: w(4) image_size)
  moreover have "peek m (unat (fw_cpu_base w)) (length content) = content"
    by (rule nth_equalityI) (use sh in \<open>simp_all add: nth_peek\<close>)
  ultimately show ?thesis
    using assms c by (auto simp: memory_mapped_def split: if_splits)
qed

end

sublocale firmware_windows \<subseteq> boot_media_view "memory_mapped um m (FirmwareImageMap image) (length content)" content
proof
  show "bm_size (memory_mapped um m (FirmwareImageMap image) (length content)) = length content"
    by (simp add: memory_mapped_def)
next
  fix offset buf r buf'
  assume "bm_read_at (memory_mapped um m (FirmwareImageMap image) (length content)) offset buf = (r, buf')"
  then show "length buf' = length buf"
    using window_read [where offset = offset and buf = buf] by simp
next
  fix offset buf n buf'
  assume "bm_read_at (memory_mapped um m (FirmwareImageMap image) (length content)) offset buf = (Ok n, buf')" "n = length buf"
  then show "offset + n \<le> length content \<and> buf' = sub content offset n"
    using window_read [where offset = offset and buf = buf] by (auto split: if_splits)
next
  fix a bs
  assume "bm_slice (memory_mapped um m (FirmwareImageMap image) (length content)) = Some (a, bs)"
  then show "bs = content"
    by (rule window_slice)
qed

text \<open>Flash of at most 4 GiB minus one byte, decoded immediately below 4 GiB on a 64-bit target.\<close>

lemma below_4g:
  "(ucast (sz :: u32) :: u64) \<le> 0x100000000" "unat (ucast sz :: u64) = unat sz"
  "unat (0x100000000 - ucast sz :: u64) = 2 ^ 32 - unat sz"
proof -
  show z: "unat (ucast sz :: u64) = unat sz"
    using unat_32_less [of sz] by (simp add: unsigned_ucast_eq take_bit_nat_eq_self)
  show l: "(ucast sz :: u64) \<le> 0x100000000"
    using unat_32_less [of sz] z by (simp add: word_le_nat_alt)
  show "unat (0x100000000 - ucast sz :: u64) = 2 ^ 32 - unat sz"
    using z by (simp add: unat_sub [OF l])
qed

lemma x86_top_of_4g_Ok: "x86_top_of_4g (ucast (sz :: u32)) = Ok (single_window (0x100000000 - ucast sz) (ucast sz))"
  using below_4g(1) [of sz] by (simp add: x86_top_of_4g_def checked_sub_def)

interpretation legacy_flash: firmware_windows "2 ^ 64 - 1" m "single_window (0x100000000 - ucast sz) (ucast (sz :: u32))"
  "peek m (2 ^ 32 - unat sz) (unat sz)" for m sz
proof -
  let ?w = "single_window (0x100000000 - ucast sz) (ucast sz)"
  have z: "unat sz < 2 ^ 32" "unat (ucast sz :: u64) = unat sz" "unat (0x100000000 - ucast sz :: u64) = 2 ^ 32 - unat sz"
    using unat_32_less [of sz] below_4g(2,3) by simp_all
  have a: "active_windows ?w = [\<lparr>fw_flash_offset = 0, fw_cpu_base = 0x100000000 - ucast sz, fw_size = ucast sz\<rparr>]"
    by (simp add: active_windows_def single_window_def)
  have f: "fi_size ?w = ucast sz" "length (fi_windows ?w) = 4"
    by (simp_all add: single_window_def)
  show "firmware_windows (2 ^ 64 - 1) m ?w (peek m (2 ^ 32 - unat sz) (unat sz))"
    by unfold_locales (use z in \<open>auto simp: a f nth_peek\<close>)
qed

text \<open>Reading the image that \<open>x86_top_of_4g\<close> describes gives the bytes below 4 GiB.\<close>

lemma legacy_flash_reads:
  assumes "x86_top_of_4g (ucast (sz :: u32)) = Ok img" "offset + length buf \<le> unat sz"
  shows "bm_read_at (memory_mapped (2 ^ 64 - 1) m (FirmwareImageMap img) (unat sz)) offset buf =
    (Ok (length buf), peek m (2 ^ 32 - unat sz + offset) (length buf))"
proof -
  have img: "img = single_window (0x100000000 - ucast sz) (ucast sz)"
    using assms(1) x86_top_of_4g_Ok by (metis result.inject(1))
  have "sub (peek m (2 ^ 32 - unat sz) (unat sz)) offset (length buf) = peek m (2 ^ 32 - unat sz + offset) (length buf)"
    using assms(2) by (simp add: sub_peek)
  moreover have "legacy_flash.covered sz k" if "k < offset + length buf" for k
    unfolding legacy_flash.covered_def
    using that assms(2) below_4g(2) [of sz] unat_32_less [of sz]
    by (simp add: active_windows_def single_window_def window_contains_def flash_end_def checked_add_def
        word_less_nat_alt unat_of_nat)
  ultimately show ?thesis
    using legacy_flash.window_read [where m = m and sz = sz and offset = offset and buf = buf] assms(2) by (auto simp: img)
qed

section \<open>Block devices\<close>

text \<open>A device that reads faithfully makes a faithful medium of the part it is given.\<close>

lemma block_device_view:
  assumes disk: "unat base + sz \<le> length disk" "sz < 2 ^ 64"
    and keeps: "\<And>at buf r buf'. read at buf = (r, buf') \<Longrightarrow> length buf' = length buf"
    and reads: "\<And>at buf buf'. read at buf = (Ok (length buf), buf') \<Longrightarrow> buf' = sub disk (unat at) (length buf)"
  shows "boot_media_view (block_device_media um read base sz) (sub disk (unat base) sz)"
proof
  fix offset buf n buf'
  assume a: "bm_read_at (block_device_media um read base sz) offset buf = (Ok n, buf')" "n = length buf"
  then have b: "offset + n \<le> sz"
    by (auto simp: block_device_media_def out_of_bounds_def split: if_splits option.splits)
  then obtain at where r: "checked_add base (word_of_nat offset) = Some at" "read at buf = (Ok n, buf')"
    using a by (auto simp: block_device_media_def split: if_splits option.splits)
  have "unat at = unat base + offset"
    using checked_add_SomeD [OF r(1)] b disk(2) by (simp add: unat_of_nat)
  then show "offset + n \<le> length (sub disk (unat base) sz) \<and> buf' = sub (sub disk (unat base) sz) offset n"
    using reads [of at buf buf'] r(2) a(2) b disk by (simp add: sub_sub)
next
  fix offset buf r buf'
  assume "bm_read_at (block_device_media um read base sz) offset buf = (r, buf')"
  then show "length buf' = length buf"
    using keeps by (auto simp: block_device_media_def split: if_splits option.splits)
qed (use disk(1) in \<open>simp_all add: block_device_media_def\<close>)

section \<open>The arena\<close>

lemma round_up: "0 < a \<Longrightarrow> n \<le> (n + (a - 1)) div a * (a :: nat)"
  using div_mult_mod_eq [of "n + (a - 1)" a] mod_less_divisor [of a "n + (a - 1)"] by linarith

text \<open>An allocation is aligned, inside the arena and behind everything allocated since the reset.\<close>

lemma arena_alloc_place:
  assumes "arena_alloc um t len align = Some (at, t')"
  shows "ta_base t + ta_used t \<le> at" "at + len = ta_base t + ta_used t'" "ta_used t' \<le> ta_size t"
    "ta_base t' = ta_base t" "ta_size t' = ta_size t" "at mod max align 1 = 0"
proof -
  define a where "a = max align 1"
  define s where "s = (ta_base t + ta_used t + (a - 1)) div a * a"
  have "0 < a"
    by (simp add: a_def)
  then have s: "ta_base t + ta_used t \<le> s" "s mod a = 0"
    unfolding s_def by (rule round_up, simp)
  have "arena_alloc um t len align =
      (if is_power_of_two a \<and> ta_base t + ta_used t + (a - 1) \<le> um \<and> s - ta_base t + len \<le> um \<and> s - ta_base t + len \<le> ta_size t
       then Some (s, t\<lparr>ta_used := s - ta_base t + len\<rparr>) else None)"
    unfolding arena_alloc_def Let_def usize_add_def a_def [symmetric]
    using s(1) by (auto simp: s_def)
  then have "at = s" "t' = t\<lparr>ta_used := s - ta_base t + len\<rparr>" "s - ta_base t + len \<le> ta_size t"
    using assms by (auto split: if_splits)
  then show "ta_base t + ta_used t \<le> at" "at + len = ta_base t + ta_used t'" "ta_used t' \<le> ta_size t"
    "ta_base t' = ta_base t" "ta_size t' = ta_size t" "at mod max align 1 = 0"
    using s by (simp_all add: a_def)
qed

section \<open>Properties\<close>

text \<open>
  C38: reading through the windows of a firmware image is total. When the range lies in the image
  and every byte of it is in some window, the read succeeds and the buffer holds exactly those
  bytes, also where the range crosses from one window into another; in every other case it is
  refused as an invalid parameter.
\<close>

theorem firmware_image_read:
  assumes "firmware_windows um m img content"
    and "bm_read_at (memory_mapped um m (FirmwareImageMap img) (length content)) offset buf = (r, buf')"
  shows "length buf' = length buf \<and>
    (if offset + length buf \<le> length content \<and> (\<forall>k. offset \<le> k \<and> k < offset + length buf \<longrightarrow>
          (\<exists>w \<in> set (active_windows img). unat (fw_flash_offset w) \<le> k \<and> k < unat (fw_flash_offset w) + unat (fw_size w)))
     then r = Ok (length buf) \<and> buf' = sub content offset (length buf) else r = Err InvalidParam)"
  using firmware_windows.window_read [OF assms(1), where offset = offset and buf = buf] assms(2)
    firmware_windows.covered_iff [OF assms(1)] by (auto split: if_splits)

text \<open>A sample image of sixteen bytes behind two windows, the upper half first.\<close>

definition two_windows :: firmware_image where
  "two_windows = \<lparr>fi_size = 16,
     fi_windows = [\<lparr>fw_flash_offset = 8, fw_cpu_base = 0x1000, fw_size = 8\<rparr>,
       \<lparr>fw_flash_offset = 0, fw_cpu_base = 0x2000, fw_size = 8\<rparr>, EMPTY_WINDOW, EMPTY_WINDOW],
     fi_window_count = 2\<rparr>"

definition two_window_memory :: memory where
  "two_window_memory a = (if a < 0x2000 then word_of_nat (a - 0x1000 + 8) else word_of_nat (a - 0x2000))"

lemma two_windows_shown: "firmware_windows (2 ^ 64 - 1) two_window_memory two_windows (map word_of_nat [0..<16])"
proof -
  have a: "active_windows two_windows = [\<lparr>fw_flash_offset = 8, fw_cpu_base = 0x1000, fw_size = 8\<rparr>,
       \<lparr>fw_flash_offset = 0, fw_cpu_base = 0x2000, fw_size = 8\<rparr>]"
    by (simp add: active_windows_def two_windows_def)
  have f: "fi_size two_windows = 16" "length (fi_windows two_windows) = 4"
    by (simp_all add: two_windows_def)
  have m: "two_window_memory (0x1000 + k) = word_of_nat (8 + k)" "two_window_memory (0x2000 + k) = word_of_nat k" if "k < 8" for k
    using that by (simp_all add: two_window_memory_def)
  show ?thesis
  proof
    fix w k
    assume "w \<in> set (active_windows two_windows)" "k < unat (fw_size w)"
    then show "two_window_memory (unat (fw_cpu_base w) + k) = map word_of_nat [0..<16] ! (unat (fw_flash_offset w) + k)"
      using m [of k] by (auto simp: a)
  qed (auto simp: a f)
qed

theorem firmware_image_read_witness:
  "bm_read_at (memory_mapped (2 ^ 64 - 1) two_window_memory (FirmwareImageMap two_windows) 16) 6 [0, 0, 0, 0] =
     (Ok 4, [6, 7, 8, 9])"
proof -
  let ?media = "memory_mapped (2 ^ 64 - 1) two_window_memory (FirmwareImageMap two_windows) (length (map word_of_nat [0..<16] :: bytes))"
  obtain r buf' where r: "bm_read_at ?media 6 [0, 0, 0, 0] = (r, buf')"
    by (cases "bm_read_at ?media 6 [0, 0, 0, 0]")
  have "\<exists>w \<in> set (active_windows two_windows). unat (fw_flash_offset w) \<le> k \<and> k < unat (fw_flash_offset w) + unat (fw_size w)"
    if "k < 16" for k
    using that by (cases "k < 8") (simp_all add: active_windows_def two_windows_def)
  moreover have four: "length [0, 0, 0, 0 :: u8] = 4"
    by simp
  ultimately have "r = Ok 4 \<and> buf' = sub (map word_of_nat [0..<16]) 6 4"
    using firmware_image_read [OF two_windows_shown r, unfolded four] by simp
  moreover have "sub (map word_of_nat [0..<16]) 6 4 = [6, 7, 8, 9 :: u8]" "length (map word_of_nat [0..<16] :: bytes) = 16"
    by (simp_all add: sub_def upt_rec)
  ultimately show ?thesis
    using r by simp
qed

end
