(* ===== verification/Load.thy ===== *)
theory Load
  imports Boot_Media Root Lz4
begin

text \<open>
  The loading chain (\<^verbatim>\<open>crates/load/src/lib.rs\<close> with \<^verbatim>\<open>crates/core/src/services/measure.rs\<close>): read,
  verify, measure, decompress, place. An operation on a mutable slice takes the bytes and returns its
  outcome with the bytes it leaves behind; a loading operation also returns what it measured, in order. The
  hash is the parameter \<open>sha\<close>; \<open>um\<close> is the largest \<open>usize\<close>.
\<close>

section \<open>Measurements\<close>

record measure_event =
  me_pcr :: u32
  me_kind :: u32
  me_description :: bytes
  me_base :: u64

text \<open>A log is \<open>Unmeasured\<close> or records what it is given.\<close>

datatype measure_log = Unmeasured | Recorded

record measurement =
  mm_log :: measure_log
  mm_event :: measure_event

definition NO_MEASUREMENT :: measurement where
  "NO_MEASUREMENT = \<lparr>mm_log = Unmeasured,
     mm_event = \<lparr>me_pcr = 0, me_kind = 0, me_description = [], me_base = 0\<rparr>\<rparr>"

type_synonym trace = "(measure_event \<times> bytes) list"

definition record_bytes :: "measurement \<Rightarrow> bytes \<Rightarrow> trace" where
  "record_bytes mm bs = (case mm_log mm of Unmeasured \<Rightarrow> [] | Recorded \<Rightarrow> [(mm_event mm, bs)])"

section \<open>Codecs\<close>

datatype load_error =
  LoadBounds | LoadMemoryPolicy | LoadUnsupported | LoadIo | LoadStoredDigest | LoadLoadedDigest | LoadDecompression

datatype codec = Stored | Lz4Codec

fun codec_supports :: "codec \<Rightarrow> compression \<Rightarrow> bool" where
  "codec_supports Stored c = False"
| "codec_supports Lz4Codec c = (c = CompLz4)"

fun codec_decompress :: "codec \<Rightarrow> compression \<Rightarrow> bytes \<Rightarrow> bytes \<Rightarrow> (load_error, unit) result \<times> bytes" where
  "codec_decompress Stored c input output = (Err LoadUnsupported, output)"
| "codec_decompress Lz4Codec c input output =
     (if c \<noteq> CompLz4 then (Err LoadUnsupported, output)
      else (rbind (map_err (\<lambda>_. LoadDecompression) (decompress_block input output)) (\<lambda>(_, count).
              if count \<noteq> length output then Err LoadDecompression else Ok ()),
            decompress_buffer input output))"

fun codec_for :: "compression \<Rightarrow> codec" where
  "codec_for CompNone = Stored"
| "codec_for CompLz4 = Lz4Codec"

section \<open>The chain\<close>

definition load_read :: "nat \<Rightarrow> boot_media \<Rightarrow> u64 \<Rightarrow> bytes \<Rightarrow> (load_error, unit) result \<times> bytes" where
  "load_read um media offset into =
     (if unat offset > um then (Err LoadBounds, into)
      else case usize_add um (unat offset) (length into) of
             None \<Rightarrow> (Err LoadBounds, into)
           | Some stop \<Rightarrow>
               if stop > bm_size media then (Err LoadBounds, into)
               else case bm_read_at media (unat offset) into of
                      (Ok n, buf) \<Rightarrow> (if n = length into then Ok () else Err LoadIo, buf)
                    | (Err e, buf) \<Rightarrow> (Err LoadIo, buf)
                    | (Panic, buf) \<Rightarrow> (Panic, buf))"

definition load_verify :: "(bytes \<Rightarrow> bytes) \<Rightarrow> bytes \<Rightarrow> bytes \<Rightarrow> load_error \<Rightarrow> (load_error, unit) result" where
  "load_verify sha bs expected e = (if sha bs = expected then Ok () else Err e)"

text \<open>\<open>read\<close>, \<open>verify\<close> and \<open>measure\<close> of the stored bytes, in this order.\<close>

definition load_stored ::
  "(bytes \<Rightarrow> bytes) \<Rightarrow> nat \<Rightarrow> boot_media \<Rightarrow> bootstrap_descriptor \<Rightarrow> measurement \<Rightarrow> bytes \<Rightarrow>
     (load_error, unit) result \<times> bytes \<times> trace" where
  "load_stored sha um media d mm buf =
     (case load_read um media (bd_offset d) buf of (q, buf') \<Rightarrow>
        let r = rbind q (\<lambda>_. load_verify sha buf' (bd_stored_digest d) LoadStoredDigest)
        in (r, buf', if is_ok r then record_bytes mm buf' else []))"

definition in_place :: "nat \<Rightarrow> boot_media \<Rightarrow> u64 \<Rightarrow> u64 \<Rightarrow> (load_error, nat \<times> bytes) result" where
  "in_place um media offset len =
     rbind (ok_or (bm_slice media) LoadIo) (\<lambda>(a, mapped).
     if unat offset > um then Err LoadBounds
     else if unat len > um then Err LoadBounds
     else rbind (ok_or (usize_add um (unat offset) (unat len)) LoadBounds) (\<lambda>stop.
          rbind (ok_or (get_range mapped (unat offset) stop) LoadBounds) (\<lambda>bs. Ok (a + unat offset, bs))))"

definition in_place_check :: "(bytes \<Rightarrow> bytes) \<Rightarrow> nat \<times> bytes \<Rightarrow> bytes \<Rightarrow> (load_error, nat \<times> bytes) result" where
  "in_place_check sha p expected = (if sha (snd p) = expected then Ok p else Err LoadStoredDigest)"

definition in_place_measure :: "nat \<times> bytes \<Rightarrow> measurement \<Rightarrow> trace" where
  "in_place_measure p mm = record_bytes mm (snd p)"

section \<open>Placement\<close>

record memory_window =
  mw_start :: u64
  mw_size :: u64

definition mw_end :: "memory_window \<Rightarrow> u64 option" where
  "mw_end w = checked_add (mw_start w) (mw_size w)"

definition mw_contains :: "memory_window \<Rightarrow> memory_window \<Rightarrow> bool" where
  "mw_contains w other =
     (case (mw_end w, mw_end other) of
        (Some stop, Some other_end) \<Rightarrow> mw_start other \<ge> mw_start w \<and> other_end \<le> stop
      | _ \<Rightarrow> False)"

definition mw_overlaps :: "memory_window \<Rightarrow> memory_window \<Rightarrow> bool" where
  "mw_overlaps w other =
     (case (mw_end w, mw_end other) of
        (Some stop, Some other_end) \<Rightarrow> mw_start w < other_end \<and> mw_start other < stop
      | _ \<Rightarrow> True)"

record memory_policy =
  mp_writable :: "memory_window list"
  mp_reserved :: "memory_window list"
  mp_entry_alignment :: u64

definition permits :: "nat \<Rightarrow> memory_policy \<Rightarrow> u64 \<Rightarrow> u64 \<Rightarrow> bool" where
  "permits um p start sz =
     (let range = \<lparr>mw_start = start, mw_size = sz\<rparr> in
      sz \<noteq> 0 \<and> start \<noteq> 0 \<and> unat start \<le> um \<and> unat sz \<le> um div 2 \<and>
      (case mw_end range of None \<Rightarrow> False | Some stop \<Rightarrow> unat stop \<le> um) \<and>
      list_ex (\<lambda>w. mw_contains w range) (mp_writable p) \<and>
      \<not> list_ex (\<lambda>w. mw_overlaps w range) (mp_reserved p))"

definition place :: "nat \<Rightarrow> boot_media \<Rightarrow> memory_policy \<Rightarrow> u64 \<Rightarrow> u64 \<Rightarrow> (load_error, unit) result" where
  "place um media p start sz =
     (if \<not> permits um p start sz then Err LoadMemoryPolicy
      else case bm_slice media of
             None \<Rightarrow> Ok ()
           | Some (a, mapped) \<Rightarrow>
               if mw_overlaps \<lparr>mw_start = word_of_nat a, mw_size = word_of_nat (length mapped)\<rparr>
                    \<lparr>mw_start = start, mw_size = sz\<rparr>
               then Err LoadMemoryPolicy else Ok ())"

section \<open>Bootstrap descriptors\<close>

definition bootstrap_footprint :: "bootstrap_descriptor \<Rightarrow> (load_error, u64) result" where
  "bootstrap_footprint d =
     rbind (map_err (\<lambda>_. LoadBounds) (bd_validate d U64_MAX)) (\<lambda>_.
     case bd_compression d of
       CompNone \<Rightarrow>
         if bd_stored_size d \<noteq> bd_loaded_size d \<or> bd_stored_digest d \<noteq> bd_loaded_digest d then Err LoadBounds
         else Ok (bd_loaded_size d)
     | _ \<Rightarrow> ok_or (checked_add (bd_loaded_size d) (bd_stored_size d)) LoadBounds)"

definition stored_input :: "bootstrap_descriptor \<Rightarrow> (load_error, memory_window) result" where
  "stored_input d =
     rbind (case bd_compression d of
              CompNone \<Rightarrow> Ok (bd_load_addr d)
            | _ \<Rightarrow> ok_or (checked_add (bd_load_addr d) (bd_loaded_size d)) LoadBounds) (\<lambda>start.
     Ok \<lparr>mw_start = start, mw_size = bd_stored_size d\<rparr>)"

definition workspace_size ::
  "nat \<Rightarrow> boot_media \<Rightarrow> bootstrap_descriptor \<Rightarrow> nat \<Rightarrow> codec \<Rightarrow> (load_error, nat \<times> nat) result" where
  "workspace_size um media d len c =
     rbind (bootstrap_footprint d) (\<lambda>footprint.
     if unat footprint > um then Err LoadBounds
     else let required = unat footprint in
       if len < required \<or>
          (case checked_add (bd_offset d) (bd_stored_size d) of
             None \<Rightarrow> True | Some stop \<Rightarrow> unat stop > bm_size media)
       then Err LoadBounds
       else if bd_compression d \<noteq> CompNone \<and> \<not> codec_supports c (bd_compression d) then Err LoadUnsupported
       else if unat (bd_loaded_size d) > um then Err LoadBounds
       else if unat (bd_loaded_size d) > required then Panic
       else Ok (required, unat (bd_loaded_size d)))"

definition load_bootstrap_into ::
  "(bytes \<Rightarrow> bytes) \<Rightarrow> nat \<Rightarrow> boot_media \<Rightarrow> bootstrap_descriptor \<Rightarrow> bytes \<Rightarrow> codec \<Rightarrow> measurement \<Rightarrow>
     (load_error, unit) result \<times> bytes \<times> trace" where
  "load_bootstrap_into sha um media d ws c mm =
     (case workspace_size um media d (length ws) c of
        Err e \<Rightarrow> (Err e, ws, [])
      | Panic \<Rightarrow> (Panic, ws, [])
      | Ok (required, loaded) \<Rightarrow>
          let output = take loaded ws; scratch = sub ws loaded (required - loaded); rest = drop required ws in
          (case bd_compression d of
             CompNone \<Rightarrow>
               (case load_stored sha um media d mm output of (r, out, tr) \<Rightarrow> (r, out @ scratch @ rest, tr))
           | _ \<Rightarrow>
               (case load_stored sha um media d mm scratch of (r, inp, tr) \<Rightarrow>
                  if \<not> is_ok r then (r, output @ inp @ rest, tr)
                  else case codec_decompress c (bd_compression d) inp output of (r, out) \<Rightarrow>
                         (rbind r (\<lambda>_. load_verify sha out (bd_loaded_digest d) LoadLoadedDigest), out @ inp @ rest, tr))))"

definition check_entry :: "bootstrap_descriptor \<Rightarrow> memory_policy \<Rightarrow> (load_error, u64 \<times> u64) result" where
  "check_entry d p =
     rbind (bootstrap_footprint d) (\<lambda>footprint.
     rbind (ok_or (checked_add (bd_load_addr d) (bd_entry_offset d)) LoadBounds) (\<lambda>entry.
     if bd_entry_offset d \<ge> bd_loaded_size d \<or> mp_entry_alignment p = 0 \<or>
        \<not> is_power_of_two (unat (mp_entry_alignment p)) \<or> entry mod mp_entry_alignment p \<noteq> 0
     then Err LoadMemoryPolicy
     else Ok (footprint, entry)))"

definition load_bootstrap ::
  "(bytes \<Rightarrow> bytes) \<Rightarrow> nat \<Rightarrow> boot_media \<Rightarrow> bootstrap_descriptor \<Rightarrow> memory_policy \<Rightarrow> codec \<Rightarrow> measurement \<Rightarrow> memory \<Rightarrow>
     (load_error, u64) result \<times> memory \<times> trace" where
  "load_bootstrap sha um media d p c mm m =
     (case rbind (check_entry d p) (\<lambda>(footprint, entry).
             rbind (place um media p (bd_load_addr d) footprint) (\<lambda>_. Ok (footprint, entry))) of
        Err e \<Rightarrow> (Err e, m, [])
      | Panic \<Rightarrow> (Panic, m, [])
      | Ok (footprint, entry) \<Rightarrow>
          let at = unat (bd_load_addr d) in
          (case load_bootstrap_into sha um media d (peek m at (unat footprint)) c mm of
             (r, ws, tr) \<Rightarrow> (rbind r (\<lambda>_. Ok entry), poke m at ws, tr)))"

section \<open>The steps on a faithful medium\<close>

context boot_media_view
begin

lemma load_read_length: "load_read um media offset buf = (r, buf') \<Longrightarrow> length buf' = length buf"
  using view_keeps by (auto simp: load_read_def split: if_splits option.splits prod.splits result.splits)

lemma load_read_Ok:
  assumes "load_read um media offset buf = (Ok (), buf')"
  shows "unat offset + length buf \<le> length content" "buf' = sub content (unat offset) (length buf)"
proof -
  have "bm_read_at media (unat offset) buf = (Ok (length buf), buf')"
    using assms by (auto simp: load_read_def split: if_splits option.splits prod.splits result.splits)
  from view_read [OF this] show "unat offset + length buf \<le> length content" "buf' = sub content (unat offset) (length buf)"
    by auto
qed

lemma load_stored_cases:
  assumes "load_stored sha um media d mm buf = (r, buf', tr)"
  shows "length buf' = length buf"
    "r = Ok () \<Longrightarrow> unat (bd_offset d) + length buf \<le> length content \<and>
        buf' = sub content (unat (bd_offset d)) (length buf) \<and> sha buf' = bd_stored_digest d \<and> tr = record_bytes mm buf'"
    "r \<noteq> Ok () \<Longrightarrow> tr = []"
proof -
  obtain q where q: "load_read um media (bd_offset d) buf = (q, buf')"
    using assms by (cases "load_read um media (bd_offset d) buf") (simp add: load_stored_def Let_def)
  then have r: "r = rbind q (\<lambda>_. load_verify sha buf' (bd_stored_digest d) LoadStoredDigest)"
    "tr = (if is_ok r then record_bytes mm buf' else [])"
    using assms by (auto simp: load_stored_def Let_def)
  show "length buf' = length buf"
    by (rule load_read_length [OF q])
  show "tr = []" if "r \<noteq> Ok ()"
    using that r(2) by (cases r) auto
  show "unat (bd_offset d) + length buf \<le> length content \<and> buf' = sub content (unat (bd_offset d)) (length buf) \<and>
      sha buf' = bd_stored_digest d \<and> tr = record_bytes mm buf'" if "r = Ok ()"
  proof -
    have "q = Ok ()" "sha buf' = bd_stored_digest d"
      using that r(1) by (auto simp: load_verify_def split: if_splits)
    then show ?thesis
      using load_read_Ok q r(2) that by simp
  qed
qed

end

lemma codec_decompress_length: "codec_decompress c cmp inp out = (r, out') \<Longrightarrow> length out' = length out"
  by (cases c) (auto simp: decompress_buffer_def length_loop_buffer split: if_splits)

lemma codec_decompress_Ok:
  assumes "codec_decompress c cmp inp out = (Ok (), out')"
  shows "cmp = CompLz4 \<and> (\<exists>qs nib fin. inp = lz4_block qs nib fin \<and> expand [] qs fin = Some out')"
proof (cases c)
  case Lz4Codec
  then have c: "cmp = CompLz4" and b: "out' = loop_buffer inp out 0 0"
    and "rbind (map_err (\<lambda>_. LoadDecompression) (decompress_block inp out)) (\<lambda>(_, count).
      if count \<noteq> length out then Err LoadDecompression else Ok ()) = Ok ()"
    using assms by (auto simp: decompress_buffer_def split: if_splits)
  then obtain dst where l: "decompress_loop inp out 0 0 = Ok (dst, length out)"
    by (auto simp: decompress_block_def split: if_splits)
  then have "dst = out'"
    using loop_buffer_eq b by simp
  then show ?thesis
    using loop_sound [OF l] c by (metis drop_0 take_0 take_all_iff order_refl zero_le)
qed (use assms in simp)

lemma codec_not_Panic: "fst (codec_decompress c cmp inp out) \<noteq> Panic"
  using loop_not_Panic [of 0 out inp 0]
  by (cases c) (auto simp: rbind_eq_Panic decompress_block_def split: if_splits)

section \<open>The footprint\<close>

definition footprint :: "bootstrap_descriptor \<Rightarrow> nat" where
  "footprint d = unat (bd_loaded_size d) + (if bd_compression d = CompNone then 0 else unat (bd_stored_size d))"

lemma bootstrap_footprint_eq_Ok:
  assumes "bootstrap_footprint d = Ok f"
  shows "unat f = footprint d" "bd_compression d = CompNone \<Longrightarrow> bd_stored_size d = bd_loaded_size d \<and> bd_stored_digest d = bd_loaded_digest d"
    "bd_entry_offset d < bd_loaded_size d"
  using assms by (auto simp: bootstrap_footprint_def footprint_def bd_validate_def dest!: checked_add_SomeD
      split: compression.splits if_splits)

lemma workspace_size_eq_Ok:
  assumes "workspace_size um media d len c = Ok (required, loaded)"
  shows "required = footprint d" "loaded = unat (bd_loaded_size d)" "required \<le> len" "loaded \<le> required"
    "bd_compression d = CompNone \<Longrightarrow> bd_stored_size d = bd_loaded_size d \<and> bd_stored_digest d = bd_loaded_digest d"
  using assms bootstrap_footprint_eq_Ok(1,2)
  by (auto simp: workspace_size_def Let_def split: if_splits)

lemma workspace_size_not_Panic: "workspace_size um media d len c \<noteq> Panic"
proof -
  have "bootstrap_footprint d = Ok f \<Longrightarrow> unat (bd_loaded_size d) \<le> unat f" for f
    using bootstrap_footprint_eq_Ok(1) [of d f] by (simp add: footprint_def)
  moreover have "bootstrap_footprint d \<noteq> Panic"
    by (auto simp: bootstrap_footprint_def rbind_eq_Panic bd_validate_not_Panic split: compression.splits if_splits)
  ultimately show ?thesis
    by (auto simp: workspace_size_def Let_def rbind_eq_Panic not_less split: if_splits)
qed

lemma permitsD:
  assumes "permits um p start sz"
  shows "unat start + unat sz \<le> um" "\<exists>w \<in> set (mp_writable p). unat (mw_start w) \<le> unat start \<and>
      unat start + unat sz \<le> unat (mw_start w) + unat (mw_size w)"
    "w \<in> set (mp_reserved p) \<Longrightarrow> disjoint_range (unat (mw_start w), unat (mw_size w)) (unat start, unat sz)"
proof -
  obtain stop where e: "mw_end \<lparr>mw_start = start, mw_size = sz\<rparr> = Some stop" "unat stop \<le> um"
    using assms by (auto simp: permits_def Let_def split: option.splits)
  then have stop: "unat stop = unat start + unat sz"
    by (auto simp: mw_end_def dest: checked_add_SomeD)
  show "unat start + unat sz \<le> um"
    using e(2) stop by simp
  show "\<exists>w \<in> set (mp_writable p). unat (mw_start w) \<le> unat start \<and> unat start + unat sz \<le> unat (mw_start w) + unat (mw_size w)"
  proof -
    obtain w where w: "w \<in> set (mp_writable p)" "mw_contains w \<lparr>mw_start = start, mw_size = sz\<rparr>"
      using assms by (auto simp: permits_def Let_def list_ex_iff)
    then obtain we where "mw_end w = Some we" "mw_start w \<le> start" "stop \<le> we"
      using e(1) by (auto simp: mw_contains_def split: option.splits)
    then have "unat (mw_start w) \<le> unat start" "unat start + unat sz \<le> unat (mw_start w) + unat (mw_size w)"
      using stop by (auto simp: word_le_nat_alt mw_end_def dest: checked_add_SomeD)
    then show ?thesis
      using w(1) by blast
  qed
  show "disjoint_range (unat (mw_start w), unat (mw_size w)) (unat start, unat sz)" if "w \<in> set (mp_reserved p)"
  proof -
    have n: "\<not> mw_overlaps w \<lparr>mw_start = start, mw_size = sz\<rparr>"
      using assms that by (auto simp: permits_def Let_def list_ex_iff)
    then obtain we where "mw_end w = Some we"
      using e(1) by (auto simp: mw_overlaps_def split: option.splits)
    then show ?thesis
      using n e(1) stop
      by (auto simp: mw_overlaps_def disjoint_range_def word_less_nat_alt mw_end_def dest!: checked_add_SomeD)
  qed
qed

section \<open>Loading into a workspace\<close>

context boot_media_view
begin

text \<open>
  What a load that got past the size checks leaves behind: the bytes outside the footprint are
  kept, nothing but verified stored bytes is measured, and success means verified contents.
\<close>

definition stored_bytes :: "bootstrap_descriptor \<Rightarrow> bytes" where
  "stored_bytes d = sub content (unat (bd_offset d)) (unat (bd_stored_size d))"

definition measured :: "(bytes \<Rightarrow> bytes) \<Rightarrow> bootstrap_descriptor \<Rightarrow> measurement \<Rightarrow> trace \<Rightarrow> bool" where
  "measured sha d mm tr \<longleftrightarrow> unat (bd_offset d) + unat (bd_stored_size d) \<le> length content \<and>
     sha (stored_bytes d) = bd_stored_digest d \<and> tr = record_bytes mm (stored_bytes d)"

definition unpacked :: "bootstrap_descriptor \<Rightarrow> bytes \<Rightarrow> bool" where
  "unpacked d img \<longleftrightarrow>
     (case bd_compression d of
        CompNone \<Rightarrow> img = stored_bytes d
      | CompLz4 \<Rightarrow> \<exists>qs nib fin. stored_bytes d = lz4_block qs nib fin \<and> expand [] qs fin = Some img)"

lemma load_into_plain:
  assumes l: "load_bootstrap_into sha um media d ws c mm = (r, ws', tr)"
    and w: "workspace_size um media d (length ws) c = Ok (required, loaded)" and c: "bd_compression d = CompNone"
  shows "length ws' = length ws \<and> drop required ws' = drop required ws \<and> (tr = [] \<or> measured sha d mm tr) \<and>
    (r = Ok () \<longrightarrow> measured sha d mm tr \<and> unpacked d (take loaded ws') \<and> sha (take loaded ws') = bd_loaded_digest d)"
proof -
  have f: "required = loaded" "loaded = unat (bd_loaded_size d)" "required \<le> length ws"
    "bd_stored_size d = bd_loaded_size d" "bd_stored_digest d = bd_loaded_digest d"
    using workspace_size_eq_Ok [OF w] c by (auto simp: footprint_def)
  obtain out where s: "load_stored sha um media d mm (take loaded ws) = (r, out, tr)" and ws: "ws' = out @ drop required ws"
    using l f(1) by (auto simp: load_bootstrap_into_def w c Let_def sub_def split: prod.splits)
  note t = load_stored_cases [OF s]
  have o: "length out = loaded"
    using t(1) f(1,3) by simp
  have ok: "measured sha d mm tr" "out = stored_bytes d" if "r = Ok ()"
    using t(2) [OF that] f by (auto simp: measured_def stored_bytes_def)
  then have "tr = [] \<or> measured sha d mm tr"
    using t(3) by blast
  moreover have "sha out = bd_loaded_digest d" if "r = Ok ()"
    using t(2) [OF that] f(5) by metis
  moreover have "length ws' = length ws" "drop required ws' = drop required ws" "take loaded ws' = out"
    using f(1,3) o by (simp_all add: ws)
  ultimately show ?thesis
    using ok by (simp add: unpacked_def c)
qed

lemma load_into_compressed:
  assumes l: "load_bootstrap_into sha um media d ws c mm = (r, ws', tr)"
    and w: "workspace_size um media d (length ws) c = Ok (required, loaded)" and c: "bd_compression d = CompLz4"
  shows "length ws' = length ws \<and> drop required ws' = drop required ws \<and> (tr = [] \<or> measured sha d mm tr) \<and>
    (r = Ok () \<longrightarrow> measured sha d mm tr \<and> unpacked d (take loaded ws') \<and> sha (take loaded ws') = bd_loaded_digest d)"
proof -
  let ?scratch = "sub ws loaded (required - loaded)"
  have f: "required = loaded + unat (bd_stored_size d)" "loaded = unat (bd_loaded_size d)" "required \<le> length ws"
    using workspace_size_eq_Ok [OF w] c by (auto simp: footprint_def)
  obtain q inp tr' where s: "load_stored sha um media d mm ?scratch = (q, inp, tr')"
    by (cases "load_stored sha um media d mm ?scratch") auto
  note t = load_stored_cases [OF s]
  have i: "length inp = unat (bd_stored_size d)"
    using t(1) f by simp
  have m: "measured sha d mm tr'" "inp = stored_bytes d" if "q = Ok ()"
    using t(2) [OF that] f by (auto simp: measured_def stored_bytes_def)
  obtain r1 out where k: "codec_decompress c CompLz4 inp (take loaded ws) = (r1, out)"
    by (cases "codec_decompress c CompLz4 inp (take loaded ws)") auto
  have o: "length out = loaded"
    using codec_decompress_length [OF k] f by simp
  have cases: "(q = Ok () \<and> r = rbind r1 (\<lambda>_. load_verify sha out (bd_loaded_digest d) LoadLoadedDigest) \<and>
        ws' = out @ inp @ drop required ws \<and> tr = tr') \<or>
      (q \<noteq> Ok () \<and> r = q \<and> ws' = take loaded ws @ inp @ drop required ws \<and> tr = tr')"
    using l k by (cases q) (auto simp: load_bootstrap_into_def w c Let_def s)
  then have "length ws' = length ws" "drop required ws' = drop required ws"
    using f o i by auto
  moreover have "tr = [] \<or> measured sha d mm tr"
    using cases m(1) t(3) by blast
  moreover have "measured sha d mm tr \<and> unpacked d (take loaded ws') \<and> sha (take loaded ws') = bd_loaded_digest d" if ok: "r = Ok ()"
  proof -
    have q: "q = Ok ()" and a: "ws' = out @ inp @ drop required ws" "tr = tr'"
      and "rbind r1 (\<lambda>_. load_verify sha out (bd_loaded_digest d) LoadLoadedDigest) = Ok ()"
      using cases ok by metis+
    then have "r1 = Ok ()" "sha out = bd_loaded_digest d"
      by (auto simp: load_verify_def split: if_splits)
    then have "unpacked d out"
      using codec_decompress_Ok [of c CompLz4 inp "take loaded ws" out] k m(2) [OF q] by (simp add: unpacked_def c)
    then show ?thesis
      using a m(1) [OF q] o \<open>sha out = bd_loaded_digest d\<close> by simp
  qed
  ultimately show ?thesis
    by blast
qed

lemmas load_into_planned = load_into_plain load_into_compressed

end

section \<open>Loading into memory\<close>

lemma check_entry_eq_Ok:
  assumes "check_entry d p = Ok (f, entry)"
  shows "unat f = footprint d" "unat entry = unat (bd_load_addr d) + unat (bd_entry_offset d)"
    "unat (bd_entry_offset d) < unat (bd_loaded_size d)" "unat entry mod unat (mp_entry_alignment p) = 0"
  using assms bootstrap_footprint_eq_Ok(1) [of d f]
  by (auto simp: check_entry_def word_less_nat_alt not_le guard_eq_Ok unat_eq_0 simp flip: unat_mod dest!: checked_add_SomeD)

lemma place_eq_Ok: "place um media p start sz = Ok u \<Longrightarrow> permits um p start sz"
  by (auto simp: place_def split: if_splits)

text \<open>A load either stops before the first write, or it is a load into the destination bytes.\<close>

lemma load_bootstrap_cases:
  assumes "load_bootstrap sha um media d p c mm m = (r, m', tr)"
  obtains (refused) e where "r = Err e" "m' = m" "tr = []"
  | (loaded) q ws f entry where "permits um p (bd_load_addr d) f" "check_entry d p = Ok (f, entry)"
      "load_bootstrap_into sha um media d (peek m (unat (bd_load_addr d)) (footprint d)) c mm = (q, ws, tr)"
      "r = rbind q (\<lambda>_. Ok entry)" "m' = poke m (unat (bd_load_addr d)) ws"
proof -
  have b: "bootstrap_footprint d \<noteq> Panic"
    by (auto simp: bootstrap_footprint_def rbind_eq_Panic bd_validate_not_Panic split: compression.splits if_splits)
  have p: "place um media p a f \<noteq> Panic" for a f
    by (simp add: place_def split: option.split)
  let ?q = "rbind (check_entry d p) (\<lambda>(f, entry). rbind (place um media p (bd_load_addr d) f) (\<lambda>_. Ok (f, entry)))"
  show thesis
  proof (cases ?q)
    case Panic
    then show ?thesis
      using b p by (auto simp: rbind_eq_Panic check_entry_def guard_eq_Panic)
  next
    case (Err e)
    then show ?thesis
      using assms refused [of e] by (simp add: load_bootstrap_def)
  next
    case (Ok fe)
    obtain f entry where fe: "fe = (f, entry)"
      by (cases fe)
    then have c: "check_entry d p = Ok (f, entry)" "place um media p (bd_load_addr d) f = Ok ()"
      using Ok by auto
    obtain q ws tr' where "load_bootstrap_into sha um media d (peek m (unat (bd_load_addr d)) (unat f)) c mm = (q, ws, tr')"
      by (cases "load_bootstrap_into sha um media d (peek m (unat (bd_load_addr d)) (unat f)) c mm") auto
    then show ?thesis
      using assms loaded [OF place_eq_Ok [OF c(2)] c(1), of q ws] check_entry_eq_Ok(1) [OF c(1)]
      by (simp add: load_bootstrap_def Ok fe Let_def)
  qed
qed

lemma load_into_refused:
  "workspace_size um media d (length ws) c = Err e \<Longrightarrow> load_bootstrap_into sha um media d ws c mm = (Err e, ws, [])"
  by (simp add: load_bootstrap_into_def)

context boot_media_view
begin

lemma load_into_any:
  assumes "load_bootstrap_into sha um media d ws c mm = (r, ws', tr)" "length ws = footprint d"
  shows "length ws' = length ws" "tr = [] \<or> measured sha d mm tr"
    "r = Ok () \<Longrightarrow> measured sha d mm tr \<and> unpacked d (take (unat (bd_loaded_size d)) ws') \<and>
       sha (take (unat (bd_loaded_size d)) ws') = bd_loaded_digest d"
proof -
  have "length ws' = length ws \<and> (tr = [] \<or> measured sha d mm tr) \<and>
    (r = Ok () \<longrightarrow> measured sha d mm tr \<and> unpacked d (take (unat (bd_loaded_size d)) ws') \<and>
       sha (take (unat (bd_loaded_size d)) ws') = bd_loaded_digest d)"
  proof (cases "workspace_size um media d (length ws) c")
    case (Ok rl)
    obtain required loaded where rl: "workspace_size um media d (length ws) c = Ok (required, loaded)"
      using Ok by (cases rl) simp
    then show ?thesis
      using load_into_plain [OF assms(1) rl] load_into_compressed [OF assms(1) rl] workspace_size_eq_Ok(2) [OF rl]
      by (cases "bd_compression d") auto
  next
    case (Err e)
    then show ?thesis
      using assms(1) load_into_refused [OF Err, of sha mm] by auto
  qed (simp add: workspace_size_not_Panic)
  then show "length ws' = length ws" "tr = [] \<or> measured sha d mm tr"
    "r = Ok () \<Longrightarrow> measured sha d mm tr \<and> unpacked d (take (unat (bd_loaded_size d)) ws') \<and>
       sha (take (unat (bd_loaded_size d)) ws') = bd_loaded_digest d"
    by auto
qed

lemma load_stored_not_Panic:
  assumes "\<And>offset buf. fst (bm_read_at media offset buf) \<noteq> Panic"
  shows "fst (load_stored sha um media d mm buf) \<noteq> Panic"
proof -
  have "fst (load_read um media o' buf) \<noteq> Panic" for o'
    using assms [of "unat o'" buf] by (auto simp: load_read_def split: if_splits option.splits prod.splits result.splits)
  then show ?thesis
    by (auto simp: load_stored_def Let_def rbind_eq_Panic load_verify_def split: prod.splits)
       (metis fst_conv)
qed

lemma load_into_not_Panic:
  assumes "\<And>offset buf. fst (bm_read_at media offset buf) \<noteq> Panic"
  shows "fst (load_bootstrap_into sha um media d ws c mm) \<noteq> Panic"
proof (cases "workspace_size um media d (length ws) c")
  case (Ok rl)
  obtain required loaded where rl: "rl = (required, loaded)"
    by (cases rl)
  note np = load_stored_not_Panic [OF assms, of sha um d mm] and cp = codec_not_Panic [of c "bd_compression d"]
  show ?thesis
  proof (cases "bd_compression d")
    case CompNone
    then show ?thesis
      using np [of "take loaded ws"] by (simp add: load_bootstrap_into_def Ok rl Let_def split_beta)
  next
    case CompLz4
    obtain q inp tr where s: "load_stored sha um media d mm (sub ws loaded (required - loaded)) = (q, inp, tr)"
      by (cases "load_stored sha um media d mm (sub ws loaded (required - loaded))") auto
    have "q \<noteq> Panic"
      using np [of "sub ws loaded (required - loaded)"] s by simp
    moreover obtain r1 out where "codec_decompress c CompLz4 inp (take loaded ws) = (r1, out)" "r1 \<noteq> Panic"
      using cp [of inp "take loaded ws"] CompLz4 by (cases "codec_decompress c CompLz4 inp (take loaded ws)") simp
    moreover from this have "rbind r1 (\<lambda>_. load_verify sha out (bd_loaded_digest d) LoadLoadedDigest) \<noteq> Panic"
      by (simp add: rbind_eq_Panic load_verify_def)
    ultimately show ?thesis
      using CompLz4 by (cases q) (simp_all add: load_bootstrap_into_def Ok rl Let_def s)
  qed
qed (simp_all add: load_bootstrap_into_def workspace_size_not_Panic)

end

section \<open>Properties\<close>

lemma load_verified:
  assumes "boot_media_view media content"
    and "load_bootstrap sha um media d p c mm m = (Ok entry, m', tr)"
    and "stored = sub content (unat (bd_offset d)) (unat (bd_stored_size d))"
    and "img = peek m' (unat (bd_load_addr d)) (unat (bd_loaded_size d))"
  shows "unat (bd_offset d) + unat (bd_stored_size d) \<le> length content \<and>
    sha stored = bd_stored_digest d \<and> sha img = bd_loaded_digest d \<and> tr = record_bytes mm stored \<and>
    (case bd_compression d of
       CompNone \<Rightarrow> img = stored
     | CompLz4 \<Rightarrow> \<exists>qs nib fin. stored = lz4_block qs nib fin \<and> expand [] qs fin = Some img) \<and>
    unat entry = unat (bd_load_addr d) + unat (bd_entry_offset d) \<and> unat (bd_entry_offset d) < length img \<and>
    unat entry mod unat (mp_entry_alignment p) = 0 \<and>
    (\<exists>w \<in> set (mp_writable p). unat (mw_start w) \<le> unat (bd_load_addr d) \<and>
       unat (bd_load_addr d) + footprint d \<le> unat (mw_start w) + unat (mw_size w)) \<and>
    (\<forall>w \<in> set (mp_reserved p). disjoint_range (unat (mw_start w), unat (mw_size w)) (unat (bd_load_addr d), footprint d)) \<and>
    (\<forall>a. a < unat (bd_load_addr d) \<or> unat (bd_load_addr d) + footprint d \<le> a \<longrightarrow> m' a = m a)"
  using assms(2)
proof (cases rule: load_bootstrap_cases)
  case (loaded q ws f e)
  have q: "q = Ok ()" "e = entry"
    using loaded(4) by (cases q; simp)+
  note c = check_entry_eq_Ok [OF loaded(2)] and pm = permitsD [OF loaded(1)]
  note l = boot_media_view.load_into_any [OF assms(1) loaded(3)]
  have ws: "length ws = footprint d"
    using l(1) by simp
  then have i: "img = take (unat (bd_loaded_size d)) ws"
    using peek_poke_inside [of 0 "unat (bd_loaded_size d)" ws m "unat (bd_load_addr d)"]
    by (simp add: assms(4) loaded(5) footprint_def sub_def)
  have v: "boot_media_view.measured content sha d mm tr" "boot_media_view.unpacked content d img" "sha img = bd_loaded_digest d"
    using l(3) q(1) i by auto
  have st: "boot_media_view.stored_bytes content d = stored"
    by (simp add: boot_media_view.stored_bytes_def [OF assms(1)] assms(3))
  have "case bd_compression d of CompNone \<Rightarrow> img = stored
     | CompLz4 \<Rightarrow> \<exists>qs nib fin. stored = lz4_block qs nib fin \<and> expand [] qs fin = Some img"
    using v(2) unfolding boot_media_view.unpacked_def [OF assms(1)] st .
  moreover have "unat (bd_offset d) + unat (bd_stored_size d) \<le> length content" "sha stored = bd_stored_digest d"
      "tr = record_bytes mm stored"
    using v(1) unfolding boot_media_view.measured_def [OF assms(1)] st by auto
  moreover have "length img = unat (bd_loaded_size d)"
    by (simp add: assms(4))
  moreover have "m' a = m a" if "a < unat (bd_load_addr d) \<or> unat (bd_load_addr d) + footprint d \<le> a" for a
    using that ws by (simp add: loaded(5) poke_outside)
  ultimately show ?thesis
    using c pm(2,3) v(3) q(2) by simp
qed simp

lemma load_contained:
  assumes "boot_media_view media content" and "\<And>offset buf. fst (bm_read_at media offset buf) \<noteq> Panic"
    and "load_bootstrap sha um media d p c mm m = (r, m', tr)"
    and "stored = sub content (unat (bd_offset d)) (unat (bd_stored_size d))"
  shows "r \<noteq> Panic \<and>
    (\<forall>a. m' a \<noteq> m a \<longrightarrow> unat (bd_load_addr d) \<le> a \<and> a < unat (bd_load_addr d) + footprint d \<and>
       (\<exists>w \<in> set (mp_writable p). unat (mw_start w) \<le> a \<and> a < unat (mw_start w) + unat (mw_size w)) \<and>
       (\<forall>w \<in> set (mp_reserved p). \<not> (unat (mw_start w) \<le> a \<and> a < unat (mw_start w) + unat (mw_size w)))) \<and>
    (tr = [] \<or> sha stored = bd_stored_digest d \<and> tr = record_bytes mm stored)"
  using assms(3)
proof (cases rule: load_bootstrap_cases)
  case (loaded q ws f e)
  note c = check_entry_eq_Ok [OF loaded(2)] and pm = permitsD [OF loaded(1)]
  note l = boot_media_view.load_into_any [OF assms(1) loaded(3)]
  have a: "unat (bd_load_addr d) \<le> a \<and> a < unat (bd_load_addr d) + footprint d" if "m' a \<noteq> m a" for a
    using that l(1) poke_outside [of a "unat (bd_load_addr d)" ws m] unfolding loaded(5) by (metis length_peek not_le)
  have "q \<noteq> Panic"
    using boot_media_view.load_into_not_Panic [OF assms(1,2)] loaded(3) by (metis fst_conv)
  then have "r \<noteq> Panic"
    by (simp add: loaded(4) rbind_eq_Panic)
  moreover have "tr = [] \<or> sha stored = bd_stored_digest d \<and> tr = record_bytes mm stored"
    using l(2) assms(4)
    by (auto simp: boot_media_view.measured_def [OF assms(1)] boot_media_view.stored_bytes_def [OF assms(1)])
  moreover have "\<exists>w \<in> set (mp_writable p). unat (mw_start w) \<le> a \<and> a < unat (mw_start w) + unat (mw_size w)"
    if "m' a \<noteq> m a" for a
  proof -
    obtain w where "w \<in> set (mp_writable p)" "unat (mw_start w) \<le> unat (bd_load_addr d)"
        "unat (bd_load_addr d) + footprint d \<le> unat (mw_start w) + unat (mw_size w)"
      using pm(2) c(1) by auto
    then show ?thesis
      using a [OF that] by (intro bexI [of _ w]) auto
  qed
  moreover have "\<not> (unat (mw_start w) \<le> a \<and> a < unat (mw_start w) + unat (mw_size w))"
    if "m' a \<noteq> m a" "w \<in> set (mp_reserved p)" for a w
    using a [OF that(1)] pm(3) [OF that(2)] c(1) by (auto simp: disjoint_range_def)
  ultimately show ?thesis
    using a by blast
qed auto

text \<open>
  C4: when a bootstrap image is loaded, its entry point is handed out only for verified
  contents. The bytes the medium stores have the stored digest and exactly these were measured;
  memory at the load address holds them, or what the LZ4 block format says they expand to, and has the
  loaded digest; the entry point is aligned and inside the image; the footprint lies in a
  writable window and touches no reservation; and no byte outside it changed.
\<close>

theorem load_bootstrap_sound:
  assumes "boot_media_view media content"
    and "load_bootstrap sha um media d p c mm m = (Ok entry, m', tr)"
    and "stored = sub content (unat (bd_offset d)) (unat (bd_stored_size d))"
    and "img = peek m' (unat (bd_load_addr d)) (unat (bd_loaded_size d))"
  shows "unat (bd_offset d) + unat (bd_stored_size d) \<le> length content \<and>
    sha stored = bd_stored_digest d \<and> sha img = bd_loaded_digest d \<and> tr = record_bytes mm stored \<and>
    (case bd_compression d of
       CompNone \<Rightarrow> img = stored
     | CompLz4 \<Rightarrow> \<exists>qs nib fin. stored = lz4_block qs nib fin \<and> expand [] qs fin = Some img) \<and>
    unat entry = unat (bd_load_addr d) + unat (bd_entry_offset d) \<and> unat (bd_entry_offset d) < length img \<and>
    unat entry mod unat (mp_entry_alignment p) = 0 \<and>
    (\<exists>w \<in> set (mp_writable p). unat (mw_start w) \<le> unat (bd_load_addr d) \<and>
       unat (bd_load_addr d) + footprint d \<le> unat (mw_start w) + unat (mw_size w)) \<and>
    (\<forall>w \<in> set (mp_reserved p). disjoint_range (unat (mw_start w), unat (mw_size w)) (unat (bd_load_addr d), footprint d)) \<and>
    (\<forall>a. a < unat (bd_load_addr d) \<or> unat (bd_load_addr d) + footprint d \<le> a \<longrightarrow> m' a = m a)"
  using assms by (rule load_verified)

text \<open>
  C5: whatever the descriptor, the policy and the medium, loading does not panic, changes no byte
  outside the footprint of the image, none outside the writable windows and none inside a
  reservation, and measures nothing or exactly the stored bytes once they matched their digest:
  a load that fails has not measured unverified bytes.
\<close>

theorem load_bootstrap_contained:
  assumes "boot_media_view media content" and "\<And>offset buf. fst (bm_read_at media offset buf) \<noteq> Panic"
    and "load_bootstrap sha um media d p c mm m = (r, m', tr)"
    and "stored = sub content (unat (bd_offset d)) (unat (bd_stored_size d))"
  shows "r \<noteq> Panic \<and>
    (\<forall>a. m' a \<noteq> m a \<longrightarrow> unat (bd_load_addr d) \<le> a \<and> a < unat (bd_load_addr d) + footprint d \<and>
       (\<exists>w \<in> set (mp_writable p). unat (mw_start w) \<le> a \<and> a < unat (mw_start w) + unat (mw_size w)) \<and>
       (\<forall>w \<in> set (mp_reserved p). \<not> (unat (mw_start w) \<le> a \<and> a < unat (mw_start w) + unat (mw_size w)))) \<and>
    (tr = [] \<or> sha stored = bd_stored_digest d \<and> tr = record_bytes mm stored)"
  using assms by (rule load_contained)

text \<open>A sample: a compressed image of twelve stored and sixteen loaded bytes in memory-mapped flash.\<close>

definition sample_hash :: "bytes \<Rightarrow> bytes" where
  "sample_hash bs = zfill 32 [word_of_nat (length bs)]"

definition sample_descriptor :: bootstrap_descriptor where
  "sample_descriptor = \<lparr>bd_role = Mainstage, bd_compression = CompLz4, bd_offset = 4, bd_stored_size = 12,
     bd_loaded_size = 16, bd_load_addr = 0x100000, bd_entry_offset = 8, bd_scratch_size = 28,
     bd_stored_digest = zfill 32 [12], bd_loaded_digest = zfill 32 [16]\<rparr>"

definition sample_policy :: memory_policy where
  "sample_policy = \<lparr>mp_writable = [\<lparr>mw_start = 0x100000, mw_size = 0x1000\<rparr>],
     mp_reserved = [\<lparr>mw_start = 0x101000, mw_size = 0x1000\<rparr>], mp_entry_alignment = 4\<rparr>"

definition sample_flash :: memory where
  "sample_flash = poke (\<lambda>_. 0) 0xff000004 sample_block"

definition sample_media :: boot_media where
  "sample_media = memory_mapped (2 ^ 64 - 1) sample_flash (LinearMap 0xff000000) 0x1000"

definition sample_measurement :: measurement where
  "sample_measurement = \<lparr>mm_log = Recorded, mm_event = \<lparr>me_pcr = 0, me_kind = 7, me_description = [], me_base = 0\<rparr>\<rparr>"

lemma sample_media_view: "boot_media_view sample_media (peek sample_flash 0xff000000 0x1000)"
  unfolding sample_media_def by (rule linear_flash.boot_media_view_axioms)

lemma sample_media_read: "length buf = 12 \<Longrightarrow> bm_read_at sample_media 4 buf = (Ok 12, sample_block)"
proof -
  assume b: "length buf = 12"
  have "peek sample_flash (0xff000000 + 4) 12 = sample_block"
    using peek_poke_same [of "\<lambda>_. 0" "0xff000004" sample_block] by (simp add: sample_flash_def length_sample_block)
  then show ?thesis
    using b by (simp add: sample_media_def memory_mapped_def out_of_bounds_def usize_add_def linear_copy)
qed

lemma sample_check: "check_entry sample_descriptor sample_policy = Ok (28, 0x100008)"
proof -
  have "is_power_of_two 4"
    by (simp add: is_power_of_two.simps)
  then show ?thesis
    by (simp add: check_entry_def bootstrap_footprint_def bd_validate_def root_range_def sample_descriptor_def
        sample_policy_def checked_add_def U64_MAX_def)
qed

lemma sample_place: "place (2 ^ 64 - 1) sample_media sample_policy 0x100000 28 = Ok ()"
  by (simp add: place_def permits_def Let_def mw_end_def mw_contains_def mw_overlaps_def sample_policy_def checked_add_def
      sample_media_def memory_mapped_def)

lemma sample_workspace: "workspace_size (2 ^ 64 - 1) sample_media sample_descriptor 28 Lz4Codec = Ok (28, 16)"
  by (simp add: workspace_size_def bootstrap_footprint_def bd_validate_def root_range_def sample_descriptor_def
      checked_add_def U64_MAX_def sample_media_def memory_mapped_def)

definition sample_loaded :: bytes where
  "sample_loaded = [1, 2, 3, 1, 2, 3, 1, 2, 3, 1, 2, 9, 9, 9, 9, 9]"

lemma sample_load_into:
  "load_bootstrap_into sample_hash (2 ^ 64 - 1) sample_media sample_descriptor (replicate 28 0) Lz4Codec sample_measurement =
     (Ok (), sample_loaded @ sample_block, [(mm_event sample_measurement, sample_block)])"
proof -
  have z: "take 16 (replicate 28 (0 :: u8)) = replicate 16 0" "sub (replicate 28 (0 :: u8)) 16 (28 - 16) = replicate 12 0"
    by (simp_all add: sub_replicate)
  have h: "sample_hash sample_block = zfill 32 [12]" "sample_hash sample_loaded = zfill 32 [16]"
    by (simp_all add: sample_hash_def sample_block_def sample_loaded_def)
  have d: "bd_compression sample_descriptor = CompLz4" "bd_offset sample_descriptor = 4" "unat (bd_stored_size sample_descriptor) = 12"
    "bd_stored_digest sample_descriptor = zfill 32 [12]" "bd_loaded_digest sample_descriptor = zfill 32 [16]"
    by (simp_all add: sample_descriptor_def)
  have "load_read (2 ^ 64 - 1) sample_media 4 (replicate 12 0) = (Ok (), sample_block)"
    by (simp add: load_read_def usize_add_def sample_media_read) (simp add: sample_media_def memory_mapped_def)
  then have s: "load_stored sample_hash (2 ^ 64 - 1) sample_media sample_descriptor sample_measurement (replicate 12 0) =
      (Ok (), sample_block, [(mm_event sample_measurement, sample_block)])"
    by (simp add: load_stored_def d load_verify_def h record_bytes_def) (simp add: sample_measurement_def)
  have k: "codec_decompress Lz4Codec CompLz4 sample_block (replicate 16 0) = (Ok (), sample_loaded)"
    using loop_buffer_eq [of sample_block "replicate 16 0" 0 0 sample_loaded 16] sample_block_decompress
    by (simp add: decompress_buffer_def decompress_block_def sample_loaded_def)
  show ?thesis
    unfolding load_bootstrap_into_def length_replicate sample_workspace result.case prod.case Let_def z d(1)
      compression.case s is_ok.simps not_True_eq_False if_False k
    by (simp add: load_verify_def d h)
qed

lemma sample_loads:
  "load_bootstrap sample_hash (2 ^ 64 - 1) sample_media sample_descriptor sample_policy Lz4Codec sample_measurement sample_flash =
     (Ok 0x100008, poke sample_flash 0x100000 (sample_loaded @ sample_block), [(mm_event sample_measurement, sample_block)])"
proof -
  have "peek sample_flash 0x100000 28 = replicate 28 0"
    by (rule nth_equalityI) (simp_all add: nth_peek sample_flash_def poke_def length_sample_block)
  moreover have "unat (bd_load_addr sample_descriptor) = 0x100000" "bd_load_addr sample_descriptor = 0x100000"
    by (simp_all add: sample_descriptor_def)
  ultimately show ?thesis
    using sample_load_into sample_place by (simp add: load_bootstrap_def sample_check Let_def)
qed

theorem load_bootstrap_sound_witness:
  "\<exists>m' tr. load_bootstrap sample_hash (2 ^ 64 - 1) sample_media sample_descriptor sample_policy Lz4Codec sample_measurement
     sample_flash = (Ok 0x100008, m', tr) \<and>
   (\<exists>qs nib fin. sub (peek sample_flash 0xff000000 0x1000) 4 12 = lz4_block qs nib fin \<and>
      expand [] qs fin = Some (peek m' 0x100000 16))"
  using load_bootstrap_sound [OF sample_media_view sample_loads refl refl] sample_loads
  by (auto simp: sample_descriptor_def)

theorem load_bootstrap_contained_witness:
  "fst (load_bootstrap sample_hash (2 ^ 64 - 1) sample_media sample_descriptor sample_policy Stored sample_measurement
     sample_flash) \<noteq> Panic"
proof -
  have np: "fst (bm_read_at sample_media offset buf) \<noteq> Panic" for offset buf
    by (simp add: sample_media_def memory_mapped_def linear_copy)
  obtain r m' tr where l: "load_bootstrap sample_hash (2 ^ 64 - 1) sample_media sample_descriptor sample_policy Stored
      sample_measurement sample_flash = (r, m', tr)"
    using prod_cases3 by blast
  show ?thesis
    using load_bootstrap_contained [OF sample_media_view np l refl] l by simp
qed

end
