(* ===== verification/Effect.thy ===== *)
theory Effect
  imports Prelude
begin

text \<open>
  Operations on a device or another piece of state: an operation maps the state to its outcome and the state
  behind it, also when it fails or panics, since the code does not undo what it did.
\<close>

section \<open>Operations\<close>

text \<open>An operation on the state \<open>'s\<close> with errors \<open>'e\<close>.\<close>

type_synonym ('s, 'e, 'a) device_op = "'s \<Rightarrow> ('e, 'a) result \<times> 's"

definition op_return :: "('e, 'a) result \<Rightarrow> ('s, 'e, 'a) device_op" where
  "op_return r s = (r, s)"

definition op_bind :: "('s, 'e, 'a) device_op \<Rightarrow> ('a \<Rightarrow> ('s, 'e, 'b) device_op) \<Rightarrow> ('s, 'e, 'b) device_op" where
  "op_bind f g s =
     (case f s of (Ok x, s') \<Rightarrow> g x s' | (Err e, s') \<Rightarrow> (Err e, s') | (Panic, s') \<Rightarrow> (Panic, s'))"

text \<open>\<open>Result::or_else\<close>, \<open>Result::map_err\<close> and \<open>Result::is_ok\<close> of an operation, and a loop over a list.\<close>

definition op_or_else :: "('s, 'e, 'a) device_op \<Rightarrow> ('e \<Rightarrow> ('s, 'f, 'a) device_op) \<Rightarrow> ('s, 'f, 'a) device_op" where
  "op_or_else f g s =
     (case f s of (Ok x, s') \<Rightarrow> (Ok x, s') | (Err e, s') \<Rightarrow> g e s' | (Panic, s') \<Rightarrow> (Panic, s'))"

definition op_map_err :: "('e \<Rightarrow> 'f) \<Rightarrow> ('s, 'e, 'a) device_op \<Rightarrow> ('s, 'f, 'a) device_op" where
  "op_map_err g f = op_or_else f (\<lambda>e. op_return (Err (g e)))"

definition op_succeeds :: "('s, 'e, 'a) device_op \<Rightarrow> ('s, 'f, bool) device_op" where
  "op_succeeds f s =
     (case f s of (Ok _, s') \<Rightarrow> (Ok True, s') | (Err _, s') \<Rightarrow> (Ok False, s') | (Panic, s') \<Rightarrow> (Panic, s'))"

primrec op_for_each :: "'b list \<Rightarrow> ('b \<Rightarrow> ('s, 'e, unit) device_op) \<Rightarrow> ('s, 'e, unit) device_op" where
  "op_for_each [] f = op_return (Ok ())"
| "op_for_each (x # xs) f = op_bind (f x) (\<lambda>_. op_for_each xs f)"

section \<open>Lemmas\<close>

lemma op_bind_Ok:
  "op_bind f g s = (Ok y, s'') \<longleftrightarrow> (\<exists>x s'. f s = (Ok x, s') \<and> g x s' = (Ok y, s''))"
  by (auto simp: op_bind_def split: prod.splits result.splits)

lemma op_return_Ok: "op_return r s = (Ok x, s') \<longleftrightarrow> r = Ok x \<and> s' = s"
  by (auto simp: op_return_def)

lemma op_bind_return: "op_bind (op_return (Ok x)) g = g x"
  by (simp add: fun_eq_iff op_bind_def op_return_def)

end
