(* ===== verification/Tpm.thy ===== *)
theory Tpm
  imports Effect "HOL-Library.Sublist"
begin

text \<open>
  TPM commands (\<^verbatim>\<open>crates/driver-tpm/src\<close>: \<^verbatim>\<open>lib.rs\<close>, \<^verbatim>\<open>command.rs\<close>, \<^verbatim>\<open>tpm12.rs\<close>, \<^verbatim>\<open>tpm20.rs\<close>). The
  transport is a parameter: a record of functions on the state of the device. \<open>transmit\<close> answers a command
  with the response bytes, or fails as a transport; only a TPM answers with a code. An operation maps
  the device to its outcome and the device behind it. A response beyond the 1024-byte buffer would
  be a slice out of range and aborts.
\<close>

section \<open>Transport\<close>

datatype tpm_error = TpmTimeout | TpmLocality | TpmProtocol | TpmResponse | TpmCode u32

datatype transport_error = TransportTimeout | TransportLocality | TransportProtocol | TransportResponse

fun of_transport :: "transport_error \<Rightarrow> tpm_error" where
  "of_transport TransportTimeout = TpmTimeout"
| "of_transport TransportLocality = TpmLocality"
| "of_transport TransportProtocol = TpmProtocol"
| "of_transport TransportResponse = TpmResponse"

record 's transport =
  tp_transmit :: "bytes \<Rightarrow> 's \<Rightarrow> (transport_error + bytes) \<times> 's"
  tp_wait_ms :: "u32 \<Rightarrow> 's \<Rightarrow> 's"
  tp_release :: "'s \<Rightarrow> 's"

datatype family = Tpm12 | Tpm20

type_synonym ('s, 'a) tpm_op = "('s, tpm_error, 'a) device_op"


section \<open>Marshalling\<close>

definition BUFFER_SIZE :: nat where "BUFFER_SIZE = 1024"
definition TPM_HEADER_SIZE :: nat where "TPM_HEADER_SIZE = 10"

record command =
  cm_buf :: bytes
  cm_overflow :: bool

definition cmd_bytes :: "bytes \<Rightarrow> command \<Rightarrow> command" where
  "cmd_bytes bs c =
     (if length (cm_buf c) + length bs \<le> BUFFER_SIZE then c\<lparr>cm_buf := cm_buf c @ bs\<rparr>
      else c\<lparr>cm_overflow := True\<rparr>)"

definition cmd_u8 :: "u8 \<Rightarrow> command \<Rightarrow> command" where
  "cmd_u8 v = cmd_bytes [v]"

definition cmd_u16 :: "u16 \<Rightarrow> command \<Rightarrow> command" where
  "cmd_u16 v = cmd_bytes (to_be_bytes v)"

definition cmd_u32 :: "u32 \<Rightarrow> command \<Rightarrow> command" where
  "cmd_u32 v = cmd_bytes (to_be_bytes v)"

definition cmd_sized :: "bytes \<Rightarrow> command \<Rightarrow> command" where
  "cmd_sized bs c = cmd_bytes bs (cmd_u16 (word_of_nat (length bs)) c)"

definition cmd_new :: "u16 \<Rightarrow> u32 \<Rightarrow> command" where
  "cmd_new tag code = cmd_u32 code (cmd_u32 0 (cmd_u16 tag \<lparr>cm_buf = [], cm_overflow = False\<rparr>))"

definition cmd_finish :: "command \<Rightarrow> (tpm_error, bytes) result" where
  "cmd_finish c =
     (if cm_overflow c then Err TpmResponse
      else Ok (write_at (cm_buf c) 2 (to_be_bytes (word_of_nat (length (cm_buf c)) :: u32))))"

section \<open>Responses\<close>

definition response_body :: "bytes \<Rightarrow> (tpm_error, bytes) result" where
  "response_body response =
     (if length response < TPM_HEADER_SIZE then Err TpmResponse
      else let sz = unat (from_be_bytes (sub response 2 4) :: u32); code = from_be_bytes (sub response 6 4) :: u32 in
        if sz \<noteq> length response then Err TpmResponse
        else if code \<noteq> 0 then Err (TpmCode code)
        else Ok (drop TPM_HEADER_SIZE response))"

definition RETRY_CODES :: "u32 list" where
  "RETRY_CODES = [0x908, 0x90A, 0x922, 0x800, 0x802]"

definition RETRIES :: nat where "RETRIES = 500"

definition transmit :: "'s transport \<Rightarrow> bytes \<Rightarrow> ('s, bytes) tpm_op" where
  "transmit T cmd s =
     (case tp_transmit T cmd s of
        (Inl e, s') \<Rightarrow> (Err (of_transport e), s')
      | (Inr response, s') \<Rightarrow> (if length response \<le> BUFFER_SIZE then Ok response else Panic, s'))"

definition asks_retry :: "bytes \<Rightarrow> bool" where
  "asks_retry response =
     (case response_body response of Err (TpmCode code) \<Rightarrow> code \<in> set RETRY_CODES | _ \<Rightarrow> False)"

primrec retry_loop :: "nat \<Rightarrow> 's transport \<Rightarrow> bytes \<Rightarrow> bytes \<Rightarrow> ('s, bytes) tpm_op" where
  "retry_loop 0 T cmd response = op_return (Ok response)"
| "retry_loop (Suc n) T cmd response =
     (if asks_retry response
      then (\<lambda>s. op_bind (transmit T cmd) (retry_loop n T cmd) (tp_wait_ms T 10 s))
      else op_return (Ok response))"

text \<open>\<open>execute\<close> up to its last line: the final response, whose header is not checked yet.\<close>

definition execute_raw :: "'s transport \<Rightarrow> bytes \<Rightarrow> ('s, bytes) tpm_op" where
  "execute_raw T cmd = op_bind (transmit T cmd) (retry_loop RETRIES T cmd)"

definition execute :: "'s transport \<Rightarrow> bytes \<Rightarrow> ('s, bytes) tpm_op" where
  "execute T cmd = op_bind (execute_raw T cmd) (\<lambda>response. op_return (response_body response))"

definition tpm_run :: "'s transport \<Rightarrow> command \<Rightarrow> ('s, unit) tpm_op" where
  "tpm_run T c =
     op_bind (op_return (cmd_finish c)) (\<lambda>cmd. op_bind (execute T cmd) (\<lambda>_. op_return (Ok ())))"

section \<open>Reading a response body\<close>

definition rd_bytes :: "nat \<Rightarrow> bytes \<Rightarrow> (tpm_error, bytes \<times> bytes) result" where
  "rd_bytes n bs = (if length bs < n then Err TpmResponse else Ok (take n bs, drop n bs))"

definition rd_u8 :: "bytes \<Rightarrow> (tpm_error, u8 \<times> bytes) result" where
  "rd_u8 bs = rbind (rd_bytes 1 bs) (\<lambda>(b, r). Ok (b ! 0, r))"

definition rd_u16 :: "bytes \<Rightarrow> (tpm_error, u16 \<times> bytes) result" where
  "rd_u16 bs = rbind (rd_bytes 2 bs) (\<lambda>(b, r). Ok (from_be_bytes b, r))"

definition rd_u32 :: "bytes \<Rightarrow> (tpm_error, u32 \<times> bytes) result" where
  "rd_u32 bs = rbind (rd_bytes 4 bs) (\<lambda>(b, r). Ok (from_be_bytes b, r))"

section \<open>TPM 2.0\<close>

definition ST_NO_SESSIONS :: u16 where "ST_NO_SESSIONS = 0x8001"
definition ST_SESSIONS :: u16 where "ST_SESSIONS = 0x8002"
definition CC_HIERARCHY_CONTROL :: u32 where "CC_HIERARCHY_CONTROL = 0x121"
definition CC_CLEAR :: u32 where "CC_CLEAR = 0x126"
definition CC_HIERARCHY_CHANGE_AUTH :: u32 where "CC_HIERARCHY_CHANGE_AUTH = 0x129"
definition CC_PCR_EVENT :: u32 where "CC_PCR_EVENT = 0x13C"
definition CC_SELF_TEST :: u32 where "CC_SELF_TEST = 0x143"
definition CC_STARTUP :: u32 where "CC_STARTUP = 0x144"
definition CC_SHUTDOWN :: u32 where "CC_SHUTDOWN = 0x145"
definition CC_STIR_RANDOM :: u32 where "CC_STIR_RANDOM = 0x146"
definition CC_GET_CAPABILITY :: u32 where "CC_GET_CAPABILITY = 0x17A"
definition CC_GET_RANDOM :: u32 where "CC_GET_RANDOM = 0x17B"
definition CC_PCR_EXTEND :: u32 where "CC_PCR_EXTEND = 0x182"
definition RS_PW :: u32 where "RS_PW = 0x40000009"
definition CAP_PCRS :: u32 where "CAP_PCRS = 5"
definition RH_OWNER :: u32 where "RH_OWNER = 0x40000001"
definition RH_ENDORSEMENT :: u32 where "RH_ENDORSEMENT = 0x4000000B"
definition RH_PLATFORM :: u32 where "RH_PLATFORM = 0x4000000C"
definition RC_INITIALIZE :: u32 where "RC_INITIALIZE = 0x100"
definition RC_BAD_TAG :: u32 where "RC_BAD_TAG = 0x01E"
definition RC_TESTING :: u32 where "RC_TESTING = 0x90A"
definition RC_YIELDED :: u32 where "RC_YIELDED = 0x908"
definition RC_RETRY :: u32 where "RC_RETRY = 0x922"
definition RC_VALUE :: u32 where "RC_VALUE = 0x084"
definition RC_LOCALITY :: u32 where "RC_LOCALITY = 0x107"

definition rc_base :: "u32 \<Rightarrow> u32" where
  "rc_base code = (if and code 0x80 \<noteq> 0 then and code 0xBF else code)"

definition password_session :: "command \<Rightarrow> command" where
  "password_session c = cmd_sized [] (cmd_u8 0 (cmd_sized [] (cmd_u32 RS_PW (cmd_u32 9 c))))"

definition tpm20_startup :: "'s transport \<Rightarrow> u16 \<Rightarrow> ('s, unit) tpm_op" where
  "tpm20_startup T kind =
     op_bind (op_return (cmd_finish (cmd_u16 kind (cmd_new ST_NO_SESSIONS CC_STARTUP)))) (\<lambda>cmd.
     op_bind (execute_raw T cmd) (\<lambda>response. op_return (
       let result = rbind (response_body response) (\<lambda>_. Ok ());
           tag = from_be_bytes (sub response 0 2)
       in case result of
            Ok _ \<Rightarrow> if tag \<noteq> ST_NO_SESSIONS \<and> tag \<noteq> ST_SESSIONS then Err (TpmCode RC_BAD_TAG) else result
          | Err (TpmCode c) \<Rightarrow> if tag \<noteq> ST_NO_SESSIONS \<and> tag \<noteq> ST_SESSIONS then Err (TpmCode RC_BAD_TAG) else result
          | _ \<Rightarrow> result)))"

definition tpm20_shutdown :: "'s transport \<Rightarrow> u16 \<Rightarrow> ('s, unit) tpm_op" where
  "tpm20_shutdown T kind = tpm_run T (cmd_u16 kind (cmd_new ST_NO_SESSIONS CC_SHUTDOWN))"

primrec self_test_loop :: "nat \<Rightarrow> 's transport \<Rightarrow> bytes \<Rightarrow> ('s, unit) tpm_op" where
  "self_test_loop 0 T cmd = op_return (Err TpmTimeout)"
| "self_test_loop (Suc n) T cmd =
     op_bind (transmit T cmd) (\<lambda>response.
       case response_body response of
         Ok _ \<Rightarrow> op_return (Ok ())
       | Err (TpmCode code) \<Rightarrow>
           if code = RC_TESTING then op_return (Ok ())
           else if code = RC_RETRY \<or> code = RC_YIELDED then (\<lambda>s. self_test_loop n T cmd (tp_wait_ms T 10 s))
           else op_return (Err (TpmCode code))
       | Err e \<Rightarrow> op_return (Err e)
       | Panic \<Rightarrow> op_return Panic)"

definition tpm20_self_test :: "'s transport \<Rightarrow> bool \<Rightarrow> ('s, unit) tpm_op" where
  "tpm20_self_test T full =
     op_bind (op_return (cmd_finish (cmd_u8 (of_bool full) (cmd_new ST_NO_SESSIONS CC_SELF_TEST))))
       (self_test_loop RETRIES T)"

definition banks_push :: "(u16 \<times> u32) list \<Rightarrow> u16 \<Rightarrow> u32 \<Rightarrow> (tpm_error, (u16 \<times> u32) list) result" where
  "banks_push banks alg pcrs = (if length banks < 8 then Ok (banks @ [(alg, pcrs)]) else Err TpmResponse)"

text \<open>The selection bytes, lowest PCRs first.\<close>

definition pcr_mask :: "bytes \<Rightarrow> u32" where
  "pcr_mask select = fold (\<lambda>(i, bits) mask. or mask (push_bit (8 * i) (ucast bits))) (List.enumerate 0 (take 4 select)) 0"

primrec read_banks :: "nat \<Rightarrow> bytes \<Rightarrow> (u16 \<times> u32) list \<Rightarrow> (tpm_error, (u16 \<times> u32) list) result" where
  "read_banks 0 body banks = Ok banks"
| "read_banks (Suc n) body banks =
     rbind (rd_u16 body) (\<lambda>(hash, body).
     rbind (rd_u8 body) (\<lambda>(sz, body).
     rbind (rd_bytes (unat sz) body) (\<lambda>(select, body).
     rbind (if pcr_mask select \<noteq> 0 then banks_push banks hash (pcr_mask select) else Ok banks) (\<lambda>banks.
     read_banks n body banks))))"

definition tpm20_pcr_banks :: "'s transport \<Rightarrow> ('s, (u16 \<times> u32) list) tpm_op" where
  "tpm20_pcr_banks T =
     op_bind (op_return (cmd_finish (cmd_u32 1 (cmd_u32 0 (cmd_u32 CAP_PCRS (cmd_new ST_NO_SESSIONS CC_GET_CAPABILITY))))))
       (\<lambda>cmd. op_bind (execute T cmd) (\<lambda>body. op_return (
         rbind (rd_u8 body) (\<lambda>(_, body).
         rbind (rd_u32 body) (\<lambda>(cap, body).
         if cap \<noteq> CAP_PCRS then Err TpmResponse
         else rbind (rd_u32 body) (\<lambda>(count, body). read_banks (unat count) body []))))))"

definition extend_command :: "u32 \<Rightarrow> (u16 \<times> bytes) list \<Rightarrow> command" where
  "extend_command pcr digests =
     fold (\<lambda>(alg, digest) c. cmd_bytes digest (cmd_u16 alg c)) digests
       (cmd_u32 (word_of_nat (length digests)) (password_session (cmd_u32 pcr (cmd_new ST_SESSIONS CC_PCR_EXTEND))))"

definition tpm20_pcr_extend :: "'s transport \<Rightarrow> u32 \<Rightarrow> (u16 \<times> bytes) list \<Rightarrow> ('s, unit) tpm_op" where
  "tpm20_pcr_extend T pcr digests = tpm_run T (extend_command pcr digests)"

definition tpm20_pcr_event :: "'s transport \<Rightarrow> u32 \<Rightarrow> bytes \<Rightarrow> ('s, unit) tpm_op" where
  "tpm20_pcr_event T pcr data =
     tpm_run T (cmd_sized data (password_session (cmd_u32 pcr (cmd_new ST_SESSIONS CC_PCR_EVENT))))"

definition hierarchy_change_auth :: "'s transport \<Rightarrow> u32 \<Rightarrow> bytes \<Rightarrow> ('s, unit) tpm_op" where
  "hierarchy_change_auth T h new_auth =
     tpm_run T (cmd_sized new_auth (password_session (cmd_u32 h (cmd_new ST_SESSIONS CC_HIERARCHY_CHANGE_AUTH))))"

definition hierarchy_control :: "'s transport \<Rightarrow> u32 \<Rightarrow> u32 \<Rightarrow> bool \<Rightarrow> ('s, unit) tpm_op" where
  "hierarchy_control T auth enable state =
     tpm_run T (cmd_u8 (of_bool state) (cmd_u32 enable (password_session (cmd_u32 auth (cmd_new ST_SESSIONS CC_HIERARCHY_CONTROL)))))"

definition tpm20_clear :: "'s transport \<Rightarrow> u32 \<Rightarrow> ('s, unit) tpm_op" where
  "tpm20_clear T auth = tpm_run T (password_session (cmd_u32 auth (cmd_new ST_SESSIONS CC_CLEAR)))"

definition stir_random :: "'s transport \<Rightarrow> bytes \<Rightarrow> ('s, unit) tpm_op" where
  "stir_random T entropy = tpm_run T (cmd_sized entropy (cmd_new ST_NO_SESSIONS CC_STIR_RANDOM))"

text \<open>One round of \<open>get_random\<close>: at least one and at most \<open>want\<close> bytes.\<close>

definition random_round :: "'s transport \<Rightarrow> nat \<Rightarrow> ('s, bytes) tpm_op" where
  "random_round T want =
     op_bind (op_return (cmd_finish (cmd_u16 (word_of_nat want) (cmd_new ST_NO_SESSIONS CC_GET_RANDOM)))) (\<lambda>cmd.
     op_bind (execute T cmd) (\<lambda>body. op_return (
       rbind (rd_u16 body) (\<lambda>(n, body).
         let sz = min (unat n) want in
         if sz = 0 then Err TpmResponse else rbind (rd_bytes sz body) (\<lambda>(bs, _). Ok bs)))))"

lemma random_round_length: "random_round T want s = (Ok bs, s') \<Longrightarrow> 0 < length bs \<and> length bs \<le> want"
  by (auto simp: random_round_def op_bind_def op_return_def rd_bytes_def Let_def split: prod.splits result.splits if_splits)

function get_random :: "'s transport \<Rightarrow> nat \<Rightarrow> ('s, bytes) tpm_op" where
  "get_random T missing s =
     (if missing = 0 then (Ok [], s)
      else case random_round T (min missing 32) s of
             (Ok bs, s') \<Rightarrow> op_bind (get_random T (missing - length bs)) (\<lambda>rest. op_return (Ok (bs @ rest))) s'
           | (Err e, s') \<Rightarrow> (Err e, s')
           | (Panic, s') \<Rightarrow> (Panic, s'))"
  by pat_completeness auto
termination
  by (relation "measure (\<lambda>(T, missing, s). missing)") (auto dest!: random_round_length [OF sym])

declare get_random.simps [simp del]

section \<open>TPM 1.2\<close>

definition TAG_RQU_COMMAND :: u16 where "TAG_RQU_COMMAND = 0x00C1"
definition ORD_EXTEND :: u32 where "ORD_EXTEND = 0x14"
definition ORD_SELF_TEST_FULL :: u32 where "ORD_SELF_TEST_FULL = 0x50"
definition ORD_CONTINUE_SELF_TEST :: u32 where "ORD_CONTINUE_SELF_TEST = 0x53"
definition ORD_FORCE_CLEAR :: u32 where "ORD_FORCE_CLEAR = 0x5D"
definition ORD_GET_CAPABILITY :: u32 where "ORD_GET_CAPABILITY = 0x65"
definition ORD_PHYSICAL_ENABLE :: u32 where "ORD_PHYSICAL_ENABLE = 0x6F"
definition ORD_PHYSICAL_DISABLE :: u32 where "ORD_PHYSICAL_DISABLE = 0x70"
definition ORD_SET_OWNER_INSTALL :: u32 where "ORD_SET_OWNER_INSTALL = 0x71"
definition ORD_PHYSICAL_SET_DEACTIVATED :: u32 where "ORD_PHYSICAL_SET_DEACTIVATED = 0x72"
definition ORD_STARTUP :: u32 where "ORD_STARTUP = 0x99"
definition TSC_ORD_PHYSICAL_PRESENCE :: u32 where "TSC_ORD_PHYSICAL_PRESENCE = 0x4000000A"
definition CAP_FLAG :: u32 where "CAP_FLAG = 4"
definition CAP_FLAG_PERMANENT :: u32 where "CAP_FLAG_PERMANENT = 0x108"
definition CAP_FLAG_VOLATILE :: u32 where "CAP_FLAG_VOLATILE = 0x109"
definition RC_INVALID_POSTINIT :: u32 where "RC_INVALID_POSTINIT = 0x26"
definition PP_LOCK :: u16 where "PP_LOCK = 4"
definition PP_PRESENT :: u16 where "PP_PRESENT = 8"
definition PP_NOTPRESENT :: u16 where "PP_NOTPRESENT = 0x10"
definition PP_CMD_ENABLE :: u16 where "PP_CMD_ENABLE = 0x20"

record permanent_flags =
  pf_disable :: bool
  pf_ownership :: bool
  pf_deactivated :: bool
  pf_lifetime_lock :: bool
  pf_hw_enable :: bool
  pf_cmd_enable :: bool

record volatile_flags =
  vf_deactivated :: bool
  vf_physical_presence :: bool
  vf_physical_presence_lock :: bool

definition tpm12_command :: "u32 \<Rightarrow> command" where
  "tpm12_command ordinal = cmd_new TAG_RQU_COMMAND ordinal"

definition tpm12_startup :: "'s transport \<Rightarrow> u16 \<Rightarrow> ('s, unit) tpm_op" where
  "tpm12_startup T kind = tpm_run T (cmd_u16 kind (tpm12_command ORD_STARTUP))"

definition continue_self_test :: "'s transport \<Rightarrow> ('s, unit) tpm_op" where
  "continue_self_test T = tpm_run T (tpm12_command ORD_CONTINUE_SELF_TEST)"

definition self_test_full :: "'s transport \<Rightarrow> ('s, unit) tpm_op" where
  "self_test_full T = tpm_run T (tpm12_command ORD_SELF_TEST_FULL)"

definition extend12_command :: "u32 \<Rightarrow> bytes \<Rightarrow> command" where
  "extend12_command pcr digest = cmd_bytes digest (cmd_u32 pcr (tpm12_command ORD_EXTEND))"

definition tpm12_extend :: "'s transport \<Rightarrow> u32 \<Rightarrow> bytes \<Rightarrow> ('s, unit) tpm_op" where
  "tpm12_extend T pcr digest = tpm_run T (extend12_command pcr digest)"

definition physical_presence :: "'s transport \<Rightarrow> u16 \<Rightarrow> ('s, unit) tpm_op" where
  "physical_presence T bits = tpm_run T (cmd_u16 bits (tpm12_command TSC_ORD_PHYSICAL_PRESENCE))"

definition physical_enable :: "'s transport \<Rightarrow> bool \<Rightarrow> ('s, unit) tpm_op" where
  "physical_enable T enable = tpm_run T (tpm12_command (if enable then ORD_PHYSICAL_ENABLE else ORD_PHYSICAL_DISABLE))"

definition physical_set_deactivated :: "'s transport \<Rightarrow> bool \<Rightarrow> ('s, unit) tpm_op" where
  "physical_set_deactivated T deactivated =
     tpm_run T (cmd_u8 (of_bool deactivated) (tpm12_command ORD_PHYSICAL_SET_DEACTIVATED))"

definition force_clear :: "'s transport \<Rightarrow> ('s, unit) tpm_op" where
  "force_clear T = tpm_run T (tpm12_command ORD_FORCE_CLEAR)"

definition set_owner_install :: "'s transport \<Rightarrow> bool \<Rightarrow> ('s, unit) tpm_op" where
  "set_owner_install T allow = tpm_run T (cmd_u8 (of_bool allow) (tpm12_command ORD_SET_OWNER_INSTALL))"

primrec read_flags :: "nat \<Rightarrow> bytes \<Rightarrow> (tpm_error, bool list) result" where
  "read_flags 0 data = Ok []"
| "read_flags (Suc n) data =
     rbind (rd_u8 data) (\<lambda>(b, data). rbind (read_flags n data) (\<lambda>bs. Ok ((b \<noteq> 0) # bs)))"

definition get_flags :: "'s transport \<Rightarrow> u32 \<Rightarrow> u16 \<Rightarrow> nat \<Rightarrow> ('s, bool list) tpm_op" where
  "get_flags T sub_cap tag n =
     op_bind (op_return (cmd_finish (cmd_u32 sub_cap (cmd_u32 4 (cmd_u32 CAP_FLAG (tpm12_command ORD_GET_CAPABILITY)))))) (\<lambda>cmd.
     op_bind (execute T cmd) (\<lambda>body. op_return (
       rbind (rd_u32 body) (\<lambda>(sz, body).
       rbind (rd_bytes (unat sz) body) (\<lambda>(data, _).
       rbind (rd_u16 data) (\<lambda>(t, data).
       if t \<noteq> tag then Err TpmResponse else read_flags n data))))))"

definition get_permanent_flags :: "'s transport \<Rightarrow> ('s, permanent_flags) tpm_op" where
  "get_permanent_flags T =
     op_bind (get_flags T CAP_FLAG_PERMANENT 0x001F 9) (\<lambda>b. op_return (Ok
       \<lparr>pf_disable = b ! 0, pf_ownership = b ! 1, pf_deactivated = b ! 2, pf_lifetime_lock = b ! 6,
        pf_hw_enable = b ! 7, pf_cmd_enable = b ! 8\<rparr>))"

definition get_volatile_flags :: "'s transport \<Rightarrow> ('s, volatile_flags) tpm_op" where
  "get_volatile_flags T =
     op_bind (get_flags T CAP_FLAG_VOLATILE 0x0020 4) (\<lambda>b. op_return (Ok
       \<lparr>vf_deactivated = b ! 0, vf_physical_presence = b ! 2, vf_physical_presence_lock = b ! 3\<rparr>))"

section \<open>What the TPM accepted\<close>

text \<open>
  A transport that also keeps the commands the TPM answered with success, in order. It sends the same
  commands and returns the same responses; the state of the PCRs is a function of this history.
\<close>

definition accepted :: "transport_error + bytes \<Rightarrow> bool" where
  "accepted r = (case r of Inl e \<Rightarrow> False | Inr response \<Rightarrow> length response \<le> BUFFER_SIZE \<and> is_ok (response_body response))"

definition spy :: "'s transport \<Rightarrow> ('s \<times> bytes list) transport" where
  "spy T =
     \<lparr>tp_transmit = (\<lambda>cmd (s, h). case tp_transmit T cmd s of (r, s') \<Rightarrow> (r, s', if accepted r then h @ [cmd] else h)),
      tp_wait_ms = (\<lambda>ms (s, h). (tp_wait_ms T ms s, h)),
      tp_release = (\<lambda>(s, h). (tp_release T s, h))\<rparr>"

lemma spy_simps [simp]:
  "tp_wait_ms (spy T) ms (s, h) = (tp_wait_ms T ms s, h)" "tp_release (spy T) (s, h) = (tp_release T s, h)"
  by (simp_all add: spy_def)

text \<open>The bytes of a command that is sent.\<close>

abbreviation cmd_image :: "command \<Rightarrow> bytes" where
  "cmd_image c \<equiv> write_at (cm_buf c) 2 (to_be_bytes (word_of_nat (length (cm_buf c)) :: u32))"

lemma transmit_spy:
  assumes "transmit (spy T) cmd (s, h) = (r, s', h')"
  shows "h' = (if \<exists>b. r = Ok b \<and> is_ok (response_body b) then h @ [cmd] else h)"
  using assms by (auto simp: transmit_def spy_def accepted_def split: prod.splits sum.splits if_splits)

lemma asks_retry_not_ok: "asks_retry b \<Longrightarrow> \<not> is_ok (response_body b)"
  by (auto simp: asks_retry_def split: result.splits)

lemma retry_loop_done: "\<not> asks_retry b \<Longrightarrow> retry_loop n T cmd b s = (Ok b, s)"
  by (cases n) (auto simp: op_return_def)

lemma retry_loop_spy:
  "retry_loop n (spy T) cmd b (s, h) = (r, s', h') \<Longrightarrow>
    h' = (if (\<exists>b'. r = Ok b' \<and> is_ok (response_body b')) \<and> \<not> is_ok (response_body b) then h @ [cmd] else h)"
proof (induction n arbitrary: b s h)
  case 0
  then show ?case by (auto simp: op_return_def)
next
  case (Suc n)
  show ?case
  proof (cases "asks_retry b")
    case True
    obtain q s1 h1 where t: "transmit (spy T) cmd (tp_wait_ms T 10 s, h) = (q, s1, h1)"
      by (cases "transmit (spy T) cmd (tp_wait_ms T 10 s, h)") auto
    note h1 = transmit_spy [OF t] and nb = asks_retry_not_ok [OF True]
    show ?thesis
    proof (cases q)
      case (Ok b1)
      then have l: "retry_loop n (spy T) cmd b1 (s1, h1) = (r, s', h')"
        using Suc.prems True t by (simp add: op_bind_def)
      show ?thesis
      proof (cases "is_ok (response_body b1)")
        case ok: True
        then have "\<not> asks_retry b1"
          using asks_retry_not_ok by blast
        then show ?thesis
          using l retry_loop_done [of b1 n "spy T" cmd] h1 nb Ok ok by auto
      next
        case False
        then show ?thesis
          using Suc.IH [OF l] h1 nb Ok by simp
      qed
    qed (use Suc.prems True t h1 nb in \<open>auto simp: op_bind_def\<close>)
  next
    case False
    then show ?thesis
      using Suc.prems by (auto simp: op_return_def)
  qed
qed

text \<open>A command is in the history exactly when the operation that sent it succeeded.\<close>

lemma execute_spy:
  assumes "execute (spy T) cmd (s, h) = (r, s', h')"
  shows "h' = (if is_ok r then h @ [cmd] else h)"
proof -
  obtain q s1 h1 where t: "transmit (spy T) cmd (s, h) = (q, s1, h1)"
    by (cases "transmit (spy T) cmd (s, h)") auto
  note h1 = transmit_spy [OF t]
  show ?thesis
  proof (cases q)
    case (Ok b)
    obtain q2 s2 h2 where l: "retry_loop RETRIES (spy T) cmd b (s1, h1) = (q2, s2, h2)"
      by (cases "retry_loop RETRIES (spy T) cmd b (s1, h1)") auto
    note h2 = retry_loop_spy [OF l]
    have r: "(r, s', h') = (case q2 of Ok b' \<Rightarrow> (response_body b', s2, h2) | Err e \<Rightarrow> (Err e, s2, h2) | Panic \<Rightarrow> (Panic, s2, h2))"
      using assms t l Ok by (cases q2) (auto simp: execute_def execute_raw_def op_bind_def op_return_def)
    show ?thesis
    proof (cases "is_ok (response_body b)")
      case True
      then have "\<not> asks_retry b"
        using asks_retry_not_ok by blast
      then have "q2 = Ok b" "h2 = h1"
        using l by (simp_all add: retry_loop_done)
      then show ?thesis
        using r h1 Ok True by simp
    next
      case False
      then show ?thesis
        using r h1 h2 Ok by (cases q2) auto
    qed
  qed (use assms t h1 in \<open>auto simp: execute_def execute_raw_def op_bind_def\<close>)
qed

lemma tpm_run_spy:
  assumes "tpm_run (spy T) c (s, h) = (r, s', h')"
  shows "h' = (if is_ok r then h @ [cmd_image c] else h)"
proof (cases "cmd_finish c")
  case (Ok cmd)
  obtain q s1 h1 where e: "execute (spy T) cmd (s, h) = (q, s1, h1)"
    by (cases "execute (spy T) cmd (s, h)") auto
  have "cmd = cmd_image c"
    using Ok by (auto simp: cmd_finish_def split: if_splits)
  then show ?thesis
    using assms execute_spy [OF e] e Ok by (cases q) (auto simp: tpm_run_def op_bind_def op_return_def)
qed (use assms in \<open>auto simp: tpm_run_def op_bind_def op_return_def\<close>)

section \<open>Extends\<close>

definition is_extend :: "bytes \<Rightarrow> bool" where
  "is_extend cmd \<longleftrightarrow> sub cmd 6 4 = to_be_bytes CC_PCR_EXTEND \<or> sub cmd 6 4 = to_be_bytes ORD_EXTEND"

definition extends :: "bytes list \<Rightarrow> bytes list" where
  "extends h = filter is_extend h"

lemma extends_append [simp]: "extends (h @ k) = extends h @ extends k"
  by (simp add: extends_def)

text \<open>The code of a command under construction stays where \<open>new\<close> put it.\<close>

definition has_code :: "u32 \<Rightarrow> command \<Rightarrow> bool" where
  "has_code code c \<longleftrightarrow> 10 \<le> length (cm_buf c) \<and> sub (cm_buf c) 6 4 = to_be_bytes code"

lemma has_code_new [simp]: "has_code code (cmd_new tag code)"
  by (simp add: has_code_def cmd_new_def cmd_u32_def cmd_u16_def cmd_bytes_def BUFFER_SIZE_def sub_append2 sub_whole)

lemma has_code_bytes [simp]: "has_code code c \<Longrightarrow> has_code code (cmd_bytes bs c)"
  by (auto simp: has_code_def cmd_bytes_def sub_append1)

lemma has_code_more [simp]:
  assumes "has_code code c"
  shows "has_code code (cmd_u8 v c)" "has_code code (cmd_u16 w c)" "has_code code (cmd_u32 x c)"
    "has_code code (cmd_sized bs c)" "has_code code (password_session c)"
  using assms by (simp_all add: cmd_u8_def cmd_u16_def cmd_u32_def cmd_sized_def password_session_def)

lemma finished_code:
  assumes "has_code code c"
  shows "sub (cmd_image c) 6 4 = to_be_bytes code"
  using assms by (simp add: has_code_def sub_write_at_other)

lemma is_extend_code:
  "has_code code c \<Longrightarrow> is_extend (cmd_image c) \<longleftrightarrow>
    code = CC_PCR_EXTEND \<or> code = ORD_EXTEND"
  by (simp add: is_extend_def finished_code)

lemmas command_codes = CC_HIERARCHY_CONTROL_def CC_HIERARCHY_CHANGE_AUTH_def CC_PCR_EVENT_def CC_PCR_EXTEND_def CC_GET_RANDOM_def
  CC_SELF_TEST_def CC_STARTUP_def CC_GET_CAPABILITY_def ORD_EXTEND_def ORD_GET_CAPABILITY_def ORD_STARTUP_def
  ORD_CONTINUE_SELF_TEST_def TSC_ORD_PHYSICAL_PRESENCE_def

lemma finish_not_extend:
  assumes "cmd_finish c = Ok cmd" "has_code code c" "code \<noteq> CC_PCR_EXTEND" "code \<noteq> ORD_EXTEND"
  shows "\<not> is_extend cmd"
  using is_extend_code [OF assms(2)] assms(1,3,4) by (auto simp: cmd_finish_def split: if_splits)

section \<open>Operations that do not extend\<close>

text \<open>
  What an operation does to the history, as a preorder that every command other than an extend
  respects. Two instances: the accepted extends stay the same, and the history only grows.
\<close>

definition tracks :: "(bytes list \<Rightarrow> bytes list \<Rightarrow> bool) \<Rightarrow> ('s \<times> bytes list, 'e, 'a) device_op \<Rightarrow> bool" where
  "tracks R f \<longleftrightarrow> (\<forall>s h. R h (snd (snd (f (s, h)))))"

lemma tracksD: "tracks R f \<Longrightarrow> f (s, h) = (r, s', h') \<Longrightarrow> R h h'"
  unfolding tracks_def by (metis snd_conv)

named_theorems tracks_rules "operations that respect the order of histories"

locale history_order =
  fixes R :: "bytes list \<Rightarrow> bytes list \<Rightarrow> bool"
  assumes history_refl: "R h h"
    and history_trans: "R h h' \<Longrightarrow> R h' h'' \<Longrightarrow> R h h''"
    and history_step: "\<not> is_extend cmd \<Longrightarrow> R h (h @ [cmd])"
begin

lemma tracks_return [tracks_rules]: "tracks R (op_return r)"
  by (simp add: tracks_def op_return_def history_refl)

lemma tracks_bind [tracks_rules]:
  assumes "tracks R f" "\<And>x. tracks R (g x)"
  shows "tracks R (op_bind f g)"
  unfolding tracks_def
proof (intro allI)
  fix s h
  obtain r s' h' where f: "f (s, h) = (r, s', h')"
    by (metis surj_pair)
  then show "R h (snd (snd (op_bind f g (s, h))))"
    using tracksD [OF assms(1) f] assms(2)
    by (cases r) (auto simp: op_bind_def tracks_def intro: history_trans)
qed

lemma tracks_or_else [tracks_rules]:
  assumes "tracks R f" "\<And>x. tracks R (g x)"
  shows "tracks R (op_or_else f g)"
  unfolding tracks_def
proof (intro allI)
  fix s h
  obtain r s' h' where f: "f (s, h) = (r, s', h')"
    by (metis surj_pair)
  then show "R h (snd (snd (op_or_else f g (s, h))))"
    using tracksD [OF assms(1) f] assms(2)
    by (cases r) (auto simp: op_or_else_def tracks_def intro: history_trans)
qed

lemma tracks_map_err [tracks_rules]: "tracks R f \<Longrightarrow> tracks R (op_map_err g f)"
  unfolding op_map_err_def by (intro tracks_or_else tracks_return)

lemma tracks_succeeds [tracks_rules]: "tracks R f \<Longrightarrow> tracks R (op_succeeds f)"
  unfolding tracks_def op_succeeds_def by (auto split: prod.split result.split) (metis snd_conv)+

lemma tracks_release [tracks_rules]: "tracks R (\<lambda>s. (r, tp_release (spy T) s))"
  by (simp add: tracks_def history_refl)

lemma tracks_for_each [tracks_rules]: "(\<And>x. tracks R (f x)) \<Longrightarrow> tracks R (op_for_each xs f)"
  by (induction xs) (auto intro!: tracks_return tracks_bind)

lemma tracks_wait: "tracks R f \<Longrightarrow> tracks R (\<lambda>s. f (tp_wait_ms (spy T) ms s))"
  by (simp add: tracks_def)

lemma tracks_finish:
  assumes "has_code code c" "code \<noteq> CC_PCR_EXTEND" "code \<noteq> ORD_EXTEND" "\<And>cmd. \<not> is_extend cmd \<Longrightarrow> tracks R (g cmd)"
  shows "tracks R (op_bind (op_return (cmd_finish c)) g)"
  using assms(4) finish_not_extend [OF _ assms(1-3)]
  by (cases "cmd_finish c") (auto simp: tracks_def op_bind_def op_return_def history_refl)

lemma tracks_transmit:
  assumes "\<not> is_extend cmd"
  shows "tracks R (transmit (spy T) cmd)"
  unfolding tracks_def
proof (intro allI)
  fix s h
  obtain r s' h' where t: "transmit (spy T) cmd (s, h) = (r, s', h')"
    by (metis surj_pair)
  show "R h (snd (snd (transmit (spy T) cmd (s, h))))"
    using transmit_spy [OF t] assms t by (auto simp: history_refl history_step)
qed

lemma tracks_retry: "\<not> is_extend cmd \<Longrightarrow> tracks R (retry_loop n (spy T) cmd b)"
  by (induction n arbitrary: b) (auto intro!: tracks_rules tracks_wait tracks_transmit)

lemma tracks_execute_raw: "\<not> is_extend cmd \<Longrightarrow> tracks R (execute_raw (spy T) cmd)"
  unfolding execute_raw_def by (intro tracks_rules tracks_transmit tracks_retry)

lemma tracks_execute: "\<not> is_extend cmd \<Longrightarrow> tracks R (execute (spy T) cmd)"
  unfolding execute_def by (intro tracks_rules tracks_execute_raw)

lemma tracks_run:
  "has_code code c \<Longrightarrow> code \<noteq> CC_PCR_EXTEND \<Longrightarrow> code \<noteq> ORD_EXTEND \<Longrightarrow> tracks R (tpm_run (spy T) c)"
  unfolding tpm_run_def by (rule tracks_finish) (auto intro!: tracks_rules tracks_execute)

lemma tracks_self_test_loop: "\<not> is_extend cmd \<Longrightarrow> tracks R (self_test_loop n (spy T) cmd)"
  by (induction n) (auto intro!: tracks_rules tracks_transmit tracks_wait split: result.split tpm_error.split)

lemma tracks_hierarchy [tracks_rules]:
  "tracks R (hierarchy_control (spy T) a e b)" "tracks R (hierarchy_change_auth (spy T) a bs)"
  unfolding hierarchy_control_def hierarchy_change_auth_def
  by (rule tracks_run [where code = CC_HIERARCHY_CONTROL]; simp add: command_codes)
    (rule tracks_run [where code = CC_HIERARCHY_CHANGE_AUTH]; simp add: command_codes)

lemma tracks_pcr_event [tracks_rules]: "tracks R (tpm20_pcr_event (spy T) pcr data)"
  unfolding tpm20_pcr_event_def by (rule tracks_run [where code = CC_PCR_EVENT]; simp add: command_codes)

lemma tracks_startup [tracks_rules]: "tracks R (tpm20_startup (spy T) kind)"
  unfolding tpm20_startup_def
  by (rule tracks_finish [where code = CC_STARTUP]) (auto intro!: tracks_rules tracks_execute_raw simp: command_codes)

lemma tracks_self_test [tracks_rules]: "tracks R (tpm20_self_test (spy T) full)"
  unfolding tpm20_self_test_def
  by (rule tracks_finish [where code = CC_SELF_TEST]) (auto intro!: tracks_self_test_loop simp: command_codes)

lemma tracks_pcr_banks [tracks_rules]: "tracks R (tpm20_pcr_banks (spy T))"
  unfolding tpm20_pcr_banks_def
  by (rule tracks_finish [where code = CC_GET_CAPABILITY]) (auto intro!: tracks_rules tracks_execute simp: command_codes)

lemma tracks_random_round [tracks_rules]: "tracks R (random_round (spy T) n)"
  unfolding random_round_def
  by (rule tracks_finish [where code = CC_GET_RANDOM]) (auto intro!: tracks_rules tracks_execute simp: command_codes)

lemma tracks_get_random_from: "R h (snd (snd (get_random (spy T) n (s, h))))"
proof (induction n arbitrary: s h rule: less_induct)
  case (less n)
  obtain r s' h' where t: "random_round (spy T) (min n 32) (s, h) = (r, s', h')"
    by (metis surj_pair)
  note R = tracksD [OF tracks_random_round t]
  show ?case
  proof (cases "n = 0 \<or> \<not> is_ok r")
    case True
    then show ?thesis
      using R t by (cases r) (auto simp: get_random.simps history_refl)
  next
    case False
    then obtain bs where r: "r = Ok bs"
      by (cases r) auto
    let ?rest = "get_random (spy T) (n - length bs)"
    have "R h' (snd (snd (?rest (s', h'))))"
      using random_round_length [OF t [unfolded r]] False by (intro less.IH) auto
    then have "R h' (snd (snd (op_bind ?rest (\<lambda>rest. op_return (Ok (bs @ rest))) (s', h'))))"
      by (cases "?rest (s', h')") (auto simp: op_bind_def op_return_def split: result.split)
    then show ?thesis
      using R history_trans t r False by (subst get_random.simps) auto
  qed
qed

lemma tracks_get_random [tracks_rules]: "tracks R (get_random (spy T) n)"
  by (simp add: tracks_def tracks_get_random_from)

lemma tracks_tpm12 [tracks_rules]:
  "tracks R (tpm12_startup (spy T) kind)" "tracks R (continue_self_test (spy T))" "tracks R (physical_presence (spy T) bits)"
  unfolding tpm12_startup_def continue_self_test_def physical_presence_def tpm12_command_def
    apply (rule tracks_run [where code = ORD_STARTUP]; simp add: command_codes)
   apply (rule tracks_run [where code = ORD_CONTINUE_SELF_TEST]; simp add: command_codes)
  apply (rule tracks_run [where code = TSC_ORD_PHYSICAL_PRESENCE]; simp add: command_codes)
  done

lemma tracks_get_flags [tracks_rules]: "tracks R (get_flags (spy T) sub_cap tag n)"
  unfolding get_flags_def tpm12_command_def
  by (rule tracks_finish [where code = ORD_GET_CAPABILITY]) (auto intro!: tracks_rules tracks_execute simp: command_codes)

lemma tracks_flags [tracks_rules]: "tracks R (get_permanent_flags (spy T))" "tracks R (get_volatile_flags (spy T))"
  unfolding get_permanent_flags_def get_volatile_flags_def by (intro tracks_rules)+

end

interpretation same_extends: history_order "\<lambda>h h'. extends h = extends h'"
  by unfold_locales (auto simp: extends_def)

interpretation growing: history_order prefix
  by unfold_locales auto

end
