(* ===== verification/Tcg_Log.thy ===== *)
theory Tcg_Log
  imports Prelude
begin

text \<open>
  The TCG event log (\<^verbatim>\<open>crates/tcg/src/log.rs\<close>, \<^verbatim>\<open>event.rs\<close>) and the PCR bank hashes
  (\<^verbatim>\<open>crates/crypto/src/pcr.rs\<close>). The hash functions are the parameter \<open>H\<close>, from algorithm and data to the
  digest. \<open>None\<close> as the outcome of an append is the error \<open>Full\<close>. Beside the code stands a
  reader of the log, which an operating system would use, and the lemma that it finds every entry.
\<close>

section \<open>Bank hashes\<close>

definition ALG_SHA1 :: u16 where "ALG_SHA1 = 0x0004"
definition ALG_SHA256 :: u16 where "ALG_SHA256 = 0x000B"
definition ALG_SHA384 :: u16 where "ALG_SHA384 = 0x000C"
definition ALG_SHA512 :: u16 where "ALG_SHA512 = 0x000D"
definition MAX_DIGEST_SIZE :: nat where "MAX_DIGEST_SIZE = 64"

definition digest_size :: "u16 \<Rightarrow> nat option" where
  "digest_size alg =
     (if alg = ALG_SHA1 then Some 20 else if alg = ALG_SHA256 then Some 32
      else if alg = ALG_SHA384 then Some 48 else if alg = ALG_SHA512 then Some 64 else None)"

definition pcr_hash :: "(u16 \<Rightarrow> bytes \<Rightarrow> bytes) \<Rightarrow> u16 \<Rightarrow> bytes \<Rightarrow> bytes option" where
  "pcr_hash H alg data = (if digest_size alg = None then None else Some (H alg data))"

section \<open>Events\<close>

definition EV_POST_CODE :: u32 where "EV_POST_CODE = 1"
definition EV_NO_ACTION :: u32 where "EV_NO_ACTION = 3"
definition EV_SEPARATOR :: u32 where "EV_SEPARATOR = 4"
definition EV_S_CRTM_CONTENTS :: u32 where "EV_S_CRTM_CONTENTS = 7"
definition EV_S_CRTM_VERSION :: u32 where "EV_S_CRTM_VERSION = 8"
definition EV_POST_CODE2 :: u32 where "EV_POST_CODE2 = 0x13"
definition EV_EFI_PLATFORM_FIRMWARE_BLOB :: u32 where "EV_EFI_PLATFORM_FIRMWARE_BLOB = 0x80000008"
definition EV_EFI_PLATFORM_FIRMWARE_BLOB2 :: u32 where "EV_EFI_PLATFORM_FIRMWARE_BLOB2 = 0x8000000A"

definition MAX_EVENT_DATA :: nat where "MAX_EVENT_DATA = 256"

text \<open>Event data is the filled part of its 256-byte buffer.\<close>

definition event_push :: "bytes \<Rightarrow> bytes \<Rightarrow> bytes" where
  "event_push data bs = data @ take (min (length bs) (MAX_EVENT_DATA - length data)) bs"

definition blob2 :: "bytes \<Rightarrow> u64 \<Rightarrow> u64 \<Rightarrow> bytes" where
  "blob2 description base len =
     (let description = take (min (length description) (MAX_EVENT_DATA - 17)) description
      in event_push (event_push (event_push (event_push [] [word_of_nat (length description)]) description)
           (to_le_bytes base)) (to_le_bytes len))"

definition blob :: "u64 \<Rightarrow> u64 \<Rightarrow> bytes" where
  "blob base len = event_push (event_push [] (to_le_bytes base)) (to_le_bytes len)"

definition tagged :: "u32 \<Rightarrow> bytes \<Rightarrow> bytes" where
  "tagged tag data =
     (let data = take (min (length data) (MAX_EVENT_DATA - 8)) data
      in event_push (event_push (event_push [] (to_le_bytes tag)) (to_le_bytes (word_of_nat (length data) :: u32))) data)"

text \<open>A text is given as its UTF-16 code units.\<close>

definition ucs2 :: "u16 list \<Rightarrow> bytes" where
  "ucs2 units = event_push (fold (\<lambda>u data. event_push data (to_le_bytes u)) units []) [0, 0]"

section \<open>Digests\<close>

definition MAX_BANKS :: nat where "MAX_BANKS = 4"

text \<open>The filled slots: the algorithm and its 64-byte slot.\<close>

type_synonym digests = "(u16 \<times> bytes) list"

definition digests_push :: "digests \<Rightarrow> u16 \<Rightarrow> bytes \<Rightarrow> digests" where
  "digests_push ds alg digest = (if length ds < MAX_BANKS then ds @ [(alg, zfill MAX_DIGEST_SIZE digest)] else ds)"

definition digests_iter :: "digests \<Rightarrow> (u16 \<times> bytes) list" where
  "digests_iter ds = map (\<lambda>(alg, slot). (alg, take (case digest_size alg of None \<Rightarrow> 0 | Some n \<Rightarrow> n) slot)) ds"

definition digests_get :: "digests \<Rightarrow> u16 \<Rightarrow> bytes option" where
  "digests_get ds alg = map_option snd (find (\<lambda>(a, _). a = alg) (digests_iter ds))"

section \<open>The log\<close>

datatype log_format = Sha1Format | CryptoAgile

record event_log =
  el_buf :: bytes
  el_used :: nat
  el_last :: "nat option"
  el_format :: log_format

datatype platform_class = ClassClient | ClassServer

fun class_code :: "platform_class \<Rightarrow> u32" where
  "class_code ClassClient = 0"
| "class_code ClassServer = 1"

text \<open>\<open>reserve\<close> followed by filling the whole of the reserved slice with \<open>entry\<close>.\<close>

definition log_write :: "event_log \<Rightarrow> bytes \<Rightarrow> event_log option" where
  "log_write log entry =
     (let start = el_used log; stop = start + length entry in
      if stop > length (el_buf log) then None
      else Some (log\<lparr>el_last := Some start, el_used := stop, el_buf := write_at (el_buf log) start entry\<rparr>))"

definition sha1_entry :: "u32 \<Rightarrow> u32 \<Rightarrow> bytes \<Rightarrow> bytes \<Rightarrow> bytes" where
  "sha1_entry pcr event_type digest event =
     to_le_bytes pcr @ to_le_bytes event_type @ take 20 digest @ to_le_bytes (word_of_nat (length event) :: u32) @ event"

definition agile_entry :: "u32 \<Rightarrow> u32 \<Rightarrow> digests \<Rightarrow> bytes \<Rightarrow> bytes" where
  "agile_entry pcr event_type ds event =
     to_le_bytes pcr @ to_le_bytes event_type @ to_le_bytes (word_of_nat (length ds) :: u32) @
     concat (map (\<lambda>(alg, digest). to_le_bytes alg @ digest) (digests_iter ds)) @
     to_le_bytes (word_of_nat (length event) :: u32) @ event"

definition append_sha1_entry :: "event_log \<Rightarrow> u32 \<Rightarrow> u32 \<Rightarrow> bytes \<Rightarrow> bytes \<Rightarrow> event_log option" where
  "append_sha1_entry log pcr event_type digest event = log_write log (sha1_entry pcr event_type digest event)"

definition log_append :: "event_log \<Rightarrow> u32 \<Rightarrow> u32 \<Rightarrow> digests \<Rightarrow> bytes \<Rightarrow> event_log option" where
  "log_append log pcr event_type ds event =
     (case el_format log of
        Sha1Format \<Rightarrow>
          append_sha1_entry log pcr event_type (case digests_get ds ALG_SHA1 of None \<Rightarrow> replicate 20 0 | Some d \<Rightarrow> d) event
      | CryptoAgile \<Rightarrow> log_write log (agile_entry pcr event_type ds event))"

definition spec_id :: "platform_class \<Rightarrow> bytes \<Rightarrow> u8 \<Rightarrow> u8 \<Rightarrow> bytes" where
  "spec_id class signature errata fifth =
     signature @ to_le_bytes (class_code class) @ [2, 1, errata, fifth] @ [0]"

definition SPEC_ID_00 :: bytes where
  "SPEC_ID_00 = map (\<lambda>c. word_of_nat (of_char c)) ''Spec ID Event00'' @ [0]"
definition SPEC_ID_02 :: bytes where
  "SPEC_ID_02 = map (\<lambda>c. word_of_nat (of_char c)) ''Spec ID Event02'' @ [0]"
definition SPEC_ID_03 :: bytes where
  "SPEC_ID_03 = map (\<lambda>c. word_of_nat (of_char c)) ''Spec ID Event03'' @ [0]"

definition sha1_log :: "bytes \<Rightarrow> platform_class \<Rightarrow> bool \<Rightarrow> event_log option" where
  "sha1_log buf class uefi =
     (let log = \<lparr>el_buf = replicate (length buf) 0, el_used = 0, el_last = None, el_format = Sha1Format\<rparr> in
      Option.bind (append_sha1_entry log 0 EV_NO_ACTION (replicate 20 0) (spec_id class SPEC_ID_00 1 0)) (\<lambda>log.
      if uefi then append_sha1_entry log 0 EV_NO_ACTION (replicate 20 0) (spec_id class SPEC_ID_02 2 2)
      else Some log))"

definition agile_spec_id :: "u16 list \<Rightarrow> platform_class \<Rightarrow> bytes" where
  "agile_spec_id banks class =
     (let banks = take (min (length banks) MAX_BANKS) banks in
      SPEC_ID_03 @ to_le_bytes (class_code class) @ [0, 2, 106, 2] @ to_le_bytes (word_of_nat (length banks) :: u32) @
      concat (map (\<lambda>alg. to_le_bytes alg @
        to_le_bytes (word_of_nat (case digest_size alg of None \<Rightarrow> 0 | Some n \<Rightarrow> n) :: u16)) banks) @ [0])"

definition crypto_agile_log :: "bytes \<Rightarrow> u16 list \<Rightarrow> platform_class \<Rightarrow> event_log option" where
  "crypto_agile_log buf banks class =
     append_sha1_entry \<lparr>el_buf = replicate (length buf) 0, el_used = 0, el_last = None, el_format = CryptoAgile\<rparr>
       0 EV_NO_ACTION (replicate 20 0) (agile_spec_id banks class)"

definition log_bytes :: "event_log \<Rightarrow> bytes" where
  "log_bytes log = take (el_used log) (el_buf log)"

section \<open>Reading a log\<close>

text \<open>
  The first entry has the SHA-1 layout in both formats. The entries end at the end of the buffer
  or at an entry whose PCR index and type are both zero; a broken entry makes the log unreadable.
\<close>

record log_entry =
  le_pcr :: u32
  le_type :: u32
  le_digests :: "(u16 \<times> bytes) list"
  le_event :: bytes

primrec read_digests :: "nat \<Rightarrow> bytes \<Rightarrow> ((u16 \<times> bytes) list \<times> bytes) option" where
  "read_digests 0 bs = Some ([], bs)"
| "read_digests (Suc n) bs =
     (if length bs < 2 then None
      else case digest_size (le16 bs 0) of
             None \<Rightarrow> None
           | Some k \<Rightarrow>
               if length bs < 2 + k then None
               else map_option (\<lambda>(ds, r). ((le16 bs 0, sub bs 2 k) # ds, r)) (read_digests n (drop (2 + k) bs)))"

definition read_event :: "u32 \<Rightarrow> u32 \<Rightarrow> (u16 \<times> bytes) list \<Rightarrow> bytes \<Rightarrow> (log_entry \<times> bytes) option" where
  "read_event pcr ty ds bs =
     (if length bs < 4 then None
      else let n = unat (le32 bs 0) in
        if length bs < 4 + n then None
        else Some (\<lparr>le_pcr = pcr, le_type = ty, le_digests = ds, le_event = sub bs 4 n\<rparr>, drop (4 + n) bs))"

fun read_log_entry :: "log_format \<Rightarrow> bytes \<Rightarrow> (log_entry \<times> bytes) option" where
  "read_log_entry Sha1Format bs =
     (if length bs < 28 then None
      else read_event (le32 bs 0) (le32 bs 4) [(ALG_SHA1, sub bs 8 20)] (drop 28 bs))"
| "read_log_entry CryptoAgile bs =
     (if length bs < 12 then None
      else case read_digests (unat (le32 bs 8)) (drop 12 bs) of
             None \<Rightarrow> None
           | Some (ds, r) \<Rightarrow> read_event (le32 bs 0) (le32 bs 4) ds r)"

lemma read_digests_shorter: "read_digests n bs = Some (ds, r) \<Longrightarrow> length r \<le> length bs"
  by (induction n arbitrary: bs ds) (fastforce split: if_splits option.splits)+

lemma read_log_entry_shorter: "read_log_entry f bs = Some (e, r) \<Longrightarrow> length r < length bs"
  by (cases f) (auto simp: read_event_def Let_def split: if_splits option.splits dest!: read_digests_shorter)

function parse_entries :: "log_format \<Rightarrow> bytes \<Rightarrow> log_entry list option" where
  "parse_entries f bs =
     (if length bs < 8 \<or> le32 bs 0 = 0 \<and> le32 bs 4 = 0 then Some []
      else case read_log_entry f bs of
             None \<Rightarrow> None
           | Some (e, r) \<Rightarrow> map_option ((#) e) (parse_entries f r))"
  by pat_completeness auto
termination
  by (relation "measure (\<lambda>(f, bs). length bs)") (auto dest!: read_log_entry_shorter)

declare parse_entries.simps [simp del]

definition parse_log :: "log_format \<Rightarrow> bytes \<Rightarrow> log_entry list option" where
  "parse_log f buf =
     (case read_log_entry Sha1Format buf of
        None \<Rightarrow> None
      | Some (e, r) \<Rightarrow> map_option ((#) e) (parse_entries f r))"

section \<open>What is written can be read\<close>

fun entry_bytes :: "log_format \<Rightarrow> log_entry \<Rightarrow> bytes" where
  "entry_bytes Sha1Format e =
     to_le_bytes (le_pcr e) @ to_le_bytes (le_type e) @ concat (map snd (le_digests e)) @
     to_le_bytes (word_of_nat (length (le_event e)) :: u32) @ le_event e"
| "entry_bytes CryptoAgile e =
     to_le_bytes (le_pcr e) @ to_le_bytes (le_type e) @ to_le_bytes (word_of_nat (length (le_digests e)) :: u32) @
     concat (map (\<lambda>(alg, digest). to_le_bytes alg @ digest) (le_digests e)) @
     to_le_bytes (word_of_nat (length (le_event e)) :: u32) @ le_event e"

fun digests_fit :: "log_format \<Rightarrow> (u16 \<times> bytes) list \<Rightarrow> bool" where
  "digests_fit Sha1Format ds = (\<exists>d. ds = [(ALG_SHA1, d)] \<and> length d = 20)"
| "digests_fit CryptoAgile ds = (length ds < 2 ^ 32 \<and> (\<forall>(alg, d) \<in> set ds. digest_size alg = Some (length d)))"

definition entry_fits :: "log_format \<Rightarrow> log_entry \<Rightarrow> bool" where
  "entry_fits f e \<longleftrightarrow> digests_fit f (le_digests e) \<and> length (le_event e) < 2 ^ 32"

lemma read_event_bytes:
  assumes "length ev < 2 ^ 32"
  shows "read_event pcr ty ds (to_le_bytes (word_of_nat (length ev) :: u32) @ ev @ r) =
    Some (\<lparr>le_pcr = pcr, le_type = ty, le_digests = ds, le_event = ev\<rparr>, r)"
proof -
  have "unat (word_of_nat (length ev) :: u32) = length ev"
    using assms by (simp add: unat_of_nat)
  then show ?thesis
    by (simp add: read_event_def Let_def le32_def byte_simps)
qed

lemma read_digests_bytes:
  "\<forall>(alg, d) \<in> set ds. digest_size alg = Some (length d) \<Longrightarrow>
    read_digests (length ds) (concat (map (\<lambda>(alg, digest). to_le_bytes alg @ digest) ds) @ r) = Some (ds, r)"
  by (induction ds) (auto simp: le16_def byte_simps)

lemma read_log_entry_bytes:
  assumes "entry_fits f e"
  shows "read_log_entry f (entry_bytes f e @ r) = Some (e, r)"
proof (cases f)
  case Sha1Format
  obtain d where d: "le_digests e = [(ALG_SHA1, d)]" "length d = 20"
    using assms Sha1Format by (auto simp: entry_fits_def)
  show ?thesis
    using assms read_event_bytes [of "le_event e"]
    by (simp add: Sha1Format d entry_fits_def le32_def byte_simps)
next
  case CryptoAgile
  have n: "unat (word_of_nat (length (le_digests e)) :: u32) = length (le_digests e)"
    using assms CryptoAgile by (simp add: entry_fits_def unat_of_nat)
  show ?thesis
    using assms read_event_bytes [of "le_event e"] read_digests_bytes [of "le_digests e"]
    by (simp add: CryptoAgile entry_fits_def le32_def byte_simps n)
qed

lemma entry_bytes_head:
  "8 \<le> length (entry_bytes f e @ r)" "le32 (entry_bytes f e @ r) 0 = le_pcr e" "le32 (entry_bytes f e @ r) 4 = le_type e"
  by (cases f; simp add: le32_def byte_simps)+

lemma parse_zeros: "parse_entries f (replicate k 0) = Some []"
proof -
  have "le_dec (replicate j 0) = 0" for j
    by (induction j) auto
  then show ?thesis
    by (subst parse_entries.simps) (simp add: le32_def from_le_bytes_def sub_replicate)
qed

lemma parse_entries_bytes:
  "\<forall>e \<in> set es. entry_fits f e \<and> \<not> (le_pcr e = 0 \<and> le_type e = 0) \<Longrightarrow>
    parse_entries f (concat (map (entry_bytes f) es) @ replicate k 0) = Some es"
proof (induction es)
  case Nil
  then show ?case by (simp add: parse_zeros)
next
  case (Cons e es)
  let ?r = "concat (map (entry_bytes f) es) @ replicate k 0"
  have "parse_entries f (entry_bytes f e @ ?r) = map_option ((#) e) (parse_entries f ?r)"
    using Cons.prems entry_bytes_head [of f e ?r] read_log_entry_bytes [of f e ?r]
    by (subst parse_entries.simps) auto
  then show ?case
    using Cons by simp
qed



section \<open>The contents of a log\<close>

text \<open>The buffer is its entries followed by zeros; the first entry has the SHA-1 layout.\<close>

definition log_holds :: "event_log \<Rightarrow> log_entry \<Rightarrow> log_entry list \<Rightarrow> bool" where
  "log_holds log e es \<longleftrightarrow>
     (let front = entry_bytes Sha1Format e @ concat (map (entry_bytes (el_format log)) es) in
      el_used log = length front \<and> el_used log \<le> length (el_buf log) \<and>
      el_buf log = front @ replicate (length (el_buf log) - el_used log) 0)"

definition entry_of :: "log_format \<Rightarrow> u32 \<Rightarrow> u32 \<Rightarrow> digests \<Rightarrow> bytes \<Rightarrow> log_entry" where
  "entry_of f pcr event_type ds event =
     \<lparr>le_pcr = pcr, le_type = event_type,
      le_digests = (case f of
         Sha1Format \<Rightarrow> [(ALG_SHA1, take 20 (case digests_get ds ALG_SHA1 of None \<Rightarrow> replicate 20 0 | Some d \<Rightarrow> d))]
       | CryptoAgile \<Rightarrow> digests_iter ds),
      le_event = event\<rparr>"

definition spec_entry :: "bytes \<Rightarrow> log_entry" where
  "spec_entry event = \<lparr>le_pcr = 0, le_type = EV_NO_ACTION, le_digests = [(ALG_SHA1, replicate 20 0)], le_event = event\<rparr>"

lemma log_append_eq:
  "log_append log pcr ty ds ev = log_write log (entry_bytes (el_format log) (entry_of (el_format log) pcr ty ds ev))"
  by (cases "el_format log")
    (simp_all add: log_append_def append_sha1_entry_def sha1_entry_def agile_entry_def entry_of_def digests_iter_def)

lemma length_event_le: "length ev \<le> length (entry_bytes f (entry_of f pcr ty ds ev))"
  by (cases f) (simp_all add: entry_of_def)

lemma append_spec:
  "append_sha1_entry log 0 EV_NO_ACTION (replicate 20 0) ev = log_write log (entry_bytes Sha1Format (spec_entry ev))"
  by (simp add: append_sha1_entry_def sha1_entry_def spec_entry_def)

declare entry_bytes.simps [simp del] read_log_entry.simps [simp del]

lemma write_at_zeros: "length ys \<le> k \<Longrightarrow> write_at (xs @ replicate k 0) (length xs) ys = xs @ ys @ replicate (k - length ys) 0"
  by (simp add: write_at_def)

lemma log_write_holds:
  assumes "log_holds log e es" "log_write log (entry_bytes (el_format log) x) = Some log'"
  shows "log_holds log' e (es @ [x])" "el_format log' = el_format log" "length (el_buf log') = length (el_buf log)"
    "el_used log' = el_used log + length (entry_bytes (el_format log) x)"
proof -
  let ?front = "entry_bytes Sha1Format e @ concat (map (entry_bytes (el_format log)) es)"
  let ?x = "entry_bytes (el_format log) x" and ?k = "length (el_buf log) - el_used log"
  have h: "el_used log = length ?front" "el_used log \<le> length (el_buf log)" "el_buf log = ?front @ replicate ?k 0"
    using assms(1) unfolding log_holds_def Let_def by blast+
  have l: "el_used log + length ?x \<le> length (el_buf log)"
    and log': "log' = log\<lparr>el_last := Some (el_used log), el_used := el_used log + length ?x,
      el_buf := write_at (el_buf log) (el_used log) ?x\<rparr>"
    using assms(2) by (auto simp: log_write_def Let_def split: if_splits)
  have "write_at (?front @ replicate ?k 0) (length ?front) ?x = ?front @ ?x @ replicate (?k - length ?x) 0"
    using l by (intro write_at_zeros) simp
  then have b: "write_at (el_buf log) (el_used log) ?x = ?front @ ?x @ replicate (?k - length ?x) 0"
    using h(1,3) by metis
  show "el_format log' = el_format log" "length (el_buf log') = length (el_buf log)" "el_used log' = el_used log + length ?x"
    using l by (simp_all add: log' length_write_at)
  have "length (write_at (el_buf log) (el_used log) ?x) = length (el_buf log)"
    using l by (simp add: length_write_at)
  then show "log_holds log' e (es @ [x])"
    using h(1) l b by (simp add: log_holds_def Let_def log')
qed

lemma log_append_holds:
  assumes "log_holds log e es" "log_append log pcr ty ds ev = Some log'"
  shows "log_holds log' e (es @ [entry_of (el_format log) pcr ty ds ev])" "el_format log' = el_format log"
    "length (el_buf log') = length (el_buf log)" "length ev \<le> length (el_buf log)"
proof -
  note w = log_write_holds [OF assms(1) assms(2) [unfolded log_append_eq]]
  show "log_holds log' e (es @ [entry_of (el_format log) pcr ty ds ev])" "el_format log' = el_format log"
    "length (el_buf log') = length (el_buf log)"
    using w by auto
  note length_event_le [of ev "el_format log" pcr ty ds]
  moreover have "el_used log' \<le> length (el_buf log')"
    using w(1) by (simp add: log_holds_def Let_def)
  ultimately show "length ev \<le> length (el_buf log)"
    using w(3,4) by (metis add_leD2 le_trans)
qed

lemma log_holds_parse:
  assumes "log_holds log e es" "entry_fits Sha1Format e"
    "\<forall>x \<in> set es. entry_fits (el_format log) x \<and> \<not> (le_pcr x = 0 \<and> le_type x = 0)"
  shows "parse_log (el_format log) (el_buf log) = Some (e # es)"
proof -
  obtain k where "el_buf log = entry_bytes Sha1Format e @ concat (map (entry_bytes (el_format log)) es) @ replicate k 0"
    using assms(1) unfolding log_holds_def Let_def append_assoc by blast
  then show ?thesis
    using read_log_entry_bytes [OF assms(2)] parse_entries_bytes [OF assms(3)] by (simp add: parse_log_def)
qed

section \<open>New logs\<close>

lemma log_write_empty:
  assumes "log_write \<lparr>el_buf = replicate n 0, el_used = 0, el_last = None, el_format = f\<rparr> (entry_bytes Sha1Format e) = Some log"
  shows "log_holds log e []" "el_format log = f" "length (el_buf log) = n"
  using assms write_at_zeros [of "entry_bytes Sha1Format e" n "[]"]
  by (auto simp: log_write_def Let_def log_holds_def length_write_at split: if_splits)

lemma length_spec_ids: "length SPEC_ID_00 = 16" "length SPEC_ID_02 = 16" "length SPEC_ID_03 = 16"
  by (simp_all add: SPEC_ID_00_def SPEC_ID_02_def SPEC_ID_03_def)

lemma spec_entry_fits: "length ev < 2 ^ 32 \<Longrightarrow> entry_fits Sha1Format (spec_entry ev)"
  by (simp add: entry_fits_def spec_entry_def)

definition new_entries :: "log_format \<Rightarrow> bool \<Rightarrow> u16 list \<Rightarrow> platform_class \<Rightarrow> log_entry list" where
  "new_entries f uefi banks class =
     (case f of
        Sha1Format \<Rightarrow> spec_entry (spec_id class SPEC_ID_00 1 0) #
          (if uefi then [spec_entry (spec_id class SPEC_ID_02 2 2)] else [])
      | CryptoAgile \<Rightarrow> [spec_entry (agile_spec_id banks class)])"

lemma sha1_log_holds:
  assumes "sha1_log buf class uefi = Some log"
  shows "log_holds log (hd (new_entries Sha1Format uefi bs class)) (tl (new_entries Sha1Format uefi bs class))"
    "el_format log = Sha1Format" "length (el_buf log) = length buf"
proof -
  obtain l1 where l1: "log_write \<lparr>el_buf = replicate (length buf) 0, el_used = 0, el_last = None, el_format = Sha1Format\<rparr>
      (entry_bytes Sha1Format (spec_entry (spec_id class SPEC_ID_00 1 0))) = Some l1"
    and l2: "if uefi then log_write l1 (entry_bytes Sha1Format (spec_entry (spec_id class SPEC_ID_02 2 2))) = Some log else log = l1"
    using assms by (auto simp: sha1_log_def Let_def bind_eq_Some_conv append_spec split: if_splits)
  note w = log_write_empty [OF l1]
  show "log_holds log (hd (new_entries Sha1Format uefi bs class)) (tl (new_entries Sha1Format uefi bs class))"
    "el_format log = Sha1Format" "length (el_buf log) = length buf"
    using l2 w log_write_holds [OF w(1), of "spec_entry (spec_id class SPEC_ID_02 2 2)" log]
    by (auto simp: new_entries_def split: if_splits)
qed

lemma crypto_agile_log_holds:
  assumes "crypto_agile_log buf banks class = Some log"
  shows "log_holds log (hd (new_entries CryptoAgile uefi banks class)) (tl (new_entries CryptoAgile uefi banks class))"
    "el_format log = CryptoAgile" "length (el_buf log) = length buf"
  using log_write_empty [of "length buf" CryptoAgile "spec_entry (agile_spec_id banks class)" log] assms
  by (simp_all add: crypto_agile_log_def append_spec new_entries_def)

section \<open>A log and its entries\<close>

definition new_log :: "log_format \<Rightarrow> bytes \<Rightarrow> u16 list \<Rightarrow> platform_class \<Rightarrow> bool \<Rightarrow> event_log option" where
  "new_log f buf banks class uefi =
     (case f of Sha1Format \<Rightarrow> sha1_log buf class uefi | CryptoAgile \<Rightarrow> crypto_agile_log buf banks class)"

primrec append_events :: "event_log \<Rightarrow> (u32 \<times> u32 \<times> digests \<times> bytes) list \<Rightarrow> event_log option" where
  "append_events log [] = Some log"
| "append_events log (x # xs) =
     (case x of (pcr, ty, ds, ev) \<Rightarrow> Option.bind (log_append log pcr ty ds ev) (\<lambda>log. append_events log xs))"

definition slots_ok :: "digests \<Rightarrow> bool" where
  "slots_ok ds \<longleftrightarrow> length ds \<le> MAX_BANKS \<and>
     (\<forall>(alg, slot) \<in> set ds. digest_size alg \<noteq> None \<and> length slot = MAX_DIGEST_SIZE)"

lemma digest_size_le: "digest_size alg = Some n \<Longrightarrow> n \<le> MAX_DIGEST_SIZE"
  by (auto simp: digest_size_def MAX_DIGEST_SIZE_def split: if_splits)

lemma slots_ok_push:
  "slots_ok ds \<Longrightarrow> digest_size alg = Some (length d) \<Longrightarrow> slots_ok (digests_push ds alg d)"
  using digest_size_le [of alg "length d"] by (auto simp: slots_ok_def digests_push_def zfill_def)

lemma digests_iter_sizes:
  "slots_ok ds \<Longrightarrow> (alg, d) \<in> set (digests_iter ds) \<Longrightarrow> digest_size alg = Some (length d)"
  using digest_size_le [of alg]
  by (fastforce simp: slots_ok_def digests_iter_def split: option.splits)

lemma length_digests_iter: "slots_ok ds \<Longrightarrow> length (digests_iter ds) < 2 ^ 32"
  by (simp add: slots_ok_def digests_iter_def MAX_BANKS_def)

lemma digests_get_size: "slots_ok ds \<Longrightarrow> digests_get ds alg = Some d \<Longrightarrow> digest_size alg = Some (length d)"
  by (auto simp: digests_get_def find_Some_iff intro!: digests_iter_sizes) (metis nth_mem)

lemma entry_of_fits:
  assumes "slots_ok ds" "length ev < 2 ^ 32"
  shows "entry_fits f (entry_of f pcr ty ds ev)"
proof (cases f)
  case Sha1Format
  have "digest_size ALG_SHA1 = Some 20"
    by (simp add: digest_size_def)
  then show ?thesis
    using assms digests_get_size [OF assms(1), of ALG_SHA1]
    by (auto simp: Sha1Format entry_fits_def entry_of_def split: option.splits)
next
  case CryptoAgile
  then show ?thesis
    using assms digests_iter_sizes [OF assms(1)] length_digests_iter [OF assms(1)]
    by (auto simp: entry_fits_def entry_of_def)
qed

lemma append_events_holds:
  assumes "append_events log xs = Some log'" "log_holds log e es"
    and "\<forall>(pcr, ty, ds, ev) \<in> set xs. slots_ok ds" "length (el_buf log) < 2 ^ 32"
  shows "log_holds log' e (es @ map (\<lambda>(pcr, ty, ds, ev). entry_of (el_format log) pcr ty ds ev) xs) \<and>
    el_format log' = el_format log \<and>
    (\<forall>(pcr, ty, ds, ev) \<in> set xs. entry_fits (el_format log) (entry_of (el_format log) pcr ty ds ev))"
  using assms
proof (induction xs arbitrary: log es)
  case (Cons x xs)
  obtain pcr ty ds ev where x: "x = (pcr, ty, ds, ev)"
    by (cases x)
  obtain log1 where l1: "log_append log pcr ty ds ev = Some log1" and rest: "append_events log1 xs = Some log'"
    using Cons.prems(1) by (auto simp: x bind_eq_Some_conv)
  note a = log_append_holds [OF Cons.prems(2) l1]
  have "entry_fits (el_format log) (entry_of (el_format log) pcr ty ds ev)"
    using a(4) Cons.prems(3,4) by (intro entry_of_fits) (auto simp: x)
  then show ?case
    using Cons.IH [OF rest a(1)] Cons.prems(3,4) a(2,3) by (auto simp: x)
qed simp

lemma length_spec_id: "length signature = 16 \<Longrightarrow> length (spec_id class signature a b) = 25"
  by (simp add: spec_id_def)

lemma length_agile_spec_id: "length (agile_spec_id banks class) \<le> 45"
proof -
  have "length (concat (map (\<lambda>alg. to_le_bytes alg @
      to_le_bytes (word_of_nat (case digest_size alg of None \<Rightarrow> 0 | Some n \<Rightarrow> n) :: u16)) bs)) = 4 * length bs" for bs
    by (induction bs) simp_all
  then show ?thesis
    by (simp add: agile_spec_id_def Let_def length_spec_ids MAX_BANKS_def)
qed

lemma new_log_holds:
  assumes "new_log f buf banks class uefi = Some log"
  shows "log_holds log (hd (new_entries f uefi banks class)) (tl (new_entries f uefi banks class))"
    "el_format log = f" "length (el_buf log) = length buf"
  using assms sha1_log_holds [of buf "class" uefi log] crypto_agile_log_holds [of buf banks "class" log]
  by (simp_all add: new_log_def split: log_format.splits)

lemma new_entries_fit:
  "entry_fits Sha1Format (hd (new_entries f uefi banks class))"
  "\<forall>e \<in> set (tl (new_entries f uefi banks class)). entry_fits f e \<and> \<not> (le_pcr e = 0 \<and> le_type e = 0)"
  using length_agile_spec_id [of banks "class"]
  by (auto simp: new_entries_def spec_entry_fits length_spec_id length_spec_ids spec_entry_def EV_NO_ACTION_def
      entry_fits_def split: log_format.splits if_splits intro!: spec_entry_fits)

lemma append_events_parse:
  assumes "new_log f buf banks class uefi = Some log" "append_events log xs = Some log'" "length buf < 2 ^ 32"
    and "\<forall>(pcr, ty, ds, ev) \<in> set xs. slots_ok ds \<and> \<not> (pcr = 0 \<and> ty = 0)"
  shows "parse_log f (el_buf log') =
    Some (new_entries f uefi banks class @ map (\<lambda>(pcr, ty, ds, ev). entry_of f pcr ty ds ev) xs)"
proof -
  let ?es = "map (\<lambda>(pcr, ty, ds, ev). entry_of f pcr ty ds ev) xs" and ?new = "new_entries f uefi banks class"
  note n = new_log_holds [OF assms(1)]
  have h: "log_holds log' (hd ?new) (tl ?new @ ?es)" and f: "el_format log' = f"
    and fit: "\<forall>(pcr, ty, ds, ev) \<in> set xs. entry_fits f (entry_of f pcr ty ds ev)"
    using append_events_holds [OF assms(2) n(1)] n(2,3) assms(3,4) by (simp_all add: case_prod_beta)
  have "\<forall>x \<in> set (tl ?new @ ?es). entry_fits f x \<and> \<not> (le_pcr x = 0 \<and> le_type x = 0)"
    using new_entries_fit(2) [of f uefi banks "class"] fit assms(4) by (fastforce simp: entry_of_def)
  moreover have "?new \<noteq> []"
    by (simp add: new_entries_def split: log_format.splits)
  ultimately show ?thesis
    using log_holds_parse [OF h new_entries_fit(1)] f by simp
qed

text \<open>
  C39: every event of a log can be read back. A log of either format is started in a buffer of less than
  4 GiB and any number of events is appended, none of them the reserved PCR 0 type 0, with digests of supported banks;
  when none of the appends finds the log full, a reader of the buffer finds exactly the Spec ID
  events of the format and then the events in the order they were appended, each with its PCR, type, digests and data, and it stops
  there, whatever the buffer held before.
\<close>

theorem event_log_reads_back:
  assumes "new_log f buf banks class uefi = Some log" "append_events log xs = Some log'" "length buf < 2 ^ 32"
    and "\<forall>(pcr, ty, ds, ev) \<in> set xs. slots_ok ds \<and> \<not> (pcr = 0 \<and> ty = 0)"
  shows "parse_log f (el_buf log') =
    Some (new_entries f uefi banks class @ map (\<lambda>(pcr, ty, ds, ev). entry_of f pcr ty ds ev) xs)"
  using assms by (rule append_events_parse)

definition sample_events :: "(u32 \<times> u32 \<times> digests \<times> bytes) list" where
  "sample_events = [(0, EV_S_CRTM_VERSION, [(ALG_SHA1, replicate 64 7)], [0x31, 0, 0, 0]), (4, 5, [], [])]"

theorem event_log_reads_back_witness:
  "\<exists>log log'. new_log Sha1Format (replicate 150 0xAA) [] ClassClient False = Some log \<and>
     append_events log sample_events = Some log' \<and>
     parse_log Sha1Format (el_buf log') =
       Some (new_entries Sha1Format False [] ClassClient @ map (\<lambda>(pcr, ty, ds, ev). entry_of Sha1Format pcr ty ds ev) sample_events)"
proof -
  obtain log where log: "new_log Sha1Format (replicate 150 0xAA) [] ClassClient False = Some log"
    and used: "el_used log = 57" "length (el_buf log) = 150" "el_format log = Sha1Format"
    by (simp add: new_log_def sha1_log_def append_sha1_entry_def log_write_def sha1_entry_def Let_def length_spec_id
        length_spec_ids length_write_at)
  obtain log' where log': "append_events log sample_events = Some log'"
    using used by (simp add: sample_events_def log_append_def append_sha1_entry_def log_write_def sha1_entry_def Let_def
        length_write_at digests_get_def digests_iter_def digest_size_def)
  have "\<forall>(pcr, ty, ds, ev) \<in> set sample_events. slots_ok ds \<and> \<not> (pcr = 0 \<and> ty = 0)"
    by (simp add: sample_events_def slots_ok_def EV_S_CRTM_VERSION_def MAX_BANKS_def MAX_DIGEST_SIZE_def digest_size_def)
  then show ?thesis
    using event_log_reads_back [OF log log'] log log' by simp
qed

end
