(* ===== verification/Tcg.thy ===== *)
theory Tcg
  imports Tpm Tcg_Log
begin

text \<open>
  Measured boot (\<^verbatim>\<open>crates/tcg/src/lib.rs\<close>): starting the TPM, the measurements with their log, failure,
  locking and the handoff to the payload. The global \<open>STATE\<close> is a slot, \<open>None\<close> while measured boot is
  off; the state owns the device. Only the boot CPU calls in and no transport calls back, so the flag
  \<open>BUSY\<close> is never found taken. The hash functions are the parameter \<open>H\<close>, the transport \<open>T\<close>.
\<close>

section \<open>Starting\<close>

text \<open>The PCRs of the firmware, \<open>0..8\<close>.\<close>

definition FIRMWARE_PCRS :: "u32 list" where "FIRMWARE_PCRS = [0, 1, 2, 3, 4, 5, 6, 7]"

datatype start_error =
  Startup string tpm_error
| Inactive
| UnsupportedBank u16
| NoBank
| LogFull
| Unprotected
| Started

datatype remedy = Hide | ResetPlatform | NoRemedy | Halt

fun start_remedy :: "start_error \<Rightarrow> remedy" where
  "start_remedy (Startup name (TpmCode code)) =
     (if rc_base code = RC_VALUE \<or> rc_base code = RC_LOCALITY then ResetPlatform else Hide)"
| "start_remedy Inactive = NoRemedy"
| "start_remedy Started = NoRemedy"
| "start_remedy Unprotected = Halt"
| "start_remedy e = Hide"

definition startup :: "'s transport \<Rightarrow> ('s, start_error, family) device_op" where
  "startup T =
     op_or_else (op_bind (tpm20_startup T 0) (\<lambda>_. op_return (Ok Tpm20))) (\<lambda>error.
       if error = TpmCode RC_INITIALIZE then op_return (Ok Tpm20)
       else if error = TpmCode RC_BAD_TAG then
         op_or_else (op_bind (tpm12_startup T 1) (\<lambda>_. op_return (Ok Tpm12))) (\<lambda>error.
           if error = TpmCode RC_INVALID_POSTINIT then op_return (Ok Tpm12)
           else op_return (Err (Startup ''TPM_Startup'' error)))
       else op_return (Err (Startup ''TPM2_Startup'' error)))"

definition prepare_tpm12 :: "'s transport \<Rightarrow> ('s, start_error, unit) device_op" where
  "prepare_tpm12 T =
     op_bind (op_map_err (Startup ''TPM_ContinueSelfTest'') (continue_self_test T)) (\<lambda>_.
     op_bind (op_map_err (Startup ''TPM_GetCapability'') (get_permanent_flags T)) (\<lambda>flags.
     op_bind (if \<not> pf_lifetime_lock flags \<and> \<not> pf_cmd_enable flags
       then op_succeeds (physical_presence T PP_CMD_ENABLE) else op_return (Ok True)) (\<lambda>_.
     op_bind (op_succeeds (physical_presence T PP_PRESENT)) (\<lambda>_.
     op_bind (op_map_err (Startup ''TPM_GetCapability'') (get_volatile_flags T)) (\<lambda>volatile.
     op_return (if pf_disable flags \<or> pf_deactivated flags \<or> vf_deactivated volatile then Err Inactive else Ok ()))))))"

text \<open>The platform hierarchy behind a random authorization or, failing that, off.\<close>

definition lock_platform :: "'s transport \<Rightarrow> ('s, unit) tpm_op" where
  "lock_platform T =
     op_or_else (op_bind (get_random T 32) (hierarchy_change_auth T RH_PLATFORM))
       (\<lambda>_. hierarchy_control T RH_PLATFORM RH_PLATFORM False)"

text \<open>Extend PCR 0 to 7 through the TPM's own hashing; whether all of them succeeded.\<close>

primrec cap_events :: "u32 list \<Rightarrow> 's transport \<Rightarrow> ('s, 'e, bool) device_op" where
  "cap_events [] T = op_return (Ok True)"
| "cap_events (pcr # pcrs) T =
     op_bind (op_succeeds (tpm20_pcr_event T pcr (to_le_bytes (0 :: u32)))) (\<lambda>ok.
     op_bind (cap_events pcrs T) (\<lambda>rest. op_return (Ok (ok \<and> rest))))"

definition hide_tpm20 :: "'s transport \<Rightarrow> ('s, 'e, bool) device_op" where
  "hide_tpm20 T =
     op_bind (op_succeeds (hierarchy_control T RH_PLATFORM RH_ENDORSEMENT False)) (\<lambda>endorsement.
     op_bind (op_succeeds (hierarchy_control T RH_PLATFORM RH_OWNER False)) (\<lambda>owner.
     op_bind (cap_events FIRMWARE_PCRS T) (\<lambda>capped.
     op_bind (op_succeeds (lock_platform T)) (\<lambda>locked s.
       (Ok (endorsement \<and> owner \<and> capped \<and> locked), tp_release T s)))))"

fun check_banks :: "(u16 \<times> u32) list \<Rightarrow> (u16 \<times> u32) list \<Rightarrow> (start_error, (u16 \<times> u32) list) result" where
  "check_banks [] banks = Ok banks"
| "check_banks ((alg, pcrs) # allocated) banks =
     (if digest_size alg = None \<or> length banks = MAX_BANKS then Err (UnsupportedBank alg)
      else check_banks allocated (banks @ [(alg, pcrs)]))"

fun prepare ::
  "'s transport \<Rightarrow> family \<Rightarrow> bytes \<Rightarrow> platform_class \<Rightarrow> bool \<Rightarrow> ('s, start_error, (u16 \<times> u32) list \<times> event_log) device_op"
where
  "prepare T Tpm20 log_area cls uefi =
     op_bind (op_map_err (Startup ''TPM2_SelfTest'') (tpm20_self_test T False)) (\<lambda>_.
     op_bind (op_map_err (Startup ''TPM2_GetCapability'') (tpm20_pcr_banks T)) (\<lambda>allocated.
     op_bind (op_return (check_banks allocated [])) (\<lambda>banks.
     op_return (
       if banks = [] then Err NoBank
       else case crypto_agile_log log_area (map fst banks) cls of
              None \<Rightarrow> Err LogFull
            | Some log \<Rightarrow> Ok (banks, log)))))"
| "prepare T Tpm12 log_area cls uefi =
     op_bind (prepare_tpm12 T) (\<lambda>_. op_return (
       case sha1_log log_area cls uefi of None \<Rightarrow> Err LogFull | Some log \<Rightarrow> Ok ([(ALG_SHA1, - 1)], log)))"

section \<open>State\<close>

record 's tcg_state =
  tcg_tpm :: 's
  tcg_family :: family
  tcg_banks :: "(u16 \<times> u32) list"
  tcg_log :: event_log
  tcg_failed :: bool
  tcg_locked :: bool
  tcg_cap_failed :: bool

text \<open>\<open>start\<close> on the device and the slot.\<close>

fun protect :: "'s transport \<Rightarrow> family \<Rightarrow> ('s, start_error, bool) device_op" where
  "protect T Tpm20 = hide_tpm20 T"
| "protect T Tpm12 = op_succeeds (physical_presence T (or PP_NOTPRESENT PP_LOCK))"

definition start_device ::
  "'s transport \<Rightarrow> bytes \<Rightarrow> platform_class \<Rightarrow> bool \<Rightarrow> ('s, start_error, family \<times> (u16 \<times> u32) list \<times> event_log) device_op"
where
  "start_device T log_area cls uefi =
     op_bind (startup T) (\<lambda>fam.
     op_or_else
       (op_bind (prepare T fam log_area cls uefi) (\<lambda>(banks, log). op_return (Ok (fam, banks, log))))
       (\<lambda>error. op_bind (protect T fam) (\<lambda>protected. op_return (Err (if protected then error else Unprotected)))))"

definition start ::
  "'s transport \<Rightarrow> bytes \<Rightarrow> platform_class \<Rightarrow> bool \<Rightarrow> 's \<Rightarrow> 's tcg_state option \<Rightarrow>
    (start_error, family) result \<times> 's \<times> 's tcg_state option"
where
  "start T log_area cls uefi tpm slot =
     (if slot \<noteq> None then (Err Started, tpm, slot)
      else case start_device T log_area cls uefi tpm of
             (Ok (fam, banks, log), tpm') \<Rightarrow>
               (Ok fam, tpm', Some \<lparr>tcg_tpm = tpm', tcg_family = fam, tcg_banks = banks, tcg_log = log,
                  tcg_failed = False, tcg_locked = False, tcg_cap_failed = False\<rparr>)
           | (Err e, tpm') \<Rightarrow> (Err e, tpm', None)
           | (Panic, tpm') \<Rightarrow> (Panic, tpm', None))"

section \<open>Measuring\<close>

text \<open>An operation on the device as one on the state.\<close>

definition on_tpm :: "('s, 'e, 'a) device_op \<Rightarrow> ('s tcg_state, 'e, 'a) device_op" where
  "on_tpm f st = (case f (tcg_tpm st) of (r, s') \<Rightarrow> (r, st\<lparr>tcg_tpm := s'\<rparr>))"

definition tcg_digests :: "(u16 \<Rightarrow> bytes \<Rightarrow> bytes) \<Rightarrow> 's tcg_state \<Rightarrow> bytes \<Rightarrow> u32 \<Rightarrow> digests" where
  "tcg_digests H st data pcr =
     fold (\<lambda>(alg, _) ds. case pcr_hash H alg data of None \<Rightarrow> ds | Some d \<Rightarrow> digests_push ds alg d)
       (filter (\<lambda>(_, pcrs). pcr < 32 \<and> and pcrs (push_bit (unat pcr) 1) \<noteq> 0) (tcg_banks st)) []"

text \<open>The 20 bytes of the TPM 1.2 digest are copied from a slice of the same length, or the copy aborts.\<close>

definition tcg_extend :: "'s transport \<Rightarrow> u32 \<Rightarrow> digests \<Rightarrow> ('s tcg_state, unit) tpm_op" where
  "tcg_extend T pcr ds st =
     (case tcg_family st of
        Tpm20 \<Rightarrow> on_tpm (tpm20_pcr_extend T pcr (digests_iter ds)) st
      | Tpm12 \<Rightarrow>
          let digest = (case digests_get ds ALG_SHA1 of None \<Rightarrow> replicate 20 0 | Some d \<Rightarrow> d) in
          if length digest = 20 then on_tpm (tpm12_extend T pcr digest) st else (Panic, st))"

definition log_cap :: "bool \<Rightarrow> u32 \<Rightarrow> digests \<Rightarrow> 's tcg_state \<Rightarrow> 's tcg_state" where
  "log_cap ok pcr ds st =
     st\<lparr>tcg_cap_failed := tcg_cap_failed st \<or> \<not> ok,
        tcg_log := (case log_append (tcg_log st) pcr EV_SEPARATOR ds (to_le_bytes (1 :: u32)) of
          None \<Rightarrow> tcg_log st | Some log \<Rightarrow> log)\<rparr>"

definition cap_pcr :: "(u16 \<Rightarrow> bytes \<Rightarrow> bytes) \<Rightarrow> 's transport \<Rightarrow> u32 \<Rightarrow> ('s tcg_state, unit) tpm_op" where
  "cap_pcr H T pcr st =
     (let ds = tcg_digests H st (to_le_bytes (1 :: u32)) pcr in
      op_bind (op_succeeds (tcg_extend T pcr ds)) (\<lambda>ok st. (Ok (), log_cap ok pcr ds st)) st)"

definition tcg_fail :: "(u16 \<Rightarrow> bytes \<Rightarrow> bytes) \<Rightarrow> 's transport \<Rightarrow> ('s tcg_state, unit) tpm_op" where
  "tcg_fail H T st = op_for_each FIRMWARE_PCRS (cap_pcr H T) (st\<lparr>tcg_failed := True\<rparr>)"

definition tcg_record ::
  "(u16 \<Rightarrow> bytes \<Rightarrow> bytes) \<Rightarrow> 's transport \<Rightarrow> u32 \<Rightarrow> u32 \<Rightarrow> digests \<Rightarrow> bytes \<Rightarrow> ('s tcg_state, unit) tpm_op"
where
  "tcg_record H T pcr event_type ds event st =
     (if tcg_failed st then (Ok (), st)
      else op_bind (op_succeeds (tcg_extend T pcr ds)) (\<lambda>ok st.
        if \<not> ok then tcg_fail H T st
        else case log_append (tcg_log st) pcr event_type ds event of
               None \<Rightarrow> tcg_fail H T st
             | Some log \<Rightarrow> (Ok (), st\<lparr>tcg_log := log\<rparr>)) st)"

section \<open>Locking\<close>

definition presence_safe :: "volatile_flags \<Rightarrow> permanent_flags \<Rightarrow> bool" where
  "presence_safe volatile permanent \<longleftrightarrow>
     \<not> vf_physical_presence volatile \<and>
     (vf_physical_presence_lock volatile \<or> pf_lifetime_lock permanent \<and> \<not> pf_cmd_enable permanent)"

fun lock_device :: "'s transport \<Rightarrow> family \<Rightarrow> ('s, unit) tpm_op" where
  "lock_device T Tpm20 = lock_platform T"
| "lock_device T Tpm12 =
     op_or_else (physical_presence T (or PP_NOTPRESENT PP_LOCK)) (\<lambda>error.
       op_bind (get_volatile_flags T) (\<lambda>volatile.
       op_bind (get_permanent_flags T) (\<lambda>permanent.
       op_return (if presence_safe volatile permanent then Ok () else Err error))))"

definition tcg_lock :: "'s transport \<Rightarrow> ('s tcg_state, unit) tpm_op" where
  "tcg_lock T st =
     (if tcg_locked st then (Ok (), st)
      else case on_tpm (lock_device T (tcg_family st)) st of
             (Panic, st') \<Rightarrow> (Panic, st')
           | (result, st') \<Rightarrow> (result, st'\<lparr>tcg_locked := is_ok result\<rparr>))"

section \<open>The interface\<close>

text \<open>\<open>with\<close>: nothing happens while measured boot is off.\<close>

fun tcg_with :: "'a \<Rightarrow> ('s tcg_state, 'e, 'a) device_op \<Rightarrow> ('s tcg_state option, 'e, 'a) device_op" where
  "tcg_with off f None = (Ok off, None)"
| "tcg_with off f (Some st) = (case f st of (r, st') \<Rightarrow> (r, Some st'))"

definition tcg_family_on :: "'s tcg_state option \<Rightarrow> family option" where
  "tcg_family_on slot = Option.bind slot (\<lambda>st. if tcg_failed st then None else Some (tcg_family st))"

definition tcg_measurement_error :: "(u16 \<Rightarrow> bytes \<Rightarrow> bytes) \<Rightarrow> 's transport \<Rightarrow> ('s tcg_state option, unit) tpm_op" where
  "tcg_measurement_error H T = tcg_with () (\<lambda>st. if tcg_failed st then (Ok (), st) else tcg_fail H T st)"

definition tcg_measure ::
  "(u16 \<Rightarrow> bytes \<Rightarrow> bytes) \<Rightarrow> 's transport \<Rightarrow> u32 \<Rightarrow> u32 \<Rightarrow> bytes \<Rightarrow> bytes \<Rightarrow> ('s tcg_state option, unit) tpm_op"
where
  "tcg_measure H T pcr event_type data event =
     tcg_with () (\<lambda>st. tcg_record H T pcr event_type (tcg_digests H st data pcr) event st)"

definition tcg_measure_event ::
  "(u16 \<Rightarrow> bytes \<Rightarrow> bytes) \<Rightarrow> 's transport \<Rightarrow> u32 \<Rightarrow> u32 \<Rightarrow> bytes \<Rightarrow> ('s tcg_state option, unit) tpm_op"
where
  "tcg_measure_event H T pcr event_type event = tcg_measure H T pcr event_type event event"

definition tpm12_type :: "u32 \<Rightarrow> u32" where
  "tpm12_type event_type =
     (if event_type = EV_POST_CODE2 then EV_POST_CODE
      else if event_type = EV_EFI_PLATFORM_FIRMWARE_BLOB2 then EV_EFI_PLATFORM_FIRMWARE_BLOB
      else event_type)"

definition measure_blob ::
  "(u16 \<Rightarrow> bytes \<Rightarrow> bytes) \<Rightarrow> 's transport \<Rightarrow> u32 \<Rightarrow> u32 \<Rightarrow> bytes \<Rightarrow> u64 \<Rightarrow> bytes \<Rightarrow> ('s tcg_state option, unit) tpm_op"
where
  "measure_blob H T pcr event_type description base data slot =
     (case tcg_family_on slot of
        None \<Rightarrow> (Ok (), slot)
      | Some Tpm20 \<Rightarrow> tcg_measure H T pcr event_type data (blob2 description base (word_of_nat (length data))) slot
      | Some Tpm12 \<Rightarrow> tcg_measure H T pcr (tpm12_type event_type) data (blob base (word_of_nat (length data))) slot)"

definition measure_crtm_version :: "(u16 \<Rightarrow> bytes \<Rightarrow> bytes) \<Rightarrow> 's transport \<Rightarrow> u16 list \<Rightarrow> ('s tcg_state option, unit) tpm_op" where
  "measure_crtm_version H T version = tcg_measure_event H T 0 EV_S_CRTM_VERSION (ucs2 version)"

definition separators :: "(u16 \<Rightarrow> bytes \<Rightarrow> bytes) \<Rightarrow> 's transport \<Rightarrow> ('s tcg_state option, unit) tpm_op" where
  "separators H T =
     tcg_with () (op_for_each FIRMWARE_PCRS (\<lambda>pcr st.
       let value = to_le_bytes (0 :: u32) in tcg_record H T pcr EV_SEPARATOR (tcg_digests H st value pcr) value st))"

definition lock :: "'s transport \<Rightarrow> ('s tcg_state option, unit) tpm_op" where
  "lock T = tcg_with () (tcg_lock T)"

record log_info =
  li_family :: family
  li_format :: log_format
  li_capacity :: nat
  li_used :: nat
  li_last_entry :: "nat option"

definition tcg_log_info :: "'s tcg_state option \<Rightarrow> log_info option" where
  "tcg_log_info slot = map_option (\<lambda>st.
     \<lparr>li_family = tcg_family st, li_format = el_format (tcg_log st), li_capacity = length (el_buf (tcg_log st)),
      li_used = el_used (tcg_log st), li_last_entry = el_last (tcg_log st)\<rparr>) slot"

datatype handoff_kind = Open | Locked | Final

datatype handoff_error = LockError | CapError

definition tcg_check :: "'s transport \<Rightarrow> ('s tcg_state option, handoff_error, unit) device_op" where
  "tcg_check T = tcg_with () (\<lambda>st.
     (if tcg_cap_failed st then Err CapError else Ok (), st\<lparr>tcg_tpm := tp_release T (tcg_tpm st)\<rparr>))"

definition handoff ::
  "(u16 \<Rightarrow> bytes \<Rightarrow> bytes) \<Rightarrow> 's transport \<Rightarrow> handoff_kind \<Rightarrow> ('s tcg_state option, handoff_error, unit) device_op"
where
  "handoff H T kind =
     op_bind (if kind = Final then op_map_err (\<lambda>_. LockError) (separators H T) else op_return (Ok ())) (\<lambda>_.
     op_bind (if kind \<noteq> Open then op_map_err (\<lambda>_. LockError) (lock T) else op_return (Ok ())) (\<lambda>_.
     tcg_check T))"

record 's payload_tpm =
  pt_family :: family
  pt_transport :: 's
  pt_banks :: "u16 list"
  pt_log_area :: bytes
  pt_log_used :: nat

definition take_for_payload :: "'s tcg_state option \<Rightarrow> 's payload_tpm option \<times> 's tcg_state option" where
  "take_for_payload slot =
     (case slot of
        None \<Rightarrow> (None, None)
      | Some st \<Rightarrow>
          if tcg_failed st then (None, slot)
          else (Some \<lparr>pt_family = tcg_family st, pt_transport = tcg_tpm st, pt_banks = map fst (tcg_banks st),
                      pt_log_area = el_buf (tcg_log st), pt_log_used = el_used (tcg_log st)\<rparr>, None))"

end
