(* ===== verification/Tcg_Safety.thy ===== *)
theory Tcg_Safety
  imports Tcg
begin

text \<open>
  What measured boot guarantees (\<^verbatim>\<open>crates/tcg/src/lib.rs\<close>), stated on the history of commands a TPM
  accepted: the states reachable through the interface as an inductive predicate, the
  invariant each operation keeps, and from it attestation, the handoff and the failing start. A TPM 2.0
  that accepts every command serves the witnesses.
\<close>

section \<open>What reaches the TPM\<close>

abbreviation history :: "('s \<times> bytes list) tcg_state \<Rightarrow> bytes list" where
  "history st \<equiv> snd (tcg_tpm st)"

fun extend_image :: "family \<Rightarrow> u32 \<Rightarrow> digests \<Rightarrow> bytes" where
  "extend_image Tpm20 pcr ds = cmd_image (extend_command pcr (digests_iter ds))"
| "extend_image Tpm12 pcr ds =
     cmd_image (extend12_command pcr (case digests_get ds ALG_SHA1 of None \<Rightarrow> replicate 20 0 | Some d \<Rightarrow> d))"

lemma has_code_fold:
  "has_code code c \<Longrightarrow> has_code code (fold (\<lambda>(alg, digest) c. cmd_bytes digest (cmd_u16 alg c)) ds c)"
  by (induction ds arbitrary: c) auto

lemma is_extend_image: "is_extend (extend_image fam pcr ds)"
proof (cases fam)
  case Tpm12
  then show ?thesis
    by (simp add: is_extend_code [of ORD_EXTEND] extend12_command_def tpm12_command_def)
next
  case Tpm20
  then show ?thesis
    by (simp add: is_extend_code [of CC_PCR_EXTEND] extend_command_def has_code_fold)
qed

lemma on_tpm_run_spy:
  assumes "on_tpm (tpm_run (spy T) c) st = (r, st')"
  shows "\<exists>s'. st' = st\<lparr>tcg_tpm := (s', history st @ (if is_ok r then [cmd_image c] else []))\<rparr>"
proof -
  obtain s h where st: "tcg_tpm st = (s, h)"
    by (cases "tcg_tpm st")
  obtain q s' h' where q: "tpm_run (spy T) c (s, h) = (q, s', h')"
    by (cases "tpm_run (spy T) c (s, h)") auto
  show ?thesis
    using tpm_run_spy [OF q] assms q st by (auto simp: on_tpm_def)
qed

lemma tcg_extend_spy:
  assumes "tcg_extend (spy T) pcr ds st = (r, st')"
  shows "\<exists>s'. st' = st\<lparr>tcg_tpm := (s', history st @ (if is_ok r then [extend_image (tcg_family st) pcr ds] else []))\<rparr>"
proof (cases "tcg_family st")
  case Tpm20
  then show ?thesis
    using assms on_tpm_run_spy [of T "extend_command pcr (digests_iter ds)" st r st']
    by (simp add: tcg_extend_def tpm20_pcr_extend_def split: if_splits)
next
  case Tpm12
  let ?d = "case digests_get ds ALG_SHA1 of None \<Rightarrow> replicate 20 0 | Some d \<Rightarrow> d"
  show ?thesis
  proof (cases "length ?d = 20")
    case True
    then show ?thesis
      using assms Tpm12 on_tpm_run_spy [of T "extend12_command pcr ?d" st r st']
      by (simp add: tcg_extend_def Let_def tpm12_extend_def split: if_splits)
  next
    case False
    then have "r = Panic" "st' = st"
      using assms Tpm12 by (auto simp: tcg_extend_def Let_def)
    then show ?thesis
      by (intro exI [of _ "fst (tcg_tpm st)"]) simp
  qed
qed

lemma op_succeeds_Ok: "op_succeeds f s = (Ok ok, s') \<Longrightarrow> \<exists>r. f s = (r, s') \<and> is_ok r = ok"
  by (cases "f s"; cases "fst (f s)") (auto simp: op_succeeds_def)

text \<open>The configuration and the locking of a state stay, and the TPM accepts extends only.\<close>

definition only_extends :: "bytes list \<Rightarrow> bytes list \<Rightarrow> bool" where
  "only_extends h h' \<longleftrightarrow> (\<exists>sent. h' = h @ sent \<and> list_all is_extend sent)"

lemma only_extends_refl [simp]: "only_extends h h"
  by (simp add: only_extends_def)

lemma only_extends_trans: "only_extends h h' \<Longrightarrow> only_extends h' h'' \<Longrightarrow> only_extends h h''"
  by (auto simp: only_extends_def)

lemma only_extends_one [simp]: "only_extends h (h @ [extend_image fam pcr ds])"
  by (auto simp: only_extends_def is_extend_image)

lemma only_extends_prefix: "only_extends h h' \<Longrightarrow> prefix h h'"
  by (auto simp: only_extends_def)

definition kept :: "('s \<times> bytes list) tcg_state \<Rightarrow> ('s \<times> bytes list) tcg_state \<Rightarrow> bool" where
  "kept st st' \<longleftrightarrow> tcg_family st' = tcg_family st \<and> tcg_banks st' = tcg_banks st \<and>
     tcg_locked st' = tcg_locked st \<and> only_extends (history st) (history st')"

lemma kept_refl [simp]: "kept st st"
  by (simp add: kept_def)

lemma kept_trans: "kept st st' \<Longrightarrow> kept st' st'' \<Longrightarrow> kept st st''"
  by (auto simp: kept_def intro: only_extends_trans)

definition cap_image :: "(u16 \<Rightarrow> bytes \<Rightarrow> bytes) \<Rightarrow> ('s \<times> bytes list) tcg_state \<Rightarrow> u32 \<Rightarrow> bytes" where
  "cap_image H st pcr = extend_image (tcg_family st) pcr (tcg_digests H st (to_le_bytes (1 :: u32)) pcr)"

lemma cap_image_kept: "kept st st' \<Longrightarrow> cap_image H st' pcr = cap_image H st pcr"
  by (simp add: kept_def cap_image_def tcg_digests_def)

lemma history_kept: "kept st st' \<Longrightarrow> c \<in> set (history st) \<Longrightarrow> c \<in> set (history st')"
  by (auto simp: kept_def dest!: only_extends_prefix set_mono_prefix)

lemma cap_pcr_spy:
  assumes "cap_pcr H (spy T) pcr st = (Ok (), st')"
  shows "kept st st'" "tcg_failed st' = tcg_failed st"
    "\<not> tcg_cap_failed st' \<Longrightarrow> \<not> tcg_cap_failed st \<and> cap_image H st pcr \<in> set (history st')"
proof -
  let ?ds = "tcg_digests H st (to_le_bytes (1 :: u32)) pcr"
  obtain ok st1 where s: "op_succeeds (tcg_extend (spy T) pcr ?ds) st = (Ok ok :: (tpm_error, bool) result, st1)"
    and st': "st' = log_cap ok pcr ?ds st1"
    using assms by (auto simp: cap_pcr_def Let_def op_bind_Ok)
  obtain r where "tcg_extend (spy T) pcr ?ds st = (r, st1)" and ok: "is_ok r = ok"
    using op_succeeds_Ok [OF s] by blast
  then obtain s' where st1: "st1 = st\<lparr>tcg_tpm := (s', history st @ (if ok then [cap_image H st pcr] else []))\<rparr>"
    using tcg_extend_spy by (fastforce simp: cap_image_def)
  show "kept st st'" "tcg_failed st' = tcg_failed st"
    "\<not> tcg_cap_failed st' \<Longrightarrow> \<not> tcg_cap_failed st \<and> cap_image H st pcr \<in> set (history st')"
    by (auto simp: st' log_cap_def st1 kept_def cap_image_def)
qed

lemma cap_all_spy:
  assumes "op_for_each pcrs (cap_pcr H (spy T)) st = (Ok (), st')"
  shows "kept st st' \<and> tcg_failed st' = tcg_failed st \<and>
    (\<not> tcg_cap_failed st' \<longrightarrow> \<not> tcg_cap_failed st \<and> (\<forall>pcr \<in> set pcrs. cap_image H st pcr \<in> set (history st')))"
  using assms
proof (induction pcrs arbitrary: st)
  case (Cons pcr pcrs)
  obtain st1 where a: "cap_pcr H (spy T) pcr st = (Ok (), st1)" and b: "op_for_each pcrs (cap_pcr H (spy T)) st1 = (Ok (), st')"
    using Cons.prems by (auto simp: op_bind_Ok)
  note c = cap_pcr_spy [OF a] and d = Cons.IH [OF b]
  show ?case
  proof (intro conjI impI ballI)
    show "kept st st'" "tcg_failed st' = tcg_failed st"
      using c(1,2) d kept_trans by auto
    assume "\<not> tcg_cap_failed st'"
    then have n: "\<not> tcg_cap_failed st1" "\<forall>p \<in> set pcrs. cap_image H st1 p \<in> set (history st')"
      using d by auto
    then show "\<not> tcg_cap_failed st"
      using c(3) by blast
    have "cap_image H st pcr \<in> set (history st')"
      using history_kept [of st1 st'] c(3) [OF n(1)] d by blast
    then show "cap_image H st p \<in> set (history st')" if "p \<in> set (pcr # pcrs)" for p
      using that n(2) cap_image_kept [OF c(1), of H p] by auto
  qed
qed (simp add: op_return_def)

definition capped :: "(u16 \<Rightarrow> bytes \<Rightarrow> bytes) \<Rightarrow> ('s \<times> bytes list) tcg_state \<Rightarrow> bool" where
  "capped H st \<longleftrightarrow> (\<forall>pcr \<in> set FIRMWARE_PCRS. cap_image H st pcr \<in> set (history st))"

lemma capped_kept: "kept st st' \<Longrightarrow> capped H st \<Longrightarrow> capped H st'"
  by (simp add: capped_def cap_image_kept history_kept)

lemma tcg_fail_spy:
  assumes "tcg_fail H (spy T) st = (Ok (), st')"
  shows "kept st st'" "tcg_failed st'" "\<not> tcg_cap_failed st' \<Longrightarrow> capped H st'"
proof -
  note c = cap_all_spy [OF assms [unfolded tcg_fail_def]]
  then have k: "kept (st\<lparr>tcg_failed := True\<rparr>) st'"
    by blast
  then show "kept st st'"
    by (simp add: kept_def)
  show "tcg_failed st'" "\<not> tcg_cap_failed st' \<Longrightarrow> capped H st'"
    using c cap_image_kept [OF k] unfolding capped_def by auto
qed

section \<open>Invariants of measured boot\<close>

text \<open>Digests made from the banks fill their slots, when the hash functions have their lengths.\<close>

definition hash_lengths :: "(u16 \<Rightarrow> bytes \<Rightarrow> bytes) \<Rightarrow> bool" where
  "hash_lengths H \<longleftrightarrow> (\<forall>alg n data. digest_size alg = Some n \<longrightarrow> length (H alg data) = n)"

lemma slots_ok_fold:
  assumes "hash_lengths H" "slots_ok ds"
  shows "slots_ok (fold (\<lambda>(alg, _) ds. case pcr_hash H alg data of None \<Rightarrow> ds | Some d \<Rightarrow> digests_push ds alg d) banks ds)"
  using assms(2)
proof (induction banks arbitrary: ds)
  case (Cons b banks)
  obtain alg m where b: "b = (alg, m)"
    by (cases b)
  have "slots_ok (case pcr_hash H alg data of None \<Rightarrow> ds | Some d \<Rightarrow> digests_push ds alg d)"
    using Cons.prems assms(1) by (auto simp: pcr_hash_def hash_lengths_def intro!: slots_ok_push)
  then show ?case
    using Cons.IH by (simp add: b)
qed simp

lemma tcg_digests_ok: "hash_lengths H \<Longrightarrow> slots_ok (tcg_digests H st data pcr)"
  unfolding tcg_digests_def by (rule slots_ok_fold) (simp_all add: slots_ok_def)

lemma append_events_snoc:
  "append_events log xs = Some log1 \<Longrightarrow> log_append log1 pcr ty ds ev = Some log2 \<Longrightarrow>
    append_events log (xs @ [(pcr, ty, ds, ev)]) = Some log2"
  by (induction xs arbitrary: log) (auto simp: bind_eq_Some_conv)

fun family_format :: "family \<Rightarrow> log_format" where
  "family_format Tpm12 = Sha1Format"
| "family_format Tpm20 = CryptoAgile"

text \<open>While nothing failed, the accepted extends are those of the logged events, in order.\<close>

definition logged :: "event_log \<Rightarrow> ('s \<times> bytes list) tcg_state \<Rightarrow> bool" where
  "logged log0 st \<longleftrightarrow> (\<exists>xs. append_events log0 xs = Some (tcg_log st) \<and>
     (\<forall>(pcr, ty, ds, ev) \<in> set xs. slots_ok ds \<and> \<not> (pcr = 0 \<and> ty = 0)) \<and>
     extends (history st) = map (\<lambda>(pcr, ty, ds, ev). extend_image (tcg_family st) pcr ds) xs)"

definition tcg_inv :: "(u16 \<Rightarrow> bytes \<Rightarrow> bytes) \<Rightarrow> ('s \<times> bytes list) tcg_state \<Rightarrow> ('s \<times> bytes list) tcg_state \<Rightarrow> bool" where
  "tcg_inv H st0 st \<longleftrightarrow>
     tcg_family st = tcg_family st0 \<and> tcg_banks st = tcg_banks st0 \<and>
     (\<not> tcg_failed st \<longrightarrow> logged (tcg_log st0) st) \<and>
     (tcg_failed st \<longrightarrow> tcg_cap_failed st \<or> capped H st)"

lemma tcg_fail_inv:
  assumes "tcg_fail H (spy T) st = (Ok (), st')" "tcg_family st = tcg_family st0" "tcg_banks st = tcg_banks st0"
  shows "tcg_inv H st0 st'"
  using tcg_fail_spy [OF assms(1)] assms(2,3) by (auto simp: tcg_inv_def kept_def)

text \<open>A measurement is made, or the failure path is taken, or measuring had stopped before.\<close>

lemma tcg_record_cases:
  assumes "tcg_record H (spy T) pcr ty ds ev st = (Ok (), st')"
  obtains (stopped) "tcg_failed st" "st' = st"
  | (recorded) s' log where "\<not> tcg_failed st" "log_append (tcg_log st) pcr ty ds ev = Some log"
      "st' = st\<lparr>tcg_tpm := (s', history st @ [extend_image (tcg_family st) pcr ds]), tcg_log := log\<rparr>"
  | (failed) s' h' where "\<not> tcg_failed st" "only_extends (history st) h'" "tcg_fail H (spy T) (st\<lparr>tcg_tpm := (s', h')\<rparr>) = (Ok (), st')"
proof (cases "tcg_failed st")
  case True
  moreover have "st' = st"
    using assms True by (simp add: tcg_record_def)
  ultimately show ?thesis
    by (rule stopped)
next
  case False
  obtain ok st1 where s: "op_succeeds (tcg_extend (spy T) pcr ds) st = (Ok ok :: (tpm_error, bool) result, st1)"
    and rest: "(if \<not> ok then tcg_fail H (spy T) st1
      else case log_append (tcg_log st1) pcr ty ds ev of
        None \<Rightarrow> tcg_fail H (spy T) st1 | Some log \<Rightarrow> (Ok (), st1\<lparr>tcg_log := log\<rparr>)) = (Ok (), st')"
    using assms False by (auto simp: tcg_record_def op_bind_Ok)
  obtain r where "tcg_extend (spy T) pcr ds st = (r, st1)" and "is_ok r = ok"
    using op_succeeds_Ok [OF s] by blast
  then obtain s' where st1: "st1 = st\<lparr>tcg_tpm := (s', history st @ (if ok then [extend_image (tcg_family st) pcr ds] else []))\<rparr>"
    using tcg_extend_spy by fastforce
  show ?thesis
  proof (cases "ok \<and> log_append (tcg_log st) pcr ty ds ev \<noteq> None")
    case True
    then show ?thesis
      using rest recorded [OF False] by (auto simp: st1)
  next
    case f: False
    then have "tcg_fail H (spy T) st1 = (Ok (), st')"
      using rest by (auto simp: st1 split: if_splits)
    then show ?thesis
      unfolding st1 by (intro failed [OF False]) simp_all
  qed
qed

lemma tcg_record_inv:
  assumes "tcg_record H (spy T) pcr ty ds ev st = (Ok (), st')" "tcg_inv H st0 st"
    and "slots_ok ds" "\<not> (pcr = 0 \<and> ty = 0)"
  shows "tcg_inv H st0 st'"
  using assms(1)
proof (cases rule: tcg_record_cases)
  case (recorded s' log)
  obtain xs where xs: "append_events (tcg_log st0) xs = Some (tcg_log st)"
    "\<forall>(pcr, ty, ds, ev) \<in> set xs. slots_ok ds \<and> \<not> (pcr = 0 \<and> ty = 0)"
    "extends (history st) = map (\<lambda>(pcr, ty, ds, ev). extend_image (tcg_family st) pcr ds) xs"
    using assms(2) recorded(1) by (auto simp: tcg_inv_def logged_def)
  have "logged (tcg_log st0) st'"
    unfolding logged_def using append_events_snoc [OF xs(1) recorded(2)] xs(2,3) assms(3,4)
    by (intro exI [of _ "xs @ [(pcr, ty, ds, ev)]"]) (auto simp: recorded(3) extends_def is_extend_image)
  then show ?thesis
    using assms(2) recorded(1) by (auto simp: tcg_inv_def recorded(3))
next
  case (failed s' h')
  from failed(3) show ?thesis
    by (rule tcg_fail_inv) (use assms(2) in \<open>simp_all add: tcg_inv_def\<close>)
qed (use assms(2) in simp)

lemma tcg_record_kept:
  assumes "tcg_record H (spy T) pcr ty ds ev st = (Ok (), st')"
  shows "kept st st' \<and> (\<not> tcg_failed st' \<longrightarrow> \<not> tcg_failed st \<and> extend_image (tcg_family st) pcr ds \<in> set (history st'))"
  using assms
proof (cases rule: tcg_record_cases)
  case (failed s' h')
  note f = tcg_fail_spy [OF failed(3)]
  have "kept st (st\<lparr>tcg_tpm := (s', h')\<rparr>)"
    using failed(2) by (simp add: kept_def)
  then show ?thesis
    using f(1,2) kept_trans by blast
qed (auto simp: kept_def)

lemma op_or_else_Ok:
  "op_or_else f g s = (Ok x, s'') \<longleftrightarrow> f s = (Ok x, s'') \<or> (\<exists>e s'. f s = (Err e, s') \<and> g e s' = (Ok x, s''))"
  by (auto simp: op_or_else_def split: prod.splits result.splits)

text \<open>The commands a device accepted between two of its states.\<close>

definition sent :: "'s \<times> bytes list \<Rightarrow> 's \<times> bytes list \<Rightarrow> bytes set" where
  "sent sh sh' = set (drop (length (snd sh)) (snd sh'))"

lemma sent_last: "prefix (snd sh) h \<Longrightarrow> c \<in> sent sh (s', h @ [c])"
  by (auto simp: sent_def prefix_def)

lemma sent_history: "sent sh sh' \<subseteq> set (snd sh')"
  by (auto simp: sent_def dest: in_set_dropD)

lemma run_accepted: "tpm_run (spy T) c sh = (Ok (), sh') \<Longrightarrow> prefix (snd sh0) (snd sh) \<Longrightarrow> cmd_image c \<in> sent sh0 sh'"
  using tpm_run_spy [of T c "fst sh" "snd sh" "Ok ()" "fst sh'" "snd sh'"] sent_last [of sh0 "snd sh" "cmd_image c" "fst sh'"]
  by (cases sh') simp

lemma run_accepted_history: "tpm_run (spy T) c sh = (Ok (), s', h') \<Longrightarrow> cmd_image c \<in> set h'"
  using run_accepted [of T c sh "(s', h')" sh] sent_history [of sh "(s', h')"] by auto

lemma get_random_length: "get_random T n s = (Ok bs, s') \<Longrightarrow> length bs = n"
proof (induction n arbitrary: s bs s' rule: less_induct)
  case (less n)
  show ?case
  proof (cases "n = 0")
    case False
    obtain b rest s1 where b: "random_round T (min n 32) s = (Ok b, s1)"
      and r: "get_random T (n - length b) s1 = (Ok rest, s')" and bs: "bs = b @ rest"
      using less.prems False by (subst (asm) get_random.simps)
        (auto simp: op_bind_Ok op_return_def split: prod.splits result.splits)
    have l: "0 < length b" "length b \<le> n"
      using random_round_length [OF b] by auto
    then have "length rest = n - length b"
      by (intro less.IH [OF _ r]) linarith
    then show ?thesis
      using l bs by simp
  qed (use less.prems in \<open>simp add: get_random.simps\<close>)
qed

text \<open>The commands that put the platform hierarchy behind an authorization, or switch it off.\<close>

definition platform_locked :: "bytes set \<Rightarrow> bool" where
  "platform_locked cs \<longleftrightarrow>
     (\<exists>auth. length auth = 32 \<and>
        cmd_image (cmd_sized auth (password_session (cmd_u32 RH_PLATFORM (cmd_new ST_SESSIONS CC_HIERARCHY_CHANGE_AUTH)))) \<in> cs) \<or>
     cmd_image (cmd_u8 0 (cmd_u32 RH_PLATFORM (password_session (cmd_u32 RH_PLATFORM (cmd_new ST_SESSIONS CC_HIERARCHY_CONTROL))))) \<in> cs"

lemma platform_locked_mono: "platform_locked cs \<Longrightarrow> cs \<subseteq> cs' \<Longrightarrow> platform_locked cs'"
  by (auto simp: platform_locked_def)

definition presence_lock_image :: bytes where
  "presence_lock_image = cmd_image (cmd_u16 (or PP_NOTPRESENT PP_LOCK) (tpm12_command TSC_ORD_PHYSICAL_PRESENCE))"

text \<open>
  What happened on the device between the states before and after a lock that succeeded: a TPM 2.0
  accepted one of the lock commands, and a TPM 1.2 accepted the lock of physical presence or, having refused it,
  answered the two queries that follow with flags that say it is locked.
\<close>

fun lock_done :: "'s transport \<Rightarrow> family \<Rightarrow> 's \<times> bytes list \<Rightarrow> 's \<times> bytes list \<Rightarrow> bool" where
  "lock_done T Tpm20 sh sh' \<longleftrightarrow> platform_locked (sent sh sh')"
| "lock_done T Tpm12 sh sh' \<longleftrightarrow> presence_lock_image \<in> sent sh sh' \<or>
     (\<exists>e sh1 sh2 volatile permanent. physical_presence (spy T) (or PP_NOTPRESENT PP_LOCK) sh = (Err e, sh1) \<and>
        get_volatile_flags (spy T) sh1 = (Ok volatile, sh2) \<and> get_permanent_flags (spy T) sh2 = (Ok permanent, sh') \<and>
        \<not> vf_physical_presence volatile \<and>
        (vf_physical_presence_lock volatile \<or> pf_lifetime_lock permanent \<and> \<not> pf_cmd_enable permanent))"

lemma lock_platform_locked:
  assumes "lock_platform (spy T) sh = (Ok (), sh')" "prefix (snd sh0) (snd sh)"
  shows "platform_locked (sent sh0 sh')"
proof -
  have grow: "prefix (snd sh0) (snd sh1)" if "f sh = (r, sh1)" "tracks prefix f" for f r sh1
    using that tracksD [of prefix f "fst sh" "snd sh" r "fst sh1" "snd sh1"] assms(2) prefix_order.trans by fastforce
  consider auth sh1 where "get_random (spy T) 32 sh = (Ok auth, sh1)"
      "hierarchy_change_auth (spy T) RH_PLATFORM auth sh1 = (Ok (), sh')"
    | e sh1 where "op_bind (get_random (spy T) 32) (hierarchy_change_auth (spy T) RH_PLATFORM) sh = (Err e, sh1)"
      "hierarchy_control (spy T) RH_PLATFORM RH_PLATFORM False sh1 = (Ok (), sh')"
    using assms(1) unfolding lock_platform_def op_or_else_Ok op_bind_Ok by blast
  then show ?thesis
  proof cases
    case 1
    have "prefix (snd sh0) (snd sh1)"
      by (rule grow [of "get_random (spy T) 32", OF 1(1)]) (intro tracks_rules)
    then show ?thesis
      using run_accepted [OF 1(2) [unfolded hierarchy_change_auth_def]] get_random_length [OF 1(1)]
      unfolding platform_locked_def by blast
  next
    case 2
    have "prefix (snd sh0) (snd sh1)"
      by (rule grow [of "op_bind (get_random (spy T) 32) (hierarchy_change_auth (spy T) RH_PLATFORM)", OF 2(1)]) (intro tracks_rules)
    then show ?thesis
      using run_accepted [OF 2(2) [unfolded hierarchy_control_def]] unfolding platform_locked_def by simp
  qed
qed

lemma lock_device_done:
  assumes "lock_device (spy T) fam sh = (Ok (), sh')"
  shows "lock_done T fam sh sh'"
proof (cases fam)
  case Tpm20
  then show ?thesis
    using assms lock_platform_locked by fastforce
next
  case Tpm12
  then consider "physical_presence (spy T) (or PP_NOTPRESENT PP_LOCK) sh = (Ok (), sh')"
    | e sh1 sh2 volatile permanent where "physical_presence (spy T) (or PP_NOTPRESENT PP_LOCK) sh = (Err e, sh1)"
      "get_volatile_flags (spy T) sh1 = (Ok volatile, sh2)"
      "get_permanent_flags (spy T) sh2 = (Ok permanent, sh')" "presence_safe volatile permanent"
    using assms by (auto simp: op_or_else_Ok op_bind_Ok op_return_def split: if_splits)
  then show ?thesis
    by cases (auto simp: Tpm12 physical_presence_def presence_lock_image_def presence_safe_def dest!: run_accepted)
qed

lemma tracks_lock_device:
  "tracks (\<lambda>h h'. extends h = extends h') (lock_device (spy T) fam)" "tracks prefix (lock_device (spy T) fam)"
  by (cases fam; simp add: lock_platform_def; intro tracks_rules)+

lemma tcg_lock_spy:
  assumes "tcg_lock (spy T) st = (r, st')" "r \<noteq> Panic"
  shows "\<exists>s' h'. st' = st\<lparr>tcg_tpm := (s', h'), tcg_locked := is_ok r\<rparr> \<and> prefix (history st) h' \<and>
    extends h' = extends (history st) \<and> (is_ok r \<longrightarrow> tcg_locked st \<or> lock_done T (tcg_family st) (tcg_tpm st) (s', h'))"
proof (cases "tcg_locked st")
  case True
  then have "r = Ok ()" "st' = st"
    using assms by (auto simp: tcg_lock_def)
  then show ?thesis
    using True by (intro exI [of _ "fst (tcg_tpm st)"] exI [of _ "history st"]) simp
next
  case False
  obtain q s' h' where q: "lock_device (spy T) (tcg_family st) (tcg_tpm st) = (q, s', h')"
    by (metis surj_pair)
  have r: "r = q" "st' = st\<lparr>tcg_tpm := (s', h'), tcg_locked := is_ok r\<rparr>"
    using assms False q by (auto simp: tcg_lock_def on_tpm_def split: result.splits)
  have "lock_done T (tcg_family st) (tcg_tpm st) (s', h')" if "is_ok r"
    using that lock_device_done [of T "tcg_family st" "tcg_tpm st" "(s', h')"] q r(1) by (cases q) auto
  then show ?thesis
    using r(2) tracksD [OF tracks_lock_device(1), of T "tcg_family st" "fst (tcg_tpm st)" "history st" q s' h']
      tracksD [OF tracks_lock_device(2), of T "tcg_family st" "fst (tcg_tpm st)" "history st" q s' h'] q
    by (intro exI [of _ s'] exI [of _ h']) auto
qed

lemma tcg_lock_inv:
  assumes "tcg_lock (spy T) st = (r, st')" "r \<noteq> Panic" "tcg_inv H st0 st"
  shows "tcg_inv H st0 st'" "tcg_locked st' = is_ok r" "tcg_failed st' = tcg_failed st" "tcg_family st' = tcg_family st"
proof -
  obtain s' h' where st': "st' = st\<lparr>tcg_tpm := (s', h'), tcg_locked := is_ok r\<rparr>" and p: "prefix (history st) h'"
    and e: "extends h' = extends (history st)"
    using tcg_lock_spy [OF assms(1,2)] by blast
  have "capped H st'" if "capped H st"
    using that set_mono_prefix [OF p] by (auto simp: capped_def cap_image_def tcg_digests_def st')
  moreover have "logged (tcg_log st0) st'" if "logged (tcg_log st0) st"
    using that e by (simp add: logged_def st')
  ultimately show "tcg_inv H st0 st'"
    using assms(3) by (auto simp: tcg_inv_def st')
  show "tcg_locked st' = is_ok r" "tcg_failed st' = tcg_failed st" "tcg_family st' = tcg_family st"
    by (simp_all add: st')
qed

lemma tcg_release_inv:
  "tcg_inv H st0 (st\<lparr>tcg_tpm := tp_release (spy T) (tcg_tpm st)\<rparr>) \<longleftrightarrow> tcg_inv H st0 st"
  by (cases "tcg_tpm st") (simp add: tcg_inv_def logged_def capped_def cap_image_def tcg_digests_def)

lemma tracks_start_device: "tracks (\<lambda>h h'. extends h = extends h') (start_device (spy T) area cls uefi)"
proof -
  let ?R = "\<lambda>h h'. extends h = extends h'"
  have "tracks ?R (startup (spy T))"
    unfolding startup_def by (auto intro!: tracks_rules)
  moreover have "tracks ?R (prepare (spy T) fam area cls uefi)" for fam
    by (cases fam) (auto simp: prepare_tpm12_def intro!: tracks_rules)
  moreover have "tracks ?R (cap_events pcrs (spy T) :: ('a \<times> bytes list, 'e, bool) device_op)" for pcrs
    by (induction pcrs) (auto intro!: tracks_rules)
  then have "tracks ?R (protect (spy T) fam)" for fam
    by (cases fam) (auto simp: hide_tpm20_def lock_platform_def intro!: tracks_rules)
  ultimately show ?thesis
    unfolding start_device_def by (auto intro!: tracks_rules split: prod.split)
qed

lemma prepare_log:
  "prepare T fam area cls uefi s = (Ok (banks, log), s') \<Longrightarrow> new_log (family_format fam) area (map fst banks) cls uefi = Some log"
  by (cases fam) (auto simp: op_bind_Ok op_return_def new_log_def split: if_splits option.splits)

lemma start_spy:
  assumes "start (spy T) area cls uefi (s, h) None = (r, tpm', Some st)"
  shows "r = Ok (tcg_family st)" "new_log (family_format (tcg_family st)) area (map fst (tcg_banks st)) cls uefi = Some (tcg_log st)"
    "extends (history st) = extends h" "\<not> tcg_failed st" "\<not> tcg_locked st"
proof -
  obtain q s' h' where d: "start_device (spy T) area cls uefi (s, h) = (q, s', h')"
    by (metis surj_pair)
  then obtain fam banks log where q: "q = Ok (fam, banks, log)" and r: "r = Ok fam"
    and st: "st = \<lparr>tcg_tpm = (s', h'), tcg_family = fam, tcg_banks = banks, tcg_log = log,
      tcg_failed = False, tcg_locked = False, tcg_cap_failed = False\<rparr>"
    using assms by (auto simp: start_def split: result.splits prod.splits)
  have "new_log (family_format fam) area (map fst banks) cls uefi = Some log"
    using d by (auto simp: q start_device_def op_bind_Ok op_or_else_Ok op_return_def dest!: prepare_log)
  then show "r = Ok (tcg_family st)" "new_log (family_format (tcg_family st)) area (map fst (tcg_banks st)) cls uefi = Some (tcg_log st)"
    "extends (history st) = extends h" "\<not> tcg_failed st" "\<not> tcg_locked st"
    using tracksD [OF tracks_start_device d] by (simp_all add: r st)
qed

text \<open>A call of the interface that returns, as a step of measured boot.\<close>

inductive tcg_step ::
  "(u16 \<Rightarrow> bytes \<Rightarrow> bytes) \<Rightarrow> 's transport \<Rightarrow> ('s \<times> bytes list) tcg_state \<Rightarrow> ('s \<times> bytes list) tcg_state \<Rightarrow> bool"
  for H T where
  step_measure: "\<not> (pcr = 0 \<and> ty = 0) \<Longrightarrow>
    tcg_measure H (spy T) pcr ty data ev (Some st) = (Ok (), Some st') \<Longrightarrow> tcg_step H T st st'"
| step_blob: "\<not> (pcr = 0 \<and> ty = 0) \<Longrightarrow>
    measure_blob H (spy T) pcr ty description base data (Some st) = (Ok (), Some st') \<Longrightarrow> tcg_step H T st st'"
| step_crtm: "measure_crtm_version H (spy T) version (Some st) = (Ok (), Some st') \<Longrightarrow> tcg_step H T st st'"
| step_separators: "separators H (spy T) (Some st) = (Ok (), Some st') \<Longrightarrow> tcg_step H T st st'"
| step_error: "tcg_measurement_error H (spy T) (Some st) = (Ok (), Some st') \<Longrightarrow> tcg_step H T st st'"
| step_lock: "lock (spy T) (Some st) = (r, Some st') \<Longrightarrow> r \<noteq> Panic \<Longrightarrow> tcg_step H T st st'"
| step_check: "tcg_check (spy T) (Some st) = (q, Some st') \<Longrightarrow> tcg_step H T st st'"

text \<open>The states of measured boot: started on a device with an empty history, then any steps.\<close>

inductive booted ::
  "(u16 \<Rightarrow> bytes \<Rightarrow> bytes) \<Rightarrow> 's transport \<Rightarrow> bytes \<Rightarrow> platform_class \<Rightarrow> bool \<Rightarrow> ('s \<times> bytes list) tcg_state \<Rightarrow> bool"
  for H T area cls uefi where
  booted_start: "start (spy T) area cls uefi (s, []) None = (r, tpm', Some st) \<Longrightarrow> booted H T area cls uefi st"
| booted_step: "booted H T area cls uefi st \<Longrightarrow> tcg_step H T st st' \<Longrightarrow> booted H T area cls uefi st'"

lemma tcg_with_Some: "tcg_with off f (Some st) = (r, Some st') \<longleftrightarrow> f st = (r, st')"
  by (cases "f st") auto

lemma tcg_measure_inv:
  assumes "tcg_measure H (spy T) pcr ty data ev (Some st) = (Ok (), Some st')" "tcg_inv H st0 st"
    "hash_lengths H" "\<not> (pcr = 0 \<and> ty = 0)"
  shows "tcg_inv H st0 st'"
  using assms(1) unfolding tcg_measure_def tcg_with_Some
  by (rule tcg_record_inv [OF _ assms(2) tcg_digests_ok [OF assms(3)] assms(4)])

lemma tpm12_type_0: "tpm12_type ty = 0 \<longleftrightarrow> ty = 0"
  by (simp add: tpm12_type_def EV_POST_CODE_def EV_POST_CODE2_def EV_EFI_PLATFORM_FIRMWARE_BLOB_def EV_EFI_PLATFORM_FIRMWARE_BLOB2_def)

lemma measure_blob_inv:
  assumes "measure_blob H (spy T) pcr ty description base data (Some st) = (Ok (), Some st')" "tcg_inv H st0 st"
    "hash_lengths H" "\<not> (pcr = 0 \<and> ty = 0)"
  shows "tcg_inv H st0 st'"
proof (cases "tcg_family_on (Some st)")
  case None
  then show ?thesis
    using assms(1,2) by (simp add: measure_blob_def)
next
  case (Some fam)
  then obtain ty' ev where "tcg_measure H (spy T) pcr ty' data ev (Some st) = (Ok (), Some st')" "ty' = ty \<or> ty' = tpm12_type ty"
    using assms(1) by (cases fam) (auto simp: measure_blob_def)
  then show ?thesis
    using tcg_measure_inv [OF _ assms(2,3)] assms(4) tpm12_type_0 by metis
qed

lemma separators_inv:
  assumes "separators H (spy T) (Some st) = (Ok (), Some st')" "tcg_inv H st0 st" "hash_lengths H"
  shows "tcg_inv H st0 st'"
proof -
  let ?f = "\<lambda>pcr st. let value = to_le_bytes (0 :: u32) in tcg_record H (spy T) pcr EV_SEPARATOR (tcg_digests H st value pcr) value st"
  have "tcg_inv H st0 st'" if "op_for_each pcrs ?f st = (Ok (), st')" "tcg_inv H st0 st" for pcrs st
    using that
  proof (induction pcrs arbitrary: st)
    case (Cons pcr pcrs)
    then obtain st1 where r: "tcg_record H (spy T) pcr EV_SEPARATOR (tcg_digests H st (to_le_bytes (0 :: u32)) pcr) (to_le_bytes (0 :: u32)) st = (Ok (), st1)"
      and rest: "op_for_each pcrs ?f st1 = (Ok (), st')"
      by (auto simp: op_bind_Ok Let_def)
    show ?case
      using tcg_record_inv [OF r Cons.prems(2) tcg_digests_ok [OF assms(3)]] by (intro Cons.IH [OF rest]) (simp add: EV_SEPARATOR_def)
  qed (simp add: op_return_def)
  then show ?thesis
    using assms(1,2) unfolding separators_def tcg_with_Some by blast
qed

lemma start_logged:
  assumes "start (spy T) area cls uefi (s, []) None = (r, tpm', Some st)"
  shows "logged (tcg_log st) st" "tcg_inv H st st"
proof -
  show "logged (tcg_log st) st"
    using start_spy(3) [OF assms] unfolding logged_def by (intro exI [of _ "[]"]) (simp add: extends_def)
  then show "tcg_inv H st st"
    using start_spy(4,5) [OF assms] by (simp add: tcg_inv_def)
qed

text \<open>Every state keeps the invariant relative to the state the TPM was started in.\<close>

lemma tcg_step_inv:
  assumes "tcg_step H T st st'" "hash_lengths H" "tcg_inv H st0 st"
  shows "tcg_inv H st0 st'"
  using assms(1)
proof cases
  case step_measure
  then show ?thesis
    using tcg_measure_inv assms(2,3) by blast
next
  case step_blob
  then show ?thesis
    using measure_blob_inv assms(2,3) by blast
next
  case step_crtm
  moreover have "\<not> ((0 :: u32) = 0 \<and> EV_S_CRTM_VERSION = 0)"
    by (simp add: EV_S_CRTM_VERSION_def)
  ultimately show ?thesis
    using tcg_measure_inv assms(2,3) unfolding measure_crtm_version_def tcg_measure_event_def by blast
next
  case step_separators
  then show ?thesis
    using separators_inv assms(2,3) by blast
next
  case step_error
  then show ?thesis
    using assms(3) tcg_fail_inv [of H T st st' st0]
    unfolding tcg_measurement_error_def tcg_with_Some by (auto simp: tcg_inv_def split: if_splits)
next
  case step_lock
  then show ?thesis
    using tcg_lock_inv(1) assms(3) unfolding lock_def tcg_with_Some by blast
next
  case step_check
  then have "st' = st\<lparr>tcg_tpm := tp_release (spy T) (tcg_tpm st)\<rparr>"
    unfolding tcg_check_def tcg_with_Some by simp
  then show ?thesis
    using assms(3) tcg_release_inv by blast
qed

lemma booted_inv:
  assumes "booted H T area cls uefi st" "hash_lengths H"
  shows "\<exists>st0 s r tpm'. start (spy T) area cls uefi (s, []) None = (r, tpm', Some st0) \<and> tcg_inv H st0 st"
  using assms(1)
proof induction
  case (booted_start s r tpm' st)
  then show ?case
    using start_logged(2) [OF booted_start] by blast
next
  case booted_step
  then show ?case
    using tcg_step_inv assms(2) by blast
qed

section \<open>Attestation\<close>

text \<open>The extend that replays an entry of the log.\<close>

fun entry_extend :: "family \<Rightarrow> log_entry \<Rightarrow> bytes" where
  "entry_extend Tpm20 e = cmd_image (extend_command (le_pcr e) (le_digests e))"
| "entry_extend Tpm12 e = cmd_image (extend12_command (le_pcr e) (snd (hd (le_digests e))))"

lemma entry_extend_of: "slots_ok ds \<Longrightarrow> entry_extend fam (entry_of (family_format fam) pcr ty ds ev) = extend_image fam pcr ds"
  using digests_get_size [of ds ALG_SHA1]
  by (cases fam) (auto simp: entry_of_def digest_size_def split: option.split)

text \<open>
  C6: the log explains the PCRs. After the TPM was started and any sequence of measurements, failures,
  locks and checks, in a log area of less than 4 GiB, as long as no measurement failed: a reader of the log area finds the Spec ID
  events and then a list of events such that replaying their digests gives exactly the extends
  that the TPM accepted, in the order it accepted them, for all its banks.
\<close>

theorem tcg_log_replays_extends:
  assumes "booted H T area cls uefi st" "\<not> tcg_failed st" "hash_lengths H" "length area < 2 ^ 32"
  shows "\<exists>es. parse_log (family_format (tcg_family st)) (el_buf (tcg_log st)) =
      Some (new_entries (family_format (tcg_family st)) uefi (map fst (tcg_banks st)) cls @ es) \<and>
    extends (history st) = map (entry_extend (tcg_family st)) es"
proof -
  obtain st0 s r tpm' where start: "start (spy T) area cls uefi (s, []) None = (r, tpm', Some st0)" and inv: "tcg_inv H st0 st"
    using booted_inv [OF assms(1,3)] by blast
  have same: "tcg_family st = tcg_family st0" "tcg_banks st = tcg_banks st0"
    using inv by (simp_all add: tcg_inv_def)
  obtain xs where xs: "append_events (tcg_log st0) xs = Some (tcg_log st)"
    "\<forall>(pcr, ty, ds, ev) \<in> set xs. slots_ok ds \<and> \<not> (pcr = 0 \<and> ty = 0)"
    "extends (history st) = map (\<lambda>(pcr, ty, ds, ev). extend_image (tcg_family st) pcr ds) xs"
    using inv assms(2) by (auto simp: tcg_inv_def logged_def)
  let ?es = "map (\<lambda>(pcr, ty, ds, ev). entry_of (family_format (tcg_family st)) pcr ty ds ev) xs"
  have "extends (history st) = map (entry_extend (tcg_family st)) ?es"
    using xs(2,3) by (auto simp: entry_extend_of)
  then show ?thesis
    using append_events_parse [OF start_spy(2) [OF start] xs(1) assms(4) xs(2)] same by auto
qed

lemma separators_extend:
  assumes "separators H (spy T) (Some st) = (Ok (), Some st')"
  shows "kept st st' \<and> (\<not> tcg_failed st' \<longrightarrow> \<not> tcg_failed st \<and>
    (\<forall>pcr \<in> set FIRMWARE_PCRS. extend_image (tcg_family st) pcr (tcg_digests H st (to_le_bytes (0 :: u32)) pcr) \<in> set (history st')))"
proof -
  let ?f = "\<lambda>pcr st. let value = to_le_bytes (0 :: u32) in tcg_record H (spy T) pcr EV_SEPARATOR (tcg_digests H st value pcr) value st"
  let ?i = "\<lambda>st pcr. extend_image (tcg_family st) pcr (tcg_digests H st (to_le_bytes (0 :: u32)) pcr)"
  have "kept st st' \<and> (\<not> tcg_failed st' \<longrightarrow> \<not> tcg_failed st \<and> (\<forall>pcr \<in> set pcrs. ?i st pcr \<in> set (history st')))"
    if "op_for_each pcrs ?f st = (Ok (), st')" for pcrs st
    using that
  proof (induction pcrs arbitrary: st)
    case (Cons pcr pcrs)
    then obtain st1 where r: "tcg_record H (spy T) pcr EV_SEPARATOR (tcg_digests H st (to_le_bytes (0 :: u32)) pcr) (to_le_bytes (0 :: u32)) st = (Ok (), st1)"
      and rest: "op_for_each pcrs ?f st1 = (Ok (), st')"
      by (auto simp: op_bind_Ok Let_def)
    note k = tcg_record_kept [OF r] and ih = Cons.IH [OF rest]
    have i: "?i st1 p = ?i st p" for p
      using k by (simp add: kept_def tcg_digests_def)
    have "kept st st'"
      using k ih kept_trans by blast
    moreover have "?i st pcr \<in> set (history st')" if "\<not> tcg_failed st1"
      using that k ih history_kept by blast
    ultimately show ?case
      using k ih i by auto
  qed (simp add: op_return_def)
  then show ?thesis
    using assms unfolding separators_def tcg_with_Some by blast
qed

lemma op_map_err_Ok: "op_map_err g f s = (Ok x, s') \<longleftrightarrow> f s = (Ok x, s')"
  by (auto simp: op_map_err_def op_or_else_Ok op_return_def)

lemma tcg_with_result: "tcg_with off f (Some st) = (r, slot) \<longleftrightarrow> (\<exists>st'. f st = (r, st') \<and> slot = Some st')"
  by (cases "f st") auto

lemma handoff_Ok:
  assumes "handoff H T kind (Some st) = (Ok (), slot)"
  obtains st1 st2 st' where "if kind = Final then separators H T (Some st) = (Ok (), Some st1) else st1 = st"
    "if kind \<noteq> Open then tcg_lock T st1 = (Ok (), st2) else st2 = st1"
    "\<not> tcg_cap_failed st2" "st' = st2\<lparr>tcg_tpm := tp_release T (tcg_tpm st2)\<rparr>" "slot = Some st'"
  using assms
  by (auto simp: handoff_def op_bind_Ok op_return_def op_map_err_Ok lock_def tcg_check_def separators_def tcg_with_result
      simp del: tcg_with.simps split: if_splits)

section \<open>Locking\<close>

lemma tcg_measure_kept:
  "tcg_measure H (spy T) pcr ty data ev (Some st) = (Ok (), Some st') \<Longrightarrow> kept st st'"
  unfolding tcg_measure_def tcg_with_Some using tcg_record_kept by blast

lemma measure_blob_kept:
  "measure_blob H (spy T) pcr ty description base data (Some st) = (Ok (), Some st') \<Longrightarrow> kept st st'"
  by (auto simp: measure_blob_def simp del: tcg_with.simps split: option.splits family.splits dest: tcg_measure_kept)

lemma release_kept: "kept st (st\<lparr>tcg_tpm := tp_release (spy T) (tcg_tpm st)\<rparr>)"
  by (cases "tcg_tpm st") (simp add: kept_def)

text \<open>Every step but a lock of a TPM that is not locked sends extends only.\<close>

lemma tcg_step_cases:
  assumes "tcg_step H T st st'"
  shows "kept st st' \<or> \<not> tcg_locked st \<and> (\<exists>r. r \<noteq> Panic \<and> tcg_lock (spy T) st = (r, st'))"
  using assms
proof cases
  case step_measure
  then show ?thesis
    using tcg_measure_kept by blast
next
  case step_blob
  then show ?thesis
    using measure_blob_kept by blast
next
  case step_crtm
  then show ?thesis
    using tcg_measure_kept unfolding measure_crtm_version_def tcg_measure_event_def by blast
next
  case step_separators
  then show ?thesis
    using separators_extend by blast
next
  case step_error
  then show ?thesis
    using tcg_fail_spy(1) unfolding tcg_measurement_error_def tcg_with_Some by (auto split: if_splits)
next
  case (step_lock r)
  then show ?thesis
    unfolding lock_def tcg_with_Some by (cases "tcg_locked st") (auto simp: tcg_lock_def)
next
  case step_check
  then show ?thesis
    using release_kept unfolding tcg_check_def tcg_with_Some by auto
qed

lemma locked_steps:
  assumes "(tcg_step H T)\<^sup>*\<^sup>* st st'" "tcg_locked st"
  shows "kept st st'"
  using assms
proof induction
  case (step st1 st2)
  then show ?case
    using tcg_step_cases [of H T st1 st2] by (auto simp: kept_def intro: only_extends_trans)
qed simp

text \<open>A state in which the TPM counts as locked comes after a lock that succeeded on this device.\<close>

lemma locked_by:
  assumes "booted H T area cls uefi st" "tcg_locked st"
  shows "\<exists>a b. booted H T area cls uefi a \<and> tcg_lock (spy T) a = (Ok (), b) \<and>
    lock_done T (tcg_family a) (tcg_tpm a) (tcg_tpm b) \<and> tcg_locked b \<and> (tcg_step H T)\<^sup>*\<^sup>* b st"
  using assms
proof induction
  case (booted_start s r tpm' st)
  then show ?case
    using start_spy(5) [OF booted_start.hyps] by blast
next
  case (booted_step st st')
  show ?case
  proof (cases "tcg_locked st")
    case True
    then show ?thesis
      using booted_step by (meson rtranclp.rtrancl_into_rtrancl)
  next
    case False
    then obtain r where r: "r \<noteq> Panic" "tcg_lock (spy T) st = (r, st')"
      using tcg_step_cases [OF booted_step.hyps(2)] booted_step.prems by (auto simp: kept_def)
    note l = tcg_lock_spy [OF r(2,1)]
    then have "is_ok r"
      using booted_step.prems by auto
    then have "r = Ok ()" "lock_done T (tcg_family st) (tcg_tpm st) (tcg_tpm st')"
      using l False by (cases r; auto)+
    then show ?thesis
      using booted_step.hyps(1) booted_step.prems r(2) by blast
  qed
qed

lemma handoff_steps:
  assumes "handoff H (spy T) kind (Some st) = (Ok (), Some st')"
  shows "(tcg_step H T)\<^sup>*\<^sup>* st st'" "kind \<noteq> Open \<Longrightarrow> tcg_locked st'"
proof -
  obtain st1 st2 where a: "if kind = Final then separators H (spy T) (Some st) = (Ok (), Some st1) else st1 = st"
    and b: "if kind \<noteq> Open then tcg_lock (spy T) st1 = (Ok (), st2) else st2 = st1"
    and c: "\<not> tcg_cap_failed st2" "st' = st2\<lparr>tcg_tpm := tp_release (spy T) (tcg_tpm st2)\<rparr>"
    using assms by (rule handoff_Ok) blast
  have "(tcg_step H T)\<^sup>*\<^sup>* st st1"
    using a step_separators [of H T st st1] by (auto split: if_splits)
  moreover have "(tcg_step H T)\<^sup>*\<^sup>* st1 st2"
    using b step_lock [of T st1 "Ok ()" st2 H] unfolding lock_def tcg_with_Some by (auto split: if_splits)
  moreover have "tcg_step H T st2 st'"
    using c by (intro step_check) (simp add: tcg_check_def)
  ultimately show "(tcg_step H T)\<^sup>*\<^sup>* st st'"
    by (meson rtranclp.rtrancl_into_rtrancl rtranclp_trans)
  show "tcg_locked st'" if "kind \<noteq> Open"
    using that b c(2) tcg_lock_spy [of T st1 "Ok ()" st2] by auto
qed

lemma booted_steps: "(tcg_step H T)\<^sup>*\<^sup>* st st' \<Longrightarrow> booted H T area cls uefi st \<Longrightarrow> booted H T area cls uefi st'"
  by (induction rule: rtranclp_induct) (auto intro: booted_step)

text \<open>
  C7: a payload only gets a TPM in a safe state. Whatever was measured and whatever failed before,
  a handoff that is allowed leaves the TPM as follows. A payload that is not a coreboot payload gets a locked TPM: on the path
  of this device to the state handed over there was a lock that succeeded, in which a TPM 2.0 accepted that its platform
  hierarchy goes behind a 32-byte authorization or off, and a TPM 1.2 accepted the lock of physical presence or
  answered that it is locked; everything the TPM accepted after it is an extend. A coreboot payload (\<open>Open\<close>) is
  handed a TPM that need not be locked. For every payload, if a
  measurement failed, the TPM accepted the error separator of each of PCR 0 to 7; and before an operating
  system it otherwise accepted the separator of each of PCR 0 to 7.
\<close>

theorem tcg_handoff_safe:
  assumes "booted H T area cls uefi st" "hash_lengths H" "handoff H (spy T) kind (Some st) = (Ok (), slot)"
  shows "\<exists>st'. slot = Some st' \<and>
    (kind \<noteq> Open \<longrightarrow>
      (\<exists>a b. booted H T area cls uefi a \<and> tcg_lock (spy T) a = (Ok (), b) \<and>
         lock_done T (tcg_family a) (tcg_tpm a) (tcg_tpm b) \<and>
         (tcg_step H T)\<^sup>*\<^sup>* b st' \<and> only_extends (history b) (history st'))) \<and>
    (tcg_failed st' \<longrightarrow> capped H st') \<and>
    (kind = Final \<and> \<not> tcg_failed st' \<longrightarrow>
      (\<forall>pcr \<in> set FIRMWARE_PCRS.
        extend_image (tcg_family st') pcr (tcg_digests H st' (to_le_bytes (0 :: u32)) pcr) \<in> set (history st')))"
proof -
  obtain st1 st2 st' where a: "if kind = Final then separators H (spy T) (Some st) = (Ok (), Some st1) else st1 = st"
    and b: "if kind \<noteq> Open then tcg_lock (spy T) st1 = (Ok (), st2) else st2 = st1"
    and c: "\<not> tcg_cap_failed st2" "st' = st2\<lparr>tcg_tpm := tp_release (spy T) (tcg_tpm st2)\<rparr>" "slot = Some st'"
    using assms(3) by (rule handoff_Ok)
  note steps = handoff_steps [OF assms(3) [unfolded c(3)]]
  have k: "tcg_family st2 = tcg_family st1 \<and> tcg_banks st2 = tcg_banks st1 \<and> prefix (history st1) (history st2) \<and>
      tcg_failed st2 = tcg_failed st1"
    using b tcg_lock_spy [of T st1 "Ok ()" st2] by (auto split: if_splits)
  have h: "history st' = history st2" "tcg_family st' = tcg_family st2" "tcg_banks st' = tcg_banks st2"
    "tcg_failed st' = tcg_failed st2" "tcg_cap_failed st' = tcg_cap_failed st2"
    by (cases "tcg_tpm st2"; simp add: c(2))+
  have "extend_image (tcg_family st') pcr (tcg_digests H st' (to_le_bytes (0 :: u32)) pcr) \<in> set (history st')"
    if "kind = Final" "\<not> tcg_failed st'" "pcr \<in> set FIRMWARE_PCRS" for pcr
  proof -
    have sep: "separators H (spy T) (Some st) = (Ok (), Some st1)"
      using a that(1) by simp
    note e = separators_extend [OF sep]
    have same: "tcg_family st' = tcg_family st" "tcg_banks st' = tcg_banks st"
      using e k h by (simp_all add: kept_def)
    have "extend_image (tcg_family st) pcr (tcg_digests H st (to_le_bytes (0 :: u32)) pcr) \<in> set (history st1)"
      using e that(2,3) k h(4) by blast
    then show ?thesis
      using same k h(1) set_mono_prefix [of "history st1" "history st2"] by (auto simp: tcg_digests_def)
  qed
  moreover have "capped H st'" if "tcg_failed st'"
    using booted_inv [OF booted_steps [OF steps(1) assms(1)] assms(2)] c(1) that h(5) by (auto simp: tcg_inv_def)
  moreover have "\<exists>a b. booted H T area cls uefi a \<and> tcg_lock (spy T) a = (Ok (), b) \<and>
      lock_done T (tcg_family a) (tcg_tpm a) (tcg_tpm b) \<and> (tcg_step H T)\<^sup>*\<^sup>* b st' \<and> only_extends (history b) (history st')"
    if "kind \<noteq> Open"
    using locked_by [OF booted_steps [OF steps(1) assms(1)] steps(2) [OF that]] locked_steps
    by (fastforce simp: kept_def)
  ultimately show ?thesis
    using c(3) by blast
qed

section \<open>A start that fails\<close>

lemma op_succeeds_True: "op_succeeds f s = (Ok True, s') \<longleftrightarrow> (\<exists>x. f s = (Ok x, s'))"
  by (cases "f s"; cases "fst (f s)") (auto simp: op_succeeds_def)

lemma grows_set: "tracks prefix f \<Longrightarrow> f (s, h) = (r, s', h') \<Longrightarrow> set h \<subseteq> set h'"
  by (meson set_mono_prefix tracksD)

definition event_image :: "u32 \<Rightarrow> bytes" where
  "event_image pcr = cmd_image (cmd_sized (to_le_bytes (0 :: u32)) (password_session (cmd_u32 pcr (cmd_new ST_SESSIONS CC_PCR_EVENT))))"

definition off_image :: "u32 \<Rightarrow> bytes" where
  "off_image hierarchy =
     cmd_image (cmd_u8 0 (cmd_u32 hierarchy (password_session (cmd_u32 RH_PLATFORM (cmd_new ST_SESSIONS CC_HIERARCHY_CONTROL)))))"

text \<open>A TPM 2.0 that an operating system cannot use as if it had been measured.\<close>

definition hidden :: "bytes list \<Rightarrow> bool" where
  "hidden h \<longleftrightarrow> off_image RH_ENDORSEMENT \<in> set h \<and> off_image RH_OWNER \<in> set h \<and>
     (\<forall>pcr \<in> set FIRMWARE_PCRS. event_image pcr \<in> set h) \<and> platform_locked (set h)"

lemma tracks_cap_events: "tracks prefix (cap_events pcrs (spy T))"
  by (induction pcrs) (auto intro!: tracks_rules)

lemma cap_events_accepted:
  assumes "cap_events pcrs (spy T) (s, h) = (Ok True :: ('e, bool) result, s', h')"
  shows "\<forall>pcr \<in> set pcrs. event_image pcr \<in> set h'"
  using assms
proof (induction pcrs arbitrary: s h)
  case (Cons pcr pcrs)
  then obtain s1 h1 where e: "tpm20_pcr_event (spy T) pcr (to_le_bytes (0 :: u32)) (s, h) = (Ok (), s1, h1)"
    and rest: "cap_events pcrs (spy T) (s1, h1) = (Ok True :: ('e, bool) result, s', h')"
    by (auto simp: op_bind_Ok op_return_def op_succeeds_True)
  have "event_image pcr \<in> set h1"
    using run_accepted_history [OF e [unfolded tpm20_pcr_event_def]] by (simp add: event_image_def)
  then show ?case
    using Cons.IH [OF rest] grows_set [OF tracks_cap_events rest] by auto
qed simp

lemma hide_accepted:
  assumes "hide_tpm20 (spy T) (s, h) = (Ok True :: ('e, bool) result, s', h')"
  shows "hidden h'"
proof -
  obtain s1 h1 s2 h2 s3 h3 s4 where
    a: "hierarchy_control (spy T) RH_PLATFORM RH_ENDORSEMENT False (s, h) = (Ok (), s1, h1)" and
    b: "hierarchy_control (spy T) RH_PLATFORM RH_OWNER False (s1, h1) = (Ok (), s2, h2)" and
    c: "cap_events FIRMWARE_PCRS (spy T) (s2, h2) = (Ok True :: ('e, bool) result, s3, h3)" and
    d: "lock_platform (spy T) (s3, h3) = (Ok (), s4, h')"
    using assms by (auto simp: hide_tpm20_def op_bind_Ok op_return_def op_succeeds_True)
  have "off_image RH_ENDORSEMENT \<in> set h1" "off_image RH_OWNER \<in> set h2"
    using a b unfolding hierarchy_control_def off_image_def of_bool_eq by (auto dest: run_accepted_history)
  moreover have "set h1 \<subseteq> set h2" "set h2 \<subseteq> set h3" "set h3 \<subseteq> set h'"
    using grows_set [OF growing.tracks_hierarchy(1) b] grows_set [OF tracks_cap_events c]
      grows_set [OF tracks_lock_device(2) [of T Tpm20]] d by auto
  ultimately show ?thesis
    using cap_events_accepted [OF c] platform_locked_mono [OF lock_platform_locked [OF d, of "(s3, h3)"] sent_history] unfolding hidden_def by auto
qed

lemma succeeds_no_Err: "op_succeeds f s \<noteq> (Err e, s')"
  by (auto simp: op_succeeds_def split: prod.splits result.splits)

lemma cap_events_no_Err: "cap_events pcrs T s \<noteq> (Err e, s')"
  by (induction pcrs arbitrary: s)
    (auto simp: op_return_def op_bind_def succeeds_no_Err split: prod.splits result.splits)

lemma protect_no_Err: "protect T fam s \<noteq> (Err e, s')"
  by (cases fam)
    (auto simp: hide_tpm20_def op_bind_def succeeds_no_Err cap_events_no_Err split: prod.splits result.splits)

lemma protect_accepted:
  assumes "protect (spy T) fam sh = (Ok True, s', h')"
  shows "if fam = Tpm20 then hidden h'
    else presence_lock_image \<in> set h'"
proof (cases fam)
  case Tpm20
  then show ?thesis
    using assms hide_accepted by (cases sh) fastforce
next
  case Tpm12
  then show ?thesis
    using assms by (auto simp: op_succeeds_True physical_presence_def presence_lock_image_def dest: run_accepted_history)
qed

text \<open>
  C40: a start that fails leaves no usable but unmeasured TPM behind, or says so. When starting
  fails with anything but the order to halt, measured boot is off. Either the startup command itself returned
  this error, and the device is left in the very state that command left it in, with nothing sent after it; or the startup
  command succeeded, and whatever failed afterwards (the self test of a TPM 2.0 too), the TPM was protected: a TPM 2.0 accepted that its
  endorsement and owner hierarchies go off, an event on each of PCR 0 to 7 and the lock of its platform
  hierarchy, and a TPM 1.2 accepted the lock of physical presence.
\<close>

theorem tcg_start_fails_closed:
  assumes "start (spy T) area cls uefi (s, h) None = (Err e, (s', h'), slot)" "start_remedy e \<noteq> Halt"
  shows "slot = None \<and>
    (startup (spy T) (s, h) = (Err e, s', h') \<or>
     (\<exists>fam sh. startup (spy T) (s, h) = (Ok fam, sh) \<and>
        (if fam = Tpm20 then hidden h'
         else presence_lock_image \<in> set h')))"
proof -
  have d: "start_device (spy T) area cls uefi (s, h) = (Err e, s', h')" and slot: "slot = None"
    using assms(1) by (auto simp: start_def split: prod.splits result.splits)
  obtain q sh where q: "startup (spy T) (s, h) = (q, sh)"
    by (metis surj_pair)
  show ?thesis
  proof (cases q)
    case (Ok fam)
    obtain error sh1 ok where "protect (spy T) fam sh1 = (Ok ok, s', h')" and e: "e = (if ok then error else Unprotected)"
      using d q Ok unfolding start_device_def op_bind_def op_or_else_def op_return_def
      by (auto simp: protect_no_Err split: prod.splits result.splits)
    then show ?thesis
      using protect_accepted [of T fam sh1 s' h'] assms(2) q Ok slot by (cases ok) auto
  qed (use d q slot in \<open>auto simp: start_device_def op_bind_def\<close>)
qed

section \<open>A TPM 2.0\<close>

text \<open>A TPM with one SHA-256 bank that accepts every command, on which the witnesses run.\<close>

definition respond :: "bytes \<Rightarrow> bytes" where
  "respond body = to_be_bytes ST_NO_SESSIONS @ to_be_bytes (word_of_nat (10 + length body) :: u32) @ to_be_bytes (0 :: u32) @ body"

definition sample_body :: "bytes \<Rightarrow> bytes" where
  "sample_body cmd =
     (if sub cmd 6 4 = to_be_bytes CC_GET_CAPABILITY then [0, 0, 0, 0, 5, 0, 0, 0, 1, 0, 0x0B, 3, 0xFF, 0xFF, 0xFF]
      else if sub cmd 6 4 = to_be_bytes CC_GET_RANDOM then [0, 32] @ replicate 32 7 else [])"

definition sample_tpm :: "unit transport" where
  "sample_tpm = \<lparr>tp_transmit = (\<lambda>cmd s. (Inr (respond (sample_body cmd)), s)), tp_wait_ms = (\<lambda>_ s. s), tp_release = (\<lambda>s. s)\<rparr>"

lemma length_respond: "length (respond body) = 10 + length body"
  by (simp add: respond_def)

lemma response_body_respond:
  assumes "length body < 1000"
  shows "response_body (respond body) = Ok body"
proof -
  define w :: u32 where "w = word_of_nat (10 + length body)"
  have "unat w = 10 + length body"
    unfolding w_def using assms by (simp only: unat_of_nat) simp
  then show ?thesis
    unfolding respond_def w_def [symmetric]
    by (simp add: response_body_def Let_def TPM_HEADER_SIZE_def sub_append1 sub_append2 sub_whole from_to_be_bytes)
qed

lemma length_sample_body: "length (sample_body cmd) < 1000"
  by (simp add: sample_body_def)

lemma sample_execute_raw: "execute_raw (spy sample_tpm) cmd (s, h) = (Ok (respond (sample_body cmd)), s, h @ [cmd])"
proof -
  have "\<not> asks_retry (respond (sample_body cmd))" "accepted (Inr (respond (sample_body cmd)))"
    using length_sample_body [of cmd]
    by (simp_all add: asks_retry_def accepted_def response_body_respond BUFFER_SIZE_def length_respond)
  moreover have "length (respond (sample_body cmd)) \<le> BUFFER_SIZE"
    using length_sample_body [of cmd] by (simp add: length_respond BUFFER_SIZE_def)
  ultimately show ?thesis
    by (simp add: execute_raw_def transmit_def spy_def sample_tpm_def op_bind_def retry_loop_done)
qed

lemma sample_execute: "execute (spy sample_tpm) cmd (s, h) = (Ok (sample_body cmd), s, h @ [cmd])"
  by (simp add: execute_def op_bind_def sample_execute_raw response_body_respond length_sample_body op_return_def)

lemma sample_tpm_run: "\<not> cm_overflow c \<Longrightarrow> tpm_run (spy sample_tpm) c (s, h) = (Ok (), s, h @ [cmd_image c])"
  by (simp add: tpm_run_def cmd_finish_def op_bind_def op_return_def sample_execute)

lemma sample_transmit: "transmit (spy sample_tpm) cmd (s, h) = (Ok (respond (sample_body cmd)), s, h @ [cmd])"
  using length_sample_body [of cmd]
  by (simp add: transmit_def spy_def sample_tpm_def accepted_def response_body_respond length_respond BUFFER_SIZE_def)

lemmas cmd_defs = cmd_new_def cmd_u32_def cmd_u16_def cmd_u8_def cmd_sized_def cmd_bytes_def BUFFER_SIZE_def password_session_def

lemma sample_startup: "\<exists>h'. startup (spy sample_tpm) (s, h) = (Ok Tpm20, s, h')"
proof -
  have "from_be_bytes (sub (respond b) 0 2) = ST_NO_SESSIONS" for b
    by (simp add: respond_def sub_append1 sub_whole from_to_be_bytes)
  then show ?thesis
    by (simp add: startup_def op_or_else_def op_bind_def tpm20_startup_def op_return_def cmd_finish_def cmd_defs
        sample_execute_raw response_body_respond length_sample_body Let_def)
qed

lemma sample_banks_body: "rbind (rd_u8 [0, 0, 0, 0, 5, 0, 0, 0, 1, 0, 0x0B, 3, 0xFF, 0xFF, 0xFF]) (\<lambda>(_, body).
    rbind (rd_u32 body) (\<lambda>(cap, body). if cap \<noteq> CAP_PCRS then Err TpmResponse
      else rbind (rd_u32 body) (\<lambda>(count, body). read_banks (unat count) body []))) = Ok [(ALG_SHA256, 0xFFFFFF)]"
  by code_simp

lemma sample_self_test: "\<exists>h'. tpm20_self_test (spy sample_tpm) False (s, h) = (Ok (), s, h')"
proof -
  have "self_test_loop (Suc n) (spy sample_tpm) cmd (s, h) = (Ok (), s, h @ [cmd])" for n cmd
    by (simp add: op_bind_def sample_transmit response_body_respond length_sample_body op_return_def)
  moreover have "RETRIES = Suc 499"
    by (simp add: RETRIES_def)
  ultimately have "self_test_loop RETRIES (spy sample_tpm) cmd (s, h) = (Ok (), s, h @ [cmd])" for cmd
    by metis
  then show ?thesis
    by (simp add: tpm20_self_test_def op_bind_def op_return_def cmd_finish_def cmd_defs)
qed

lemma sample_pcr_banks: "\<exists>h'. tpm20_pcr_banks (spy sample_tpm) (s, h) = (Ok [(ALG_SHA256, 0xFFFFFF)], s, h')"
proof -
  let ?c = "cmd_u32 1 (cmd_u32 0 (cmd_u32 CAP_PCRS (cmd_new ST_NO_SESSIONS CC_GET_CAPABILITY)))"
  have "cmd_finish ?c = Ok (cmd_image ?c)"
    by (simp add: cmd_finish_def cmd_defs)
  moreover have "sample_body (cmd_image ?c) = [0, 0, 0, 0, 5, 0, 0, 0, 1, 0, 0x0B, 3, 0xFF, 0xFF, 0xFF]"
    using finished_code [of CC_GET_CAPABILITY ?c] by (simp add: sample_body_def)
  ultimately show ?thesis
    unfolding tpm20_pcr_banks_def op_bind_def op_return_def
    by (simp add: sample_execute sample_banks_body del: rbind.simps)
qed

definition sample_area :: bytes where
  "sample_area = replicate 512 0xAA"

definition sample_ready :: "(unit \<times> bytes list) tcg_state \<Rightarrow> nat \<Rightarrow> bool" where
  "sample_ready st n \<longleftrightarrow> tcg_family st = Tpm20 \<and> tcg_banks st = [(ALG_SHA256, 0xFFFFFF)] \<and> el_format (tcg_log st) = CryptoAgile \<and>
     el_used (tcg_log st) + n \<le> length (el_buf (tcg_log st)) \<and> \<not> tcg_failed st \<and> \<not> tcg_locked st \<and> \<not> tcg_cap_failed st"

lemma sample_start:
  "\<exists>st. start (spy sample_tpm) sample_area ClassClient False ((), []) None = (Ok Tpm20, tcg_tpm st, Some st) \<and> sample_ready st 400"
proof -
  obtain h1 where h1: "startup (spy sample_tpm) ((), []) = (Ok Tpm20, (), h1)"
    using sample_startup by blast
  obtain h2 where h2: "tpm20_self_test (spy sample_tpm) False ((), h1) = (Ok (), (), h2)"
    using sample_self_test by blast
  obtain h3 where h3: "tpm20_pcr_banks (spy sample_tpm) ((), h2) = (Ok [(ALG_SHA256, 0xFFFFFF)], (), h3)"
    using sample_pcr_banks by blast
  obtain log where log: "crypto_agile_log sample_area [ALG_SHA256] ClassClient = Some log"
    and used: "el_used log = 65" "length (el_buf log) = 512" "el_format log = CryptoAgile"
    by (simp add: crypto_agile_log_def append_sha1_entry_def log_write_def sha1_entry_def Let_def sample_area_def agile_spec_id_def
        length_spec_ids MAX_BANKS_def length_write_at)
  have "start_device (spy sample_tpm) sample_area ClassClient False ((), []) = (Ok (Tpm20, [(ALG_SHA256, 0xFFFFFF)], log), (), h3)"
    using h1 h2 h3 log
    by (simp add: start_device_def op_bind_def op_or_else_def op_map_err_def op_return_def digest_size_def MAX_BANKS_def)
  then show ?thesis
    using used by (simp add: start_def sample_ready_def)
qed

definition sample_pcr_hash :: "u16 \<Rightarrow> bytes \<Rightarrow> bytes" where
  "sample_pcr_hash alg data = (case digest_size alg of None \<Rightarrow> [] | Some n \<Rightarrow> zfill n (take n data))"

lemma sample_hash_lengths: "hash_lengths sample_pcr_hash"
  by (simp add: hash_lengths_def sample_pcr_hash_def zfill_def)

lemma sample_digests:
  assumes "sample_ready st n"
  shows "\<exists>d. tcg_digests sample_pcr_hash st data 0 = [(ALG_SHA256, d)] \<and> length d = 64"
  using assms
  by (simp add: sample_ready_def tcg_digests_def pcr_hash_def digests_push_def digest_size_def MAX_BANKS_def MAX_DIGEST_SIZE_def
      sample_pcr_hash_def zfill_def ALG_SHA1_def ALG_SHA256_def)

lemma sample_measure:
  assumes "sample_ready st (50 + length ev)"
  shows "\<exists>st'. tcg_measure sample_pcr_hash (spy sample_tpm) 0 ty data ev (Some st) = (Ok (), Some st') \<and>
    sample_ready st' 0 \<and> extends (history st') \<noteq> []"
proof -
  obtain d where d: "tcg_digests sample_pcr_hash st data 0 = [(ALG_SHA256, d)]" "length d = 64"
    using sample_digests [OF assms] by blast
  have st: "tcg_family st = Tpm20" "\<not> tcg_failed st" "el_format (tcg_log st) = CryptoAgile"
    "el_used (tcg_log st) + (50 + length ev) \<le> length (el_buf (tcg_log st))"
    using assms by (simp_all add: sample_ready_def)
  have iter: "digests_iter [(ALG_SHA256, d)] = [(ALG_SHA256, take 32 d)]"
    by (simp add: digests_iter_def digest_size_def ALG_SHA1_def ALG_SHA256_def)
  obtain s h where sh: "tcg_tpm st = (s, h)"
    by (cases "tcg_tpm st")
  have "\<not> cm_overflow (extend_command 0 [(ALG_SHA256, take 32 d)])"
    using d(2) by (simp add: extend_command_def cmd_defs)
  then have "tcg_extend (spy sample_tpm) 0 [(ALG_SHA256, d)] st =
      (Ok (), st\<lparr>tcg_tpm := (s, h @ [extend_image Tpm20 0 [(ALG_SHA256, d)]])\<rparr>)"
    by (simp add: tcg_extend_def st sh on_tpm_def tpm20_pcr_extend_def iter sample_tpm_run)
  moreover obtain log where "log_append (tcg_log st) 0 ty [(ALG_SHA256, d)] ev = Some log"
    and "el_used log \<le> length (el_buf log)" "el_format log = CryptoAgile"
    using st d(2) by (simp add: log_append_def log_write_def agile_entry_def iter Let_def length_write_at)
  ultimately show ?thesis
    using assms st d is_extend_image [of Tpm20 0 "[(ALG_SHA256, d)]"]
    by (simp add: tcg_measure_def tcg_record_def op_bind_def op_succeeds_def sample_ready_def extends_def
        filter_empty_conv)
qed

theorem tcg_log_replays_extends_witness:
  "\<exists>st. booted sample_pcr_hash sample_tpm sample_area ClassClient False st \<and> extends (history st) \<noteq> [] \<and>
     (\<exists>es. parse_log (family_format (tcg_family st)) (el_buf (tcg_log st)) =
        Some (new_entries (family_format (tcg_family st)) False (map fst (tcg_banks st)) ClassClient @ es) \<and>
      extends (history st) = map (entry_extend (tcg_family st)) es)"
proof -
  obtain st where s: "start (spy sample_tpm) sample_area ClassClient False ((), []) None = (Ok Tpm20, tcg_tpm st, Some st)"
    and r: "sample_ready st 400"
    using sample_start by blast
  have "sample_ready st (50 + length [0x31 :: u8, 0, 0, 0])"
    using r by (simp add: sample_ready_def)
  then obtain st' where m: "tcg_measure sample_pcr_hash (spy sample_tpm) 0 EV_S_CRTM_VERSION [0x31, 0, 0, 0] [0x31, 0, 0, 0] (Some st) = (Ok (), Some st')"
    and r': "sample_ready st' 0" "extends (history st') \<noteq> []"
    using sample_measure by blast
  have b: "booted sample_pcr_hash sample_tpm sample_area ClassClient False st'"
    by (rule booted_step [OF booted_start [OF s] step_measure [OF _ m]]) (simp add: EV_S_CRTM_VERSION_def)
  have "length sample_area < 2 ^ 32"
    by (simp add: sample_area_def)
  then show ?thesis
    using tcg_log_replays_extends [OF b _ sample_hash_lengths] b r' by (auto simp: sample_ready_def)
qed

lemma sample_lock_platform: "\<exists>h'. lock_platform (spy sample_tpm) (s, h) = (Ok (), s, h')"
proof -
  let ?c = "cmd_u16 32 (cmd_new ST_NO_SESSIONS CC_GET_RANDOM)"
  have "sample_body (cmd_image ?c) = [0, 32] @ replicate 32 7"
    using finished_code [of CC_GET_RANDOM ?c] by (simp add: sample_body_def command_codes)
  moreover have "rd_u16 ([0, 32] @ replicate 32 7) = Ok (32, replicate 32 7)"
    by (simp add: rd_u16_def rd_bytes_def from_be_bytes_def from_le_bytes_def)
  moreover have "cmd_finish ?c = Ok (cmd_image ?c)"
    by (simp add: cmd_finish_def cmd_defs)
  ultimately have "random_round (spy sample_tpm) 32 (s, h) = (Ok (replicate 32 7), s, h @ [cmd_image ?c])" for s h
    by (simp add: random_round_def op_bind_def op_return_def sample_execute rd_bytes_def Let_def)
  then have r: "\<exists>h'. get_random (spy sample_tpm) 32 (s, h) = (Ok (replicate 32 7), s, h')" for s h
    by (subst get_random.simps) (simp add: get_random.simps [of _ 0] op_bind_def op_return_def)
  have n: "\<not> cm_overflow (cmd_sized (replicate 32 7) (password_session (cmd_u32 RH_PLATFORM (cmd_new ST_SESSIONS CC_HIERARCHY_CHANGE_AUTH))))"
    by (simp add: cmd_defs)
  obtain h' where "get_random (spy sample_tpm) 32 (s, h) = (Ok (replicate 32 7), s, h')"
    using r by blast
  then show ?thesis
    using n by (simp add: lock_platform_def op_or_else_def op_bind_def hierarchy_change_auth_def sample_tpm_run)
qed

lemma sample_lock:
  assumes "sample_ready st n"
  shows "\<exists>st'. tcg_lock (spy sample_tpm) st = (Ok (), st') \<and> \<not> tcg_cap_failed st'"
proof -
  obtain s h where sh: "tcg_tpm st = (s, h)"
    by (cases "tcg_tpm st")
  obtain h' where "lock_platform (spy sample_tpm) (s, h) = (Ok (), s, h')"
    using sample_lock_platform by blast
  then show ?thesis
    using assms sh by (simp add: tcg_lock_def on_tpm_def sample_ready_def)
qed

theorem tcg_handoff_safe_witness:
  "\<exists>st st'. booted sample_pcr_hash sample_tpm sample_area ClassClient False st \<and>
     handoff sample_pcr_hash (spy sample_tpm) Locked (Some st) = (Ok (), Some st') \<and>
     (\<exists>a b. tcg_lock (spy sample_tpm) a = (Ok (), b) \<and> lock_done sample_tpm (tcg_family a) (tcg_tpm a) (tcg_tpm b) \<and>
        (tcg_step sample_pcr_hash sample_tpm)\<^sup>*\<^sup>* b st' \<and> only_extends (history b) (history st'))"
proof -
  obtain st where s: "start (spy sample_tpm) sample_area ClassClient False ((), []) None = (Ok Tpm20, tcg_tpm st, Some st)"
    and r: "sample_ready st 400"
    using sample_start by blast
  note b = booted_start [OF s, of sample_pcr_hash]
  obtain st1 where "tcg_lock (spy sample_tpm) st = (Ok (), st1)" "\<not> tcg_cap_failed st1"
    using sample_lock [OF r] by blast
  then have h: "handoff sample_pcr_hash (spy sample_tpm) Locked (Some st) =
      (Ok (), Some (st1\<lparr>tcg_tpm := tp_release (spy sample_tpm) (tcg_tpm st1)\<rparr>))"
    by (simp add: handoff_def op_bind_def op_return_def op_map_err_def op_or_else_def lock_def tcg_check_def)
  then show ?thesis
    using tcg_handoff_safe [OF b sample_hash_lengths h] b by blast
qed

lemma sample_cap_events: "\<exists>h'. cap_events pcrs (spy sample_tpm) (s, h) = (Ok True, s, h')"
proof (induction pcrs arbitrary: h)
  case (Cons pcr pcrs)
  have "\<not> cm_overflow (cmd_sized (to_le_bytes (0 :: u32)) (password_session (cmd_u32 pcr (cmd_new ST_SESSIONS CC_PCR_EVENT))))"
    by (simp add: cmd_defs)
  then obtain h1 where "tpm20_pcr_event (spy sample_tpm) pcr (to_le_bytes (0 :: u32)) (s, h) = (Ok (), s, h1)"
    by (simp add: tpm20_pcr_event_def sample_tpm_run)
  then show ?case
    using Cons.IH [of h1] by (auto simp: op_bind_def op_succeeds_def op_return_def)
qed (simp add: op_return_def)

lemma sample_hide: "\<exists>h'. hide_tpm20 (spy sample_tpm) (s, h) = (Ok True, s, h')"
proof -
  have "\<exists>h'. hierarchy_control (spy sample_tpm) RH_PLATFORM x False (s, h) = (Ok (), s, h')" for x h
    by (simp add: hierarchy_control_def sample_tpm_run cmd_defs)
  then obtain h1 h2 where "hierarchy_control (spy sample_tpm) RH_PLATFORM RH_ENDORSEMENT False (s, h) = (Ok (), s, h1)"
    "hierarchy_control (spy sample_tpm) RH_PLATFORM RH_OWNER False (s, h1) = (Ok (), s, h2)"
    by meson
  moreover obtain h3 where "cap_events FIRMWARE_PCRS (spy sample_tpm) (s, h2) = (Ok True :: ('e, bool) result, s, h3)"
    using sample_cap_events by blast
  moreover obtain h4 where "lock_platform (spy sample_tpm) (s, h3) = (Ok (), s, h4)"
    using sample_lock_platform by blast
  ultimately show "\<exists>h'. hide_tpm20 (spy sample_tpm) (s, h) = (Ok True :: ('e, bool) result, s, h')"
    by (simp add: hide_tpm20_def op_bind_def op_succeeds_def)
qed

theorem tcg_start_fails_closed_witness:
  "\<exists>h'. start (spy sample_tpm) [] ClassClient False ((), []) None = (Err LogFull, ((), h'), None) \<and> hidden h'"
proof -
  obtain h1 where h1: "startup (spy sample_tpm) ((), []) = (Ok Tpm20, (), h1)"
    using sample_startup by blast
  obtain h2 where h2: "tpm20_self_test (spy sample_tpm) False ((), h1) = (Ok (), (), h2)"
    using sample_self_test by blast
  obtain h3 where h3: "tpm20_pcr_banks (spy sample_tpm) ((), h2) = (Ok [(ALG_SHA256, 0xFFFFFF)], (), h3)"
    using sample_pcr_banks by blast
  obtain h4 where h4: "hide_tpm20 (spy sample_tpm) ((), h3) = (Ok True :: (start_error, bool) result, (), h4)"
    using sample_hide by blast
  have "crypto_agile_log [] [ALG_SHA256] ClassClient = None"
    by (simp add: crypto_agile_log_def append_sha1_entry_def log_write_def sha1_entry_def)
  then have "start_device (spy sample_tpm) [] ClassClient False ((), []) = (Err LogFull, (), h4)"
    using h1 h2 h3 h4
    by (simp add: start_device_def op_bind_def op_or_else_def op_map_err_def op_return_def digest_size_def MAX_BANKS_def)
  then have s: "start (spy sample_tpm) [] ClassClient False ((), []) None = (Err LogFull, ((), h4), None)"
    by (simp add: start_def)
  then show ?thesis
    using tcg_start_fails_closed [OF s] h1 by auto
qed

end
