(* ===== verification/Resume.thy ===== *)
theory Resume
  imports Load Store
begin

text \<open>
  The stage cache for resuming from S3 (\<^verbatim>\<open>crates/resume/src/lib.rs\<close>, \<^verbatim>\<open>stage_cache.rs\<close>): a cold boot copies the stored bytes of
  a stage, which it has just verified in memory, into an entry of the store; a resume loads the stage from
  there through the same loader. The store's bytes are the memory at its base: what a stage writes to the
  store is written to memory there, and a view of an entry reads memory. Log messages, time stamps and the
  cache flush are left out.
\<close>

section \<open>Slots\<close>

definition STAGE_CACHE_MAGIC :: u32 where "STAGE_CACHE_MAGIC = from_le_bytes [0x46, 0x53, 0x43, 0x43]"
definition STAGE_CACHE_VERSION :: u32 where "STAGE_CACHE_VERSION = 1"
definition STAGE_CACHE_HEADER_LEN :: nat where "STAGE_CACHE_HEADER_LEN = 32"

record cache_header =
  ch_magic :: u32
  ch_version :: u32
  ch_stored_size :: u64
  ch_loaded_size :: u64
  ch_role :: u8
  ch_reserved :: bytes

definition ch_as_bytes :: "cache_header \<Rightarrow> bytes" where
  "ch_as_bytes h = to_le_bytes (ch_magic h) @ to_le_bytes (ch_version h) @ to_le_bytes (ch_stored_size h) @
     to_le_bytes (ch_loaded_size h) @ [ch_role h] @ ch_reserved h"

definition ch_at :: "bytes \<Rightarrow> cache_header" where
  "ch_at b = \<lparr>ch_magic = le32 b 0, ch_version = le32 b 4, ch_stored_size = le64 b 8, ch_loaded_size = le64 b 16,
     ch_role = b ! 24, ch_reserved = sub b 25 7\<rparr>"

datatype cached_stage = CachedPostcar | CachedMainstage

definition STAGE_CACHE_POSTCAR :: tag where "STAGE_CACHE_POSTCAR = 0xfff002"
definition STAGE_CACHE_RAMSTAGE :: tag where "STAGE_CACHE_RAMSTAGE = 0xfff003"

fun stage_tag :: "cached_stage \<Rightarrow> tag" where
  "stage_tag CachedPostcar = STAGE_CACHE_POSTCAR"
| "stage_tag CachedMainstage = STAGE_CACHE_RAMSTAGE"

fun role_byte :: "cached_stage \<Rightarrow> u8" where
  "role_byte CachedPostcar = 1"
| "role_byte CachedMainstage = 2"

datatype cache_error = SlotTooSmall | CacheMedia

definition valid_header :: "bytes \<Rightarrow> cached_stage \<Rightarrow> cache_header option" where
  "valid_header bs stage =
     (if length bs < STAGE_CACHE_HEADER_LEN then None
      else let h = ch_at bs in
        if ch_magic h = STAGE_CACHE_MAGIC \<and> ch_version h = STAGE_CACHE_VERSION \<and> ch_role h = role_byte stage \<and>
           ch_reserved h = replicate 7 0 \<and> ch_stored_size h \<noteq> 0
        then Some h else None)"

definition cache_store ::
  "nat \<Rightarrow> bytes \<Rightarrow> cached_stage \<Rightarrow> boot_media \<Rightarrow> bootstrap_descriptor \<Rightarrow> (cache_error, unit) result \<times> bytes" where
  "cache_store um slot stage source d =
     (let slot = (if 4 \<le> length slot then write_at slot 0 (replicate 4 0) else slot);
          stored = unat (bd_stored_size d) in
      if stored > um then (Err SlotTooSmall, slot)
      else case usize_add um STAGE_CACHE_HEADER_LEN stored of
             None \<Rightarrow> (Err SlotTooSmall, slot)
           | Some required \<Rightarrow>
               if length slot < required then (Err SlotTooSmall, slot)
               else if unat (bd_offset d) > um then (Err CacheMedia, slot)
               else case bm_read_at source (unat (bd_offset d)) (sub slot STAGE_CACHE_HEADER_LEN stored) of (r, body) \<Rightarrow>
                 let slot = write_at slot STAGE_CACHE_HEADER_LEN body in
                 (case r of
                    Panic \<Rightarrow> (Panic, slot)
                  | Err e \<Rightarrow> (Err CacheMedia, slot)
                  | Ok n \<Rightarrow>
                      if n \<noteq> stored then (Err CacheMedia, slot)
                      else let header = \<lparr>ch_magic = 0, ch_version = STAGE_CACHE_VERSION, ch_stored_size = bd_stored_size d,
                                 ch_loaded_size = bd_loaded_size d, ch_role = role_byte stage, ch_reserved = replicate 7 0\<rparr>
                           in (Ok (), write_at (write_at slot 0 (ch_as_bytes header)) 0 (to_le_bytes STAGE_CACHE_MAGIC))))"

definition has_complete_slot :: "boot_media \<Rightarrow> cached_stage \<Rightarrow> ('e, bool) result" where
  "has_complete_slot slot stage =
     (case bm_read_at slot 0 (replicate STAGE_CACHE_HEADER_LEN 0) of
        (Panic, _) \<Rightarrow> Panic
      | (Err _, _) \<Rightarrow> Ok False
      | (Ok n, bs) \<Rightarrow>
          if n \<noteq> STAGE_CACHE_HEADER_LEN then Ok False
          else case valid_header bs stage of
                 None \<Rightarrow> Ok False
               | Some h \<Rightarrow>
                   Ok (case checked_add (32 :: u64) (ch_stored_size h) of
                         None \<Rightarrow> False | Some stop \<Rightarrow> unat stop \<le> bm_size slot))"

text \<open>The loader is called without a measurement, so that nothing is recorded.\<close>

definition load_from_slot ::
  "(bytes \<Rightarrow> bytes) \<Rightarrow> nat \<Rightarrow> boot_media \<Rightarrow> cached_stage \<Rightarrow> bootstrap_descriptor \<Rightarrow> memory_policy \<Rightarrow> codec \<Rightarrow> memory \<Rightarrow>
     ('e, u64 option) result \<times> memory \<times> trace" where
  "load_from_slot sha um slot stage d p c m =
     (case bm_read_at slot 0 (replicate STAGE_CACHE_HEADER_LEN 0) of
        (Panic, _) \<Rightarrow> (Panic, m, [])
      | (Err _, _) \<Rightarrow> (Ok None, m, [])
      | (Ok n, bs) \<Rightarrow>
          if n \<noteq> STAGE_CACHE_HEADER_LEN then (Ok None, m, [])
          else case valid_header bs stage of
                 None \<Rightarrow> (Ok None, m, [])
               | Some h \<Rightarrow>
                   if unat (ch_stored_size h) > um then (Ok None, m, [])
                   else if ch_stored_size h \<noteq> bd_stored_size d \<or> ch_loaded_size h \<noteq> bd_loaded_size d then (Ok None, m, [])
                   else case sub_region um slot STAGE_CACHE_HEADER_LEN (unat (ch_stored_size h)) of
                          None \<Rightarrow> (Ok None, m, [])
                        | Some body \<Rightarrow>
                            (case load_bootstrap sha um body (d\<lparr>bd_offset := 0\<rparr>) p c NO_MEASUREMENT m of
                               (Ok entry, m', tr) \<Rightarrow> (Ok (Some entry), m', tr)
                             | (Err _, m', tr) \<Rightarrow> (Ok None, m', tr)
                             | (Panic, m', tr) \<Rightarrow> (Panic, m', tr)))"

section \<open>Loading a stage\<close>

datatype resume_error = ResumeLoad load_error | NotCached

definition entry_media :: "nat \<Rightarrow> memory \<Rightarrow> store \<Rightarrow> entry \<Rightarrow> boot_media" where
  "entry_media um m st e = memory_mapped um m (LinearMap (address st e)) (en_size e)"

definition resume_stage ::
  "(bytes \<Rightarrow> bytes) \<Rightarrow> nat \<Rightarrow> cached_stage \<Rightarrow> bootstrap_descriptor \<Rightarrow> memory_policy \<Rightarrow> store \<Rightarrow> codec \<Rightarrow> memory \<Rightarrow>
     (resume_error, u64) result \<times> memory \<times> trace" where
  "resume_stage sha um stage d p st c m =
     (case store_find st (stage_tag stage) of
        None \<Rightarrow> (Err NotCached, m, [])
      | Some e \<Rightarrow>
          (case load_from_slot sha um (entry_media um m st e) stage d p c m of (r, m', tr) \<Rightarrow>
             (rbind r (\<lambda>verified. ok_or verified NotCached), m', tr)))"

text \<open>The copy of the verified bytes into a new entry; a failure only withholds S3.\<close>

definition cache_stage ::
  "nat \<Rightarrow> cached_stage \<Rightarrow> bootstrap_descriptor \<Rightarrow> memory_window \<Rightarrow> store \<Rightarrow> memory \<Rightarrow>
     ('e, unit) result \<times> memory \<times> store" where
  "cache_stage um stage d input st m =
     (let stored = unat (mw_size input);
          source = memory_mapped um m (LinearMap (unat (mw_start input))) stored in
      case usize_add um STAGE_CACHE_HEADER_LEN stored of
        None \<Rightarrow> (Panic, m, st)
      | Some len \<Rightarrow>
          (case store_add st (stage_tag stage) len 3 of
             Panic \<Rightarrow> (Panic, m, st)
           | Err _ \<Rightarrow> (Ok (), m, st)
           | Ok (e, st1) \<Rightarrow>
               (case cache_store um (entry_bytes st1 e) stage source (d\<lparr>bd_offset := 0\<rparr>) of (q, slot) \<Rightarrow>
                  let st2 = bytes_mut st1 e slot in
                  (if q = Panic then Panic else Ok (), poke m (st_base st2) (st_mem st2), st2))))"

definition load_stage ::
  "(bytes \<Rightarrow> bytes) \<Rightarrow> nat \<Rightarrow> boot_media \<Rightarrow> cached_stage \<Rightarrow> bootstrap_descriptor \<Rightarrow> memory_policy \<Rightarrow> store \<Rightarrow> bool \<Rightarrow>
     codec \<Rightarrow> measurement \<Rightarrow> memory \<Rightarrow> (resume_error, u64) result \<times> memory \<times> store \<times> trace" where
  "load_stage sha um media stage d p st resume c mm m =
     (if resume then (case resume_stage sha um stage d p st c m of (r, m', tr) \<Rightarrow> (r, m', st, tr))
      else case load_bootstrap sha um media d p c mm m of
             (Err e, m1, tr) \<Rightarrow> (Err (ResumeLoad e), m1, st, tr)
           | (Panic, m1, tr) \<Rightarrow> (Panic, m1, st, tr)
           | (Ok entry, m1, tr) \<Rightarrow>
               (case stored_input d of
                  Err e \<Rightarrow> (Err (ResumeLoad e), m1, st, tr)
                | Panic \<Rightarrow> (Panic, m1, st, tr)
                | Ok input \<Rightarrow>
                    if unat (mw_size input) > um then (Err (ResumeLoad LoadBounds), m1, st, tr)
                    else case cache_stage um stage d input st m1 of (q, m2, st') \<Rightarrow>
                           (rbind q (\<lambda>_. Ok entry), m2, st', tr)))"

definition cached_all :: "nat \<Rightarrow> memory \<Rightarrow> store \<Rightarrow> cached_stage list \<Rightarrow> ('e, bool) result" where
  "cached_all um m st stages =
     foldr (\<lambda>stage rest.
        rbind (case store_find st (stage_tag stage) of
                 None \<Rightarrow> Ok False | Some e \<Rightarrow> has_complete_slot (entry_media um m st e) stage)
          (\<lambda>ok. if ok then rest else Ok False)) stages (Ok True)"

section \<open>Loading the same stored bytes again\<close>

lemma codec_decompress_again:
  assumes "codec_decompress c cmp inp out = (Ok (), out')" "length out2 = length out"
  shows "codec_decompress c cmp inp out2 = (Ok (), out')"
proof (cases c)
  case Lz4Codec
  then have c: "cmp = CompLz4" and b: "out' = loop_buffer inp out 0 0"
    and "rbind (map_err (\<lambda>_. LoadDecompression) (decompress_block inp out)) (\<lambda>(_, count).
      if count \<noteq> length out then Err LoadDecompression else Ok ()) = Ok ()"
    using assms(1) by (auto simp: decompress_buffer_def split: if_splits)
  then obtain dst where l: "decompress_loop inp out 0 0 = Ok (dst, length out)"
    by (auto simp: decompress_block_def split: if_splits)
  obtain dst2 where d2: "decompress_loop inp out2 0 0 = Ok (dst2, length out)" "length dst2 = length out"
      "take (length out) dst2 = take (length out) dst"
    using loop_independent [OF l assms(2)] by auto
  have "length dst = length out"
    using loop_buffer_eq [OF l] by (simp flip: length_loop_buffer [of 0 out inp 0])
  then have "dst2 = dst"
    using d2(2,3) by simp
  then show ?thesis
    using Lz4Codec c b d2(1) loop_buffer_eq [OF l] loop_buffer_eq [OF d2(1)] assms(2)
    by (simp add: decompress_block_def decompress_buffer_def)
qed (use assms in simp)

context boot_media_view
begin

lemma load_into_shape:
  assumes l: "load_bootstrap_into sha um media d ws c mm = (Ok (), ws', tr)" and n: "length ws = footprint d"
  shows "case bd_compression d of
      CompNone \<Rightarrow> ws' = stored_bytes d
    | CompLz4 \<Rightarrow> \<exists>out. ws' = out @ stored_bytes d \<and> sha out = bd_loaded_digest d \<and> length out = unat (bd_loaded_size d) \<and>
        codec_decompress c CompLz4 (stored_bytes d) (take (unat (bd_loaded_size d)) ws) = (Ok (), out)"
    and "codec_supports c (bd_compression d) \<or> bd_compression d = CompNone" "sha (stored_bytes d) = bd_stored_digest d"
    "footprint d \<le> um" "length (stored_bytes d) = unat (bd_stored_size d)"
proof -
  show s: "sha (stored_bytes d) = bd_stored_digest d" "length (stored_bytes d) = unat (bd_stored_size d)"
    using load_into_any(3) [OF l n refl] by (auto simp: measured_def stored_bytes_def)
  obtain required loaded where w: "workspace_size um media d (length ws) c = Ok (required, loaded)"
    using l by (auto simp: load_bootstrap_into_def split: result.splits)
  note wo = workspace_size_eq_Ok [OF w]
  show "codec_supports c (bd_compression d) \<or> bd_compression d = CompNone"
    using w by (auto simp: workspace_size_def Let_def split: if_splits)
  show "footprint d \<le> um"
    using w bootstrap_footprint_eq_Ok(1) [of d] by (auto simp: workspace_size_def Let_def split: if_splits)
  show "case bd_compression d of
      CompNone \<Rightarrow> ws' = stored_bytes d
    | CompLz4 \<Rightarrow> \<exists>out. ws' = out @ stored_bytes d \<and> sha out = bd_loaded_digest d \<and> length out = unat (bd_loaded_size d) \<and>
        codec_decompress c CompLz4 (stored_bytes d) (take (unat (bd_loaded_size d)) ws) = (Ok (), out)"
  proof (cases "bd_compression d")
    case CompNone
    then have e: "required = loaded" "loaded = length ws" "bd_stored_size d = bd_loaded_size d"
      using wo n by (auto simp: footprint_def)
    then obtain out where o: "load_stored sha um media d mm ws = (Ok (), out, tr)" "ws' = out"
      using l CompNone by (auto simp: load_bootstrap_into_def w Let_def sub_def split: prod.splits)
    then have "out = stored_bytes d"
      using load_stored_cases(2) [OF o(1) refl] e wo(2) by (simp add: stored_bytes_def)
    then show ?thesis
      using o(2) CompNone by simp
  next
    case CompLz4
    then have e: "required = length ws" "required - loaded = unat (bd_stored_size d)" "loaded = unat (bd_loaded_size d)"
      using wo n by (auto simp: footprint_def)
    obtain q inp tr' where t: "load_stored sha um media d mm (sub ws loaded (required - loaded)) = (q, inp, tr')"
      by (cases "load_stored sha um media d mm (sub ws loaded (required - loaded))") auto
    have q: "q = Ok ()"
      using l CompLz4 by (cases q) (auto simp: load_bootstrap_into_def w Let_def t)
    have "length (sub ws loaded (required - loaded)) = unat (bd_stored_size d)"
      using e wo(4) by simp
    then have inp: "inp = stored_bytes d"
      using load_stored_cases(2) [OF t q] by (simp add: stored_bytes_def)
    obtain r out where k: "codec_decompress c CompLz4 inp (take loaded ws) = (r, out)"
      by (cases "codec_decompress c CompLz4 inp (take loaded ws)") auto
    have "rbind r (\<lambda>_. load_verify sha out (bd_loaded_digest d) LoadLoadedDigest) = Ok ()" "ws' = out @ inp @ drop required ws"
      using l CompLz4 q by (auto simp: load_bootstrap_into_def w Let_def t k)
    then have "r = Ok ()" "sha out = bd_loaded_digest d" "ws' = out @ stored_bytes d"
      using inp e(1) by (auto simp: load_verify_def split: if_splits)
    moreover have "length out = unat (bd_loaded_size d)"
      using codec_decompress_length [OF k] e(3) wo(4) e(1) by simp
    ultimately show ?thesis
      using CompLz4 k inp e(3) by simp
  qed
qed

end

lemma bootstrap_footprint_offset:
  assumes "bootstrap_footprint d = Ok f"
  shows "bootstrap_footprint (d\<lparr>bd_offset := 0\<rparr>) = Ok f"
proof -
  have "bd_validate (d\<lparr>bd_offset := 0\<rparr>) U64_MAX = Ok ()" if "bd_validate d U64_MAX = Ok ()"
    using that by (auto simp: bd_validate_eq_Ok bd_sound_def split: compression.splits)
  then show ?thesis
    using assms by (cases "bd_compression d") (auto simp: bootstrap_footprint_def split: if_splits)
qed

lemma check_entry_offset: "check_entry d p = Ok fe \<Longrightarrow> check_entry (d\<lparr>bd_offset := 0\<rparr>) p = Ok fe"
  using bootstrap_footprint_offset [of d] by (cases "bootstrap_footprint d") (simp_all add: check_entry_def del: rbind_eq_Ok)

lemma load_bootstrap_done:
  assumes "load_bootstrap sha um media d p c mm m = (Ok entry, m', tr)"
  obtains ws f where "permits um p (bd_load_addr d) f" "check_entry d p = Ok (f, entry)" "unat f = footprint d"
    "load_bootstrap_into sha um media d (peek m (unat (bd_load_addr d)) (footprint d)) c mm = (Ok (), ws, tr)"
    "m' = poke m (unat (bd_load_addr d)) ws"
  using assms
proof (cases rule: load_bootstrap_cases)
  case (loaded q ws f e)
  moreover have "q = Ok ()" "e = entry"
    using loaded(4) by (cases q; simp)+
  ultimately show thesis
    using that check_entry_eq_Ok(1) by blast
qed simp

lemma load_keeps_stored:
  assumes v: "boot_media_view media content" and l: "load_bootstrap sha um media d p c mm m = (Ok entry, m', tr)"
    and i: "stored_input d = Ok input"
  shows "peek m' (unat (mw_start input)) (unat (mw_size input)) = sub content (unat (bd_offset d)) (unat (bd_stored_size d))"
proof -
  obtain ws where w: "load_bootstrap_into sha um media d (peek m (unat (bd_load_addr d)) (footprint d)) c mm = (Ok (), ws, tr)"
      "m' = poke m (unat (bd_load_addr d)) ws"
    using load_bootstrap_done [OF l] by metis
  note s = boot_media_view.load_into_shape [OF v w(1) length_peek]
  show ?thesis
  proof (cases "bd_compression d")
    case CompNone
    then show ?thesis
      using s(1,5) i peek_poke_same [of m "unat (bd_load_addr d)" ws] w(2)
      by (auto simp: stored_input_def boot_media_view.stored_bytes_def [OF v])
  next
    case CompLz4
    then obtain out where o: "ws = out @ boot_media_view.stored_bytes content d" "length out = unat (bd_loaded_size d)"
      using s(1) by auto
    have "unat (mw_start input) = unat (bd_load_addr d) + length out" "mw_size input = bd_stored_size d"
      using CompLz4 i o(2) by (auto simp: stored_input_def dest!: checked_add_SomeD)
    then show ?thesis
      using peek_poke_inside [of "length out" "unat (bd_stored_size d)" ws m "unat (bd_load_addr d)"] o(1) s(5) w(2)
      by (simp add: sub_append2 sub_whole boot_media_view.stored_bytes_def [OF v])
  qed
qed

lemma load_stored_again:
  assumes "bm_size body = length stored" "\<And>buf. length buf = length stored \<Longrightarrow> bm_read_at body 0 buf = (Ok (length buf), stored)"
    and "bd_offset d = 0" "sha stored = bd_stored_digest d" "length stored \<le> um" "length buf = length stored"
  shows "load_stored sha um body d mm buf = (Ok (), stored, record_bytes mm stored)"
  using assms by (simp add: load_stored_def load_read_def usize_add_def load_verify_def)

lemma load_again:
  assumes v: "boot_media_view media content" and l: "load_bootstrap sha um media d p c mm m = (Ok entry, m', tr)"
    and s: "stored = sub content (unat (bd_offset d)) (unat (bd_stored_size d))"
    and b: "bm_size body = unat (bd_stored_size d)"
      "\<And>buf. length buf = length stored \<Longrightarrow> bm_read_at body 0 buf = (Ok (length buf), stored)"
    and pl: "\<And>f. unat f = footprint d \<Longrightarrow> permits um p (bd_load_addr d) f \<Longrightarrow> Load.place um body p (bd_load_addr d) f = Ok ()"
  shows "\<exists>m3. load_bootstrap sha um body (d\<lparr>bd_offset := 0\<rparr>) p c mm2 m2 = (Ok entry, m3, record_bytes mm2 stored) \<and>
    peek m3 (unat (bd_load_addr d)) (unat (bd_loaded_size d)) = peek m' (unat (bd_load_addr d)) (unat (bd_loaded_size d))"
proof -
  let ?d = "d\<lparr>bd_offset := 0\<rparr>" and ?at = "unat (bd_load_addr d)"
  obtain ws f where w: "permits um p (bd_load_addr d) f" "check_entry d p = Ok (f, entry)" "unat f = footprint d"
      "load_bootstrap_into sha um media d (peek m ?at (footprint d)) c mm = (Ok (), ws, tr)" "m' = poke m ?at ws"
    using load_bootstrap_done [OF l] by metis
  note sh = boot_media_view.load_into_shape [OF v w(4) length_peek]
  have st: "boot_media_view.stored_bytes content d = stored" "length stored = unat (bd_stored_size d)"
    using sh(5) by (simp_all add: boot_media_view.stored_bytes_def [OF v] s)
  obtain f' where f': "bootstrap_footprint d = Ok f'"
    using w(2) by (auto simp: check_entry_def)
  then have ff: "f' = f"
    using w(2) by (auto simp: check_entry_def split: if_splits)
  have fp: "footprint ?d = footprint d" "unat (bd_loaded_size d) \<le> footprint d" "unat (bd_stored_size d) \<le> footprint d"
    using bootstrap_footprint_eq_Ok(2) [OF f'] by (auto simp: footprint_def)
  have ws: "workspace_size um body ?d (footprint d) c = Ok (footprint d, unat (bd_loaded_size d))"
    using bootstrap_footprint_offset [OF f'] sh(2,4) fp b(1) w(3) ff unat_64_less [of "bd_stored_size d"]
    by (auto simp: workspace_size_def Let_def checked_add_def)
  have ld: "load_stored sha um body ?d mm2 buf = (Ok (), stored, record_bytes mm2 stored)" if "length buf = length stored" for buf
    using that load_stored_again [of body stored ?d sha um buf mm2] b st sh(3,4) fp by simp
  have into: "load_bootstrap_into sha um body ?d (peek m2 ?at (footprint d)) c mm2 = (Ok (), ws, record_bytes mm2 stored)"
  proof (cases "bd_compression d")
    case CompNone
    then have e: "bd_stored_size d = bd_loaded_size d" "footprint d = unat (bd_loaded_size d)"
      using bootstrap_footprint_eq_Ok(2) [OF f'] by (auto simp: footprint_def)
    then show ?thesis
      using CompNone ld [of "peek m2 ?at (footprint d)"] st sh(1) ws
      by (simp add: load_bootstrap_into_def Let_def sub_def)
  next
    case CompLz4
    then obtain out where o: "ws = out @ stored" "sha out = bd_loaded_digest d" "length out = unat (bd_loaded_size d)"
        "codec_decompress c CompLz4 stored (take (unat (bd_loaded_size d)) (peek m ?at (footprint d))) = (Ok (), out)"
      using sh(1) st(1) by auto
    have "codec_decompress c CompLz4 stored (take (unat (bd_loaded_size d)) (peek m2 ?at (footprint d))) = (Ok (), out)"
      by (rule codec_decompress_again [OF o(4)]) simp
    moreover have "footprint d - unat (bd_loaded_size d) = length stored"
      using CompLz4 st(2) by (simp add: footprint_def)
    moreover have "load_stored sha um body ?d mm2 (sub (peek m2 ?at (footprint d)) (unat (bd_loaded_size d)) (length stored)) =
        (Ok (), stored, record_bytes mm2 stored)"
      using CompLz4 st(2) by (intro ld) (simp add: footprint_def)
    ultimately show ?thesis
      using CompLz4 o by (simp add: load_bootstrap_into_def ws Let_def load_verify_def)
  qed
  have "load_bootstrap sha um body ?d p c mm2 m2 = (Ok entry, poke m2 ?at ws, record_bytes mm2 stored)"
    using into w(3) pl [OF w(3,1)] check_entry_offset [OF w(2)] by (simp add: load_bootstrap_def Let_def)
  moreover have "length ws = footprint d"
    using boot_media_view.load_into_any(1) [OF v w(4) length_peek] by simp
  ultimately show ?thesis
    using fp(2) peek_poke_inside [of 0 "unat (bd_loaded_size d)" ws m ?at] peek_poke_inside [of 0 "unat (bd_loaded_size d)" ws m2 ?at] w(5)
    by simp
qed

section \<open>Slots that hold a stage\<close>

definition slot_header :: "cached_stage \<Rightarrow> bootstrap_descriptor \<Rightarrow> cache_header" where
  "slot_header stage d = \<lparr>ch_magic = STAGE_CACHE_MAGIC, ch_version = STAGE_CACHE_VERSION, ch_stored_size = bd_stored_size d,
     ch_loaded_size = bd_loaded_size d, ch_role = role_byte stage, ch_reserved = replicate 7 0\<rparr>"

lemma length_ch_as_bytes: "length (ch_reserved h) = 7 \<Longrightarrow> length (ch_as_bytes h) = 32"
  by (simp add: ch_as_bytes_def)

lemma ch_at_as_bytes: "length (ch_reserved h) = 7 \<Longrightarrow> ch_at (ch_as_bytes h) = h"
  by (simp add: ch_at_def ch_as_bytes_def le32_def le64_def byte_simps nth_append)

lemma length_slot_header [simp]: "length (ch_as_bytes (slot_header stage d)) = 32"
  by (rule length_ch_as_bytes) (simp add: slot_header_def)

lemma slot_header_valid: "bd_stored_size d \<noteq> 0 \<Longrightarrow> valid_header (ch_as_bytes (slot_header stage d)) stage = Some (slot_header stage d)"
  using ch_at_as_bytes [of "slot_header stage d"]
  by (simp add: valid_header_def STAGE_CACHE_HEADER_LEN_def Let_def) (simp add: slot_header_def)

lemma write_at_front: "length ys = length xs \<Longrightarrow> write_at (xs @ zs) 0 ys = ys @ zs"
  by (simp add: write_at_def)

lemma cache_store_copies:
  assumes n: "length slot = 32 + unat (bd_stored_size d)" "32 + unat (bd_stored_size d) \<le> um"
    and r: "\<And>buf. length buf = unat (bd_stored_size d) \<Longrightarrow> bm_read_at source 0 buf = (Ok (length buf), stored)"
    and l: "length stored = unat (bd_stored_size d)" and o: "bd_offset d = 0"
  shows "cache_store um slot stage source d = (Ok (), ch_as_bytes (slot_header stage d) @ stored)"
proof -
  let ?z = "write_at slot 0 (replicate 4 0)" and ?h = "(slot_header stage d)\<lparr>ch_magic := 0\<rparr>"
  have z: "length ?z = 32 + unat (bd_stored_size d)"
    using n(1) by (simp add: length_write_at)
  have h: "length (ch_as_bytes ?h) = 32"
    by (rule length_ch_as_bytes) (simp add: slot_header_def)
  have "write_at (write_at ?z 32 stored) 0 (ch_as_bytes ?h) = ch_as_bytes ?h @ stored"
    using z l h by (simp add: write_at_def)
  moreover have "write_at (ch_as_bytes ?h @ stored) 0 (to_le_bytes STAGE_CACHE_MAGIC) = ch_as_bytes (slot_header stage d) @ stored"
    by (simp add: ch_as_bytes_def write_at_def slot_header_def)
  moreover have "\<lparr>ch_magic = 0, ch_version = STAGE_CACHE_VERSION, ch_stored_size = bd_stored_size d,
      ch_loaded_size = bd_loaded_size d, ch_role = role_byte stage, ch_reserved = replicate 7 0\<rparr> = ?h"
    by (simp add: slot_header_def)
  ultimately show ?thesis
    using n z o r [of "sub ?z 32 (unat (bd_stored_size d))"]
    by (simp add: cache_store_def Let_def STAGE_CACHE_HEADER_LEN_def usize_add_def)
qed

lemma no_magic_invalid: "sub bs 0 4 = replicate 4 0 \<Longrightarrow> valid_header bs stage = None"
proof -
  assume "sub bs 0 4 = replicate 4 0"
  then have "sub bs 0 4 = [0, 0, 0, 0]"
    by (simp add: eval_nat_numeral)
  then have "le32 bs 0 = 0"
    by (simp add: le32_def from_le_bytes_def)
  moreover have "STAGE_CACHE_MAGIC = 0x43435346"
    by (simp add: STAGE_CACHE_MAGIC_def from_le_bytes_def)
  ultimately show ?thesis
    by (auto simp: valid_header_def ch_at_def Let_def)
qed

text \<open>The magic is cleared first and written last: a copy that fails leaves no valid slot.\<close>

lemma cache_store_fails_closed:
  assumes "cache_store um slot stage source d = (r, slot')" "r \<noteq> Ok ()" "4 \<le> length slot"
    and "\<And>offset buf. length (snd (bm_read_at source offset buf)) = length buf"
  shows "valid_header slot' any = None"
proof -
  let ?z = "write_at slot 0 (replicate 4 0)"
  have z: "length ?z = length slot" "sub ?z 0 4 = replicate 4 0"
    using assms(3) sub_write_at_same [of 0 "replicate 4 0" slot] by (simp_all add: length_write_at)
  have b: "sub (write_at ?z 32 body) 0 4 = replicate 4 0" if "32 + length body \<le> length slot" for body
    using sub_write_at_other [of 32 body ?z 0 4] that z by simp
  have "slot' = ?z \<or> (\<exists>body. 32 + length body \<le> length slot \<and> slot' = write_at ?z 32 body)"
  proof (cases "slot' = ?z")
    case False
    obtain q body where q: "bm_read_at source (unat (bd_offset d)) (sub ?z 32 (unat (bd_stored_size d))) = (q, body)"
      by (cases "bm_read_at source (unat (bd_offset d)) (sub ?z 32 (unat (bd_stored_size d)))") auto
    have n: "32 + unat (bd_stored_size d) \<le> length slot" "slot' = write_at ?z 32 body"
      using assms(1-3) False q z(1)
      by (auto simp: cache_store_def Let_def STAGE_CACHE_HEADER_LEN_def usize_add_def split: if_splits result.splits)
    moreover have "length body = unat (bd_stored_size d)"
      using assms(4) [of "unat (bd_offset d)" "sub ?z 32 (unat (bd_stored_size d))"] q n(1) z(1) by simp
    ultimately show ?thesis
      by metis
  qed simp
  then show ?thesis
    using b z(2) by (auto intro: no_magic_invalid)
qed

lemma place_apart:
  assumes "permits um p start f" "\<And>a bs. bm_slice body = Some (a, bs) \<Longrightarrow>
      a + length bs < 2 ^ 64 \<and> disjoint_range (a, length bs) (unat start, unat f)"
  shows "Load.place um body p start f = Ok ()"
proof (cases "bm_slice body")
  case (Some s)
  obtain a bs where s: "s = (a, bs)"
    by (cases s)
  have e: "a + length bs < 2 ^ 64" "disjoint_range (a, length bs) (unat start, unat f)"
    using assms(2) Some s by auto
  obtain stop where "mw_end \<lparr>mw_start = start, mw_size = f\<rparr> = Some stop"
    using assms(1) by (auto simp: permits_def Let_def split: option.splits)
  moreover from this have "unat stop = unat start + unat f"
    by (auto simp: mw_end_def dest: checked_add_SomeD)
  moreover have "mw_end \<lparr>mw_start = word_of_nat a, mw_size = word_of_nat (length bs)\<rparr> = Some (word_of_nat (a + length bs))"
    using e(1) by (simp add: mw_end_def checked_add_def unat_of_nat)
  ultimately have "\<not> mw_overlaps \<lparr>mw_start = word_of_nat a, mw_size = word_of_nat (length bs)\<rparr> \<lparr>mw_start = start, mw_size = f\<rparr>"
    using e by (auto simp: mw_overlaps_def word_less_nat_alt unat_of_nat disjoint_range_def simp del: of_nat_add)
  then show ?thesis
    using assms(1) Some s by (simp add: Load.place_def)
qed (simp add: Load.place_def assms(1))

lemma linear_read: "offset + length buf \<le> um \<Longrightarrow> offset + length buf \<le> sz \<Longrightarrow>
    bm_read_at (memory_mapped um m (LinearMap base) sz) offset buf = (Ok (length buf), peek m (base + offset) (length buf))"
  using out_of_bounds_iff [of um offset "length buf" sz] by (simp add: memory_mapped_def linear_copy)

lemma slot_body:
  assumes "32 + n \<le> um" "sz = 32 + n"
  obtains body where "sub_region um (memory_mapped um m (LinearMap a) sz) 32 n = Some body" "bm_size body = n"
    "\<And>buf. length buf = n \<Longrightarrow> bm_read_at body 0 buf = (Ok (length buf), peek m (a + 32) n)"
    "\<And>b bs. bm_slice body = Some (b, bs) \<Longrightarrow> b = a + 32 \<and> length bs = n"
proof -
  have "\<not> out_of_bounds um 32 n (bm_size (memory_mapped um m (LinearMap a) sz))" "\<not> out_of_bounds um 0 n n"
    using assms by (simp_all add: out_of_bounds_iff memory_mapped_def)
  then show thesis
    using assms by (intro that [OF sub_region_def [THEN trans, OF if_not_P]])
      (auto simp: linear_copy memory_mapped_def split: if_splits)
qed

lemma record_nothing [simp]: "record_bytes NO_MEASUREMENT bs = []"
  by (simp add: record_bytes_def NO_MEASUREMENT_def)

lemma slot_loads_again:
  assumes v: "boot_media_view media content" and l: "load_bootstrap sha um media d p c mm m = (Ok entry, m', tr)"
    and s: "stored = sub content (unat (bd_offset d)) (unat (bd_stored_size d))"
    and n: "sz = 32 + unat (bd_stored_size d)" "sz \<le> um" "a + sz < 2 ^ 64"
    and k: "peek m2 a sz = ch_as_bytes (slot_header stage d) @ stored"
    and apart: "\<And>f. permits um p (bd_load_addr d) f \<Longrightarrow> disjoint_range (a, sz) (unat (bd_load_addr d), unat f)"
  shows "\<exists>m3. load_from_slot sha um (memory_mapped um m2 (LinearMap a) sz) stage d p c m2 = (Ok (Some entry), m3, []) \<and>
    peek m3 (unat (bd_load_addr d)) (unat (bd_loaded_size d)) = peek m' (unat (bd_load_addr d)) (unat (bd_loaded_size d))"
proof -
  obtain body where b: "sub_region um (memory_mapped um m2 (LinearMap a) sz) 32 (unat (bd_stored_size d)) = Some body"
      "bm_size body = unat (bd_stored_size d)"
      "\<And>buf. length buf = unat (bd_stored_size d) \<Longrightarrow>
         bm_read_at body 0 buf = (Ok (length buf), peek m2 (a + 32) (unat (bd_stored_size d)))"
      "\<And>x bs. bm_slice body = Some (x, bs) \<Longrightarrow> x = a + 32 \<and> length bs = unat (bd_stored_size d)"
    using slot_body [of "unat (bd_stored_size d)" um sz m2 a] n by metis
  have len: "length stored = unat (bd_stored_size d)"
    using arg_cong [OF k, of length] n(1) by simp
  have bytes: "peek m2 (a + 32) (unat (bd_stored_size d)) = stored" "peek m2 a 32 = ch_as_bytes (slot_header stage d)"
    using sub_peek [of 32 "unat (bd_stored_size d)" sz m2 a] sub_peek [of 0 32 sz m2 a] n(1) k len
    by (simp_all add: sub_append2 sub_whole sub_append_exact)
  have "bd_stored_size d \<noteq> 0"
  proof -
    obtain f where "check_entry d p = Ok (f, entry)"
      using load_bootstrap_done [OF l] by metis
    then obtain f where "bootstrap_footprint d = Ok f"
      by (auto simp: check_entry_def)
    then show ?thesis
      by (auto simp: bootstrap_footprint_def bd_validate_def split: if_splits)
  qed
  note vh = slot_header_valid [OF this, of stage]
  have pl: "Load.place um body p (bd_load_addr d) f = Ok ()" if "permits um p (bd_load_addr d) f" for f
  proof (rule place_apart [OF that])
    show "x + length bs < 2 ^ 64 \<and> disjoint_range (x, length bs) (unat (bd_load_addr d), unat f)"
      if "bm_slice body = Some (x, bs)" for x bs
      using b(4) [OF that] n apart [OF \<open>permits um p (bd_load_addr d) f\<close>] by (auto simp: disjoint_range_def)
  qed
  obtain m3 where m3: "load_bootstrap sha um body (d\<lparr>bd_offset := 0\<rparr>) p c NO_MEASUREMENT m2 = (Ok entry, m3, [])"
      "peek m3 (unat (bd_load_addr d)) (unat (bd_loaded_size d)) = peek m' (unat (bd_load_addr d)) (unat (bd_loaded_size d))"
    using load_again [OF v l s b(2), where ?mm2.0 = NO_MEASUREMENT and ?m2.0 = m2] b(3) bytes(1) len pl by auto
  have hd: "ch_stored_size (slot_header stage d) = bd_stored_size d" "ch_loaded_size (slot_header stage d) = bd_loaded_size d"
    by (simp_all add: slot_header_def)
  have "load_from_slot sha um (memory_mapped um m2 (LinearMap a) sz) stage d p c m2 = (Ok (Some entry), m3, [])"
    using n b(1) m3(1) bytes(2) by (simp add: load_from_slot_def STAGE_CACHE_HEADER_LEN_def linear_read vh hd)
  then show ?thesis
    using m3(2) by blast
qed

lemma permits_reserved:
  assumes "permits um p start f" "w \<in> set (mp_reserved p)"
  shows "unat (mw_start w) + unat (mw_size w) < 2 ^ 64"
proof -
  have "\<not> mw_overlaps w \<lparr>mw_start = start, mw_size = f\<rparr>"
    using assms by (auto simp: permits_def Let_def list_ex_iff)
  then obtain stop where "mw_end w = Some stop"
    by (auto simp: mw_overlaps_def split: option.splits)
  then have "unat stop = unat (mw_start w) + unat (mw_size w)"
    by (auto simp: mw_end_def dest: checked_add_SomeD)
  then show ?thesis
    using unat_64_less [of stop] by simp
qed

text \<open>A cold boot that finds room for the slot.\<close>

lemma cache_stage_copies:
  assumes i: "store_inv st" and f: "store_find st (stage_tag stage) = None"
    and input: "unat (mw_size input) = unat (bd_stored_size d)" "peek m (unat (mw_start input)) (unat (bd_stored_size d)) = stored"
    and u: "32 + unat (bd_stored_size d) \<le> um"
    and a: "store_add st (stage_tag stage) (32 + unat (bd_stored_size d)) 3 = Ok (e, st1)"
  obtains st' where "cache_stage um stage d input st m = (Ok (), poke m (st_base st) (st_mem st'), st')"
    "store_inv st'" "store_find st' (stage_tag stage) = Some e" "en_size e = 32 + unat (bd_stored_size d)"
    "entry_bytes st' e = ch_as_bytes (slot_header stage d) @ stored"
    "st_base st' = st_base st" "length (st_mem st') = length (st_mem st)" "en_offset e + en_size e \<le> length (st_mem st')"
proof -
  let ?n = "unat (bd_stored_size d)" and ?slot = "ch_as_bytes (slot_header stage d) @ stored"
  define st' where "st' = bytes_mut st1 e ?slot"
  obtain es where es: "store_ok st" "all_path st es"
    using store_invE [OF i] by metis
  note ad = add_ok [OF es a] and ai = store_add_inv [OF i a]
  have e: "e \<in> set (entries st1)" "32 \<le> en_offset e" "en_offset e + en_size e \<le> length (st_mem st1)"
    using ai(2) store_inv_layout(2) [OF ai(1), of e] store_inv_layout(3,4) [OF ai(1)] by auto
  have len: "length stored = ?n" and ss: "length ?slot = en_size e"
    using input(2) ad(7) by auto
  have b: "st_base st' = st_base st" "length (st_mem st') = length (st_mem st)"
    using ad(4,5) e(3) ss by (simp_all add: st'_def bytes_mut_def length_write_at)
  have "cache_store um (entry_bytes st1 e) stage (memory_mapped um m (LinearMap (unat (mw_start input))) ?n) (d\<lparr>bd_offset := 0\<rparr>) =
      (Ok (), ch_as_bytes (slot_header stage (d\<lparr>bd_offset := 0\<rparr>)) @ stored)"
    using ad(7) e(3) u len input(2) by (intro cache_store_copies) (simp_all add: entry_bytes_def linear_read)
  moreover have "slot_header stage (d\<lparr>bd_offset := 0\<rparr>) = slot_header stage d"
    by (simp add: slot_header_def)
  ultimately have c: "cache_stage um stage d input st m = (Ok (), poke m (st_base st) (st_mem st'), st')"
    using a u input(1) b(1) st'_def by (simp add: cache_stage_def Let_def usize_add_def STAGE_CACHE_HEADER_LEN_def)
  note bi = bytes_mut_inv [OF ai(1) e(1) ss, folded st'_def]
  have "entry_bytes st' e = ?slot"
    using e(3) ss by (simp add: st'_def entry_bytes_def bytes_mut_def sub_write_at_same [of "en_offset e" ?slot, unfolded ss])
  moreover have "store_find st1 (stage_tag stage) = Some e"
    using store_log.lookup_append [OF i, of "stage_tag stage" "(32 + ?n, 3)" e st1 "stage_tag stage"] a f
    by (simp add: store_find_lookup)
  then have "store_find st' (stage_tag stage) = Some e"
    using bi by (simp add: store_find_def)
  ultimately show thesis
    using bi b ad(5,7) e(3) by (intro that [OF c]) simp_all
qed

lemma cache_stage_found:
  assumes "cache_stage um stage d input st m = (Ok (), m', st')" "unat (mw_size input) = unat (bd_stored_size d)"
    and "store_find st (stage_tag stage) = None" "store_find st' (stage_tag stage) \<noteq> None"
  obtains e st1 where "store_add st (stage_tag stage) (32 + unat (bd_stored_size d)) 3 = Ok (e, st1)"
    "32 + unat (bd_stored_size d) \<le> um"
  using assms by (auto simp: cache_stage_def Let_def usize_add_def STAGE_CACHE_HEADER_LEN_def
      split: if_splits option.splits result.splits prod.splits)

lemma peek_entry:
  assumes "peek m (st_base st) (length (st_mem st)) = st_mem st" "en_offset e + en_size e \<le> length (st_mem st)"
  shows "peek m (address st e) (en_size e) = entry_bytes st e"
  using sub_peek [OF assms(2), of m "st_base st"] assms(1) by (simp add: address_def entry_bytes_def)

lemma slot_complete:
  assumes "store_find st (stage_tag stage) = Some e" "en_size e = 32 + unat (bd_stored_size d)" "en_size e \<le> um" "en_size e < 2 ^ 64"
    and "peek m (address st e) (en_size e) = ch_as_bytes (slot_header stage d) @ stored" "bd_stored_size d \<noteq> 0"
  shows "cached_all um m st [stage] = (Ok True :: ('e, bool) result)"
proof -
  have b: "peek m (address st e) 32 = ch_as_bytes (slot_header stage d)"
    using sub_peek [of 0 32 "en_size e" m "address st e"] assms(2,5) by (simp add: sub_append_exact)
  have "bm_size (memory_mapped um m (LinearMap a) n) = n" for a n
    by (simp add: memory_mapped_def)
  moreover have "ch_stored_size (slot_header stage d) = bd_stored_size d"
    by (simp add: slot_header_def)
  ultimately have "has_complete_slot (entry_media um m st e) stage = (Ok True :: ('e, bool) result)"
    using assms(2-4) b slot_header_valid [OF assms(6), of stage] unat_64_less [of "bd_stored_size d"]
    by (simp add: has_complete_slot_def entry_media_def STAGE_CACHE_HEADER_LEN_def linear_read checked_add_def unat_word_ariths)
  then show ?thesis
    using assms(1) by (simp add: cached_all_def del: rbind_eq_Ok)
qed

lemma linear_not_Panic: "fst (bm_read_at (memory_mapped um m (LinearMap a) sz) offset buf) \<noteq> Panic"
  by (simp add: memory_mapped_def linear_copy)

lemma sub_region_not_Panic:
  assumes "sub_region um media offset sz = Some r" "\<And>o' b. fst (bm_read_at media o' b) \<noteq> Panic"
  shows "fst (bm_read_at r o' b) \<noteq> Panic"
  using assms by (auto simp: sub_region_def split: if_splits)

text \<open>What a load from a slot in memory comes down to.\<close>

lemma load_from_slot_cases:
  assumes "load_from_slot sha um (memory_mapped um m (LinearMap a) sz) stage d p c m = (r, m', tr)"
  obtains (refused) "r = Ok None" "m' = m" "tr = []"
  | (loaded) body q where "boot_media_view body (peek m (a + 32) (unat (bd_stored_size d)))"
      "\<And>o' b. fst (bm_read_at body o' b) \<noteq> Panic" "32 + unat (bd_stored_size d) \<le> sz"
      "load_bootstrap sha um body (d\<lparr>bd_offset := 0\<rparr>) p c NO_MEASUREMENT m = (q, m', tr)"
      "r = (case q of Ok entry \<Rightarrow> Ok (Some entry) | Err _ \<Rightarrow> Ok None | Panic \<Rightarrow> Panic)"
proof -
  let ?slot = "memory_mapped um m (LinearMap a) sz"
  obtain rd bs where rd: "bm_read_at ?slot 0 (replicate STAGE_CACHE_HEADER_LEN 0) = (rd, bs)"
    by (cases "bm_read_at ?slot 0 (replicate STAGE_CACHE_HEADER_LEN 0)") auto
  then have np: "rd \<noteq> Panic"
    using linear_not_Panic [of um m a sz 0 "replicate STAGE_CACHE_HEADER_LEN 0"] by auto
  show thesis
  proof (cases "\<exists>h. rd = Ok STAGE_CACHE_HEADER_LEN \<and> valid_header bs stage = Some h \<and> unat (ch_stored_size h) \<le> um \<and>
      ch_stored_size h = bd_stored_size d \<and> ch_loaded_size h = bd_loaded_size d \<and>
      sub_region um ?slot STAGE_CACHE_HEADER_LEN (unat (ch_stored_size h)) \<noteq> None")
    case False
    then have "load_from_slot sha um ?slot stage d p c m = (Ok None :: ('a, u64 option) result, m, [])"
      using np rd by (auto simp: load_from_slot_def split: result.splits option.splits)
    then show thesis
      using assms refused by simp
  next
    case True
    then obtain h body where h: "rd = Ok STAGE_CACHE_HEADER_LEN" "valid_header bs stage = Some h" "unat (ch_stored_size h) \<le> um"
        "ch_stored_size h = bd_stored_size d" "ch_loaded_size h = bd_loaded_size d"
        "sub_region um ?slot 32 (unat (bd_stored_size d)) = Some body"
      by (auto simp: STAGE_CACHE_HEADER_LEN_def)
    have n: "32 + unat (bd_stored_size d) \<le> sz"
      using h(6) out_of_bounds_iff [of um 32 "unat (bd_stored_size d)" sz]
      by (auto simp: sub_region_def memory_mapped_def split: if_splits)
    obtain q m1 tr1 where q: "load_bootstrap sha um body (d\<lparr>bd_offset := 0\<rparr>) p c NO_MEASUREMENT m = (q, m1, tr1)"
      using prod_cases3 by blast
    have "boot_media_view body (peek m (a + 32) (unat (bd_stored_size d)))"
      using linear_flash.sub_region_view [OF h(6)] sub_peek [OF n, of m a] by simp
    moreover have "r = (case q of Ok entry \<Rightarrow> Ok (Some entry) | Err _ \<Rightarrow> Ok None | Panic \<Rightarrow> Panic)" "m' = m1" "tr = tr1"
      using assms h q rd by (auto simp: load_from_slot_def STAGE_CACHE_HEADER_LEN_def split: result.splits)
    ultimately show thesis
      using loaded [of body q] sub_region_not_Panic [OF h(6) linear_not_Panic] n q by simp
  qed
qed

section \<open>Properties\<close>

lemma resume_restores:
  assumes "boot_media_view media content" and "run st es" and "store_find st (stage_tag stage) = None"
    and "w \<in> set (mp_reserved p)" "unat (mw_start w) \<le> st_base st"
      "st_base st + length (st_mem st) \<le> unat (mw_start w) + unat (mw_size w)"
    and "load_stage sha um media stage d p st False c mm m = (Ok entry, m', st', tr)"
    and "cached_all um m' st' [stage] = Ok True"
    and "n = length (st_mem st)" "peek m2 (st_base st) n = st_mem st'"
  shows "store_open (st_base st) (peek m2 (st_base st) n) n = Ok st' \<and>
    (\<exists>m3. load_stage sha um flash stage d p st' True c mm2 m2 = (Ok entry, m3, st', []) \<and>
      peek m3 (unat (bd_load_addr d)) (unat (bd_loaded_size d)) = peek m' (unat (bd_load_addr d)) (unat (bd_loaded_size d)))"
proof -
  obtain m1 input where l: "load_bootstrap sha um media d p c mm m = (Ok entry, m1, tr)"
      and input: "stored_input d = Ok input" and c: "cache_stage um stage d input st m1 = (Ok () :: (resume_error, unit) result, m', st')"
    using assms(7) by (auto simp: load_stage_def split: result.splits prod.splits if_splits)
  let ?stored = "sub content (unat (bd_offset d)) (unat (bd_stored_size d))" and ?at = "unat (bd_load_addr d)"
  have isz: "unat (mw_size input) = unat (bd_stored_size d)"
    using input by (auto simp: stored_input_def)
  have found: "store_find st' (stage_tag stage) \<noteq> None"
    using assms(8) by (auto simp: cached_all_def split: option.splits if_splits)
  have inv: "store_inv st"
    using run_inv [OF assms(2)] by simp
  obtain e st1 where a: "store_add st (stage_tag stage) (32 + unat (bd_stored_size d)) 3 = Ok (e, st1)"
      and u: "32 + unat (bd_stored_size d) \<le> um"
    by (rule cache_stage_found [OF c isz assms(3) found])
  obtain st2 where "cache_stage um stage d input st m1 = (Ok () :: (resume_error, unit) result, poke m1 (st_base st) (st_mem st2), st2)"
      and e: "store_inv st2" "store_find st2 (stage_tag stage) = Some e" "en_size e = 32 + unat (bd_stored_size d)"
      "entry_bytes st2 e = ch_as_bytes (slot_header stage d) @ ?stored" "st_base st2 = st_base st"
      "length (st_mem st2) = length (st_mem st)" "en_offset e + en_size e \<le> length (st_mem st2)"
    by (rule cache_stage_copies [OF inv assms(3) isz load_keeps_stored [OF assms(1) l input, unfolded isz] u a])
  then have st: "st2 = st'" "m' = poke m1 (st_base st) (st_mem st')"
    using c by auto
  note e = e [unfolded st(1)]
  have s: "unat (mw_start w) \<le> address st' e" "address st' e + en_size e \<le> unat (mw_start w) + unat (mw_size w)"
    using assms(5,6) e(5-7) by (simp_all add: address_def)
  obtain f where f: "permits um p (bd_load_addr d) f" "unat f = footprint d"
    using load_bootstrap_done [OF l] by metis
  have dj: "disjoint_range (address st' e, en_size e) (?at, unat f)" if "permits um p (bd_load_addr d) f" for f
    using permitsD(3) [OF that assms(4)] s by (auto simp: disjoint_range_def)
  have "peek m' ?at (unat (bd_loaded_size d)) = peek m1 ?at (unat (bd_loaded_size d))"
    unfolding st(2) using permitsD(3) [OF f(1) assms(4)] f(2) assms(5,6) e(6)
    by (intro peek_poke_other) (auto simp: disjoint_range_def footprint_def)
  moreover have "peek m2 (address st' e) (en_size e) = ch_as_bytes (slot_header stage d) @ ?stored"
    using peek_entry [of m2 st' e] assms(9,10) e(4-7) by simp
  then have "\<exists>m3. load_from_slot sha um (entry_media um m2 st' e) stage d p c m2 =
        (Ok (Some entry) :: (resume_error, u64 option) result, m3, []) \<and>
      peek m3 ?at (unat (bd_loaded_size d)) = peek m1 ?at (unat (bd_loaded_size d))"
    unfolding entry_media_def
    using slot_loads_again [OF assms(1) l refl e(3), of "address st' e" m2 stage] e(3) u s(2) permits_reserved [OF f(1) assms(4)] dj
    by simp
  moreover have "store_open (st_base st) (peek m2 (st_base st) n) n = Ok st'"
    using store_ok_opens [of st' n] store_inv_layout(4) [OF e(1)] e(1,5,6) assms(9,10) by (simp add: store_inv_def)
  ultimately show ?thesis
    using e(2) by (auto simp: load_stage_def resume_stage_def)
qed

definition resume_store :: store where
  "resume_store = sample_store\<lparr>st_base := 0x101000\<rparr>"

lemma resume_store_run: "run resume_store []"
proof (rule run.create)
  show "store_create 0x101000 (replicate 128 0) 128 = Ok resume_store"
    by (simp add: store_create_def store_consts Let_def write_header_def store_write_def resume_store_def sample_store_def write_at_def)
qed simp

lemma resume_store_find: "store_find resume_store t = None"
  using run_inv [OF resume_store_run] by (simp add: store_find_def)

lemma resume_store_add: "\<exists>e st. store_add resume_store (stage_tag stage) 44 3 = Ok (e, st)"
proof -
  have i: "store_inv resume_store"
    using run_inv [OF resume_store_run] by simp
  have u: "used resume_store = 24" "max_size resume_store = 128" "st_base resume_store = 0x101000"
    by (simp_all add: used_def max_size_def resume_store_def sample_store_def store_header_def store_read_def HEADER_SIZE_def
        byte_simps lh_at_as_bytes)
  show ?thesis
    unfolding store_add_Ok_iff(1) [OF i refl] u
    by (cases stage) (simp_all add: VOID_def STAGE_CACHE_POSTCAR_def STAGE_CACHE_RAMSTAGE_def Store.place_def next_multiple_of_def)
qed

lemma sample_cold:
  assumes "stored_input sample_descriptor = Ok input"
  obtains m' st' tr where "load_stage sample_hash (2 ^ 64 - 1) sample_media CachedMainstage sample_descriptor sample_policy
      resume_store False Lz4Codec sample_measurement sample_flash = (Ok 0x100008, m', st', tr)"
    "(cached_all (2 ^ 64 - 1) m' st' [CachedMainstage] :: (resume_error, bool) result) = Ok True"
    "peek m' 0x101000 128 = st_mem st'" "length (st_mem st') = 128"
proof -
  define m1 where "m1 = poke sample_flash 0x100000 (sample_loaded @ sample_block)"
  note l = sample_loads [folded m1_def]
  have i: "unat (mw_size input) = 12" "unat (bd_stored_size sample_descriptor) = 12"
    using assms by (auto simp: stored_input_def sample_descriptor_def)
  obtain e st1 where a: "store_add resume_store (stage_tag CachedMainstage) (32 + unat (bd_stored_size sample_descriptor)) 3 = Ok (e, st1)"
    using resume_store_add [of CachedMainstage] i(2) by auto
  have inv: "store_inv resume_store" "length (st_mem resume_store) = 128" "st_base resume_store = 0x101000"
    using run_inv [OF resume_store_run] by (simp_all add: resume_store_def sample_store_def)
  let ?stored = "sub (peek sample_flash 0xff000000 0x1000) (unat (bd_offset sample_descriptor)) (unat (bd_stored_size sample_descriptor))"
  obtain st' where c: "cache_stage (2 ^ 64 - 1) CachedMainstage sample_descriptor input resume_store m1 =
        (Ok () :: (resume_error, unit) result, poke m1 (st_base resume_store) (st_mem st'), st')"
      and e: "store_inv st'" "store_find st' (stage_tag CachedMainstage) = Some e"
        "en_size e = 32 + unat (bd_stored_size sample_descriptor)"
        "entry_bytes st' e = ch_as_bytes (slot_header CachedMainstage sample_descriptor) @ ?stored"
        "st_base st' = st_base resume_store" "length (st_mem st') = length (st_mem resume_store)"
        "en_offset e + en_size e \<le> length (st_mem st')"
  proof (rule cache_stage_copies [OF inv(1) resume_store_find _ load_keeps_stored [OF sample_media_view l assms, unfolded i(1) i(2) [symmetric]] _ a,
        where um = "2 ^ 64 - 1"])
    show "unat (mw_size input) = unat (bd_stored_size sample_descriptor)" "32 + unat (bd_stored_size sample_descriptor) \<le> 2 ^ 64 - 1"
      using i by simp_all
  qed
  let ?m = "poke m1 (st_base resume_store) (st_mem st')"
  have p: "peek ?m (st_base st') (length (st_mem st')) = st_mem st'"
    unfolding e(5) by (rule peek_poke_same)
  have "cached_all (2 ^ 64 - 1) ?m st' [CachedMainstage] = (Ok True :: (resume_error, bool) result)"
    using e(3) i(2) e(4) peek_entry [OF p e(7)]
    by (intro slot_complete [OF e(2)]) (auto simp: sample_descriptor_def)
  moreover have "load_stage sample_hash (2 ^ 64 - 1) sample_media CachedMainstage sample_descriptor sample_policy
      resume_store False Lz4Codec sample_measurement sample_flash =
      (Ok 0x100008, ?m, st', [(mm_event sample_measurement, sample_block)])"
    using l c assms i(1) by (simp add: load_stage_def)
  ultimately show thesis
    using that p e(5,6) inv(2,3) by simp
qed

lemma sample_resumes:
  obtains m st m3 where "load_stage sample_hash (2 ^ 64 - 1) flash CachedMainstage sample_descriptor sample_policy st True
      Lz4Codec sample_measurement m = (Ok 0x100008, m3, st, [])"
proof -
  obtain input where "stored_input sample_descriptor = Ok input"
    by (simp add: stored_input_def sample_descriptor_def checked_add_def)
  then obtain m' st' tr where c: "load_stage sample_hash (2 ^ 64 - 1) sample_media CachedMainstage sample_descriptor sample_policy
      resume_store False Lz4Codec sample_measurement sample_flash = (Ok 0x100008, m', st', tr)"
      "(cached_all (2 ^ 64 - 1) m' st' [CachedMainstage] :: (resume_error, bool) result) = Ok True"
      "peek m' 0x101000 128 = st_mem st'"
    using sample_cold by metis
  have w: "\<lparr>mw_start = 0x101000, mw_size = 0x1000\<rparr> \<in> set (mp_reserved sample_policy)"
      "st_base resume_store = 0x101000" "length (st_mem resume_store) = 128"
    by (simp_all add: sample_policy_def resume_store_def sample_store_def)
  show thesis
    using resume_restores [OF sample_media_view resume_store_run resume_store_find w(1) _ _ c(1,2) refl, of m' flash sample_measurement]
      c w(2,3) that by auto
qed

text \<open>
  C9: a resume trusts nothing it finds in memory. Whatever the store and memory hold, it ends without a panic, leaves
  the store alone, measures nothing and changes only bytes of the image's footprint that are writable and not
  reserved. It hands out an entry point only when memory then holds, at the load address, contents with the loaded
  digest of the authenticated descriptor, unpacked from stored bytes with the stored digest; every other outcome is
  \<open>NotCached\<close>.
\<close>

theorem resume_authentic:
  assumes "load_stage sha um media stage d p st True c mm m = (r, m', st', tr)"
    and "img = peek m' (unat (bd_load_addr d)) (unat (bd_loaded_size d))"
  shows "st' = st \<and> tr = [] \<and>
    (\<forall>a. m' a \<noteq> m a \<longrightarrow> unat (bd_load_addr d) \<le> a \<and> a < unat (bd_load_addr d) + footprint d \<and>
       (\<exists>w \<in> set (mp_writable p). unat (mw_start w) \<le> a \<and> a < unat (mw_start w) + unat (mw_size w)) \<and>
       (\<forall>w \<in> set (mp_reserved p). \<not> (unat (mw_start w) \<le> a \<and> a < unat (mw_start w) + unat (mw_size w)))) \<and>
    (case r of
       Ok entry \<Rightarrow> \<exists>e stored. store_find st (stage_tag stage) = Some e \<and>
         stored = peek m (address st e + 32) (unat (bd_stored_size d)) \<and> 32 + unat (bd_stored_size d) \<le> en_size e \<and>
         sha stored = bd_stored_digest d \<and> sha img = bd_loaded_digest d \<and>
         (case bd_compression d of
            CompNone \<Rightarrow> img = stored
          | CompLz4 \<Rightarrow> \<exists>qs nib fin. stored = lz4_block qs nib fin \<and> expand [] qs fin = Some img) \<and>
         unat entry = unat (bd_load_addr d) + unat (bd_entry_offset d) \<and> unat (bd_entry_offset d) < length img
     | Err x \<Rightarrow> x = NotCached
     | Panic \<Rightarrow> False)"
proof (cases "store_find st (stage_tag stage)")
  case None
  then show ?thesis
    using assms(1) by (auto simp: load_stage_def resume_stage_def)
next
  case (Some e)
  obtain q where q: "load_from_slot sha um (entry_media um m st e) stage d p c m = (q :: (resume_error, u64 option) result, m', tr)"
      and r: "r = rbind q (\<lambda>verified. ok_or verified NotCached)" and st: "st' = st"
    using assms(1) Some by (auto simp: load_stage_def resume_stage_def split: prod.splits)
  from q [unfolded entry_media_def] show ?thesis
  proof (cases rule: load_from_slot_cases)
    case refused
    then show ?thesis
      using r st by simp
  next
    case (loaded body k)
    let ?stored = "peek m (address st e + 32) (unat (bd_stored_size d))"
    have f: "footprint (d\<lparr>bd_offset := 0\<rparr>) = footprint d"
      by (simp add: footprint_def)
    have s: "?stored = sub ?stored (unat (bd_offset (d\<lparr>bd_offset := 0\<rparr>))) (unat (bd_stored_size (d\<lparr>bd_offset := 0\<rparr>)))"
        "img = peek m' (unat (bd_load_addr (d\<lparr>bd_offset := 0\<rparr>))) (unat (bd_loaded_size (d\<lparr>bd_offset := 0\<rparr>)))"
      using assms(2) by (simp_all add: sub_whole)
    note lc = load_contained [OF loaded(1,2,4) s(1)]
    show ?thesis
    proof (cases k)
      case (Ok entry)
      have rr: "r = Ok entry"
        using Ok r loaded(5) by simp
      show ?thesis
        using load_verified [OF loaded(1) loaded(4) [unfolded Ok] s] lc loaded(3)
        by (simp add: f st Some rr)
    qed (use lc r st loaded(5) f in \<open>auto\<close>)
  qed
qed

theorem resume_authentic_witness:
  "\<exists>m st m3. load_stage sample_hash (2 ^ 64 - 1) sample_media CachedMainstage sample_descriptor sample_policy st True
      Lz4Codec sample_measurement m = (Ok 0x100008, m3, st, []) \<and> sample_hash (peek m3 0x100000 16) = zfill 32 [16]"
proof -
  obtain m st m3 where l: "load_stage sample_hash (2 ^ 64 - 1) sample_media CachedMainstage sample_descriptor sample_policy st True
      Lz4Codec sample_measurement m = (Ok 0x100008, m3, st, [])"
    using sample_resumes by metis
  have "sample_hash (peek m3 0x100000 16) = zfill 32 [16]"
    using resume_authentic [OF l refl] by (auto simp: sample_descriptor_def)
  then show ?thesis
    using l by blast
qed

text \<open>
  C8: S3 resume is transparent. Take any store the program can make, inside a window the policy reserves, in which the stage
  is not cached yet. When a cold boot has loaded the stage and \<open>cached\<close> then lets the platform advertise S3, a resume
  that finds the store's bytes in memory again reopens that store and, whatever the flash holds by now and whatever the rest of memory
  holds, loads the stage again: it returns the same entry point, memory holds the same image, and nothing is measured.
\<close>

theorem resume_restores_stage:
  assumes "boot_media_view media content" and "run st es" and "store_find st (stage_tag stage) = None"
    and "w \<in> set (mp_reserved p)" "unat (mw_start w) \<le> st_base st"
      "st_base st + length (st_mem st) \<le> unat (mw_start w) + unat (mw_size w)"
    and "load_stage sha um media stage d p st False c mm m = (Ok entry, m', st', tr)"
    and "cached_all um m' st' [stage] = Ok True"
    and "n = length (st_mem st)" "peek m2 (st_base st) n = st_mem st'"
  shows "store_open (st_base st) (peek m2 (st_base st) n) n = Ok st' \<and>
    (\<exists>m3. load_stage sha um flash stage d p st' True c mm2 m2 = (Ok entry, m3, st', []) \<and>
      peek m3 (unat (bd_load_addr d)) (unat (bd_loaded_size d)) = peek m' (unat (bd_load_addr d)) (unat (bd_loaded_size d)))"
  using assms by (rule resume_restores)

theorem resume_restores_stage_witness:
  "\<exists>m' st' tr m3. load_stage sample_hash (2 ^ 64 - 1) sample_media CachedMainstage sample_descriptor sample_policy
      resume_store False Lz4Codec sample_measurement sample_flash = (Ok 0x100008, m', st', tr) \<and>
    load_stage sample_hash (2 ^ 64 - 1) (memory_mapped (2 ^ 64 - 1) (\<lambda>_. 0) (LinearMap 0xff000000) 0x1000) CachedMainstage
      sample_descriptor sample_policy st' True Lz4Codec sample_measurement m' = (Ok 0x100008, m3, st', [])"
proof -
  obtain input where "stored_input sample_descriptor = Ok input"
    by (simp add: stored_input_def sample_descriptor_def checked_add_def)
  then obtain m' st' tr where c: "load_stage sample_hash (2 ^ 64 - 1) sample_media CachedMainstage sample_descriptor sample_policy
      resume_store False Lz4Codec sample_measurement sample_flash = (Ok 0x100008, m', st', tr)"
      "(cached_all (2 ^ 64 - 1) m' st' [CachedMainstage] :: (resume_error, bool) result) = Ok True"
      "peek m' 0x101000 128 = st_mem st'"
    using sample_cold by metis
  have w: "\<lparr>mw_start = 0x101000, mw_size = 0x1000\<rparr> \<in> set (mp_reserved sample_policy)"
      "st_base resume_store = 0x101000" "length (st_mem resume_store) = 128"
    by (simp_all add: sample_policy_def resume_store_def sample_store_def)
  show ?thesis
    using resume_restores_stage [OF sample_media_view resume_store_run resume_store_find w(1) _ _ c(1,2) refl, of m'
        "memory_mapped (2 ^ 64 - 1) (\<lambda>_. 0) (LinearMap 0xff000000) 0x1000" sample_measurement] c w(2,3)
    by auto
qed

end
