(* ===== verification/Fdt.thy ===== *)
theory Fdt
  imports Memory
begin

text \<open>
  Device trees patched in place (\<^verbatim>\<open>crates/fdt/src/lib.rs\<close>). A blob is memory seen from the pointer \<open>dtb\<close>, so that address 0
  is its first byte. A function that patches it returns its outcome with the memory it leaves behind; a loop that
  reads on until it meets a token or a zero byte may never end, and is then \<open>None\<close>. Offsets and
  depths are natural numbers: sums of a few 32-bit header fields stay below the largest offset of a 64-bit target.
\<close>

section \<open>Constants\<close>

definition FDT_MAGIC :: u32 where "FDT_MAGIC = 0xD00DFEED"
definition FDT_BEGIN_NODE :: u32 where "FDT_BEGIN_NODE = 1"
definition FDT_END_NODE :: u32 where "FDT_END_NODE = 2"
definition FDT_PROP :: u32 where "FDT_PROP = 3"
definition FDT_NOP :: u32 where "FDT_NOP = 4"
definition FDT_END :: u32 where "FDT_END = 9"

definition HDR_TOTALSIZE :: nat where "HDR_TOTALSIZE = 4"
definition HDR_OFF_DT_STRUCT :: nat where "HDR_OFF_DT_STRUCT = 8"
definition HDR_OFF_DT_STRINGS :: nat where "HDR_OFF_DT_STRINGS = 12"
definition HDR_SIZE_DT_STRINGS :: nat where "HDR_SIZE_DT_STRINGS = 32"
definition HDR_SIZE_DT_STRUCT :: nat where "HDR_SIZE_DT_STRUCT = 36"

datatype fdt_error = BadMagic | BufferTooSmall | ChosenNotFound | UnsupportedCellSize | StructureCorrupt

section \<open>Helpers\<close>

definition read_be32 :: "memory \<Rightarrow> nat \<Rightarrow> u32" where
  "read_be32 m off = from_be_bytes (peek m off 4)"

definition write_be32 :: "memory \<Rightarrow> nat \<Rightarrow> u32 \<Rightarrow> memory" where
  "write_be32 m off v = poke m off (to_be_bytes v)"

definition align4 :: "nat \<Rightarrow> nat" where
  "align4 off = (off + 3) div 4 * 4"

partial_function (option) skip_node_name :: "memory \<Rightarrow> nat \<Rightarrow> nat option" where
  "skip_node_name m i = (if m i \<noteq> 0 then skip_node_name m (i + 1) else Some (i + 1))"

definition bytes_eq :: "memory \<Rightarrow> nat \<Rightarrow> bytes \<Rightarrow> bool" where
  "bytes_eq m off needle = list_all (\<lambda>(i, b). m (off + i) = b) (enumerate 0 needle)"

function skip_string :: "memory \<Rightarrow> nat \<Rightarrow> nat \<Rightarrow> nat \<Rightarrow> nat" where
  "skip_string m str_start str_size i =
     (if i < str_size \<and> m (str_start + i) \<noteq> 0 then skip_string m str_start str_size (i + 1) else i)"
  by pat_completeness auto
termination
  by (relation "measure (\<lambda>(m, str_start, str_size, i). str_size - i)") auto

declare skip_string.simps [simp del]

lemma skip_string_le: "i \<le> skip_string m str_start str_size i"
proof (induction m str_start str_size i rule: skip_string.induct)
  case (1 m str_start str_size i)
  then show ?case
    by (subst skip_string.simps) auto
qed

function find_strings_from :: "memory \<Rightarrow> nat \<Rightarrow> nat \<Rightarrow> bytes \<Rightarrow> nat \<Rightarrow> nat option" where
  "find_strings_from m str_start str_size needle i =
     (if i + length needle < str_size
      then if bytes_eq m (str_start + i) needle \<and> m (str_start + i + length needle) = 0 then Some i
           else find_strings_from m str_start str_size needle (skip_string m str_start str_size i + 1)
      else None)"
  by pat_completeness auto
termination
proof (relation "measure (\<lambda>(m, str_start, str_size, needle, i). str_size - i)", goal_cases)
  case (2 m str_start str_size needle i)
  then show ?case
    using skip_string_le [of i m str_start str_size] by simp
qed simp

declare find_strings_from.simps [simp del]

definition find_in_strings :: "memory \<Rightarrow> nat \<Rightarrow> nat \<Rightarrow> bytes \<Rightarrow> nat option" where
  "find_in_strings m str_start str_size needle = find_strings_from m str_start str_size needle 0"

text \<open>A string literal of the source, and one with its NUL.\<close>

definition chars :: "string \<Rightarrow> bytes" where
  "chars s = map (\<lambda>c. of_char c) s"

definition cstr :: "string \<Rightarrow> bytes" where
  "cstr s = chars s @ [0]"

section \<open>Setting the boot arguments\<close>

record fdt_header =
  fh_totalsize :: nat
  fh_off_struct :: nat
  fh_off_strings :: nat
  fh_size_strings :: nat
  fh_size_struct :: nat

definition read_header :: "memory \<Rightarrow> fdt_header" where
  "read_header m =
     \<lparr>fh_totalsize = unat (read_be32 m HDR_TOTALSIZE), fh_off_struct = unat (read_be32 m HDR_OFF_DT_STRUCT),
      fh_off_strings = unat (read_be32 m HDR_OFF_DT_STRINGS), fh_size_strings = unat (read_be32 m HDR_SIZE_DT_STRINGS),
      fh_size_struct = unat (read_be32 m HDR_SIZE_DT_STRUCT)\<rparr>"

text \<open>The header fields that an insertion changes, each truncated to 32 bits.\<close>

definition write_header_fields :: "memory \<Rightarrow> nat \<Rightarrow> nat \<Rightarrow> nat \<Rightarrow> nat \<Rightarrow> memory" where
  "write_header_fields m totalsize size_struct off_strings size_strings =
     write_be32 (write_be32 (write_be32 (write_be32 m HDR_TOTALSIZE (word_of_nat totalsize))
       HDR_SIZE_DT_STRUCT (word_of_nat size_struct)) HDR_OFF_DT_STRINGS (word_of_nat off_strings))
       HDR_SIZE_DT_STRINGS (word_of_nat size_strings)"

text \<open>\<open>ptr::copy\<close> of the tail from \<open>at\<close> to \<open>count\<close> bytes further up; the length of the tail is an unchecked subtraction.\<close>

definition shift_tail :: "memory \<Rightarrow> nat \<Rightarrow> nat \<Rightarrow> nat \<Rightarrow> (fdt_error, memory) result" where
  "shift_tail m at count totalsize =
     (if totalsize < at then Panic else Ok (poke m (at + count) (peek m at (totalsize - at))))"

partial_function (option) find_chosen ::
  "memory \<Rightarrow> nat \<Rightarrow> nat \<Rightarrow> nat \<Rightarrow> nat option \<Rightarrow> (fdt_error, nat option) result option" where
  "find_chosen m struct_end off depth chosen =
     (if off < struct_end
      then let token = read_be32 m off in
        if token = FDT_BEGIN_NODE then
          Option.bind (skip_node_name m (off + 4)) (\<lambda>name_end.
            find_chosen m struct_end (align4 name_end) (depth + 1)
              (if depth + 1 = 2 \<and> name_end - 1 - (off + 4) = 6 \<and> bytes_eq m (off + 4) (chars ''chosen'')
               then Some off else chosen))
        else if token = FDT_END_NODE then find_chosen m struct_end (off + 4) (depth - 1) chosen
        else if token = FDT_PROP then
          find_chosen m struct_end (align4 (off + 12 + unat (read_be32 m (off + 4)))) depth chosen
        else if token = FDT_NOP then find_chosen m struct_end (off + 4) depth chosen
        else if token = FDT_END then Some (Ok chosen)
        else Some (Err StructureCorrupt)
      else Some (Ok chosen))"

partial_function (option) scan_chosen ::
  "memory \<Rightarrow> nat \<Rightarrow> nat \<Rightarrow> nat \<Rightarrow> (nat \<times> nat) option \<Rightarrow> nat \<Rightarrow>
     (fdt_error, (nat \<times> nat) option \<times> nat) result option" where
  "scan_chosen m off_strings off inner_depth existing insert_off =
     (let token = read_be32 m off in
      if token = FDT_PROP \<and> inner_depth = 0 then
        let prop_len = unat (read_be32 m (off + 4));
            name_abs = off_strings + unat (read_be32 m (off + 8));
            next = align4 (off + 12 + prop_len)
        in scan_chosen m off_strings next inner_depth
             (if bytes_eq m name_abs (cstr ''bootargs'') then Some (off, prop_len) else existing) next
      else if token = FDT_PROP then
        scan_chosen m off_strings (align4 (off + 12 + unat (read_be32 m (off + 4)))) inner_depth existing insert_off
      else if token = FDT_BEGIN_NODE then
        Option.bind (skip_node_name m (off + 4)) (\<lambda>name_end.
          scan_chosen m off_strings (align4 name_end) (inner_depth + 1) existing insert_off)
      else if token = FDT_END_NODE then
        if inner_depth = 0 then Some (Ok (existing, insert_off))
        else scan_chosen m off_strings (off + 4) (inner_depth - 1) existing insert_off
      else if token = FDT_NOP then scan_chosen m off_strings (off + 4) inner_depth existing insert_off
      else Some (Err StructureCorrupt))"

definition overwrite_bootargs :: "memory \<Rightarrow> nat \<Rightarrow> nat \<Rightarrow> bytes \<Rightarrow> memory" where
  "overwrite_bootargs m prop_off old_len bootargs =
     (let new_value_len = length bootargs + 1;
          m = write_be32 m (prop_off + 4) (word_of_nat new_value_len);
          val_start = prop_off + 12;
          m = poke (poke m val_start bootargs) (val_start + length bootargs) [0]
      in poke m (val_start + new_value_len) (replicate (old_len - new_value_len) 0))"

primrec nop_out :: "memory \<Rightarrow> nat \<Rightarrow> nat \<Rightarrow> memory" where
  "nop_out m prop_off 0 = m"
| "nop_out m prop_off (Suc n) = write_be32 (nop_out m prop_off n) (prop_off + n * 4) FDT_NOP"

definition insert_bootargs :: "memory \<Rightarrow> fdt_header \<Rightarrow> nat \<Rightarrow> nat \<Rightarrow> bytes \<Rightarrow> (fdt_error, nat) result \<times> memory" where
  "insert_bootargs m h max_size insert_off bootargs =
     (let new_value_len = length bootargs + 1;
          (nameoff, string_add_len) =
            (case find_in_strings m (fh_off_strings h) (fh_size_strings h) (chars ''bootargs'') of
               Some n \<Rightarrow> (n, 0)
             | None \<Rightarrow> (fh_size_strings h, 9));
          new_prop_total = align4 (12 + new_value_len);
          new_totalsize = fh_totalsize h + new_prop_total + string_add_len
      in
      if new_totalsize > max_size then (Err BufferTooSmall, m)
      else case shift_tail m insert_off new_prop_total (fh_totalsize h) of
        Panic \<Rightarrow> (Panic, m)
      | Err e \<Rightarrow> (Err e, m)
      | Ok m \<Rightarrow>
          let m = write_be32 m insert_off FDT_PROP;
              m = write_be32 m (insert_off + 4) (word_of_nat new_value_len);
              m = write_be32 m (insert_off + 8) (word_of_nat nameoff);
              m = poke m (insert_off + 12) bootargs;
              m = poke m (insert_off + 12 + length bootargs) [0];
              m = poke m (insert_off + 12 + new_value_len) (replicate (new_prop_total - (12 + new_value_len)) 0);
              m = (if string_add_len > 0
                   then poke m (fh_off_strings h + new_prop_total + fh_size_strings h) (cstr ''bootargs'') else m);
              m = write_header_fields m new_totalsize (fh_size_struct h + new_prop_total)
                    (fh_off_strings h + new_prop_total) (fh_size_strings h + string_add_len)
          in (Ok new_totalsize, m))"

definition fdt_set_bootargs :: "memory \<Rightarrow> nat \<Rightarrow> bytes \<Rightarrow> ((fdt_error, nat) result \<times> memory) option" where
  "fdt_set_bootargs m max_size bootargs =
     (if read_be32 m 0 \<noteq> FDT_MAGIC then Some (Err BadMagic, m)
      else let h = read_header m in
        Option.bind (find_chosen m (fh_off_struct h + fh_size_struct h) (fh_off_struct h) 0 None) (\<lambda>r.
          case rbind r (\<lambda>c. ok_or c ChosenNotFound) of
            Panic \<Rightarrow> Some (Panic, m)
          | Err e \<Rightarrow> Some (Err e, m)
          | Ok chosen_start \<Rightarrow>
              Option.bind (skip_node_name m (chosen_start + 4)) (\<lambda>name_end.
                let off = align4 name_end in
                Option.bind (scan_chosen m (fh_off_strings h) off 0 None off) (\<lambda>r.
                  case r of
                    Panic \<Rightarrow> Some (Panic, m)
                  | Err e \<Rightarrow> Some (Err e, m)
                  | Ok (existing, insert_off) \<Rightarrow>
                      (case existing of
                         None \<Rightarrow> Some (insert_bootargs m h max_size insert_off bootargs)
                       | Some (prop_off, old_len) \<Rightarrow>
                           if length bootargs + 1 \<le> old_len
                           then Some (Ok (fh_totalsize h), overwrite_bootargs m prop_off old_len bootargs)
                           else Some (insert_bootargs (nop_out m prop_off (align4 (12 + old_len) div 4)) h max_size
                                  insert_off bootargs))))))"

section \<open>Setting the memory node\<close>

definition cells_bytes :: "u64 \<Rightarrow> u32 \<Rightarrow> bytes" where
  "cells_bytes v cells =
     (if cells = 2 then to_be_bytes (ucast (drop_bit 32 v) :: u32) @ to_be_bytes (ucast v :: u32)
      else to_be_bytes (ucast v :: u32))"

definition write_cells :: "memory \<Rightarrow> nat \<Rightarrow> u64 \<Rightarrow> u32 \<Rightarrow> memory \<times> nat" where
  "write_cells m off v cells =
     (if cells = 2
      then (write_be32 (write_be32 m off (ucast (drop_bit 32 v))) (off + 4) (ucast v), 8)
      else (write_be32 m off (ucast v), 4))"

text \<open>\<open>digits\<close>, \<^verbatim>\<open>(64 - val.leading_zeros() + 3) / 4\<close>: a value takes one digit more than its sixteenth.\<close>

fun hex_digits :: "nat \<Rightarrow> nat" where
  "hex_digits v = (if v < 16 then 1 else hex_digits (v div 16) + 1)"

declare hex_digits.simps [simp del]

definition hex_digit :: "nat \<Rightarrow> u8" where
  "hex_digit nibble = (if nibble < 10 then word_of_nat (48 + nibble) else word_of_nat (97 + nibble - 10))"

definition hex_bytes :: "u64 \<Rightarrow> bytes" where
  "hex_bytes v =
     (if v = 0 then [48]
      else let digits = hex_digits (unat v) in
        map (\<lambda>i. hex_digit (unat (drop_bit ((digits - 1 - i) * 4) v) mod 16)) [0..<digits])"

record memory_walk =
  wk_addr_cells :: u32
  wk_size_cells :: u32
  wk_memory :: "nat option"
  wk_root_end :: "nat option"

definition is_memory_name :: "memory \<Rightarrow> nat \<Rightarrow> nat \<Rightarrow> bool" where
  "is_memory_name m name_off name_len =
     (if name_len = 6 then bytes_eq m name_off (chars ''memory'')
      else if name_len > 7 then bytes_eq m name_off (chars ''memory@'')
      else False)"

definition root_cells :: "memory \<Rightarrow> nat \<Rightarrow> nat \<Rightarrow> memory_walk \<Rightarrow> memory_walk" where
  "root_cells m off_strings off w =
     (let name_abs = off_strings + unat (read_be32 m (off + 8)) in
      if bytes_eq m name_abs (cstr ''#address-cells'') then w\<lparr>wk_addr_cells := read_be32 m (off + 12)\<rparr>
      else if bytes_eq m name_abs (cstr ''#size-cells'') then w\<lparr>wk_size_cells := read_be32 m (off + 12)\<rparr>
      else w)"

partial_function (option) walk_memory ::
  "memory \<Rightarrow> nat \<Rightarrow> nat \<Rightarrow> nat \<Rightarrow> nat \<Rightarrow> memory_walk \<Rightarrow> (fdt_error, memory_walk) result option" where
  "walk_memory m off_strings struct_end off depth w =
     (if off < struct_end
      then let token = read_be32 m off in
        if token = FDT_BEGIN_NODE then
          Option.bind (skip_node_name m (off + 4)) (\<lambda>name_end.
            walk_memory m off_strings struct_end (align4 name_end) (depth + 1)
              (if depth + 1 = 2 \<and> is_memory_name m (off + 4) (name_end - 1 - (off + 4)) \<and> wk_memory w = None
               then w\<lparr>wk_memory := Some off\<rparr> else w))
        else if token = FDT_END_NODE then
          walk_memory m off_strings struct_end (off + 4) (depth - 1) (if depth = 1 then w\<lparr>wk_root_end := Some off\<rparr> else w)
        else if token = FDT_PROP then
          let prop_len = unat (read_be32 m (off + 4)) in
          walk_memory m off_strings struct_end (align4 (off + 12 + prop_len)) depth
            (if depth = 1 \<and> prop_len = 4 then root_cells m off_strings off w else w)
        else if token = FDT_NOP then walk_memory m off_strings struct_end (off + 4) depth w
        else if token = FDT_END then Some (Ok w)
        else Some (Err StructureCorrupt)
      else Some (Ok w))"

text \<open>The bytes of a property as the code builds them, padding included.\<close>

definition prop_bytes :: "nat \<Rightarrow> bytes \<Rightarrow> bytes" where
  "prop_bytes nameoff v =
     to_be_bytes FDT_PROP @ to_be_bytes (word_of_nat (length v) :: u32) @ to_be_bytes (word_of_nat nameoff :: u32) @ v @
     replicate (align4 (length v) - length v) 0"

text \<open>The strings \<open>device_type\<close> and \<open>reg\<close>, where they are or where they will be appended.\<close>

definition string_offsets :: "nat \<Rightarrow> nat option \<Rightarrow> nat option \<Rightarrow> nat \<times> nat \<times> nat" where
  "string_offsets size_strings dt reg =
     (let (dt_off, add) = (case dt of Some n \<Rightarrow> (n, 0) | None \<Rightarrow> (size_strings, 12)) in
      case reg of Some n \<Rightarrow> (dt_off, n, add) | None \<Rightarrow> (dt_off, size_strings + add, add + 4))"

definition append_names :: "memory \<Rightarrow> nat \<Rightarrow> bool \<Rightarrow> bool \<Rightarrow> memory" where
  "append_names m str_dest dt reg =
     (let m' = (if dt then poke m str_dest (cstr ''device_type'') else m);
          str_dest = (if dt then str_dest + 12 else str_dest)
      in if reg then poke m' str_dest (cstr ''reg'') else m')"

definition memory_node :: "u64 \<Rightarrow> u64 \<Rightarrow> u32 \<Rightarrow> u32 \<Rightarrow> nat \<Rightarrow> nat \<Rightarrow> bytes" where
  "memory_node base sz addr_cells size_cells dt_nameoff reg_nameoff =
     (let name = chars ''memory@'' @ hex_bytes base @ [0];
          value = cells_bytes base addr_cells @ cells_bytes sz size_cells
      in to_be_bytes FDT_BEGIN_NODE @ name @ replicate (align4 (length name) - length name) 0 @
         prop_bytes dt_nameoff (cstr ''memory'') @ prop_bytes reg_nameoff value @ to_be_bytes FDT_END_NODE)"

definition create_memory_node ::
  "memory \<Rightarrow> fdt_header \<Rightarrow> nat \<Rightarrow> memory_walk \<Rightarrow> u64 \<Rightarrow> u64 \<Rightarrow> (fdt_error, nat) result \<times> memory" where
  "create_memory_node m h max_size w base sz =
     (let dt = find_in_strings m (fh_off_strings h) (fh_size_strings h) (chars ''device_type'');
          reg = find_in_strings m (fh_off_strings h) (fh_size_strings h) (chars ''reg'');
          (dt_nameoff, reg_nameoff, new_strings_len) = string_offsets (fh_size_strings h) dt reg;
          node = memory_node base sz (wk_addr_cells w) (wk_size_cells w) dt_nameoff reg_nameoff;
          node_total = length node
      in
      case wk_root_end w of
        None \<Rightarrow> (Err StructureCorrupt, m)
      | Some insert_off \<Rightarrow>
          let new_totalsize = fh_totalsize h + node_total + new_strings_len in
          if new_totalsize > max_size then (Err BufferTooSmall, m)
          else case shift_tail m insert_off node_total (fh_totalsize h) of
            Panic \<Rightarrow> (Panic, m)
          | Err e \<Rightarrow> (Err e, m)
          | Ok m \<Rightarrow>
              let m = poke m insert_off node;
                  m = append_names m (fh_off_strings h + node_total + fh_size_strings h) (dt = None) (reg = None)
              in (Ok new_totalsize,
                  write_header_fields m new_totalsize (fh_size_struct h + node_total) (fh_off_strings h + node_total)
                    (fh_size_strings h + new_strings_len)))"

record memory_scan =
  sn_reg :: "(nat \<times> nat) option"
  sn_has_dt :: bool
  sn_insert :: nat

partial_function (option) scan_memory ::
  "memory \<Rightarrow> nat \<Rightarrow> nat \<Rightarrow> nat \<Rightarrow> memory_scan \<Rightarrow> (fdt_error, memory_scan) result option" where
  "scan_memory m off_strings off inner_depth s =
     (let token = read_be32 m off in
      if token = FDT_PROP \<and> inner_depth = 0 then
        let prop_len = unat (read_be32 m (off + 4));
            name_abs = off_strings + unat (read_be32 m (off + 8));
            next = align4 (off + 12 + prop_len);
            s = (if bytes_eq m name_abs (cstr ''reg'') then s\<lparr>sn_reg := Some (off, prop_len)\<rparr>
                 else if bytes_eq m name_abs (cstr ''device_type'') then s\<lparr>sn_has_dt := True\<rparr> else s)
        in scan_memory m off_strings next inner_depth (s\<lparr>sn_insert := next\<rparr>)
      else if token = FDT_PROP then
        scan_memory m off_strings (align4 (off + 12 + unat (read_be32 m (off + 4)))) inner_depth s
      else if token = FDT_BEGIN_NODE then
        Option.bind (skip_node_name m (off + 4)) (\<lambda>name_end.
          scan_memory m off_strings (align4 name_end) (inner_depth + 1) s)
      else if token = FDT_END_NODE then
        if inner_depth = 0 then Some (Ok s)
        else scan_memory m off_strings (off + 4) (inner_depth - 1) s
      else if token = FDT_NOP then scan_memory m off_strings (off + 4) inner_depth s
      else Some (Err StructureCorrupt))"

text \<open>Overwrites a \<open>reg\<close> of the right size or replaces it by NOPs.\<close>

definition place_reg :: "memory \<Rightarrow> nat \<Rightarrow> nat \<Rightarrow> u64 \<Rightarrow> u64 \<Rightarrow> u32 \<Rightarrow> u32 \<Rightarrow> nat \<Rightarrow> memory" where
  "place_reg m prop_off old_len base sz addr_cells size_cells reg_value_len =
     (if reg_value_len = old_len
      then let m = write_be32 m (prop_off + 4) (word_of_nat reg_value_len);
               val_start = prop_off + 12
           in (case write_cells m val_start base addr_cells of (m, n) \<Rightarrow> fst (write_cells m (val_start + n) sz size_cells))
      else nop_out m prop_off (align4 (12 + old_len) div 4))"

definition set_reg_in_existing_memory_node ::
  "memory \<Rightarrow> fdt_header \<Rightarrow> nat \<Rightarrow> nat \<Rightarrow> u64 \<Rightarrow> u64 \<Rightarrow> u32 \<Rightarrow> u32 \<Rightarrow> nat \<Rightarrow> nat \<Rightarrow> nat \<Rightarrow> nat \<Rightarrow>
     ((fdt_error, nat) result \<times> memory) option" where
  "set_reg_in_existing_memory_node m h max_size mem_node_start base sz addr_cells size_cells reg_value_len
       reg_nameoff dt_nameoff new_strings_len =
     Option.bind (skip_node_name m (mem_node_start + 4)) (\<lambda>name_end.
       let off = align4 name_end in
       Option.bind (scan_memory m (fh_off_strings h) off 0 \<lparr>sn_reg = None, sn_has_dt = False, sn_insert = off\<rparr>) (\<lambda>r.
         case r of
           Panic \<Rightarrow> Some (Panic, m)
         | Err e \<Rightarrow> Some (Err e, m)
         | Ok s \<Rightarrow>
             let m1 = (case sn_reg s of
                         None \<Rightarrow> m
                       | Some (prop_off, old_len) \<Rightarrow> place_reg m prop_off old_len base sz addr_cells size_cells reg_value_len);
                 need_reg = (case sn_reg s of None \<Rightarrow> True | Some (_, old_len) \<Rightarrow> reg_value_len \<noteq> old_len);
                 need_dt = (\<not> sn_has_dt s);
                 props = (if need_dt then prop_bytes dt_nameoff (cstr ''memory'') else []) @
                   (if need_reg then prop_bytes reg_nameoff (cells_bytes base addr_cells @ cells_bytes sz size_cells) else []);
                 props_total = length props
             in
             if props_total = 0 then Some (Ok (fh_totalsize h), m1)
             else let new_totalsize = fh_totalsize h + props_total + new_strings_len in
               if new_totalsize > max_size then Some (Err BufferTooSmall, m1)
               else case shift_tail m1 (sn_insert s) props_total (fh_totalsize h) of
                 Panic \<Rightarrow> Some (Panic, m1)
               | Err e \<Rightarrow> Some (Err e, m1)
               | Ok m2 \<Rightarrow>
                   let m3 = poke m2 (sn_insert s) props;
                       off_strings = fh_off_strings h + props_total;
                       m4 = (if new_strings_len > 0
                             then append_names m3 (off_strings + fh_size_strings h)
                                    (dt_nameoff \<ge> fh_size_strings h) (reg_nameoff \<ge> fh_size_strings h)
                             else m3)
                   in Some (Ok new_totalsize,
                        write_header_fields m4 new_totalsize (fh_size_struct h + props_total) off_strings
                          (fh_size_strings h + new_strings_len))))"

definition fdt_set_memory :: "memory \<Rightarrow> nat \<Rightarrow> u64 \<Rightarrow> u64 \<Rightarrow> ((fdt_error, nat) result \<times> memory) option" where
  "fdt_set_memory m max_size base sz =
     (if read_be32 m 0 \<noteq> FDT_MAGIC then Some (Err BadMagic, m)
      else let h = read_header m in
        Option.bind (walk_memory m (fh_off_strings h) (fh_off_struct h + fh_size_struct h) (fh_off_struct h) 0
            \<lparr>wk_addr_cells = 1, wk_size_cells = 1, wk_memory = None, wk_root_end = None\<rparr>) (\<lambda>r.
          case r of
            Panic \<Rightarrow> Some (Panic, m)
          | Err e \<Rightarrow> Some (Err e, m)
          | Ok w \<Rightarrow>
              if \<not> (wk_addr_cells w = 1 \<or> wk_addr_cells w = 2) \<or> \<not> (wk_size_cells w = 1 \<or> wk_size_cells w = 2)
              then Some (Err UnsupportedCellSize, m)
              else let reg_value_len = unat (wk_addr_cells w + wk_size_cells w) * 4;
                       dt = find_in_strings m (fh_off_strings h) (fh_size_strings h) (chars ''device_type'');
                       reg = find_in_strings m (fh_off_strings h) (fh_size_strings h) (chars ''reg'');
                       (dt_nameoff, reg_nameoff, new_strings_len) = string_offsets (fh_size_strings h) dt reg
                   in
                   case wk_memory w of
                     Some mem_start \<Rightarrow>
                       set_reg_in_existing_memory_node m h max_size mem_start base sz (wk_addr_cells w) (wk_size_cells w)
                         reg_value_len reg_nameoff dt_nameoff new_strings_len
                   | None \<Rightarrow> Some (create_memory_node m h max_size w base sz)))"

definition blob_from_addr :: "memory \<Rightarrow> nat \<Rightarrow> bytes option" where
  "blob_from_addr m addr =
     (if addr = 0 then None
      else if from_be_bytes (peek m addr 4) \<noteq> FDT_MAGIC then None
      else Some (peek m addr (unat (from_be_bytes (peek m (addr + 4) 4) :: u32))))"

end
