(* ===== verification/Fdt_Tree.thy ===== *)
theory Fdt_Tree
  imports Fdt
begin

text \<open>
  Device trees as data, their encoding in the structure block, and what the loops of the patcher do on an encoded
  tree. The locale \<open>token_walk\<close> states what such a loop does at each token; the four loops are its
  interpretations.
\<close>

section \<open>Trees and their encoding\<close>

datatype item = PropItem nat bytes | NopItem | ChildItem bytes "item list"

definition node_header :: "bytes \<Rightarrow> bytes" where
  "node_header nm = to_be_bytes FDT_BEGIN_NODE @ nm @ [0] @ replicate (align4 (length nm + 1) - (length nm + 1)) 0"

fun flat :: "item \<Rightarrow> bytes" and flats :: "item list \<Rightarrow> bytes" where
  "flat (PropItem n v) = prop_bytes n v"
| "flat NopItem = to_be_bytes FDT_NOP"
| "flat (ChildItem nm items) = node_header nm @ flats items @ to_be_bytes FDT_END_NODE"
| "flats [] = []"
| "flats (i # items) = flat i @ flats items"

text \<open>Names are offsets into the strings block, and a node's name has no NUL.\<close>

fun item_ok :: "nat \<Rightarrow> item \<Rightarrow> bool" and items_ok :: "nat \<Rightarrow> item list \<Rightarrow> bool" where
  "item_ok k (PropItem n v) = (n < k \<and> length v < 2 ^ 32)"
| "item_ok k NopItem = True"
| "item_ok k (ChildItem nm items) = (0 \<notin> set nm \<and> items_ok k items)"
| "items_ok k [] = True"
| "items_ok k (i # items) = (item_ok k i \<and> items_ok k items)"

lemma flats_append [simp]: "flats (xs @ ys) = flats xs @ flats ys"
  by (induction xs) auto

lemma items_ok_append [simp]: "items_ok k (xs @ ys) \<longleftrightarrow> items_ok k xs \<and> items_ok k ys"
  by (induction xs) auto

lemma item_ok_mono: "item_ok k i \<Longrightarrow> k \<le> k' \<Longrightarrow> item_ok k' i" and items_ok_mono: "items_ok k is \<Longrightarrow> k \<le> k' \<Longrightarrow> items_ok k' is"
  by (induction i and "is" rule: flat_flats.induct) auto

lemma align4_ge: "n \<le> align4 n"
  by (simp add: align4_def)

lemma align4_dvd [simp]: "4 dvd align4 n"
  by (simp add: align4_def)

lemma align4_add: "4 dvd a \<Longrightarrow> align4 (a + n) = a + align4 n"
proof -
  assume "4 dvd a"
  then obtain k where k: "a = 4 * k"
    by (rule dvdE)
  have "(4 * k + n + 3) div 4 = k + (n + 3) div 4"
    using div_mult_self2 [of 4 "n + 3" k] by (simp add: ac_simps)
  then show ?thesis
    by (simp add: align4_def k)
qed

lemma align4_same: "4 dvd a \<Longrightarrow> align4 a = a"
  using align4_add [of a 0] by (simp add: align4_def)

lemma length_prop_bytes: "length (prop_bytes n v) = 12 + align4 (length v)"
  using align4_ge [of "length v"] by (simp add: prop_bytes_def)

lemma length_node_header: "length (node_header nm) = 4 + align4 (length nm + 1)"
  using align4_ge [of "length nm + 1"] by (simp add: node_header_def)

lemma flat_dvd: "4 dvd length (flat i)" and flats_dvd: "4 dvd length (flats is)"
  by (induction i and "is" rule: flat_flats.induct) (auto simp: length_prop_bytes length_node_header)

section \<open>Bytes in memory\<close>

definition bytes_at :: "memory \<Rightarrow> nat \<Rightarrow> bytes \<Rightarrow> bool" where
  "bytes_at m off bs \<longleftrightarrow> peek m off (length bs) = bs"

lemma peek_append: "peek m off (a + b) = peek m off a @ peek m (off + a) b"
  using upt_add_eq_append [of off "off + a" b] by (simp add: peek_def add.assoc)

lemma bytes_at_append [simp]: "bytes_at m off (xs @ ys) \<longleftrightarrow> bytes_at m off xs \<and> bytes_at m (off + length xs) ys"
  by (simp add: bytes_at_def peek_append)

lemma bytes_at_Nil [simp]: "bytes_at m off []"
  by (simp add: bytes_at_def peek_def)

lemma bytes_at_Cons: "bytes_at m off (x # xs) \<longleftrightarrow> m off = x \<and> bytes_at m (off + 1) xs"
  using bytes_at_append [of m off "[x]" xs] by (simp add: bytes_at_def peek_def)

lemma bytes_at_nth: "bytes_at m off bs \<Longrightarrow> i < length bs \<Longrightarrow> m (off + i) = bs ! i"
  by (metis bytes_at_def nth_peek)

lemma read_be32_at: "bytes_at m off (to_be_bytes (t :: u32)) \<Longrightarrow> read_be32 m off = t"
  by (simp add: bytes_at_def read_be32_def from_to_be_bytes)

lemma skip_node_name_at: "bytes_at m off (nm @ [0]) \<Longrightarrow> 0 \<notin> set nm \<Longrightarrow> skip_node_name m off = Some (off + length nm + 1)"
proof (induction nm arbitrary: off)
  case Nil
  then show ?case
    by (subst skip_node_name.simps) (simp add: bytes_at_Cons)
next
  case (Cons x nm)
  then show ?case
    by (subst skip_node_name.simps) (auto simp: bytes_at_Cons)
qed

lemma bytes_eq_Nil [simp]: "bytes_eq m off []"
  by (simp add: bytes_eq_def)

lemma bytes_eq_iff: "bytes_eq m off bs \<longleftrightarrow> bytes_at m off bs"
proof -
  have "list_all (\<lambda>(i, b). m (off + i) = b) (enumerate k bs) \<longleftrightarrow> bytes_at m (off + k) bs" for k
  proof (induction bs arbitrary: k)
    case (Cons b bs)
    then show ?case
      using Cons [of "k + 1"] by (simp add: bytes_at_Cons)
  qed simp
  from this [of 0] show ?thesis
    by (simp add: bytes_eq_def)
qed

lemma bytes_at_unique: "bytes_at m off xs \<Longrightarrow> bytes_at m off ys \<Longrightarrow> length xs = length ys \<Longrightarrow> xs = ys"
  by (metis bytes_at_def)

lemma terminated_unique:
  "bytes_at m off (s @ [0]) \<Longrightarrow> 0 \<notin> set s \<Longrightarrow> 0 \<notin> set t \<Longrightarrow> bytes_at m off (t @ [0]) \<longleftrightarrow> s = t"
proof (induction s arbitrary: off t)
  case Nil
  then show ?case
    by (cases t) (auto simp: bytes_at_Cons)
next
  case (Cons x s)
  note IH = Cons.IH [of "off + 1"] and prems = Cons.prems
  show ?case
  proof (cases t)
    case Nil
    then show ?thesis
      using prems by (auto simp: bytes_at_Cons)
  next
    case (Cons y ys)
    then show ?thesis
      using IH [of ys] prems by (auto simp: bytes_at_Cons)
  qed
qed

section \<open>Walking over an encoded tree\<close>

text \<open>The state that a loop reaches behind an item, from what it does at each token.\<close>

fun visit ::
  "(nat \<Rightarrow> nat \<Rightarrow> nat \<Rightarrow> bytes \<Rightarrow> 's \<Rightarrow> 's) \<Rightarrow> (nat \<Rightarrow> nat \<Rightarrow> bytes \<Rightarrow> 's \<Rightarrow> 's) \<Rightarrow> (nat \<Rightarrow> nat \<Rightarrow> 's \<Rightarrow> 's) \<Rightarrow>
     nat \<Rightarrow> nat \<Rightarrow> item \<Rightarrow> 's \<Rightarrow> 's"
and visits ::
  "(nat \<Rightarrow> nat \<Rightarrow> nat \<Rightarrow> bytes \<Rightarrow> 's \<Rightarrow> 's) \<Rightarrow> (nat \<Rightarrow> nat \<Rightarrow> bytes \<Rightarrow> 's \<Rightarrow> 's) \<Rightarrow> (nat \<Rightarrow> nat \<Rightarrow> 's \<Rightarrow> 's) \<Rightarrow>
     nat \<Rightarrow> nat \<Rightarrow> item list \<Rightarrow> 's \<Rightarrow> 's" where
  "visit pr bg en d off (PropItem n v) s = pr d off n v s"
| "visit pr bg en d off NopItem s = s"
| "visit pr bg en d off (ChildItem nm items) s =
     en (d + 1) (off + length (node_header nm) + length (flats items))
       (visits pr bg en (d + 1) (off + length (node_header nm)) items (bg (d + 1) off nm s))"
| "visits pr bg en d off [] s = s"
| "visits pr bg en d off (i # items) s = visits pr bg en d (off + length (flat i)) items (visit pr bg en d off i s)"

lemma visits_append: "visits pr bg en d off (xs @ ys) s =
    visits pr bg en d (off + length (flats xs)) ys (visits pr bg en d off xs s)"
  by (induction xs arbitrary: off s) (simp_all add: add.assoc)

locale token_walk =
  fixes m :: memory and limit :: nat and walk :: "nat \<Rightarrow> nat \<Rightarrow> 's \<Rightarrow> 'r"
    and pr :: "nat \<Rightarrow> nat \<Rightarrow> nat \<Rightarrow> bytes \<Rightarrow> 's \<Rightarrow> 's" and bg :: "nat \<Rightarrow> nat \<Rightarrow> bytes \<Rightarrow> 's \<Rightarrow> 's" and en :: "nat \<Rightarrow> nat \<Rightarrow> 's \<Rightarrow> 's"
  assumes walk_prop: "bytes_at m off (prop_bytes n v) \<Longrightarrow> 4 dvd off \<Longrightarrow> off < limit \<Longrightarrow> n < 2 ^ 32 \<Longrightarrow>
      length v < 2 ^ 32 \<Longrightarrow> walk off d s = walk (off + length (prop_bytes n v)) d (pr d off n v s)"
    and walk_nop: "bytes_at m off (to_be_bytes FDT_NOP) \<Longrightarrow> off < limit \<Longrightarrow> walk off d s = walk (off + 4) d s"
    and walk_begin: "bytes_at m off (node_header nm) \<Longrightarrow> 4 dvd off \<Longrightarrow> off < limit \<Longrightarrow> 0 \<notin> set nm \<Longrightarrow>
      walk off d s = walk (off + length (node_header nm)) (d + 1) (bg (d + 1) off nm s)"
    and walk_end: "bytes_at m off (to_be_bytes FDT_END_NODE) \<Longrightarrow> off < limit \<Longrightarrow> 0 < d \<Longrightarrow>
      walk off d s = walk (off + 4) (d - 1) (en d off s)"
begin

lemma walk_item: "bytes_at m off (flat i) \<Longrightarrow> 4 dvd off \<Longrightarrow> off + length (flat i) \<le> limit \<Longrightarrow> item_ok k i \<Longrightarrow> k \<le> 2 ^ 32 \<Longrightarrow>
    walk off d s = walk (off + length (flat i)) d (visit pr bg en d off i s)"
  and walk_items: "bytes_at m off (flats its) \<Longrightarrow> 4 dvd off \<Longrightarrow> off + length (flats its) \<le> limit \<Longrightarrow> items_ok k its \<Longrightarrow> k \<le> 2 ^ 32 \<Longrightarrow>
    walk off d s = walk (off + length (flats its)) d (visits pr bg en d off its s)"
proof (induction i and its arbitrary: off d s and off d s rule: flat_flats.induct)
  case (1 n v)
  then show ?case
    using walk_prop [of off n v d s] by (simp add: length_prop_bytes)
next
  case 2
  then show ?case
    using walk_nop [of off d s] by simp
next
  case (3 nm items)
  let ?o = "off + length (node_header nm)"
  have l: "off < limit" "?o + length (flats items) < limit" "4 dvd ?o"
    using "3.prems" by (simp_all add: length_node_header)
  have "walk off d s = walk ?o (d + 1) (bg (d + 1) off nm s)"
    using "3.prems" l by (intro walk_begin) simp_all
  also have "\<dots> = walk (?o + length (flats items)) (d + 1) (visits pr bg en (d + 1) ?o items (bg (d + 1) off nm s))"
    using "3.prems" l by (intro "3.IH") simp_all
  also have "\<dots> = walk (?o + length (flats items) + 4) d (visit pr bg en d off (ChildItem nm items) s)"
    using "3.prems" l walk_end [of "?o + length (flats items)" "d + 1"] by (simp add: add.assoc)
  finally show ?case
    by (simp add: add.assoc)
next
  case 4
  then show ?case by simp
next
  case (5 i items)
  let ?s = "visit pr bg en d off i s"
  have "walk off d s = walk (off + length (flat i)) d ?s"
    using "5.prems" by (intro "5.IH"(1)) simp_all
  also have "\<dots> = walk (off + length (flat i) + length (flats items)) d (visits pr bg en d (off + length (flat i)) items ?s)"
    using "5.prems" flat_dvd [of i] by (intro "5.IH"(2)) simp_all
  finally show ?case
    by (simp add: add.assoc)
qed

end

lemma token_consts:
  "FDT_BEGIN_NODE \<noteq> FDT_PROP" "FDT_END_NODE \<noteq> FDT_PROP" "FDT_NOP \<noteq> FDT_PROP" "FDT_PROP \<noteq> FDT_BEGIN_NODE"
  "FDT_END_NODE \<noteq> FDT_BEGIN_NODE" "FDT_NOP \<noteq> FDT_BEGIN_NODE" "FDT_PROP \<noteq> FDT_END_NODE" "FDT_NOP \<noteq> FDT_END_NODE"
  "FDT_BEGIN_NODE \<noteq> FDT_END_NODE" "FDT_END \<noteq> FDT_BEGIN_NODE" "FDT_END \<noteq> FDT_END_NODE" "FDT_END \<noteq> FDT_PROP" "FDT_END \<noteq> FDT_NOP"
  by (simp_all add: FDT_BEGIN_NODE_def FDT_END_NODE_def FDT_PROP_def FDT_NOP_def FDT_END_def)

lemma prop_at:
  assumes "bytes_at m off (prop_bytes n v)" "n < 2 ^ 32" "length v < 2 ^ 32"
  shows "read_be32 m off = FDT_PROP" "unat (read_be32 m (off + 4)) = length v" "unat (read_be32 m (off + 8)) = n"
    "4 dvd off \<Longrightarrow> align4 (off + 12 + length v) = off + length (prop_bytes n v)"
proof -
  have a: "bytes_at m off (to_be_bytes FDT_PROP)" "bytes_at m (off + 4) (to_be_bytes (word_of_nat (length v) :: u32))"
      "bytes_at m (off + 8) (to_be_bytes (word_of_nat n :: u32))"
    using assms(1) by (simp_all add: prop_bytes_def add.assoc)
  show "read_be32 m off = FDT_PROP" "unat (read_be32 m (off + 4)) = length v" "unat (read_be32 m (off + 8)) = n"
    using a [THEN read_be32_at] assms(2,3) by (simp_all add: unat_of_nat)
  show "align4 (off + 12 + length v) = off + length (prop_bytes n v)" if "4 dvd off"
    using align4_add [of "off + 12" "length v"] that by (simp add: length_prop_bytes)
qed

lemma header_at:
  assumes "bytes_at m off (node_header nm)" "0 \<notin> set nm"
  shows "read_be32 m off = FDT_BEGIN_NODE" "skip_node_name m (off + 4) = Some (off + 4 + length nm + 1)"
    "bytes_at m (off + 4) nm" "4 dvd off \<Longrightarrow> align4 (off + 4 + length nm + 1) = off + length (node_header nm)"
proof -
  have a: "bytes_at m off (to_be_bytes FDT_BEGIN_NODE)" "bytes_at m (off + 4) (nm @ [0])"
    using assms(1) by (simp_all add: node_header_def bytes_at_Cons)
  show "read_be32 m off = FDT_BEGIN_NODE" "skip_node_name m (off + 4) = Some (off + 4 + length nm + 1)"
      "bytes_at m (off + 4) nm"
    using read_be32_at [OF a(1)] skip_node_name_at [OF a(2) assms(2)] a(2) by simp_all
  show "align4 (off + 4 + length nm + 1) = off + length (node_header nm)" if "4 dvd off"
    using align4_add [of "off + 4" "length nm + 1"] that by (simp add: length_node_header add.assoc)
qed

lemma length_chars [simp]: "length (chars s) = length s"
  by (simp add: chars_def)

lemma name_is: "bytes_at m off nm \<Longrightarrow> length nm = length bs \<and> bytes_eq m off bs \<longleftrightarrow> nm = bs"
  by (auto simp: bytes_eq_iff dest: bytes_at_unique)

interpretation find_walk: token_walk m struct_end "\<lambda>off d c. find_chosen m struct_end off d c"
  "\<lambda>d off n v c. c" "\<lambda>d off nm c. if d = 2 \<and> nm = chars ''chosen'' then Some off else c" "\<lambda>d off c. c"
proof
  fix off n v d s
  assume a: "bytes_at m off (prop_bytes n v)" "4 dvd off" "off < struct_end" "n < 2 ^ 32" "length v < 2 ^ 32"
  show "find_chosen m struct_end off d s = find_chosen m struct_end (off + length (prop_bytes n v)) d s"
    using a prop_at [OF a(1,4,5)] by (subst find_chosen.simps) (simp add: Let_def token_consts)
next
  fix off d s
  assume a: "bytes_at m off (to_be_bytes FDT_NOP)" "off < struct_end"
  show "find_chosen m struct_end off d s = find_chosen m struct_end (off + 4) d s"
    using a read_be32_at [OF a(1)] by (subst find_chosen.simps) (simp add: Let_def token_consts)
next
  fix off nm d s
  assume a: "bytes_at m off (node_header nm)" "4 dvd off" "off < struct_end" "0 \<notin> set nm"
  note h = header_at [OF a(1,4)]
  show "find_chosen m struct_end off d s =
      find_chosen m struct_end (off + length (node_header nm)) (d + 1) (if d + 1 = 2 \<and> nm = chars ''chosen'' then Some off else s)"
    using a h name_is [OF h(3), of "chars ''chosen''"]
    by (subst find_chosen.simps) (simp add: Let_def eval_nat_numeral)
next
  fix off and d :: nat and s
  assume a: "bytes_at m off (to_be_bytes FDT_END_NODE)" "off < struct_end" "0 < d"
  show "find_chosen m struct_end off d s = find_chosen m struct_end (off + 4) (d - 1) s"
    using a read_be32_at [OF a(1)] by (subst find_chosen.simps) (simp add: Let_def token_consts)
qed

type_synonym scan_state = "(nat \<times> nat) option \<times> nat"

definition chosen_prop :: "memory \<Rightarrow> nat \<Rightarrow> nat \<Rightarrow> nat \<Rightarrow> nat \<Rightarrow> bytes \<Rightarrow> scan_state \<Rightarrow> scan_state" where
  "chosen_prop m off_strings d off n v s =
     (if d = 0
      then (if bytes_eq m (off_strings + n) (cstr ''bootargs'') then Some (off, length v) else fst s,
            off + length (prop_bytes n v))
      else s)"

interpretation chosen_walk: token_walk m limit "\<lambda>off d s. scan_chosen m off_strings off d (fst s) (snd s)"
  "chosen_prop m off_strings" "\<lambda>d off nm s. s" "\<lambda>d off s. s"
proof
  fix off n v d and s :: scan_state
  assume a: "bytes_at m off (prop_bytes n v)" "4 dvd off" "off < limit" "n < 2 ^ 32" "length v < 2 ^ 32"
  show "scan_chosen m off_strings off d (fst s) (snd s) = scan_chosen m off_strings (off + length (prop_bytes n v)) d
      (fst (chosen_prop m off_strings d off n v s)) (snd (chosen_prop m off_strings d off n v s))"
    using a prop_at [OF a(1,4,5)] by (subst scan_chosen.simps) (simp add: Let_def chosen_prop_def token_consts)
next
  fix off d and s :: scan_state
  assume a: "bytes_at m off (to_be_bytes FDT_NOP)" "off < limit"
  show "scan_chosen m off_strings off d (fst s) (snd s) = scan_chosen m off_strings (off + 4) d (fst s) (snd s)"
    using a read_be32_at [OF a(1)] by (subst scan_chosen.simps) (simp add: Let_def token_consts)
next
  fix off nm d and s :: scan_state
  assume a: "bytes_at m off (node_header nm)" "4 dvd off" "off < limit" "0 \<notin> set nm"
  show "scan_chosen m off_strings off d (fst s) (snd s) =
      scan_chosen m off_strings (off + length (node_header nm)) (d + 1) (fst s) (snd s)"
    using a header_at [OF a(1,4)] by (subst scan_chosen.simps) (simp add: Let_def token_consts)
next
  fix off and d :: nat and s :: scan_state
  assume a: "bytes_at m off (to_be_bytes FDT_END_NODE)" "off < limit" "0 < d"
  show "scan_chosen m off_strings off d (fst s) (snd s) = scan_chosen m off_strings (off + 4) (d - 1) (fst s) (snd s)"
    using a read_be32_at [OF a(1)] by (subst scan_chosen.simps) (simp add: Let_def token_consts)
qed

definition walk_prop_state :: "memory \<Rightarrow> nat \<Rightarrow> nat \<Rightarrow> nat \<Rightarrow> nat \<Rightarrow> bytes \<Rightarrow> memory_walk \<Rightarrow> memory_walk" where
  "walk_prop_state m off_strings d off n v w =
     (if d = 1 \<and> length v = 4
      then if bytes_eq m (off_strings + n) (cstr ''#address-cells'') then w\<lparr>wk_addr_cells := from_be_bytes v\<rparr>
           else if bytes_eq m (off_strings + n) (cstr ''#size-cells'') then w\<lparr>wk_size_cells := from_be_bytes v\<rparr>
           else w
      else w)"

definition memory_name :: "bytes \<Rightarrow> bool" where
  "memory_name nm \<longleftrightarrow> nm = chars ''memory'' \<or> (7 < length nm \<and> take 7 nm = chars ''memory@'')"

lemma memory_name_at: "bytes_at m off nm \<Longrightarrow> is_memory_name m off (length nm) \<longleftrightarrow> memory_name nm"
proof -
  assume a: "bytes_at m off nm"
  have "bytes_at m off (take 7 nm)" if "7 < length nm"
    using a bytes_at_append [of m off "take 7 nm" "drop 7 nm"] by simp
  then have "7 < length nm \<Longrightarrow> bytes_eq m off (chars ''memory@'') \<longleftrightarrow> take 7 nm = chars ''memory@''"
    using name_is [of m off "take 7 nm" "chars ''memory@''"] by (simp add: eval_nat_numeral)
  moreover have "length nm = 6 \<Longrightarrow> bytes_eq m off (chars ''memory'') \<longleftrightarrow> nm = chars ''memory''"
    using name_is [OF a, of "chars ''memory''"] by (simp add: eval_nat_numeral)
  ultimately show ?thesis
    by (auto simp: is_memory_name_def memory_name_def)
qed

interpretation memory_walk: token_walk m struct_end "\<lambda>off d w. walk_memory m off_strings struct_end off d w"
  "walk_prop_state m off_strings"
  "\<lambda>d off nm w. if d = 2 \<and> memory_name nm \<and> wk_memory w = None then w\<lparr>wk_memory := Some off\<rparr> else w"
  "\<lambda>d off w. if d = 1 then w\<lparr>wk_root_end := Some off\<rparr> else w"
proof
  fix off n v d w
  assume a: "bytes_at m off (prop_bytes n v)" "4 dvd off" "off < struct_end" "n < 2 ^ 32" "length v < 2 ^ 32"
  have "bytes_at m (off + 12) v"
    using a(1) by (simp add: prop_bytes_def add.assoc)
  then have "read_be32 m (off + 12) = from_be_bytes v" if "length v = 4"
    using that by (simp add: read_be32_def bytes_at_def)
  then show "walk_memory m off_strings struct_end off d w =
      walk_memory m off_strings struct_end (off + length (prop_bytes n v)) d (walk_prop_state m off_strings d off n v w)"
    using a prop_at [OF a(1,4,5)]
    by (subst walk_memory.simps) (simp add: Let_def token_consts walk_prop_state_def root_cells_def)
next
  fix off d w
  assume a: "bytes_at m off (to_be_bytes FDT_NOP)" "off < struct_end"
  show "walk_memory m off_strings struct_end off d w = walk_memory m off_strings struct_end (off + 4) d w"
    using a read_be32_at [OF a(1)] by (subst walk_memory.simps) (simp add: Let_def token_consts)
next
  fix off nm d w
  assume a: "bytes_at m off (node_header nm)" "4 dvd off" "off < struct_end" "0 \<notin> set nm"
  note h = header_at [OF a(1,4)]
  show "walk_memory m off_strings struct_end off d w =
      walk_memory m off_strings struct_end (off + length (node_header nm)) (d + 1)
        (if d + 1 = 2 \<and> memory_name nm \<and> wk_memory w = None then w\<lparr>wk_memory := Some off\<rparr> else w)"
    using a h memory_name_at [OF h(3)] by (subst walk_memory.simps) (simp add: Let_def token_consts)
next
  fix off and d :: nat and w
  assume a: "bytes_at m off (to_be_bytes FDT_END_NODE)" "off < struct_end" "0 < d"
  show "walk_memory m off_strings struct_end off d w =
      walk_memory m off_strings struct_end (off + 4) (d - 1) (if d = 1 then w\<lparr>wk_root_end := Some off\<rparr> else w)"
    using a read_be32_at [OF a(1)] by (subst walk_memory.simps) (simp add: Let_def token_consts)
qed

definition memory_prop :: "memory \<Rightarrow> nat \<Rightarrow> nat \<Rightarrow> nat \<Rightarrow> nat \<Rightarrow> bytes \<Rightarrow> memory_scan \<Rightarrow> memory_scan" where
  "memory_prop m off_strings d off n v s =
     (if d = 0
      then (if bytes_eq m (off_strings + n) (cstr ''reg'') then s\<lparr>sn_reg := Some (off, length v)\<rparr>
            else if bytes_eq m (off_strings + n) (cstr ''device_type'') then s\<lparr>sn_has_dt := True\<rparr> else s)
           \<lparr>sn_insert := off + length (prop_bytes n v)\<rparr>
      else s)"

interpretation reg_walk: token_walk m limit "\<lambda>off d s. scan_memory m off_strings off d s"
  "memory_prop m off_strings" "\<lambda>d off nm s. s" "\<lambda>d off s. s"
proof
  fix off n v d and s :: memory_scan
  assume a: "bytes_at m off (prop_bytes n v)" "4 dvd off" "off < limit" "n < 2 ^ 32" "length v < 2 ^ 32"
  show "scan_memory m off_strings off d s =
      scan_memory m off_strings (off + length (prop_bytes n v)) d (memory_prop m off_strings d off n v s)"
    using a prop_at [OF a(1,4,5)] by (subst scan_memory.simps) (simp add: Let_def memory_prop_def token_consts)
next
  fix off d s
  assume a: "bytes_at m off (to_be_bytes FDT_NOP)" "off < limit"
  show "scan_memory m off_strings off d s = scan_memory m off_strings (off + 4) d s"
    using a read_be32_at [OF a(1)] by (subst scan_memory.simps) (simp add: Let_def token_consts)
next
  fix off nm d s
  assume a: "bytes_at m off (node_header nm)" "4 dvd off" "off < limit" "0 \<notin> set nm"
  show "scan_memory m off_strings off d s = scan_memory m off_strings (off + length (node_header nm)) (d + 1) s"
    using a header_at [OF a(1,4)] by (subst scan_memory.simps) (simp add: Let_def token_consts)
next
  fix off and d :: nat and s
  assume a: "bytes_at m off (to_be_bytes FDT_END_NODE)" "off < limit" "0 < d"
  show "scan_memory m off_strings off d s = scan_memory m off_strings (off + 4) (d - 1) s"
    using a read_be32_at [OF a(1)] by (subst scan_memory.simps) (simp add: Let_def token_consts)
qed

end
