(* ===== verification/Fdt_Edit.thy ===== *)
theory Fdt_Edit
  imports Fdt_Tree
begin

text \<open>
  What patching does to the tree a blob holds: the tree as the list of its properties with their paths, and
  the effect of an overwrite and of an insertion on the blob.
\<close>

section \<open>Blobs\<close>

definition struct_block :: "item list \<Rightarrow> bytes" where
  "struct_block items = flat (ChildItem [] items) @ to_be_bytes FDT_END"

definition fdt_holds :: "memory \<Rightarrow> fdt_header \<Rightarrow> item list \<Rightarrow> bytes \<Rightarrow> bool" where
  "fdt_holds m h items strs \<longleftrightarrow>
     read_be32 m 0 = FDT_MAGIC \<and> read_header m = h \<and> 40 \<le> fh_off_struct h \<and> 4 dvd fh_off_struct h \<and>
     fh_size_struct h = length (struct_block items) \<and> fh_size_strings h = length strs \<and>
     fh_off_struct h + fh_size_struct h \<le> fh_off_strings h \<and> fh_off_strings h + fh_size_strings h \<le> fh_totalsize h \<and>
     bytes_at m (fh_off_struct h) (struct_block items) \<and> bytes_at m (fh_off_strings h) strs \<and>
     items_ok (length strs) items \<and> (strs = [] \<or> last strs = 0)"

lemma header_bound: "read_header m = h \<Longrightarrow> fh_totalsize h < 2 ^ 32"
  using unsigned_less [of "read_be32 m HDR_TOTALSIZE"] by (auto simp: read_header_def)

text \<open>The name at an offset of the strings block.\<close>

definition str_at :: "bytes \<Rightarrow> nat \<Rightarrow> bytes" where
  "str_at strs n = takeWhile (\<lambda>b. b \<noteq> 0) (drop n strs)"

lemma str_at_append: "strs \<noteq> [] \<Longrightarrow> last strs = 0 \<Longrightarrow> n < length strs \<Longrightarrow> str_at (strs @ extra) n = str_at strs n"
proof -
  assume a: "strs \<noteq> []" "last strs = 0" "n < length strs"
  then have "0 \<in> set (drop n strs)"
    by (metis last_drop last_in_set drop_eq_Nil not_less)
  then show ?thesis
    using a(3) by (simp add: str_at_def takeWhile_append1)
qed

lemma str_at_terminated:
  assumes "strs = [] \<or> last strs = 0" "n < length strs" "bytes_at m off strs"
  shows "bytes_at m (off + n) (str_at strs n @ [0])" "0 \<notin> set (str_at strs n)"
proof -
  show "0 \<notin> set (str_at strs n)"
    by (auto simp: str_at_def dest: set_takeWhileD)
  have ne: "drop n strs \<noteq> []" "0 \<in> set (drop n strs)"
    using assms(1,2) by (auto, metis last_drop last_in_set drop_eq_Nil not_less)
  then obtain ys r where r: "drop n strs = ys @ 0 # r" "0 \<notin> set ys"
    using split_list_first [OF ne(2)] by auto
  then have "str_at strs n = ys"
    unfolding str_at_def r(1) by (subst takeWhile_append2) auto
  then have "drop n strs = str_at strs n @ 0 # r"
    using r(1) by simp
  moreover have "bytes_at m (off + n) (drop n strs)"
    using assms(2,3) bytes_at_append [of m off "take n strs" "drop n strs"] by simp
  ultimately show "bytes_at m (off + n) (str_at strs n @ [0])"
    by (simp add: bytes_at_Cons)
qed

lemma name_eq:
  assumes "strs = [] \<or> last strs = 0" "n < length strs" "bytes_at m off strs" "0 \<notin> set (chars s)"
  shows "bytes_eq m (off + n) (cstr s) \<longleftrightarrow> str_at strs n = chars s"
  using terminated_unique [OF str_at_terminated [OF assms(1-3)] assms(4)] by (simp add: bytes_eq_iff cstr_def)

lemma find_in_strings_Some:
  assumes "find_in_strings m off (length strs) (chars s) = Some n" "bytes_at m off strs" "strs = [] \<or> last strs = 0" "0 \<notin> set (chars s)"
  shows "n < length strs" "str_at strs n = chars s"
proof -
  have ff: "find_strings_from m start size needle i = Some n \<Longrightarrow>
      n + length needle < size \<and> bytes_at m (start + n) (needle @ [0])" for start size needle i
  proof (induction m start size needle i rule: find_strings_from.induct)
    case (1 m start size needle i)
    then show ?case
      by (subst (asm) (2) find_strings_from.simps) (auto simp: bytes_eq_iff bytes_at_Cons split: if_splits)
  qed
  then have f: "n + length (chars s) < length strs" "bytes_at m (off + n) (chars s @ [0])"
    using ff [OF assms(1) [unfolded find_in_strings_def]] by simp_all
  then show "n < length strs" by simp
  then show "str_at strs n = chars s"
    using terminated_unique [OF str_at_terminated [OF assms(3) _ assms(2)] assms(4), of n] f(2) by simp
qed

section \<open>The contents of a tree\<close>

type_synonym contents = "(bytes list \<times> bytes \<times> bytes) list"

fun item_props :: "bytes \<Rightarrow> bytes list \<Rightarrow> item \<Rightarrow> contents" and tree_props :: "bytes \<Rightarrow> bytes list \<Rightarrow> item list \<Rightarrow> contents" where
  "item_props strs p (PropItem n v) = [(p, str_at strs n, v)]"
| "item_props strs p NopItem = []"
| "item_props strs p (ChildItem nm items) = tree_props strs (p @ [nm]) items"
| "tree_props strs p [] = []"
| "tree_props strs p (i # items) = item_props strs p i @ tree_props strs p items"

fun item_nodes :: "bytes list \<Rightarrow> item \<Rightarrow> bytes list list" and tree_nodes :: "bytes list \<Rightarrow> item list \<Rightarrow> bytes list list" where
  "item_nodes p (PropItem n v) = []"
| "item_nodes p NopItem = []"
| "item_nodes p (ChildItem nm items) = (p @ [nm]) # tree_nodes (p @ [nm]) items"
| "tree_nodes p [] = []"
| "tree_nodes p (i # items) = item_nodes p i @ tree_nodes p items"

lemma tree_props_append [simp]: "tree_props strs p (xs @ ys) = tree_props strs p xs @ tree_props strs p ys"
  by (induction xs) auto

lemma tree_nodes_append [simp]: "tree_nodes p (xs @ ys) = tree_nodes p xs @ tree_nodes p ys"
  by (induction xs) auto

lemma nops_props [simp]: "tree_props strs p (replicate k NopItem) = []"
  by (induction k) auto

lemma nops_nodes [simp]: "tree_nodes p (replicate k NopItem) = []"
  by (induction k) auto

lemma nops_ok [simp]: "items_ok n (replicate k NopItem)"
  by (induction k) auto

lemma item_props_append:
  "item_ok (length strs) i \<Longrightarrow> strs = [] \<or> last strs = 0 \<Longrightarrow> item_props (strs @ extra) p i = item_props strs p i"
  and props_strs_append:
  "items_ok (length strs) is \<Longrightarrow> strs = [] \<or> last strs = 0 \<Longrightarrow> tree_props (strs @ extra) p is = tree_props strs p is"
proof (induction i and "is" arbitrary: p and p rule: flat_flats.induct)
  case (1 n v)
  then show ?case
    using str_at_append [of strs n extra] by (cases "strs = []") auto
qed simp_all

section \<open>Overwriting and inserting\<close>

lemma bytes_at_poke_other: "disjoint_range (a, length bs) (off, length xs) \<Longrightarrow> bytes_at (poke m a bs) off xs \<longleftrightarrow> bytes_at m off xs"
  by (simp add: bytes_at_def peek_poke_other)

lemma bytes_at_poke_same: "bytes_at (poke m a bs) a bs"
  by (simp add: bytes_at_def peek_poke_same)

lemma read_be32_poke_other: "disjoint_range (a, length bs) (off, 4) \<Longrightarrow> read_be32 (poke m a bs) off = read_be32 m off"
  by (simp add: read_be32_def peek_poke_other)

lemma read_header_poke: "40 \<le> a \<Longrightarrow> read_header (poke m a bs) = read_header m \<and> read_be32 (poke m a bs) 0 = read_be32 m 0"
  by (simp add: read_header_def read_be32_poke_other disjoint_range_def HDR_TOTALSIZE_def HDR_OFF_DT_STRUCT_def
      HDR_OFF_DT_STRINGS_def HDR_SIZE_DT_STRINGS_def HDR_SIZE_DT_STRUCT_def)

lemma replace_holds:
  assumes h: "fdt_holds m h items strs" and b: "struct_block items = P @ old @ Q" "struct_block items' = P @ new @ Q"
    and l: "length new = length old" and ok: "items_ok (length strs) items'"
  shows "fdt_holds (poke m (fh_off_struct h + length P) new) h items' strs"
proof -
  let ?a = "fh_off_struct h + length P"
  have s: "40 \<le> fh_off_struct h" "fh_off_struct h + fh_size_struct h \<le> fh_off_strings h" "fh_size_struct h = length (P @ old @ Q)"
    "bytes_at m (fh_off_struct h) (P @ old @ Q)" "bytes_at m (fh_off_strings h) strs"
    using h b by (auto simp: fdt_holds_def)
  have "bytes_at (poke m ?a new) (fh_off_struct h) (P @ new @ Q)"
    using s l by (simp add: bytes_at_poke_same bytes_at_poke_other disjoint_range_def)
  moreover have "bytes_at (poke m ?a new) (fh_off_strings h) strs"
    using s l by (simp add: bytes_at_poke_other disjoint_range_def)
  ultimately show ?thesis
    using h read_header_poke [of ?a m new] s(1) b l ok by (simp add: fdt_holds_def)
qed

definition insert_at :: "memory \<Rightarrow> nat \<Rightarrow> bytes \<Rightarrow> nat \<Rightarrow> memory" where
  "insert_at m at new tot = poke (poke m (at + length new) (peek m at (tot - at))) at new"

lemma insert_at_below: "off + length xs \<le> at \<Longrightarrow> bytes_at (insert_at m at new tot) off xs \<longleftrightarrow> bytes_at m off xs"
  by (simp add: insert_at_def bytes_at_poke_other disjoint_range_def)

lemma insert_at_above:
  assumes "at \<le> off" "off + length xs \<le> tot"
  shows "bytes_at (insert_at m at new tot) (off + length new) xs \<longleftrightarrow> bytes_at m off xs"
proof -
  have "peek (poke m (at + length new) (peek m at (tot - at))) (off + length new) (length xs) = peek m off (length xs)"
    using peek_poke_inside [of "off - at" "length xs" "peek m at (tot - at)" m "at + length new"]
      sub_peek [of "off - at" "length xs" "tot - at" m at] assms by (simp add: ac_simps)
  then show ?thesis
    using assms(1) by (simp add: insert_at_def bytes_at_poke_other disjoint_range_def) (simp add: bytes_at_def)
qed

lemma insert_at_header:
  "40 \<le> at \<Longrightarrow> read_header (insert_at m at new tot) = read_header m \<and> read_be32 (insert_at m at new tot) 0 = read_be32 m 0"
  by (simp add: insert_at_def read_header_poke)

lemmas hdr_consts = HDR_TOTALSIZE_def HDR_OFF_DT_STRUCT_def HDR_OFF_DT_STRINGS_def HDR_SIZE_DT_STRINGS_def HDR_SIZE_DT_STRUCT_def

lemma read_be32_write: "read_be32 (write_be32 m off v) off = v"
  by (rule read_be32_at) (simp add: write_be32_def bytes_at_poke_same)

lemma read_be32_write_other: "off' + 4 \<le> off \<or> off + 4 \<le> off' \<Longrightarrow> read_be32 (write_be32 m off v) off' = read_be32 m off'"
  by (auto simp: write_be32_def disjoint_range_def intro: read_be32_poke_other)

lemma header_written:
  assumes "tot < 2 ^ 32" "ss < 2 ^ 32" "os < 2 ^ 32" "st < 2 ^ 32"
  shows "read_header (write_header_fields m tot ss os st) =
      \<lparr>fh_totalsize = tot, fh_off_struct = fh_off_struct (read_header m), fh_off_strings = os, fh_size_strings = st, fh_size_struct = ss\<rparr>"
    "read_be32 (write_header_fields m tot ss os st) 0 = read_be32 m 0"
    "40 \<le> off \<Longrightarrow> bytes_at (write_header_fields m tot ss os st) off xs \<longleftrightarrow> bytes_at m off xs"
proof -
  show "read_header (write_header_fields m tot ss os st) =
      \<lparr>fh_totalsize = tot, fh_off_struct = fh_off_struct (read_header m), fh_off_strings = os, fh_size_strings = st, fh_size_struct = ss\<rparr>"
    using assms by (simp add: read_header_def write_header_fields_def read_be32_write read_be32_write_other hdr_consts unat_of_nat)
  show "read_be32 (write_header_fields m tot ss os st) 0 = read_be32 m 0"
    by (simp add: write_header_fields_def read_be32_write_other hdr_consts)
  show "bytes_at (write_header_fields m tot ss os st) off xs \<longleftrightarrow> bytes_at m off xs" if "40 \<le> off"
    using that by (simp add: write_header_fields_def write_be32_def bytes_at_poke_other disjoint_range_def hdr_consts)
qed

lemma insert_holds:
  assumes h: "fdt_holds m h items strs" and b: "struct_block items = P @ Q" "struct_block items' = P @ new @ Q"
    and t: "tot = fh_totalsize h + length new + length extra" "tot < 2 ^ 32"
    and ok: "items_ok (length strs + length extra) items'" "extra = [] \<or> last extra = 0"
    and m': "m' = write_header_fields (poke (insert_at m (fh_off_struct h + length P) new (fh_totalsize h))
        (fh_off_strings h + length new + fh_size_strings h) extra) tot (fh_size_struct h + length new)
        (fh_off_strings h + length new) (fh_size_strings h + length extra)"
  shows "fdt_holds m' (h\<lparr>fh_totalsize := tot, fh_size_struct := fh_size_struct h + length new,
      fh_off_strings := fh_off_strings h + length new, fh_size_strings := fh_size_strings h + length extra\<rparr>) items' (strs @ extra)"
proof -
  let ?at = "fh_off_struct h + length P" and ?os = "fh_off_strings h"
  let ?m1 = "insert_at m ?at new (fh_totalsize h)" and ?e = "?os + length new + fh_size_strings h"
  let ?m2 = "poke ?m1 ?e extra"
  have s: "40 \<le> fh_off_struct h" "fh_size_struct h = length (P @ Q)" "fh_off_struct h + fh_size_struct h \<le> ?os"
    "?os + fh_size_strings h \<le> fh_totalsize h" "fh_size_strings h = length strs"
    "bytes_at m (fh_off_struct h) (P @ Q)" "bytes_at m ?os strs" "read_header m = h" "read_be32 m 0 = FDT_MAGIC"
    using h b by (auto simp: fdt_holds_def)
  have at: "?at \<le> ?os" "?at + length Q \<le> fh_totalsize h"
    using s by simp_all
  have st: "bytes_at ?m1 (fh_off_struct h) (P @ new @ Q)"
    using s at insert_at_above [of ?at ?at Q "fh_totalsize h" m new]
    by (simp add: insert_at_below ac_simps) (simp add: insert_at_def bytes_at_poke_same)
  have "bytes_at ?m1 (?os + length new) strs"
    using s at insert_at_above [of ?at ?os strs "fh_totalsize h" m new] by simp
  then have strs: "bytes_at ?m2 (?os + length new) (strs @ extra)"
    using s(5) by (simp add: bytes_at_poke_other disjoint_range_def bytes_at_poke_same)
  have "bytes_at ?m2 (fh_off_struct h) (P @ new @ Q)"
    using st s by (subst bytes_at_poke_other) (simp_all add: disjoint_range_def)
  moreover have "read_header ?m2 = h" "read_be32 ?m2 0 = FDT_MAGIC"
    using insert_at_header [of ?at m new "fh_totalsize h"] read_header_poke [of ?e ?m1 extra] s by simp_all
  moreover have "tot < 2 ^ 32" "fh_size_struct h + length new < 2 ^ 32" "?os + length new < 2 ^ 32" "fh_size_strings h + length extra < 2 ^ 32"
    using t s(3,4) by simp_all
  note w = header_written [OF this, where m = ?m2]
  ultimately show ?thesis
    using h s strs ok b(2) t(1) unfolding m' by (cases "extra = []") (simp_all add: fdt_holds_def w)
qed

section \<open>An image of every tree\<close>

definition image_header :: "item list \<Rightarrow> bytes \<Rightarrow> fdt_header" where
  "image_header items strs =
     \<lparr>fh_totalsize = 40 + length (struct_block items) + length strs, fh_off_struct = 40,
      fh_off_strings = 40 + length (struct_block items), fh_size_strings = length strs,
      fh_size_struct = length (struct_block items)\<rparr>"

definition fdt_image :: "item list \<Rightarrow> bytes \<Rightarrow> memory" where
  "fdt_image items strs =
     (let h = image_header items strs; cell = (\<lambda>n. to_be_bytes (word_of_nat n :: u32)) in
      poke (\<lambda>_. 0) 0 (to_be_bytes FDT_MAGIC @ cell (fh_totalsize h) @ cell (fh_off_struct h) @ cell (fh_off_strings h) @
        replicate 16 0 @ cell (fh_size_strings h) @ cell (fh_size_struct h) @ struct_block items @ strs))"

lemma image_holds:
  assumes "items_ok (length strs) items" "strs = [] \<or> last strs = 0" "40 + length (struct_block items) + length strs < 2 ^ 32"
  shows "fdt_holds (fdt_image items strs) (image_header items strs) items strs"
proof -
  let ?m = "fdt_image items strs" and ?h = "image_header items strs"
  let ?cell = "\<lambda>n. to_be_bytes (word_of_nat n :: u32)"
  have a: "bytes_at ?m 0 (to_be_bytes FDT_MAGIC @ ?cell (fh_totalsize ?h) @ ?cell (fh_off_struct ?h) @ ?cell (fh_off_strings ?h) @
      replicate 16 0 @ ?cell (fh_size_strings ?h) @ ?cell (fh_size_struct ?h) @ struct_block items @ strs)"
    unfolding fdt_image_def Let_def by (rule bytes_at_poke_same)
  then have b: "bytes_at ?m 0 (to_be_bytes FDT_MAGIC)" "bytes_at ?m 4 (?cell (fh_totalsize ?h))" "bytes_at ?m 8 (?cell (fh_off_struct ?h))"
      "bytes_at ?m 12 (?cell (fh_off_strings ?h))" "bytes_at ?m 32 (?cell (fh_size_strings ?h))"
      "bytes_at ?m 36 (?cell (fh_size_struct ?h))" "bytes_at ?m 40 (struct_block items)"
      "bytes_at ?m (40 + length (struct_block items)) strs"
    by simp_all
  have "fh_totalsize ?h < 2 ^ 32" "fh_off_struct ?h < 2 ^ 32" "fh_off_strings ?h < 2 ^ 32" "fh_size_strings ?h < 2 ^ 32" "fh_size_struct ?h < 2 ^ 32"
    using assms(3) by (simp_all add: image_header_def)
  then have "read_header ?m = ?h"
    using b(2-6) [THEN read_be32_at] by (simp add: read_header_def hdr_consts unat_of_nat)
  then show ?thesis
    using assms b(1,7,8) read_be32_at [OF b(1)] by (simp add: fdt_holds_def) (simp add: image_header_def)
qed

end
