(* ===== verification/Fdt_Bootargs.thy ===== *)
theory Fdt_Bootargs
  imports Fdt_Edit
begin

text \<open>
  What \<open>fdt_set_bootargs\<close> does to the tree: the loops find the node and its property, and the patch is an
  overwrite or an insertion.
\<close>

section \<open>Paths\<close>

lemma item_nodes_prefix: "q \<in> set (item_nodes p i) \<Longrightarrow> length p < length q \<and> take (length p) q = p"
  and tree_nodes_prefix: "q \<in> set (tree_nodes p is) \<Longrightarrow> length p < length q \<and> take (length p) q = p"
proof (induction p i and p "is" arbitrary: q and q rule: item_nodes_tree_nodes.induct)
  case (3 p nm items)
  show ?case
  proof (cases "q = p @ [nm]")
    case False
    then have "q \<in> set (tree_nodes (p @ [nm]) items)"
      using "3.prems" by simp
    from "3.IH" [OF this] have a: "Suc (length p) < length q" "take (Suc (length p)) q = p @ [nm]"
      by simp_all
    then have "take (length p) (take (Suc (length p)) q) = p"
      by simp
    then show ?thesis
      using a(1) by simp
  qed simp
qed auto

lemma item_props_prefix: "(q, n, v) \<in> set (item_props strs p i) \<Longrightarrow> length p \<le> length q \<and> take (length p) q = p"
  and tree_props_prefix: "(q, n, v) \<in> set (tree_props strs p is) \<Longrightarrow> length p \<le> length q \<and> take (length p) q = p"
proof (induction strs p i and strs p "is" arbitrary: q n v and q n v rule: item_props_tree_props.induct)
  case (3 strs p nm items)
  from "3.IH" [OF "3.prems" [unfolded item_props.simps]] have a: "Suc (length p) \<le> length q" "take (Suc (length p)) q = p @ [nm]"
    by simp_all
  then have "take (length p) (take (Suc (length p)) q) = p"
    by simp
  then show ?case
    using a(1) by simp
qed auto

lemma child_in_nodes: "ChildItem nm body \<in> set is \<Longrightarrow> p @ [nm] \<in> set (tree_nodes p is)"
  by (induction "is") auto

lemma split_child:
  assumes "filter (\<lambda>q. q = [nm]) (tree_nodes [] items) = [[nm]]"
  obtains A body B where "items = A @ ChildItem nm body # B" "[nm] \<notin> set (tree_nodes [] A)" "[nm] \<notin> set (tree_nodes [] B)"
  using assms
proof (induction items arbitrary: thesis)
  case (Cons i items)
  show ?case
  proof (cases "\<exists>body. i = ChildItem nm body")
    case True
    then obtain body where b: "i = ChildItem nm body"
      by blast
    have "[nm] \<notin> set (tree_nodes [] items)"
      using Cons.prems(2) by (auto simp: b filter_empty_conv)
    then show ?thesis
      using Cons.prems(1) [of "[]" body items] b by simp
  next
    case False
    have "[nm] \<notin> set (item_nodes [] i)"
      using False tree_nodes_prefix [of "[nm]"] by (cases i) auto
    then have "filter (\<lambda>q. q = [nm]) (item_nodes [] i) = []"
      by (auto simp: filter_empty_conv)
    then obtain A body B where "items = A @ ChildItem nm body # B" "[nm] \<notin> set (tree_nodes [] A)" "[nm] \<notin> set (tree_nodes [] B)"
      using Cons.IH Cons.prems(2) by (metis append_Nil filter_append tree_nodes.simps(2))
    then show ?thesis
      using Cons.prems(1) [of "i # A" body B] \<open>[nm] \<notin> set (item_nodes [] i)\<close> by simp
  qed
qed simp

section \<open>Where the property goes\<close>

definition before_child :: "item list \<Rightarrow> bytes \<Rightarrow> item list \<Rightarrow> bytes" where
  "before_child A nm X = node_header [] @ flats A @ node_header nm @ flats X"

definition behind_child :: "item list \<Rightarrow> item list \<Rightarrow> bytes" where
  "behind_child Y B = flats Y @ to_be_bytes FDT_END_NODE @ flats B @ to_be_bytes FDT_END_NODE @ to_be_bytes FDT_END"

lemma struct_block_child: "struct_block (A @ ChildItem nm (X @ Y) # B) = before_child A nm X @ behind_child Y B"
  by (simp add: struct_block_def before_child_def behind_child_def)

lemma poke_Nil [simp]: "poke m a [] = m"
  by (rule ext) (auto simp: poke_def)

lemma poke_append: "poke m a (xs @ ys) = poke (poke m a xs) (a + length xs) ys"
  by (rule ext) (auto simp: poke_def nth_append)

lemma poke_present: "bytes_at m a xs \<Longrightarrow> poke m a xs = m"
proof (rule ext)
  fix x
  assume "bytes_at m a xs"
  then show "poke m a xs x = m x"
    using bytes_at_nth [of m a xs "x - a"] by (auto simp: poke_def)
qed

lemma flats_nops: "flats (replicate k NopItem) = concat (replicate k (to_be_bytes FDT_NOP))"
  by (induction k) auto

lemma length_flats_nops [simp]: "length (flats (replicate k NopItem)) = 4 * k"
  by (induction k) auto

lemma nop_out_poke: "nop_out m a k = poke m a (flats (replicate k NopItem))"
proof (induction k)
  case (Suc k)
  have "flats (replicate (Suc k) NopItem) = flats (replicate k NopItem) @ to_be_bytes FDT_NOP"
    unfolding replicate_append_same [of k NopItem, symmetric, folded replicate_Suc] by simp
  then show ?case
    using Suc by (simp add: write_be32_def poke_append mult.commute)
qed simp

lemma overwrite_poke:
  assumes "bytes_at m off (prop_bytes n v)" "length args + 1 \<le> length v"
  shows "overwrite_bootargs m off (length v) args =
    poke m off (prop_bytes n (args @ [0]) @ replicate (align4 (length v) - align4 (length args + 1)) 0)"
proof -
  let ?l = "to_be_bytes (word_of_nat (length args + 1) :: u32)"
  have al: "length args + 1 \<le> align4 (length args + 1)" "align4 (length args + 1) \<le> align4 (length v)" "length v \<le> align4 (length v)"
    using assms(2) align4_ge by (auto simp: align4_def div_le_mono)
  have a: "bytes_at m off (to_be_bytes FDT_PROP)" "bytes_at m (off + 8) (to_be_bytes (word_of_nat n :: u32))"
      "bytes_at m (off + 12 + length v) (replicate (align4 (length v) - length v) 0)"
    using assms(1) by (simp_all add: prop_bytes_def add.assoc)
  have z: "replicate (align4 (length args + 1) - (length args + 1)) 0 @ replicate (align4 (length v) - align4 (length args + 1)) (0 :: u8) =
      replicate (length v - (length args + 1)) 0 @ replicate (align4 (length v) - length v) 0"
    using al assms(2) by (simp add: replicate_add [symmetric])
  have p8: "bytes_at (poke m (off + 4) ?l) (off + 8) (to_be_bytes (word_of_nat n :: u32))"
    using a(2) by (simp add: bytes_at_poke_other disjoint_range_def)
  let ?m = "poke (poke (poke m (off + 4) ?l) (off + 12) args) (off + 12 + length args) [0]"
  let ?m' = "poke ?m (off + 12 + (length args + 1)) (replicate (length v - (length args + 1)) 0)"
  have p: "bytes_at ?m' (off + 12 + length v) (replicate (align4 (length v) - length v) 0)"
    using a(3) assms(2) by (simp add: bytes_at_poke_other disjoint_range_def)
  have "prop_bytes n (args @ [0]) @ replicate (align4 (length v) - align4 (length args + 1)) 0 =
      to_be_bytes FDT_PROP @ ?l @ to_be_bytes (word_of_nat n :: u32) @ args @ [0] @
      replicate (length v - (length args + 1)) 0 @ replicate (align4 (length v) - length v) 0"
    using z by (simp add: prop_bytes_def)
  then have "poke m off (prop_bytes n (args @ [0]) @ replicate (align4 (length v) - align4 (length args + 1)) 0) =
      poke ?m' (off + 12 + length v) (replicate (align4 (length v) - length v) 0)"
    using poke_present [OF a(1)] poke_present [OF p8] assms(2)
      poke_append [of "poke (poke m (off + 4) ?l) (off + 12) args" "off + 12 + length args" "[0]"
        "replicate (length v - (length args + 1)) 0 @ replicate (align4 (length v) - length v) 0"]
    by (simp add: poke_append ac_simps)
  also have "\<dots> = ?m'"
    by (rule poke_present [OF p])
  finally show ?thesis
    by (simp add: overwrite_bootargs_def Let_def write_be32_def)
qed

section \<open>What the loops find\<close>

text \<open>Below the depth at which a loop looks, nothing changes its state.\<close>

lemma visit_deep:
  assumes "\<And>e off n v s. d \<le> e \<Longrightarrow> pr e off n v s = s" "\<And>e off nm s. d < e \<Longrightarrow> bg e off nm s = s" "\<And>e off s. d < e \<Longrightarrow> en e off s = s"
  shows "d \<le> e \<Longrightarrow> visit pr bg en e off i s = s" and "d \<le> e \<Longrightarrow> visits pr bg en e off is s = s"
  using assms by (induction i and "is" arbitrary: e off s and e off s rule: flat_flats.induct) auto

abbreviation find_visits :: "nat \<Rightarrow> nat \<Rightarrow> item list \<Rightarrow> nat option \<Rightarrow> nat option" where
  "find_visits \<equiv> visits (\<lambda>d off n v c. c) (\<lambda>d off nm c. if d = 2 \<and> nm = chars ''chosen'' then Some off else c) (\<lambda>d off c. c)"

lemma find_visits_none: "[chars ''chosen''] \<notin> set (tree_nodes [] is) \<Longrightarrow> find_visits 1 off is c = c"
proof (induction "is" arbitrary: off c)
  case (Cons i "is")
  have "visit (\<lambda>d off n v c. c) (\<lambda>d off nm c. if d = 2 \<and> nm = chars ''chosen'' then Some off else c) (\<lambda>d off c. c) 1 off i c = c"
    using Cons.prems visit_deep(2) [of 2 "\<lambda>d off n v c. c" "\<lambda>d off nm c. if d = 2 \<and> nm = chars ''chosen'' then Some off else c" "\<lambda>d off c. c" 2]
    by (cases i) (auto simp: numeral_2_eq_2)
  then show ?case
    using Cons by simp
qed simp

lemma find_visits_child:
  assumes "[chars ''chosen''] \<notin> set (tree_nodes [] B)"
  shows "find_visits 1 off (A @ ChildItem (chars ''chosen'') body # B) c = Some (off + length (flats A))"
  using find_visits_none [OF assms] visit_deep(2) [of 2 "\<lambda>d off n v c. c" "\<lambda>d off nm c. if d = 2 \<and> nm = chars ''chosen'' then Some off else c" "\<lambda>d off c. c" 2]
  by (simp add: visits_append numeral_2_eq_2)

lemma fdt_holdsD:
  assumes "fdt_holds m h items strs"
  shows "read_be32 m 0 = FDT_MAGIC" "read_header m = h" "4 dvd fh_off_struct h" "40 \<le> fh_off_struct h"
    "bytes_at m (fh_off_struct h) (struct_block items)" "bytes_at m (fh_off_strings h) strs" "items_ok (length strs) items"
    "strs = [] \<or> last strs = 0" "fh_size_struct h = length (struct_block items)" "length strs \<le> 2 ^ 32"
    "fh_off_struct h + fh_size_struct h \<le> fh_off_strings h" "fh_size_strings h = length strs"
    "fh_off_strings h + fh_size_strings h \<le> fh_totalsize h" "fh_totalsize h < 2 ^ 32"
  using assms header_bound [of m h] by (auto simp: fdt_holds_def)

lemma root_end:
  assumes "fdt_holds m h items strs"
  shows "bytes_at m (fh_off_struct h + length (flat (ChildItem [] items))) (to_be_bytes FDT_END)"
    "fh_off_struct h + length (flat (ChildItem [] items)) < fh_off_struct h + fh_size_struct h"
  using fdt_holdsD(5,9) [OF assms] by (simp_all add: struct_block_def add.assoc)

lemma find_chosen_holds:
  assumes h: "fdt_holds m h items strs" and i: "items = A @ ChildItem (chars ''chosen'') body # B"
    and B: "[chars ''chosen''] \<notin> set (tree_nodes [] B)"
  shows "find_chosen m (fh_off_struct h + fh_size_struct h) (fh_off_struct h) 0 None =
    Some (Ok (Some (fh_off_struct h + length (node_header []) + length (flats A))))"
proof -
  note hd = fdt_holdsD [OF h] and re = root_end [OF h]
  have "find_chosen m (fh_off_struct h + fh_size_struct h) (fh_off_struct h) 0 None =
      find_chosen m (fh_off_struct h + fh_size_struct h) (fh_off_struct h + length (flat (ChildItem [] items))) 0
        (visit (\<lambda>d off n v c. c) (\<lambda>d off nm c. if d = 2 \<and> nm = chars ''chosen'' then Some off else c) (\<lambda>d off c. c)
           0 (fh_off_struct h) (ChildItem [] items) None)"
    using hd(3,5,7,9,10) by (intro find_walk.walk_item [where k = "length strs"]) (simp_all add: struct_block_def)
  also have "visit (\<lambda>d off n v c. c) (\<lambda>d off nm c. if d = 2 \<and> nm = chars ''chosen'' then Some off else c) (\<lambda>d off c. c)
      0 (fh_off_struct h) (ChildItem [] items) None = Some (fh_off_struct h + length (node_header []) + length (flats A))"
    using find_visits_child [OF B] by (simp add: i)
  finally show ?thesis
    using read_be32_at [OF re(1)] re(2) by (subst (asm) (2) find_chosen.simps) (simp add: Let_def token_consts)
qed

text \<open>The search for the property: direct properties of the node by name, and the place behind the last of them.\<close>

fun is_prop :: "item \<Rightarrow> bool" where
  "is_prop (PropItem n v) = True"
| "is_prop _ = False"

fun prop_named :: "bytes \<Rightarrow> bytes \<Rightarrow> item \<Rightarrow> bool" where
  "prop_named strs nm (PropItem n v) = (str_at strs n = nm)"
| "prop_named strs nm _ = False"

abbreviation chosen_visits :: "memory \<Rightarrow> nat \<Rightarrow> nat \<Rightarrow> nat \<Rightarrow> item list \<Rightarrow> scan_state \<Rightarrow> scan_state" where
  "chosen_visits m off_strings \<equiv> visits (chosen_prop m off_strings) (\<lambda>d off nm s. s) (\<lambda>d off s. s)"

lemma chosen_visits_deep: "1 \<le> d \<Longrightarrow> chosen_visits m os d off is s = s"
  by (rule visit_deep(2) [of 1]) (auto simp: chosen_prop_def)

lemma chosen_visits_insert: "list_all (\<lambda>i. \<not> is_prop i) is \<Longrightarrow> chosen_visits m os 0 off is s = s"
proof (induction "is" arbitrary: off s)
  case (Cons i "is")
  then show ?case
    by (cases i) (auto simp: chosen_visits_deep)
qed simp

lemma chosen_visits_existing:
  assumes "strs = [] \<or> last strs = 0" "bytes_at m os strs"
  shows "items_ok (length strs) is \<Longrightarrow> list_all (\<lambda>i. \<not> prop_named strs (chars ''bootargs'') i) is \<Longrightarrow>
    fst (chosen_visits m os 0 off is s) = fst s"
proof (induction "is" arbitrary: off s)
  case (Cons i "is")
  have "fst (visit (chosen_prop m os) (\<lambda>d off nm s. s) (\<lambda>d off s. s) 0 off i s) = fst s"
  proof (cases i)
    case (PropItem n v)
    then show ?thesis
      using Cons.prems name_eq [OF assms(1) _ assms(2), of n "''bootargs''"] by (simp add: chosen_prop_def chars_def)
  qed (simp_all add: chosen_visits_deep)
  then show ?case
    using Cons by simp
qed simp

lemma split_last_prop: "\<exists>X Y. items = X @ Y \<and> list_all (\<lambda>i. \<not> is_prop i) Y \<and> (X = [] \<or> is_prop (last X))"
proof (induction items rule: rev_induct)
  case Nil
  then show ?case by simp
next
  case (snoc i items)
  show ?case
  proof (cases "is_prop i")
    case True
    then show ?thesis
      by (intro exI [of _ "items @ [i]"] exI [of _ "[]"]) simp
  next
    case False
    obtain X Y where "items = X @ Y" "list_all (\<lambda>i. \<not> is_prop i) Y" "X = [] \<or> is_prop (last X)"
      using snoc by blast
    then show ?thesis
      using False by (intro exI [of _ X] exI [of _ "Y @ [i]"]) simp
  qed
qed

lemma chosen_visits_snd: "X = [] \<or> is_prop (last X) \<Longrightarrow> list_all (\<lambda>i. \<not> is_prop i) Y \<Longrightarrow>
    snd (chosen_visits m os 0 off (X @ Y) (e, off)) = off + length (flats X)"
proof (cases X rule: rev_cases)
  case (snoc X' i)
  assume "X = [] \<or> is_prop (last X)" "list_all (\<lambda>i. \<not> is_prop i) Y"
  then show ?thesis
    by (cases i) (simp_all add: snoc visits_append chosen_visits_insert chosen_prop_def)
qed (simp add: chosen_visits_insert)

lemma chosen_visits_found:
  assumes "strs = [] \<or> last strs = 0" "bytes_at m os strs" "items_ok (length strs) (X @ PropItem n v # Y)"
    "str_at strs n = chars ''bootargs''" "list_all (\<lambda>i. \<not> prop_named strs (chars ''bootargs'') i) Y"
  shows "fst (chosen_visits m os 0 off (X @ PropItem n v # Y) s) = Some (off + length (flats X), length v)"
  using assms name_eq [OF assms(1) _ assms(2), of n "''bootargs''"] chosen_visits_existing [OF assms(1,2) _ assms(5)]
  by (simp add: visits_append chosen_prop_def) (simp add: chars_def)

lemma scan_chosen_holds:
  assumes h: "fdt_holds m h items strs" and i: "items = A @ ChildItem nm body # B"
    and off: "off = fh_off_struct h + length (node_header []) + length (flats A) + length (node_header nm)"
  shows "scan_chosen m (fh_off_strings h) off 0 None off = Some (Ok (chosen_visits m (fh_off_strings h) 0 off body (None, off)))"
proof -
  note hd = fdt_holdsD [OF h]
  have b: "bytes_at m off (flats body)" "bytes_at m (off + length (flats body)) (to_be_bytes FDT_END_NODE)"
    using hd(5) by (simp_all add: struct_block_def i off add.assoc)
  have dv: "4 dvd off"
    using hd(3) flats_dvd [of A] by (simp add: off length_node_header)
  have ok: "items_ok (length strs) body"
    using hd(7) by (simp add: i)
  have "scan_chosen m (fh_off_strings h) off 0 (fst (None, off)) (snd (None, off)) =
      scan_chosen m (fh_off_strings h) (off + length (flats body)) 0
        (fst (chosen_visits m (fh_off_strings h) 0 off body (None, off))) (snd (chosen_visits m (fh_off_strings h) 0 off body (None, off)))"
    using chosen_walk.walk_items [OF b(1) dv order_refl ok hd(10), of "fh_off_strings h" 0 "(None, off)"] by simp
  then show ?thesis
    using read_be32_at [OF b(2)] by (subst (asm) (2) scan_chosen.simps) (simp add: Let_def token_consts)
qed

section \<open>The insertion\<close>

lemma align4_12: "align4 (12 + n) = 12 + align4 n"
  by (rule align4_add) simp

lemma zero_notin_chars: "0 \<notin> set (chars ''bootargs'')" "0 \<notin> set (chars ''chosen'')"
  by (simp_all add: chars_def)

lemma str_at_appended:
  assumes "0 \<notin> set (chars s)"
  shows "str_at (strs @ cstr s) (length strs) = chars s"
proof -
  have "takeWhile (\<lambda>b. b \<noteq> 0) (chars s @ [0]) = chars s"
    using assms by (subst takeWhile_append2) auto
  then show ?thesis
    by (simp add: str_at_def cstr_def)
qed

lemma inserted_outside:
  assumes "x \<ge> tot" "at \<le> fh_totalsize h" "tot = fh_totalsize h + length new + length extra" "40 \<le> at"
    "fh_off_strings h + fh_size_strings h \<le> fh_totalsize h"
  shows "write_header_fields (poke (insert_at m at new (fh_totalsize h)) (fh_off_strings h + length new + fh_size_strings h) extra)
    a b c d x = m x"
  using assms by (simp add: write_header_fields_def write_be32_def insert_at_def poke_outside hdr_consts)

lemma prop_poked:
  "poke (poke (poke (write_be32 (write_be32 (write_be32 m off FDT_PROP) (off + 4) (word_of_nat (length args + 1)))
      (off + 8) (word_of_nat n)) (off + 12) args) (off + 12 + length args) [0])
      (off + 12 + (length args + 1)) (replicate (align4 (length args + 1) - (length args + 1)) 0) =
    poke m off (prop_bytes n (args @ [0]))"
proof -
  have "prop_bytes n (args @ [0]) = to_be_bytes FDT_PROP @ to_be_bytes (word_of_nat (length args + 1) :: u32) @
      to_be_bytes (word_of_nat n :: u32) @ args @ [0] @ replicate (align4 (length args + 1) - (length args + 1)) 0"
    by (simp add: prop_bytes_def)
  then show ?thesis
    using poke_append [of "poke (write_be32 (write_be32 (write_be32 m off FDT_PROP) (off + 4) (word_of_nat (length args + 1)))
        (off + 8) (word_of_nat n)) (off + 12) args" "off + 12 + length args" "[0]"
        "replicate (align4 (length args + 1) - (length args + 1)) 0"]
    by (simp add: poke_append write_be32_def ac_simps)
qed

lemma insert_bootargs_eq:
  assumes "at \<le> fh_totalsize h" "tot = fh_totalsize h + 12 + align4 (length args + 1) + length extra" "tot \<le> max_size"
    and f: "(case find_in_strings m (fh_off_strings h) (fh_size_strings h) (chars ''bootargs'') of
        Some n' \<Rightarrow> n = n' \<and> extra = [] | None \<Rightarrow> n = fh_size_strings h \<and> extra = cstr ''bootargs'')"
    and new: "new = prop_bytes n (args @ [0])"
  shows "insert_bootargs m h max_size at args =
    (Ok tot, write_header_fields (poke (insert_at m at new (fh_totalsize h))
        (fh_off_strings h + length new + fh_size_strings h) extra) tot (fh_size_struct h + length new)
        (fh_off_strings h + length new) (fh_size_strings h + length extra))"
proof -
  have l: "align4 (13 + length args) = 12 + align4 (Suc (length args))" "length new = 12 + align4 (Suc (length args))"
    using align4_12 [of "length args + 1"] by (simp_all add: new length_prop_bytes)
  have c: "length (cstr ''bootargs'') = 9"
    by (simp add: cstr_def)
  note p = prop_poked [of "poke m (at + length new) (peek m at (fh_totalsize h - at))" at args n, folded new]
  show ?thesis
  proof (cases "find_in_strings m (fh_off_strings h) (fh_size_strings h) (chars ''bootargs'')")
    case None
    then show ?thesis
      using f assms(1-3) p
      by (simp add: insert_bootargs_def shift_tail_def Let_def insert_at_def l c add.assoc)
  next
    case (Some n')
    then show ?thesis
      using f assms(1-3) p
      by (simp add: insert_bootargs_def shift_tail_def Let_def insert_at_def l add.assoc)
  qed
qed

lemma insert_bootargs_holds:
  assumes h: "fdt_holds m h items strs" and i: "items = A @ ChildItem nm (X @ Y) # B"
    and at: "at = fh_off_struct h + length (before_child A nm X)"
    and sz: "fh_totalsize h + 12 + align4 (length args + 1) + 9 \<le> max_size" "max_size < 2 ^ 32"
  obtains m' h' n extra where "insert_bootargs m h max_size at args = (Ok (fh_totalsize h'), m')"
    "fdt_holds m' h' (A @ ChildItem nm (X @ PropItem n (args @ [0]) # Y) # B) (strs @ extra)"
    "str_at (strs @ extra) n = chars ''bootargs''" "fh_totalsize h' \<le> max_size" "\<And>x. x \<ge> max_size \<Longrightarrow> m' x = m x"
proof -
  note hd = fdt_holdsD [OF h]
  define r where "r = find_in_strings m (fh_off_strings h) (fh_size_strings h) (chars ''bootargs'')"
  define n where "n = (case r of Some n \<Rightarrow> n | None \<Rightarrow> length strs)"
  define extra where "extra = (case r of Some n \<Rightarrow> [] | None \<Rightarrow> cstr ''bootargs'')"
  define new where "new = prop_bytes n (args @ [0])"
  define tot where "tot = fh_totalsize h + length new + length extra"
  have e: "length extra \<le> 9" "extra = [] \<or> last extra = 0"
    by (auto simp: extra_def cstr_def split: option.split)
  have l: "length new = 12 + align4 (length args + 1)"
    by (simp add: new_def length_prop_bytes)
  have n: "n < length strs + length extra" "str_at (strs @ extra) n = chars ''bootargs''"
    using find_in_strings_Some [of m "fh_off_strings h" strs "''bootargs''" n] hd(6,8,12) zero_notin_chars(1)
      str_at_append [of strs n extra] str_at_appended [of "''bootargs''" strs]
    by (auto simp: n_def extra_def r_def cstr_def split: option.splits)
  have "length (prop_bytes n (args @ [0])) \<le> tot" "tot \<le> max_size" "tot < 2 ^ 32"
    using l sz e(1) by (simp_all add: tot_def new_def)
  then have v: "length args + 1 < 2 ^ 32"
    using align4_ge [of "length args + 1"] by (simp add: length_prop_bytes)
  let ?items = "A @ ChildItem nm (X @ PropItem n (args @ [0]) # Y) # B"
  have ok: "items_ok (length strs + length extra) ?items"
    using hd(7) n(1) v items_ok_mono [of "length strs" _ "length strs + length extra"] by (simp add: i)
  have b: "struct_block items = before_child A nm X @ behind_child Y B" "struct_block ?items = before_child A nm X @ new @ behind_child Y B"
    using struct_block_child [of A nm X Y B] struct_block_child [of A nm X "PropItem n (args @ [0]) # Y" B]
    by (simp_all add: i behind_child_def new_def)
  have a: "40 \<le> at" "at \<le> fh_totalsize h"
    using hd(4,9,11,13) b(1) by (simp_all add: at)
  note eq = insert_bootargs_eq [OF a(2), where tot = tot and args = args and extra = extra and max_size = max_size and m = m and n = n and new = new]
  show thesis
  proof (rule that)
    show "insert_bootargs m h max_size at args = (Ok (fh_totalsize (h\<lparr>fh_totalsize := tot, fh_size_struct := fh_size_struct h + length new,
      fh_off_strings := fh_off_strings h + length new, fh_size_strings := fh_size_strings h + length extra\<rparr>)),
        write_header_fields (poke (insert_at m at new (fh_totalsize h))
        (fh_off_strings h + length new + fh_size_strings h) extra) tot (fh_size_struct h + length new)
        (fh_off_strings h + length new) (fh_size_strings h + length extra))"
      using eq \<open>tot \<le> max_size\<close> l hd(12)
      by (simp add: tot_def new_def n_def extra_def r_def split: option.splits)
    show "fdt_holds (write_header_fields (poke (insert_at m at new (fh_totalsize h))
        (fh_off_strings h + length new + fh_size_strings h) extra) tot (fh_size_struct h + length new)
        (fh_off_strings h + length new) (fh_size_strings h + length extra)) (h\<lparr>fh_totalsize := tot, fh_size_struct := fh_size_struct h + length new,
      fh_off_strings := fh_off_strings h + length new, fh_size_strings := fh_size_strings h + length extra\<rparr>) ?items (strs @ extra)"
      by (rule insert_holds [OF h b tot_def \<open>tot < 2 ^ 32\<close> ok e(2)]) (simp add: at)
    show "fh_totalsize (h\<lparr>fh_totalsize := tot, fh_size_struct := fh_size_struct h + length new,
      fh_off_strings := fh_off_strings h + length new, fh_size_strings := fh_size_strings h + length extra\<rparr>) \<le> max_size"
      using \<open>tot \<le> max_size\<close> by simp
    show "write_header_fields (poke (insert_at m at new (fh_totalsize h))
        (fh_off_strings h + length new + fh_size_strings h) extra) tot (fh_size_struct h + length new)
        (fh_off_strings h + length new) (fh_size_strings h + length extra) x = m x" if "max_size \<le> x" for x
      using that \<open>tot \<le> max_size\<close> by (intro inserted_outside [OF _ a(2) tot_def a(1) hd(13)]) simp
  qed (rule n(2))
qed

section \<open>The whole operation\<close>

lemma set_bootargs_eq:
  assumes h: "fdt_holds m h items strs" and i: "items = A @ ChildItem (chars ''chosen'') body # B"
    and B: "[chars ''chosen''] \<notin> set (tree_nodes [] B)"
    and off: "off = fh_off_struct h + length (before_child A (chars ''chosen'') [])"
    and v: "chosen_visits m (fh_off_strings h) 0 off body (None, off) = (existing, insert_off)"
  shows "fdt_set_bootargs m max_size args =
    (case existing of
       None \<Rightarrow> Some (insert_bootargs m h max_size insert_off args)
     | Some (prop_off, old_len) \<Rightarrow>
         if length args + 1 \<le> old_len
         then Some (Ok (fh_totalsize h), overwrite_bootargs m prop_off old_len args)
         else Some (insert_bootargs (nop_out m prop_off (align4 (12 + old_len) div 4)) h max_size insert_off args))"
proof -
  note hd = fdt_holdsD [OF h]
  let ?c = "fh_off_struct h + length (node_header []) + length (flats A)"
  have c: "bytes_at m ?c (node_header (chars ''chosen''))"
    using hd(5) by (simp add: struct_block_def i add.assoc)
  have d: "4 dvd ?c"
    using hd(3) flats_dvd [of A] by (simp add: length_node_header)
  note n = header_at [OF c zero_notin_chars(2)]
  have o: "off = ?c + length (node_header (chars ''chosen''))"
    by (simp add: off before_child_def)
  have k: "skip_node_name m (?c + 4) = Some (?c + 4 + length (chars ''chosen'') + 1)"
    "align4 (?c + 4 + length (chars ''chosen'') + 1) = off"
    using n(2) n(4) [OF d] o by simp_all
  show ?thesis
    unfolding fdt_set_bootargs_def Let_def hd(2) using hd(1)
      scan_chosen_holds [OF h i o] v
    by (simp only: not_True_eq_False if_False simp_thms find_chosen_holds [OF h i B] Option.bind.bind_lunit rbind.simps ok_or.simps
        result.case k prod.case) 
qed

lemma tree_props_other:
  "[nm] \<notin> set (tree_nodes [] is) \<Longrightarrow> (q, n, v) \<in> set (tree_props strs [] is) \<Longrightarrow> q \<noteq> [nm]"
proof (induction "is")
  case (Cons i "is")
  have "q \<noteq> [nm]" if "(q, n, v) \<in> set (item_props strs [] i)"
  proof (cases i)
    case (ChildItem c its)
    then show ?thesis
      using that Cons.prems(1) tree_props_prefix [of q n v strs "[c]" its] by auto
  qed (use that in auto)
  then show ?case
    using Cons by auto
qed simp

lemma filter_own:
  "filter (\<lambda>(q, n, v). q = [nm] \<and> n = a) (tree_props strs [nm] body) =
    map (\<lambda>i. case i of PropItem n v \<Rightarrow> ([nm], a, v)) (filter (prop_named strs a) body)"
proof (induction body)
  case (Cons i body)
  have "filter (\<lambda>(q, n, v). q = [nm] \<and> n = a) (tree_props strs [nm, c] its) = []" for c its
    using tree_props_prefix [where p = "[nm, c]"] by (fastforce simp: filter_empty_conv)
  then show ?case
    using Cons by (cases i) auto
qed simp

lemma filter_child:
  assumes "[nm] \<notin> set (tree_nodes [] A)" "[nm] \<notin> set (tree_nodes [] B)"
  shows "filter (\<lambda>(q, n, v). q = [nm] \<and> n = a) (tree_props strs [] (A @ ChildItem nm body # B)) =
    map (\<lambda>i. case i of PropItem n v \<Rightarrow> ([nm], a, v)) (filter (prop_named strs a) body)"
proof -
  have "filter (\<lambda>(q, n, v). q = [nm] \<and> n = a) (tree_props strs [] xs) = []" if "[nm] \<notin> set (tree_nodes [] xs)" for xs
    using tree_props_other [OF that] by (auto simp: filter_empty_conv)
  then show ?thesis
    using assms filter_own [of nm a strs body] by simp
qed

lemma named_split:
  assumes "length (filter P xs) \<le> 1"
  obtains "list_all (\<lambda>x. \<not> P x) xs"
  | ys x zs where "xs = ys @ x # zs" "P x" "list_all (\<lambda>x. \<not> P x) ys" "list_all (\<lambda>x. \<not> P x) zs"
proof (cases "list_all (\<lambda>x. \<not> P x) xs")
  case False
  then obtain x where "x \<in> set xs" "P x"
    by (auto simp: list_all_iff)
  then obtain ys zs where s: "xs = ys @ x # zs"
    by (meson split_list)
  then have "filter P ys = []" "filter P zs = []"
    using assms \<open>P x\<close> by simp_all
  then show ?thesis
    using that(2) [OF s \<open>P x\<close>] by (simp add: filter_empty_conv list_all_iff)
qed (rule that(1))

text \<open>A patch replaces the direct items of one node and keeps those that are not named \<open>a\<close>.\<close>

definition bootargs_set :: "bytes \<Rightarrow> bytes \<Rightarrow> bytes \<Rightarrow> bytes \<Rightarrow> item list \<Rightarrow> bytes \<Rightarrow> item list \<Rightarrow> bool" where
  "bootargs_set nm a v strs items strs' items' \<longleftrightarrow>
     filter (\<lambda>(q, n, w). q = [nm] \<and> n = a) (tree_props strs' [] items') = [([nm], a, v)] \<and>
     filter (\<lambda>(q, n, w). \<not> (q = [nm] \<and> n = a)) (tree_props strs' [] items') =
       filter (\<lambda>(q, n, w). \<not> (q = [nm] \<and> n = a)) (tree_props strs [] items) \<and>
     tree_nodes [] items' = tree_nodes [] items"

lemma no_named: "list_all (\<lambda>i. \<not> prop_named strs a i) xs \<Longrightarrow> filter (prop_named strs a) xs = []"
  by (simp add: filter_empty_conv list_all_iff)

lemma named_append:
  "items_ok (length strs) is \<Longrightarrow> strs = [] \<or> last strs = 0 \<Longrightarrow> filter (prop_named (strs @ extra) a) is = filter (prop_named strs a) is"
proof (induction "is")
  case (Cons i "is")
  then show ?case
    using str_at_append [of strs _ extra] by (cases i; cases "strs = []") auto
qed simp

lemma bootargs_set_inserted:
  assumes h: "items_ok (length strs) (A @ ChildItem nm (X @ Y) # B)" "strs = [] \<or> last strs = 0"
    and AB: "[nm] \<notin> set (tree_nodes [] A)" "[nm] \<notin> set (tree_nodes [] B)"
    and n: "str_at (strs @ extra) n = a" and none: "list_all (\<lambda>i. \<not> prop_named strs a i) (X @ Y)"
  shows "bootargs_set nm a v strs (A @ ChildItem nm (X @ Y) # B) (strs @ extra) (A @ ChildItem nm (X @ PropItem n v # Y) # B)"
proof -
  have ok: "items_ok (length strs) A" "items_ok (length strs) B" "items_ok (length strs) X" "items_ok (length strs) Y"
    using h(1) by simp_all
  have t: "tree_props (strs @ extra) p xs = tree_props strs p xs" "filter (prop_named (strs @ extra) a) xs = filter (prop_named strs a) xs"
    if "items_ok (length strs) xs" for p xs
    using props_strs_append [OF that h(2)] named_append [OF that h(2)] by auto
  have "filter (\<lambda>(q, n, w). q = [nm] \<and> n = a) (tree_props (strs @ extra) [] (A @ ChildItem nm (X @ PropItem n v # Y) # B)) = [([nm], a, v)]"
    unfolding filter_child [OF AB] using none n by (simp add: t ok no_named)
  then show ?thesis
    by (simp add: bootargs_set_def t ok n)
qed

lemma bootargs_set_replaced:
  assumes "[nm] \<notin> set (tree_nodes [] A)" "[nm] \<notin> set (tree_nodes [] B)" "str_at strs n = a"
    and "list_all (\<lambda>i. \<not> prop_named strs a i) X" "list_all (\<lambda>i. \<not> prop_named strs a i) Y"
  shows "bootargs_set nm a v strs (A @ ChildItem nm (X @ PropItem n w # Y) # B) strs (A @ ChildItem nm (X @ PropItem n v # Y) # B)"
proof -
  have "filter (\<lambda>(q, n, w). q = [nm] \<and> n = a) (tree_props strs [] (A @ ChildItem nm (X @ PropItem n v # Y) # B)) = [([nm], a, v)]"
    unfolding filter_child [OF assms(1,2)] using assms(3-5) by (simp add: no_named)
  then show ?thesis
    by (simp add: bootargs_set_def assms(3))
qed

lemma bootargs_set_nops:
  assumes "bootargs_set nm a v strs (A @ ChildItem nm (X @ replicate k NopItem @ Y) # B) strs' items'" "str_at strs n = a"
  shows "bootargs_set nm a v strs (A @ ChildItem nm (X @ PropItem n w # Y) # B) strs' items'"
  using assms by (simp add: bootargs_set_def)

lemma bootargs_replaced:
  assumes h: "fdt_holds m h items strs" and i: "items = A @ ChildItem nm (X @ PropItem n v # Y) # B"
    and at: "at = fh_off_struct h + length (before_child A nm X)"
    and fits: "length args + 1 \<le> length v" "align4 (length args + 1) = align4 (length v)"
  shows "fdt_holds (overwrite_bootargs m at (length v) args) h (A @ ChildItem nm (X @ PropItem n (args @ [0]) # Y) # B) strs"
proof -
  note hd = fdt_holdsD [OF h]
  have b: "struct_block items = before_child A nm X @ prop_bytes n v @ behind_child Y B"
      "struct_block (A @ ChildItem nm (X @ PropItem n (args @ [0]) # Y) # B) = before_child A nm X @ prop_bytes n (args @ [0]) @ behind_child Y B"
    using struct_block_child [of A nm X "PropItem n v # Y" B] struct_block_child [of A nm X "PropItem n (args @ [0]) # Y" B]
    by (simp_all add: i behind_child_def)
  have "bytes_at m at (prop_bytes n v)"
    using hd(5) by (simp add: b(1) at)
  from overwrite_poke [OF this fits(1)] show ?thesis
    using replace_holds [OF h b] fits hd(7) by (simp add: at i length_prop_bytes)
qed

lemma nops_replaced:
  assumes h: "fdt_holds m h items strs" and i: "items = A @ ChildItem nm (X @ PropItem n v # Y) # B"
    and at: "at = fh_off_struct h + length (before_child A nm X)" and k: "k = align4 (12 + length v) div 4"
  shows "fdt_holds (nop_out m at k) h (A @ ChildItem nm (X @ replicate k NopItem @ Y) # B) strs"
proof -
  note hd = fdt_holdsD [OF h]
  have b: "struct_block items = before_child A nm X @ prop_bytes n v @ behind_child Y B"
      "struct_block (A @ ChildItem nm (X @ replicate k NopItem @ Y) # B) =
        before_child A nm X @ flats (replicate k NopItem) @ behind_child Y B"
    using struct_block_child [of A nm X "PropItem n v # Y" B] struct_block_child [of A nm X "replicate k NopItem @ Y" B]
    by (simp_all add: i behind_child_def)
  have "4 * k = length (prop_bytes n v)"
    using align4_12 [of "length v"] align4_dvd [of "12 + length v"] by (simp add: k length_prop_bytes)
  then show ?thesis
    using replace_holds [OF h b] hd(7) by (simp add: at i nop_out_poke)
qed

lemma child_prop_bounds:
  assumes h: "fdt_holds m h items strs" and i: "items = A @ ChildItem nm (X @ PropItem n v # Y) # B"
    and at: "at = fh_off_struct h + length (before_child A nm X)"
  shows "bytes_at m at (prop_bytes n v)" "at + 12 + align4 (length v) \<le> fh_totalsize h" "n < length strs" "length v < 2 ^ 32"
proof -
  note hd = fdt_holdsD [OF h]
  have b: "struct_block items = before_child A nm X @ prop_bytes n v @ behind_child Y B"
    using struct_block_child [of A nm X "PropItem n v # Y" B] by (simp add: i behind_child_def)
  show "bytes_at m at (prop_bytes n v)" "at + 12 + align4 (length v) \<le> fh_totalsize h"
    using hd(5,9,11,13) by (simp_all add: b at length_prop_bytes)
  show "n < length strs" "length v < 2 ^ 32"
    using hd(7) by (simp_all add: i)
qed

text \<open>The three ways in which the operation ends well, for a node that is there once.\<close>

lemma set_bootargs_holds:
  assumes h: "fdt_holds m h items strs" and i: "items = A @ ChildItem nm body # B" and nm: "nm = chars ''chosen''"
    and AB: "[nm] \<notin> set (tree_nodes [] A)" "[nm] \<notin> set (tree_nodes [] B)"
    and one: "length (filter (prop_named strs a) body) \<le> 1" and a: "a = chars ''bootargs''"
    and fits: "\<And>n v. PropItem n v \<in> set body \<Longrightarrow> str_at strs n = a \<Longrightarrow> length args + 1 \<le> length v \<Longrightarrow>
      align4 (length args + 1) = align4 (length v)"
    and sz: "fh_totalsize h + 12 + align4 (length args + 1) + 9 \<le> max_size" "max_size < 2 ^ 32"
  shows "\<exists>m' h' items' strs'. fdt_set_bootargs m max_size args = Some (Ok (fh_totalsize h'), m') \<and>
    fdt_holds m' h' items' strs' \<and> fh_totalsize h' \<le> max_size \<and> bootargs_set nm a (args @ [0]) strs items strs' items' \<and>
    (\<forall>x \<ge> max_size. m' x = m x)"
proof -
  note hd = fdt_holdsD [OF h]
  define off where "off = fh_off_struct h + length (before_child A nm [])"
  obtain X Y where XY: "body = X @ Y" "list_all (\<lambda>i. \<not> is_prop i) Y" "X = [] \<or> is_prop (last X)"
    using split_last_prop by blast
  define at where "at = fh_off_struct h + length (before_child A nm X)"
  have ok: "items_ok (length strs) body"
    using hd(7) by (simp add: i)
  have ins: "snd (chosen_visits m (fh_off_strings h) 0 off body (None, off)) = at"
    using chosen_visits_snd [OF XY(3,2)] by (simp add: XY(1) at_def off_def before_child_def)
  note eq = set_bootargs_eq [OF h i [unfolded nm] AB(2) [unfolded nm] off_def [unfolded nm]]
  note old = chosen_visits_existing [OF hd(8,6) ok] and found = chosen_visits_found [OF hd(8,6)]
  from one show ?thesis
  proof (cases rule: named_split)
    case 1
    then have "fst (chosen_visits m (fh_off_strings h) 0 off body (None, off)) = None"
      using old a by simp
    then have "chosen_visits m (fh_off_strings h) 0 off body (None, off) = (None, at)"
      using ins by (metis prod.collapse)
    from eq [OF this] have e: "fdt_set_bootargs m max_size args = Some (insert_bootargs m h max_size at args)"
      by simp
    obtain m' h' n extra where r: "insert_bootargs m h max_size at args = (Ok (fh_totalsize h'), m')"
        "fdt_holds m' h' (A @ ChildItem nm (X @ PropItem n (args @ [0]) # Y) # B) (strs @ extra)"
        "str_at (strs @ extra) n = chars ''bootargs''" "fh_totalsize h' \<le> max_size" "\<And>x. x \<ge> max_size \<Longrightarrow> m' x = m x"
      by (rule insert_bootargs_holds [OF h i [unfolded XY(1)] at_def sz]) blast
    have "bootargs_set nm a (args @ [0]) strs items (strs @ extra) (A @ ChildItem nm (X @ PropItem n (args @ [0]) # Y) # B)"
      using bootargs_set_inserted [OF hd(7) [unfolded i XY(1)] hd(8) AB _ 1 [unfolded XY(1)]] r(3) by (simp add: i XY(1) a)
    then show ?thesis
      using e r by auto
  next
    case (2 X1 p X2)
    obtain n v where p: "p = PropItem n v" "str_at strs n = a"
      using 2(2) by (cases p) auto
    define po where "po = fh_off_struct h + length (before_child A nm X1)"
    have i2: "items = A @ ChildItem nm (X1 @ PropItem n v # X2) # B"
      by (simp add: i 2(1) p(1))
    note b = child_prop_bounds [OF h i2 po_def]
    have "fst (chosen_visits m (fh_off_strings h) 0 off body (None, off)) = Some (po, length v)"
      using found [of X1 n v X2 off] ok 2 p a by (simp add: po_def off_def before_child_def)
    then have "chosen_visits m (fh_off_strings h) 0 off body (None, off) = (Some (po, length v), at)"
      using ins by (metis prod.collapse)
    note e = eq [OF this, of max_size args, unfolded option.case prod.case]
    show ?thesis
    proof (cases "length args + 1 \<le> length v")
      case True
      have al: "align4 (length args + 1) = align4 (length v)"
        using fits [of n v] True 2(1) p by simp
      have "overwrite_bootargs m po (length v) args x = m x" if "max_size \<le> x" for x
        using that b(2) sz(1) al overwrite_poke [OF b(1) True] by (simp add: poke_outside length_prop_bytes)
      moreover note bootargs_replaced [OF h i2 po_def True al] bootargs_set_replaced [OF AB p(2) 2(3,4), of "args @ [0]" v]
      ultimately show ?thesis
        using e True sz(1) i2
        by (intro exI [of _ "overwrite_bootargs m po (length v) args"] exI [of _ h] exI [of _ strs]
            exI [of _ "A @ ChildItem nm (X1 @ PropItem n (args @ [0]) # X2) # B"]) simp
    next
      case False
      define k where "k = align4 (12 + length v) div 4"
      have "PropItem n v \<in> set X"
        using XY(1,2) 2(1) p(1) by (auto simp: list_all_iff append_eq_append_conv2 Cons_eq_append_conv)
      then have "\<exists>X3. X = X1 @ PropItem n v # X3 \<and> X2 = X3 @ Y"
        using XY(1,2) 2(1) p(1) by (auto simp: append_eq_append_conv2 Cons_eq_append_conv)
      then obtain X3 where X3: "X = X1 @ PropItem n v # X3" "X2 = X3 @ Y"
        by blast
      have h1: "fdt_holds (nop_out m po k) h (A @ ChildItem nm ((X1 @ replicate k NopItem @ X3) @ Y) # B) strs"
        using nops_replaced [OF h i2 po_def k_def] X3(2) by simp
      have k4: "4 * k = length (prop_bytes n v)"
        using align4_12 [of "length v"] align4_dvd [of "12 + length v"] by (simp add: k_def length_prop_bytes)
      have at1: "at = fh_off_struct h + length (before_child A nm (X1 @ replicate k NopItem @ X3))"
        using k4 by (simp add: at_def X3(1) before_child_def)
      have out: "nop_out m po k x = m x" if "max_size \<le> x" for x
        using that b(2) sz(1) k4 by (simp add: nop_out_poke poke_outside length_prop_bytes)
      have none: "list_all (\<lambda>i. \<not> prop_named strs a i) ((X1 @ replicate k NopItem @ X3) @ Y)"
        using 2(3,4) X3(2) by (auto simp: list_all_iff)
      let ?X = "X1 @ replicate k NopItem @ X3"
      obtain m' h' n' extra where r: "insert_bootargs (nop_out m po k) h max_size at args = (Ok (fh_totalsize h'), m')"
          "fdt_holds m' h' (A @ ChildItem nm (?X @ PropItem n' (args @ [0]) # Y) # B) (strs @ extra)"
          "str_at (strs @ extra) n' = chars ''bootargs''" "fh_totalsize h' \<le> max_size"
          "\<And>x. x \<ge> max_size \<Longrightarrow> m' x = nop_out m po k x"
        by (rule insert_bootargs_holds [OF h1 refl at1 sz]) blast
      have "bootargs_set nm a (args @ [0]) strs (A @ ChildItem nm (?X @ Y) # B) (strs @ extra)
          (A @ ChildItem nm (?X @ PropItem n' (args @ [0]) # Y) # B)"
        using r(3) by (intro bootargs_set_inserted [OF fdt_holdsD(7) [OF h1] hd(8) AB _ none]) (simp add: a)
      then have "bootargs_set nm a (args @ [0]) strs items (strs @ extra) (A @ ChildItem nm (?X @ PropItem n' (args @ [0]) # Y) # B)"
        unfolding i2 X3(2) by (intro bootargs_set_nops [OF _ p(2), where k = k]) simp
      then show ?thesis
        using e False r out by (auto simp: k_def)
    qed
  qed
qed

lemma child_props:
  assumes "[nm] \<notin> set (tree_nodes [] A)" "[nm] \<notin> set (tree_nodes [] B)" "PropItem n v \<in> set body" "str_at strs n = a"
  shows "([nm], a, v) \<in> set (tree_props strs [] (A @ ChildItem nm body # B))"
proof -
  have "([nm], a, v) \<in> set (map (\<lambda>i. case i of PropItem n v \<Rightarrow> ([nm], a, v)) (filter (prop_named strs a) body))"
    using assms(3,4) by force
  then show ?thesis
    unfolding filter_child [OF assms(1,2), symmetric] by simp
qed

text \<open>
  C10: on a well-formed blob with one \<open>/chosen\<close> node and at most one \<open>bootargs\<close> property in it, and room in the buffer,
  setting the boot arguments returns the new size of the blob and leaves a well-formed blob in which \<open>/chosen/bootargs\<close> is
  the new value, every other property of every node is unchanged and the nodes are the same; nothing is written
  behind the buffer. An old value that is long enough for the new one must occupy as many words as the new one.
\<close>

theorem fdt_set_bootargs_spec:
  assumes "fdt_holds m h items strs" and "filter (\<lambda>q. q = [chars ''chosen'']) (tree_nodes [] items) = [[chars ''chosen'']]"
    and "length (filter (\<lambda>(q, n, v). q = [chars ''chosen''] \<and> n = chars ''bootargs'') (tree_props strs [] items)) \<le> 1"
    and "\<And>v. ([chars ''chosen''], chars ''bootargs'', v) \<in> set (tree_props strs [] items) \<Longrightarrow> length args + 1 \<le> length v \<Longrightarrow>
      align4 (length args + 1) = align4 (length v)"
    and "fh_totalsize h + 12 + align4 (length args + 1) + 9 \<le> max_size" "max_size < 2 ^ 32"
  shows "\<exists>m' h' items' strs'. fdt_set_bootargs m max_size args = Some (Ok (fh_totalsize h'), m') \<and>
    fdt_holds m' h' items' strs' \<and> fh_totalsize h' \<le> max_size \<and>
    filter (\<lambda>(q, n, w). q = [chars ''chosen''] \<and> n = chars ''bootargs'') (tree_props strs' [] items') =
      [([chars ''chosen''], chars ''bootargs'', args @ [0])] \<and>
    filter (\<lambda>(q, n, w). \<not> (q = [chars ''chosen''] \<and> n = chars ''bootargs'')) (tree_props strs' [] items') =
      filter (\<lambda>(q, n, w). \<not> (q = [chars ''chosen''] \<and> n = chars ''bootargs'')) (tree_props strs [] items) \<and>
    tree_nodes [] items' = tree_nodes [] items \<and> (\<forall>x \<ge> max_size. m' x = m x)"
proof -
  obtain A body B where i: "items = A @ ChildItem (chars ''chosen'') body # B"
      and AB: "[chars ''chosen''] \<notin> set (tree_nodes [] A)" "[chars ''chosen''] \<notin> set (tree_nodes [] B)"
    using split_child [OF assms(2)] by metis
  have one: "length (filter (prop_named strs (chars ''bootargs'')) body) \<le> 1"
    using assms(3) unfolding i filter_child [OF AB] by simp
  have al: "align4 (length args + 1) = align4 (length v)"
    if "PropItem n v \<in> set body" "str_at strs n = chars ''bootargs''" "length args + 1 \<le> length v" for n v
    using assms(4) [OF child_props [OF AB that(1,2), folded i] that(3)] .
  have "\<exists>m' h' items' strs'. fdt_set_bootargs m max_size args = Some (Ok (fh_totalsize h'), m') \<and>
    fdt_holds m' h' items' strs' \<and> fh_totalsize h' \<le> max_size \<and>
    bootargs_set (chars ''chosen'') (chars ''bootargs'') (args @ [0]) strs items strs' items' \<and> (\<forall>x \<ge> max_size. m' x = m x)"
    by (rule set_bootargs_holds [OF assms(1) i refl AB one refl al assms(5,6)])
  then show ?thesis
    unfolding bootargs_set_def conj_assoc .
qed

lemma find_chosen_corrupt:
  assumes b: "bytes_at m off (before_child A nm X @ prop_bytes n v @ replicate 4 0)" and d: "4 dvd off"
    and lim: "off + length (before_child A nm X @ prop_bytes n v @ replicate 4 (0 :: u8)) \<le> struct_end"
    and ok: "items_ok k A" "items_ok k X" "0 \<notin> set nm" "n < k" "length v < 2 ^ 32" "k \<le> 2 ^ 32"
  shows "find_chosen m struct_end off 0 c = Some (Err StructureCorrupt)"
proof -
  define o1 o2 o3 o4 o5 where o: "o1 = off + length (node_header [])" "o2 = o1 + length (flats A)"
    "o3 = o2 + length (node_header nm)" "o4 = o3 + length (flats X)" "o5 = o4 + length (prop_bytes n v)"
  have at: "bytes_at m off (node_header [])" "bytes_at m o1 (flats A)" "bytes_at m o2 (node_header nm)" "bytes_at m o3 (flats X)"
      "bytes_at m o4 (prop_bytes n v)" "bytes_at m o5 (replicate 4 0)"
    using b by (simp_all add: before_child_def o add.assoc)
  have dv: "4 dvd o1" "4 dvd o2" "4 dvd o3" "4 dvd o4"
    using d flats_dvd [of A] flats_dvd [of X] by (simp_all add: o length_node_header)
  have le: "off < struct_end" "o1 + length (flats A) \<le> struct_end" "o2 < struct_end" "o3 + length (flats X) \<le> struct_end"
      "o4 < struct_end" "o5 < struct_end"
    using lim by (simp_all add: before_child_def o length_node_header)
  have "le_enc j 0 = replicate j 0" for j
    by (induction j) simp_all
  then have "replicate 4 (0 :: u8) = to_be_bytes (0 :: u32)"
    by (simp add: to_be_bytes_def to_le_bytes_def)
  then have "read_be32 m o5 = 0"
    using read_be32_at [of m o5 0] at(6) by simp
  then have z: "find_chosen m struct_end o5 e s = Some (Err StructureCorrupt)" for e s
    using le(6) by (subst find_chosen.simps)
      (simp add: FDT_BEGIN_NODE_def FDT_END_NODE_def FDT_PROP_def FDT_NOP_def FDT_END_def)
  have "n < 2 ^ 32"
    using ok(4,6) by simp
  note w5 = find_walk.walk_prop [OF at(5) dv(4) le(5) this ok(5), folded o, unfolded z]
    and w4 = find_walk.walk_items [OF at(4) dv(3) le(4) ok(2,6), folded o]
  note w3 = find_walk.walk_begin [OF at(3) dv(2) le(3) ok(3), folded o]
    and w2 = find_walk.walk_items [OF at(2) dv(1) le(2) ok(1,6), folded o]
  show ?thesis
    using find_walk.walk_begin [OF at(1) d le(1), folded o, of 0 c] by (simp only: set_simps empty_iff not_False_eq_True w2 w3 w4 w5 simp_thms)
qed

text \<open>
  C37: a value that fits into the old one but takes fewer words breaks the blob: the operation reports success, but the old
  value's spare words stay in the structure block as zeros, which is no token, and the next call on the
  blob fails with \<open>StructureCorrupt\<close>.
\<close>

theorem fdt_set_bootargs_shorter_corrupts:
  assumes "fdt_holds m h items strs" and "filter (\<lambda>q. q = [chars ''chosen'']) (tree_nodes [] items) = [[chars ''chosen'']]"
    and "filter (\<lambda>(q, n, v). q = [chars ''chosen''] \<and> n = chars ''bootargs'') (tree_props strs [] items) =
      [([chars ''chosen''], chars ''bootargs'', old)]"
    and "length args + 1 \<le> length old" "align4 (length args + 1) < align4 (length old)"
  shows "\<exists>m'. fdt_set_bootargs m max_size args = Some (Ok (fh_totalsize h), m') \<and>
    fdt_set_bootargs m' max_size args' = Some (Err StructureCorrupt, m')"
proof -
  note hd = fdt_holdsD [OF assms(1)]
  obtain A body B where i: "items = A @ ChildItem (chars ''chosen'') body # B"
      and AB: "[chars ''chosen''] \<notin> set (tree_nodes [] A)" "[chars ''chosen''] \<notin> set (tree_nodes [] B)"
    using split_child [OF assms(2)] by metis
  have f: "map (\<lambda>i. case i of PropItem n v \<Rightarrow> ([chars ''chosen''], chars ''bootargs'', v)) (filter (prop_named strs (chars ''bootargs'')) body) =
      [([chars ''chosen''], chars ''bootargs'', old)]"
    using assms(3) unfolding i filter_child [OF AB] .
  obtain X n Y where b: "body = X @ PropItem n old # Y" "str_at strs n = chars ''bootargs''" "list_all (\<lambda>i. \<not> prop_named strs (chars ''bootargs'') i) Y"
  proof -
    obtain p where p: "filter (prop_named strs (chars ''bootargs'')) body = [p]"
      "(case p of PropItem n v \<Rightarrow> ([chars ''chosen''], chars ''bootargs'', v)) = ([chars ''chosen''], chars ''bootargs'', old)"
      using f by (cases "filter (prop_named strs (chars ''bootargs'')) body") auto
    then obtain X Y where "body = X @ p # Y" "filter (prop_named strs (chars ''bootargs'')) Y = []" "prop_named strs (chars ''bootargs'') p"
      using p(1) by (auto simp: filter_eq_Cons_iff)
    then show thesis
      using that p(2) by (cases p) (auto simp: filter_empty_conv list_all_iff)
  qed
  have i2: "items = A @ ChildItem (chars ''chosen'') (X @ PropItem n old # Y) # B"
    by (simp add: i b(1))
  define off where "off = fh_off_struct h + length (before_child A (chars ''chosen'') [])"
  define po where "po = fh_off_struct h + length (before_child A (chars ''chosen'') X)"
  note cb = child_prop_bounds [OF assms(1) i2 po_def]
  have "fst (chosen_visits m (fh_off_strings h) 0 off body (None, off)) = Some (po, length old)"
    using chosen_visits_found [OF hd(8,6), of X n old Y off] hd(7) b by (simp add: i2 po_def off_def before_child_def)
  then have "chosen_visits m (fh_off_strings h) 0 off body (None, off) =
      (Some (po, length old), snd (chosen_visits m (fh_off_strings h) 0 off body (None, off)))"
    by (metis prod.collapse)
  from set_bootargs_eq [OF assms(1) i AB(2) off_def this]
  have r: "fdt_set_bootargs m max_size args = Some (Ok (fh_totalsize h), overwrite_bootargs m po (length old) args)"
    using assms(4) by simp
  let ?k = "align4 (length old) - align4 (length args + 1)" and ?v = "args @ [0 :: u8]"
  let ?m = "overwrite_bootargs m po (length old) args"
  have m: "?m = poke m po (prop_bytes n ?v @ replicate ?k 0)"
    by (rule overwrite_poke [OF cb(1) assms(4)])
  have "4 dvd ?k" "0 < ?k"
    using assms(5) by (simp_all add: dvd_diff_nat)
  then have "4 \<le> ?k"
    by (rule dvd_imp_le)
  then have k: "replicate ?k (0 :: u8) = replicate 4 0 @ replicate (?k - 4) 0" "4 \<le> ?k"
    by (simp_all add: replicate_add [symmetric])
  have "bytes_at ?m po (prop_bytes n ?v @ replicate 4 0)"
    using bytes_at_poke_same [of m po "prop_bytes n ?v @ replicate ?k 0"] unfolding m k(1) by simp
  moreover have "bytes_at ?m (fh_off_struct h) (before_child A (chars ''chosen'') X)"
    using hd(5) struct_block_child [of A "chars ''chosen''" X "PropItem n old # Y" B]
    unfolding m by (subst bytes_at_poke_other) (simp_all add: i2 disjoint_range_def po_def)
  ultimately have at: "bytes_at ?m (fh_off_struct h) (before_child A (chars ''chosen'') X @ prop_bytes n ?v @ replicate 4 0)"
    by (simp add: po_def add.assoc)
  have lim: "fh_off_struct h + length (before_child A (chars ''chosen'') X @ prop_bytes n ?v @ replicate 4 (0 :: u8)) \<le>
      fh_off_struct h + fh_size_struct h"
    using hd(9) struct_block_child [of A "chars ''chosen''" X "PropItem n old # Y" B] k(2)
    by (simp add: i2 behind_child_def length_prop_bytes)
  have ok: "items_ok (length strs) A" "items_ok (length strs) X" "length ?v < 2 ^ 32"
    using hd(7) cb(4) assms(4) by (simp_all add: i2)
  have "find_chosen ?m (fh_off_struct h + fh_size_struct h) (fh_off_struct h) 0 None = Some (Err StructureCorrupt)"
    by (rule find_chosen_corrupt [OF at hd(3) lim ok(1,2) zero_notin_chars(2) cb(3) ok(3) hd(10)])
  moreover have "40 \<le> po"
    using hd(4) by (simp add: po_def)
  then have "read_header ?m = h" "read_be32 ?m 0 = FDT_MAGIC"
    using read_header_poke [of po m] hd(1,2) unfolding m by simp_all
  ultimately have "fdt_set_bootargs ?m max_size args' = Some (Err StructureCorrupt, ?m)"
    by (simp add: fdt_set_bootargs_def Let_def)
  then show ?thesis
    using r by blast
qed

definition sample_strs :: bytes where
  "sample_strs = cstr ''bootargs''"

definition sample_items :: "bytes \<Rightarrow> item list" where
  "sample_items v = [ChildItem (chars ''chosen'') [PropItem 0 v]]"

lemma sample_tree:
  "tree_nodes [] (sample_items v) = [[chars ''chosen'']]"
  "tree_props sample_strs [] (sample_items v) = [([chars ''chosen''], chars ''bootargs'', v)]"
  by (simp_all add: sample_items_def sample_strs_def str_at_def cstr_def chars_def)

lemma sample_holds:
  assumes "length v = 9"
  shows "fdt_holds (fdt_image (sample_items v) sample_strs) (image_header (sample_items v) sample_strs) (sample_items v) sample_strs"
    "fh_totalsize (image_header (sample_items v) sample_strs) = 105"
proof -
  have "length (struct_block (sample_items v)) = 56"
    using assms by (simp add: struct_block_def sample_items_def length_node_header length_prop_bytes align4_def)
  moreover have "length sample_strs = 9" "last sample_strs = 0"
    by (simp_all add: sample_strs_def cstr_def)
  ultimately show "fdt_holds (fdt_image (sample_items v) sample_strs) (image_header (sample_items v) sample_strs) (sample_items v) sample_strs"
    "fh_totalsize (image_header (sample_items v) sample_strs) = 105"
    using assms by (auto intro!: image_holds simp: sample_items_def chars_def) (simp_all add: image_header_def sample_items_def)
qed

theorem fdt_set_bootargs_spec_witness:
  "\<exists>m' n. fdt_set_bootargs (fdt_image (sample_items (cstr ''loglevel'')) sample_strs) 4096 (chars ''loglevel=7'') = Some (Ok n, m')"
proof -
  have l: "length (cstr ''loglevel'') = 9"
    by (simp add: cstr_def)
  show ?thesis
    using fdt_set_bootargs_spec [OF sample_holds(1) [OF l], of "chars ''loglevel=7''" 4096]
    by (auto simp: sample_tree sample_holds(2) [OF l] align4_def l)
qed

theorem fdt_set_bootargs_shorter_corrupts_witness:
  "\<exists>m'. fdt_set_bootargs (fdt_image (sample_items (cstr ''loglevel'')) sample_strs) 4096 (chars ''ro'') = Some (Ok 105, m') \<and>
     fdt_set_bootargs m' 4096 (chars ''rw'') = Some (Err StructureCorrupt, m')"
proof -
  have l: "length (cstr ''loglevel'') = 9"
    by (simp add: cstr_def)
  show ?thesis
    using fdt_set_bootargs_shorter_corrupts [OF sample_holds(1) [OF l], of "cstr ''loglevel''" "chars ''ro''" 4096 "chars ''rw''"]
    by (auto simp: sample_tree sample_holds(2) [OF l] align4_def l)
qed

end
