(* ===== verification/Fdt_Memory.thy ===== *)
theory Fdt_Memory
  imports Fdt_Bootargs
begin

text \<open>What \<open>fdt_set_memory\<close> does to the tree: it updates the first memory node or creates one.\<close>

section \<open>What the walk finds\<close>

abbreviation memory_visits :: "memory \<Rightarrow> nat \<Rightarrow> nat \<Rightarrow> nat \<Rightarrow> item list \<Rightarrow> memory_walk \<Rightarrow> memory_walk" where
  "memory_visits m os \<equiv> visits (walk_prop_state m os)
     (\<lambda>d off nm w. if d = 2 \<and> memory_name nm \<and> wk_memory w = None then w\<lparr>wk_memory := Some off\<rparr> else w)
     (\<lambda>d off w. if d = 1 then w\<lparr>wk_root_end := Some off\<rparr> else w)"

abbreviation memory_visit :: "memory \<Rightarrow> nat \<Rightarrow> nat \<Rightarrow> nat \<Rightarrow> item \<Rightarrow> memory_walk \<Rightarrow> memory_walk" where
  "memory_visit m os \<equiv> visit (walk_prop_state m os)
     (\<lambda>d off nm w. if d = 2 \<and> memory_name nm \<and> wk_memory w = None then w\<lparr>wk_memory := Some off\<rparr> else w)
     (\<lambda>d off w. if d = 1 then w\<lparr>wk_root_end := Some off\<rparr> else w)"

lemma memory_visits_deep: "2 \<le> d \<Longrightarrow> memory_visits m os d off items w = w"
  by (rule visit_deep(2) [of 2]) (auto simp: walk_prop_state_def)

text \<open>The cell size that the root declares, one by default; the last declaration counts.\<close>

fun cells_step :: "bytes \<Rightarrow> bytes \<Rightarrow> item \<Rightarrow> u32 \<Rightarrow> u32" where
  "cells_step strs nm (PropItem n v) c = (if str_at strs n = nm \<and> length v = 4 then from_be_bytes v else c)"
| "cells_step strs nm _ c = c"

definition root_cell :: "bytes \<Rightarrow> bytes \<Rightarrow> item list \<Rightarrow> u32" where
  "root_cell strs nm items = fold (cells_step strs nm) items 1"

fun root_children :: "item list \<Rightarrow> bytes list" where
  "root_children [] = []"
| "root_children (ChildItem nm body # items) = nm # root_children items"
| "root_children (_ # items) = root_children items"

lemma memory_visit_1:
  assumes s: "strs = [] \<or> last strs = 0" "bytes_at m os strs" and ok: "item_ok (length strs) i"
  shows "wk_addr_cells (memory_visit m os 1 off i w) = cells_step strs (chars ''#address-cells'') i (wk_addr_cells w)"
    "wk_size_cells (memory_visit m os 1 off i w) = cells_step strs (chars ''#size-cells'') i (wk_size_cells w)"
    "wk_root_end (memory_visit m os 1 off i w) = wk_root_end w"
    "wk_memory (memory_visit m os 1 off i w) =
      (case i of ChildItem nm body \<Rightarrow> (if memory_name nm \<and> wk_memory w = None then Some off else wk_memory w) | _ \<Rightarrow> wk_memory w)"
proof -
  have ne: "chars ''#address-cells'' \<noteq> chars ''#size-cells''" "0 \<notin> set (chars ''#address-cells'')" "0 \<notin> set (chars ''#size-cells'')"
    by (simp_all add: chars_def)
  note nm = name_eq [OF s(1) _ s(2) ne(2)] name_eq [OF s(1) _ s(2) ne(3)]
  have "n < length strs \<Longrightarrow> walk_prop_state m os 1 off n v w =
      (if length v = 4
       then if str_at strs n = chars ''#address-cells'' then w\<lparr>wk_addr_cells := from_be_bytes v\<rparr>
            else if str_at strs n = chars ''#size-cells'' then w\<lparr>wk_size_cells := from_be_bytes v\<rparr> else w
       else w)" for n v
    by (simp add: walk_prop_state_def nm)
  note p = this
  have d: "memory_visits m os 2 off' items w' = w'" for off' items w'
    by (rule memory_visits_deep) simp
  note d' = d [unfolded numeral_2_eq_2]
  show "wk_addr_cells (memory_visit m os 1 off i w) = cells_step strs (chars ''#address-cells'') i (wk_addr_cells w)"
    using ok p ne(1) d' by (cases i) (auto simp: numeral_2_eq_2)
  show "wk_size_cells (memory_visit m os 1 off i w) = cells_step strs (chars ''#size-cells'') i (wk_size_cells w)"
    using ok p ne(1) d' by (cases i) (auto simp: numeral_2_eq_2)
  show "wk_root_end (memory_visit m os 1 off i w) = wk_root_end w"
    using ok p d' by (cases i) (auto simp: numeral_2_eq_2)
  show "wk_memory (memory_visit m os 1 off i w) =
      (case i of ChildItem nm body \<Rightarrow> (if memory_name nm \<and> wk_memory w = None then Some off else wk_memory w) | _ \<Rightarrow> wk_memory w)"
    using ok p d' by (cases i) (auto simp: numeral_2_eq_2)
qed

lemma memory_visits_cells:
  assumes s: "strs = [] \<or> last strs = 0" "bytes_at m os strs"
  shows "items_ok (length strs) items \<Longrightarrow>
    wk_addr_cells (memory_visits m os 1 off items w) = fold (cells_step strs (chars ''#address-cells'')) items (wk_addr_cells w) \<and>
    wk_size_cells (memory_visits m os 1 off items w) = fold (cells_step strs (chars ''#size-cells'')) items (wk_size_cells w) \<and>
    wk_root_end (memory_visits m os 1 off items w) = wk_root_end w"
proof (induction items arbitrary: off w)
  case (Cons i items)
  then show ?case
    using memory_visit_1 [OF s, of i off w] by simp
qed simp

lemma memory_visits_node:
  assumes s: "strs = [] \<or> last strs = 0" "bytes_at m os strs"
  shows "items_ok (length strs) items \<Longrightarrow> list_all (\<lambda>nm. \<not> memory_name nm) (root_children items) \<or> wk_memory w \<noteq> None \<Longrightarrow>
    wk_memory (memory_visits m os 1 off items w) = wk_memory w"
proof (induction items arbitrary: off w)
  case (Cons i items)
  have "wk_memory (memory_visit m os 1 off i w) = wk_memory w"
    using memory_visit_1(4) [OF s, of i off w] Cons.prems by (cases i) auto
  moreover have "list_all (\<lambda>nm. \<not> memory_name nm) (root_children items) \<or> wk_memory w \<noteq> None"
    using Cons.prems(2) by (cases i) auto
  ultimately show ?case
    using Cons.IH [of "memory_visit m os 1 off i w"] Cons.prems(1) by simp
qed simp

lemma root_children_append [simp]: "root_children (xs @ ys) = root_children xs @ root_children ys"
  by (induction xs rule: root_children.induct) auto

lemma memory_visits_found:
  assumes s: "strs = [] \<or> last strs = 0" "bytes_at m os strs"
    and ok: "items_ok (length strs) (A @ ChildItem nm body # B)" and nm: "memory_name nm"
    and A: "list_all (\<lambda>nm. \<not> memory_name nm) (root_children A)" and w: "wk_memory w = None"
  shows "wk_memory (memory_visits m os 1 off (A @ ChildItem nm body # B) w) = Some (off + length (flats A))"
proof -
  let ?w = "memory_visits m os 1 off A w"
  have a: "wk_memory ?w = None"
    using memory_visits_node [OF s, of A w off] ok A w by simp
  have "wk_memory (memory_visit m os 1 (off + length (flats A)) (ChildItem nm body) ?w) = Some (off + length (flats A))"
    using memory_visit_1(4) [OF s, of "ChildItem nm body" "off + length (flats A)" ?w] ok nm a by simp
  then show ?thesis
    using memory_visits_node [OF s, of B] ok by (simp add: visits_append)
qed

lemma walk_memory_holds:
  assumes h: "fdt_holds m h items strs"
  obtains w where "walk_memory m (fh_off_strings h) (fh_off_struct h + fh_size_struct h) (fh_off_struct h) 0
      \<lparr>wk_addr_cells = 1, wk_size_cells = 1, wk_memory = None, wk_root_end = None\<rparr> = Some (Ok w)"
    "wk_addr_cells w = root_cell strs (chars ''#address-cells'') items" "wk_size_cells w = root_cell strs (chars ''#size-cells'') items"
    "wk_root_end w = Some (fh_off_struct h + length (node_header []) + length (flats items))"
    "wk_memory w = wk_memory (memory_visits m (fh_off_strings h) 1 (fh_off_struct h + length (node_header [])) items
       \<lparr>wk_addr_cells = 1, wk_size_cells = 1, wk_memory = None, wk_root_end = None\<rparr>)"
proof -
  note hd = fdt_holdsD [OF h] and re = root_end [OF h]
  let ?init = "\<lparr>wk_addr_cells = 1, wk_size_cells = 1, wk_memory = None, wk_root_end = None\<rparr> :: memory_walk"
  let ?w = "memory_visit m (fh_off_strings h) 0 (fh_off_struct h) (ChildItem [] items) ?init"
  let ?v = "memory_visits m (fh_off_strings h) 1 (fh_off_struct h + length (node_header [])) items ?init"
  have w: "?w = (?v)\<lparr>wk_root_end := Some (fh_off_struct h + length (node_header []) + length (flats items))\<rparr>"
    by simp
  have at: "bytes_at m (fh_off_struct h) (flat (ChildItem [] items))"
    using hd(5) by (simp add: struct_block_def)
  have lim: "fh_off_struct h + length (flat (ChildItem [] items)) \<le> fh_off_struct h + fh_size_struct h"
    using re(2) by simp
  have ok: "item_ok (length strs) (ChildItem [] items)"
    using hd(7) by simp
  have "walk_memory m (fh_off_strings h) (fh_off_struct h + fh_size_struct h) (fh_off_struct h) 0 ?init =
      walk_memory m (fh_off_strings h) (fh_off_struct h + fh_size_struct h) (fh_off_struct h + length (flat (ChildItem [] items))) 0 ?w"
    by (rule memory_walk.walk_item [OF at hd(3) lim ok hd(10)])
  also have "\<dots> = Some (Ok ?w)"
    using read_be32_at [OF re(1)] re(2) by (subst walk_memory.simps) (simp add: Let_def token_consts)
  finally show thesis
    using that [of ?w] memory_visits_cells [OF hd(8,6,7), of "fh_off_struct h + length (node_header [])" ?init]
    unfolding w by (simp add: root_cell_def)
qed

section \<open>The names of the two properties\<close>

definition dt_name :: bytes where "dt_name = chars ''device_type''"
definition reg_name :: bytes where "reg_name = chars ''reg''"

lemma memory_names: "0 \<notin> set (chars ''device_type'')" "0 \<notin> set (chars ''reg'')" "dt_name \<noteq> reg_name"
  "length (cstr ''device_type'') = 12" "length (cstr ''reg'') = 4" "last (cstr ''device_type'') = 0" "last (cstr ''reg'') = 0"
  by (simp_all add: chars_def cstr_def dt_name_def reg_name_def)

lemma cstr_nonempty [simp]: "cstr s \<noteq> []"
  by (simp add: cstr_def)

lemma names_appended:
  assumes h: "fdt_holds m h items strs"
    and dt: "dt = find_in_strings m (fh_off_strings h) (fh_size_strings h) (chars ''device_type'')"
    and reg: "reg = find_in_strings m (fh_off_strings h) (fh_size_strings h) (chars ''reg'')"
    and o: "string_offsets (fh_size_strings h) dt reg = (dt_off, reg_off, add)"
    and e: "extra = (if dt = None then cstr ''device_type'' else []) @ (if reg = None then cstr ''reg'' else [])"
  shows "add = length extra" "dt_off < length strs + length extra" "str_at (strs @ extra) dt_off = dt_name"
    "reg_off < length strs + length extra" "str_at (strs @ extra) reg_off = reg_name" "dt_off \<ge> fh_size_strings h \<longleftrightarrow> dt = None"
    "reg_off \<ge> fh_size_strings h \<longleftrightarrow> reg = None" "extra = [] \<or> last extra = 0" "length extra \<le> 16"
    "append_names m' dest (dt = None) (reg = None) = poke m' dest extra"
proof -
  note hd = fdt_holdsD [OF h]
  have f: "n < length strs \<and> str_at (strs @ x) n = dt_name" if "dt = Some n" for n x
    using find_in_strings_Some [of m "fh_off_strings h" strs "''device_type''" n] that hd(6,8,12) memory_names(1)
      str_at_append [of strs n x] by (cases "strs = []") (auto simp: dt dt_name_def)
  have g: "n < length strs \<and> str_at (strs @ x) n = reg_name" if "reg = Some n" for n x
    using find_in_strings_Some [of m "fh_off_strings h" strs "''reg''" n] that hd(6,8,12) memory_names(2)
      str_at_append [of strs n x] by (cases "strs = []") (auto simp: reg reg_name_def)
  have a: "str_at (strs @ cstr ''device_type'') (length strs) = dt_name" "str_at (strs @ cstr ''reg'') (length strs) = reg_name"
    using str_at_appended [of "''device_type''" strs] str_at_appended [of "''reg''" strs] memory_names(1,2)
    by (simp_all add: dt_name_def reg_name_def)
  have b: "str_at (strs @ cstr ''device_type'' @ cstr ''reg'') (length strs) = dt_name"
    using str_at_append [of "strs @ cstr ''device_type''" "length strs" "cstr ''reg''"] a(1) memory_names(4,6)
    by (simp add: cstr_def)
  have c: "str_at (strs @ cstr ''device_type'' @ cstr ''reg'') (length strs + 12) = reg_name"
    using str_at_appended [of "''reg''" "strs @ cstr ''device_type''"] memory_names(2,4) by (simp add: reg_name_def)
  note l = memory_names(4-7)
  have v: "dt_off = (case dt of Some n \<Rightarrow> n | None \<Rightarrow> length strs)"
      "reg_off = (case reg of Some n \<Rightarrow> n | None \<Rightarrow> length strs + (if dt = None then 12 else 0))"
      "add = (if dt = None then 12 else 0) + (if reg = None then 4 else 0)"
    using o hd(12) by (cases dt; cases reg; simp add: string_offsets_def)+
  show "add = length extra" "length extra \<le> 16" "extra = [] \<or> last extra = 0"
    using cstr_nonempty by (simp_all add: v(3) e l)
  have "dt_off < length strs + length extra \<and> str_at (strs @ extra) dt_off = dt_name \<and> (dt_off \<ge> fh_size_strings h \<longleftrightarrow> dt = None)"
  proof (cases dt)
    case None
    then show ?thesis
      using a(1) b hd(12) by (cases "reg = None") (simp_all add: v(1) e l)
  next
    case (Some n)
    then show ?thesis
      using f [OF Some, of extra] hd(12) by (simp add: v(1))
  qed
  then show "dt_off < length strs + length extra" "str_at (strs @ extra) dt_off = dt_name" "dt_off \<ge> fh_size_strings h \<longleftrightarrow> dt = None"
    by blast+
  have "reg_off < length strs + length extra \<and> str_at (strs @ extra) reg_off = reg_name \<and> (reg_off \<ge> fh_size_strings h \<longleftrightarrow> reg = None)"
  proof (cases reg)
    case None
    then show ?thesis
      using a(2) c hd(12) by (cases dt) (simp_all add: v(2) e l)
  next
    case (Some n)
    then show ?thesis
      using g [OF Some, of extra] hd(12) by (simp add: v(2))
  qed
  then show "reg_off < length strs + length extra" "str_at (strs @ extra) reg_off = reg_name" "reg_off \<ge> fh_size_strings h \<longleftrightarrow> reg = None"
    by blast+
  show "append_names m' dest (dt = None) (reg = None) = poke m' dest extra"
    by (cases dt; cases reg) (simp_all add: append_names_def e poke_append l)
qed

section \<open>A new node\<close>

lemma hex_digits_le: "0 < k \<Longrightarrow> v < 16 ^ k \<Longrightarrow> hex_digits v \<le> k"
proof (induction k arbitrary: v)
  case (Suc k)
  show ?case
  proof (cases "v < 16")
    case False
    then have "0 < k" "v div 16 < 16 ^ k"
      using Suc.prems by (auto simp: div_less_iff_less_mult mult.commute intro: Nat.gr0I)
    then show ?thesis
      using Suc.IH [of "v div 16"] False by (subst hex_digits.simps) simp
  qed (simp add: hex_digits.simps)
qed simp

lemma hex_digit_nonzero: "n < 16 \<Longrightarrow> hex_digit n \<noteq> 0"
proof -
  assume n: "n < 16"
  have k: "(word_of_nat k :: u8) \<noteq> 0" if "0 < k" "k < 256" for k
    using that unat_byte [of k] by (metis less_numeral_extra(3) mod_less unat_0)
  show ?thesis
    using n k [of "48 + n"] k [of "97 + n - 10"] unfolding hex_digit_def by (cases "n < 10") (simp_all only: if_True if_False, simp_all)
qed

lemma hex_bytes: "length (hex_bytes v) \<le> 16" "0 \<notin> set (hex_bytes v)"
proof -
  have "hex_digits (unat v) \<le> 16"
    using hex_digits_le [of 16 "unat v"] unat_64_less [of v] by simp
  then show "length (hex_bytes v) \<le> 16"
    by (simp add: hex_bytes_def Let_def)
  show "0 \<notin> set (hex_bytes v)"
    by (auto simp: hex_bytes_def Let_def) (metis hex_digit_nonzero mod_less_divisor zero_less_numeral)
qed

definition new_node :: "u64 \<Rightarrow> bytes \<Rightarrow> nat \<Rightarrow> nat \<Rightarrow> item" where
  "new_node base v dt_off reg_off = ChildItem (chars ''memory@'' @ hex_bytes base) [PropItem dt_off (cstr ''memory''), PropItem reg_off v]"

lemma memory_node_flat:
  "memory_node base sz ac sc dt_off reg_off = flat (new_node base (cells_bytes base ac @ cells_bytes sz sc) dt_off reg_off)"
  by (simp add: memory_node_def new_node_def node_header_def Let_def)

lemma cells_length: "c = 1 \<or> c = 2 \<Longrightarrow> length (cells_bytes v c) = 4 * unat c"
  by (auto simp: cells_bytes_def)

lemma new_node_length: "length v \<le> 16 \<Longrightarrow> length (flat (new_node base v dt_off reg_off)) \<le> 80"
proof -
  assume v: "length v \<le> 16"
  have "(11 + length (hex_bytes base)) div 4 \<le> 27 div 4" "(length v + 3) div 4 \<le> 19 div 4"
    using v hex_bytes(1) [of base] by (intro div_le_mono; simp)+
  then show ?thesis
    by (simp add: new_node_def length_node_header length_prop_bytes align4_def cstr_def)
qed

text \<open>
  What setting the memory node \<open>nm\<close> means: its \<open>reg\<close> is the new value and nothing else, a \<open>device_type\<close> of \<open>memory\<close> is added
  when it has none and one it has is kept as it is, and the rest of the tree is as it was.
\<close>

definition memory_set :: "bytes \<Rightarrow> bytes \<Rightarrow> bytes \<Rightarrow> item list \<Rightarrow> bytes \<Rightarrow> item list \<Rightarrow> bool" where
  "memory_set nm v strs items strs' items' \<longleftrightarrow>
     filter (\<lambda>(q, n, w). q = [nm] \<and> n = reg_name) (tree_props strs' [] items') = [([nm], reg_name, v)] \<and>
     filter (\<lambda>(q, n, w). q = [nm] \<and> n = dt_name) (tree_props strs' [] items') =
       (case filter (\<lambda>(q, n, w). q = [nm] \<and> n = dt_name) (tree_props strs [] items) of
          [] \<Rightarrow> [([nm], dt_name, cstr ''memory'')] | old \<Rightarrow> old) \<and>
     filter (\<lambda>(q, n, w). \<not> (q = [nm] \<and> (n = reg_name \<or> n = dt_name))) (tree_props strs' [] items') =
       filter (\<lambda>(q, n, w). \<not> (q = [nm] \<and> (n = reg_name \<or> n = dt_name))) (tree_props strs [] items)"

lemma create_holds:
  assumes h: "fdt_holds m h items strs" and w: "wk_root_end w = Some (fh_off_struct h + length (node_header []) + length (flats items))"
    and c: "wk_addr_cells w = 1 \<or> wk_addr_cells w = 2" "wk_size_cells w = 1 \<or> wk_size_cells w = 2"
    and v: "v = cells_bytes base (wk_addr_cells w) @ cells_bytes sz (wk_size_cells w)"
    and nm: "nm = chars ''memory@'' @ hex_bytes base" "[nm] \<notin> set (tree_nodes [] items)"
    and room: "fh_totalsize h + 96 \<le> max_size" "max_size < 2 ^ 32"
  shows "\<exists>m' h' items' strs'. create_memory_node m h max_size w base sz = (Ok (fh_totalsize h'), m') \<and>
    fdt_holds m' h' items' strs' \<and> fh_totalsize h' \<le> max_size \<and> memory_set nm v strs items strs' items' \<and>
    tree_nodes [] items' = tree_nodes [] items @ [[nm]] \<and> (\<forall>x \<ge> max_size. m' x = m x)"
proof -
  note hd = fdt_holdsD [OF h]
  define dt where "dt = find_in_strings m (fh_off_strings h) (fh_size_strings h) (chars ''device_type'')"
  define reg where "reg = find_in_strings m (fh_off_strings h) (fh_size_strings h) (chars ''reg'')"
  obtain dt_off reg_off add where o: "string_offsets (fh_size_strings h) dt reg = (dt_off, reg_off, add)"
    using prod_cases3 by blast
  define extra where "extra = (if dt = None then cstr ''device_type'' else []) @ (if reg = None then cstr ''reg'' else [])"
  note na = names_appended [OF h dt_def reg_def o extra_def]
  define node where "node = new_node base v dt_off reg_off"
  have vl: "length v \<le> 16"
    using c cells_length by (auto simp: v)
  have nl: "length (flat node) \<le> 80"
    using new_node_length [OF vl] by (simp add: node_def)
  define tot where "tot = fh_totalsize h + length (flat node) + length extra"
  have t: "tot \<le> max_size" "tot < 2 ^ 32"
    using nl na(9) room by (simp_all add: tot_def)
  let ?P = "node_header [] @ flats items" and ?Q = "to_be_bytes FDT_END_NODE @ to_be_bytes FDT_END"
  have b: "struct_block items = ?P @ ?Q" "struct_block (items @ [node]) = ?P @ flat node @ ?Q"
    by (simp_all add: struct_block_def)
  have ok: "items_ok (length strs + length extra) (items @ [node])"
    using hd(7) items_ok_mono [of "length strs" items] na(2,4) vl hex_bytes(2) [of base]
    by (auto simp: node_def new_node_def chars_def cstr_def)
  define at where "at = fh_off_struct h + length (node_header []) + length (flats items)"
  have at: "at = fh_off_struct h + length ?P" "40 \<le> at" "at \<le> fh_totalsize h"
    using hd(4,9,11,13) b(1) by (simp_all add: at_def)
  let ?m = "write_header_fields (poke (insert_at m at (flat node) (fh_totalsize h))
      (fh_off_strings h + length (flat node) + fh_size_strings h) extra) tot (fh_size_struct h + length (flat node))
      (fh_off_strings h + length (flat node)) (fh_size_strings h + length extra)"
  let ?h = "h\<lparr>fh_totalsize := tot, fh_size_struct := fh_size_struct h + length (flat node),
      fh_off_strings := fh_off_strings h + length (flat node), fh_size_strings := fh_size_strings h + length extra\<rparr>"
  have "create_memory_node m h max_size w base sz = (Ok tot, ?m)"
    using t(1) at(3) na(1,10) w by (simp add: create_memory_node_def dt_def [symmetric] reg_def [symmetric] o Let_def at_def [symmetric]
        memory_node_flat v [symmetric] node_def [symmetric] shift_tail_def tot_def insert_at_def)
  moreover have "fdt_holds ?m ?h (items @ [node]) (strs @ extra)"
    by (rule insert_holds [OF h b tot_def t(2) ok na(8)]) (simp add: at(1))
  moreover have "?m x = m x" if "max_size \<le> x" for x
    using that t(1) by (intro inserted_outside [OF _ at(3) tot_def at(2) hd(13)]) simp
  moreover have "memory_set nm v strs items (strs @ extra) (items @ [node])"
  proof -
    have "filter (\<lambda>(q, n, w). q = [nm] \<and> n = a) (tree_props strs [] items) = []" for a
      using tree_props_other [OF nm(2)] by (auto simp: filter_empty_conv)
    moreover have "tree_props (strs @ extra) [] (items @ [node]) = tree_props strs [] items @ [([nm], dt_name, cstr ''memory''), ([nm], reg_name, v)]"
      using props_strs_append [OF hd(7,8), of extra "[]"] na(3,5) by (simp add: node_def new_node_def nm(1))
    ultimately show ?thesis
      using memory_names(3) by (simp add: memory_set_def)
  qed
  moreover have "tree_nodes [] (items @ [node]) = tree_nodes [] items @ [[nm]]"
    by (simp add: node_def new_node_def nm(1))
  ultimately show ?thesis
    using t(1) by (intro exI [of _ ?m] exI [of _ ?h] exI [of _ "items @ [node]"] exI [of _ "strs @ extra"]) simp
qed

section \<open>What the scan of a memory node finds\<close>

abbreviation reg_visits :: "memory \<Rightarrow> nat \<Rightarrow> nat \<Rightarrow> nat \<Rightarrow> item list \<Rightarrow> memory_scan \<Rightarrow> memory_scan" where
  "reg_visits m os \<equiv> visits (memory_prop m os) (\<lambda>d off nm s. s) (\<lambda>d off s. s)"

lemma reg_visits_deep: "1 \<le> d \<Longrightarrow> reg_visits m os d off items s = s"
  by (rule visit_deep(2) [of 1]) (auto simp: memory_prop_def)

lemma reg_visits_rest: "list_all (\<lambda>i. \<not> is_prop i) items \<Longrightarrow> reg_visits m os 0 off items s = s"
proof (induction items arbitrary: off s)
  case (Cons i items)
  then show ?case
    by (cases i) (auto simp: reg_visits_deep)
qed simp

lemma reg_visits_insert:
  assumes "X = [] \<or> is_prop (last X)" "list_all (\<lambda>i. \<not> is_prop i) Y" "sn_insert s = off"
  shows "sn_insert (reg_visits m os 0 off (X @ Y) s) = off + length (flats X)"
proof (cases X rule: rev_cases)
  case (snoc X' i)
  then show ?thesis
    using assms by (cases i) (simp_all add: visits_append reg_visits_rest memory_prop_def)
qed (simp add: reg_visits_rest assms)

lemma reg_visit_0:
  assumes s: "strs = [] \<or> last strs = 0" "bytes_at m os strs" and ok: "item_ok (length strs) i"
  shows "sn_reg (visit (memory_prop m os) (\<lambda>d off nm s. s) (\<lambda>d off s. s) 0 off i s) =
      (case i of PropItem n v \<Rightarrow> if str_at strs n = reg_name then Some (off, length v) else sn_reg s | _ \<Rightarrow> sn_reg s)"
    "sn_has_dt (visit (memory_prop m os) (\<lambda>d off nm s. s) (\<lambda>d off s. s) 0 off i s) = (sn_has_dt s \<or> prop_named strs dt_name i)"
proof -
  note nm = name_eq [OF s(1) _ s(2) memory_names(2)] name_eq [OF s(1) _ s(2) memory_names(1)]
  have p: "n < length strs \<Longrightarrow> memory_prop m os 0 off n v s =
      (if str_at strs n = reg_name then s\<lparr>sn_reg := Some (off, length v)\<rparr>
       else if str_at strs n = dt_name then s\<lparr>sn_has_dt := True\<rparr> else s)\<lparr>sn_insert := off + length (prop_bytes n v)\<rparr>" for n v
    by (simp add: memory_prop_def nm reg_name_def dt_name_def)
  show "sn_reg (visit (memory_prop m os) (\<lambda>d off nm s. s) (\<lambda>d off s. s) 0 off i s) =
      (case i of PropItem n v \<Rightarrow> if str_at strs n = reg_name then Some (off, length v) else sn_reg s | _ \<Rightarrow> sn_reg s)"
    using ok p by (cases i) (simp_all add: reg_visits_deep)
  show "sn_has_dt (visit (memory_prop m os) (\<lambda>d off nm s. s) (\<lambda>d off s. s) 0 off i s) = (sn_has_dt s \<or> prop_named strs dt_name i)"
    using ok p memory_names(3) by (cases i) (auto simp: reg_visits_deep)
qed

lemma reg_visits_dt:
  assumes s: "strs = [] \<or> last strs = 0" "bytes_at m os strs"
  shows "items_ok (length strs) items \<Longrightarrow>
    sn_has_dt (reg_visits m os 0 off items s) \<longleftrightarrow> sn_has_dt s \<or> filter (prop_named strs dt_name) items \<noteq> []"
proof (induction items arbitrary: off s)
  case (Cons i items)
  then show ?case
    using reg_visit_0(2) [OF s, of i off s] by auto
qed simp

lemma reg_visits_none:
  assumes s: "strs = [] \<or> last strs = 0" "bytes_at m os strs"
  shows "items_ok (length strs) items \<Longrightarrow> list_all (\<lambda>i. \<not> prop_named strs reg_name i) items \<Longrightarrow>
    sn_reg (reg_visits m os 0 off items s) = sn_reg s"
proof (induction items arbitrary: off s)
  case (Cons i items)
  have "sn_reg (visit (memory_prop m os) (\<lambda>d off nm s. s) (\<lambda>d off s. s) 0 off i s) = sn_reg s"
    using reg_visit_0(1) [OF s, of i off s] Cons.prems by (cases i) auto
  then show ?case
    using Cons by simp
qed simp

lemma reg_visits_found:
  assumes s: "strs = [] \<or> last strs = 0" "bytes_at m os strs" and ok: "items_ok (length strs) (X @ PropItem n v # Y)"
    and n: "str_at strs n = reg_name" and Y: "list_all (\<lambda>i. \<not> prop_named strs reg_name i) Y"
  shows "sn_reg (reg_visits m os 0 off (X @ PropItem n v # Y) s) = Some (off + length (flats X), length v)"
  using reg_visit_0(1) [OF s, of "PropItem n v" "off + length (flats X)" "reg_visits m os 0 off X s"] ok n
    reg_visits_none [OF s _ Y] by (simp add: visits_append)

lemma scan_memory_holds:
  assumes h: "fdt_holds m h items strs" and i: "items = A @ ChildItem nm body # B"
    and off: "off = fh_off_struct h + length (before_child A nm [])"
  shows "scan_memory m (fh_off_strings h) off 0 s = Some (Ok (reg_visits m (fh_off_strings h) 0 off body s))"
proof -
  note hd = fdt_holdsD [OF h]
  have b: "bytes_at m off (flats body)" "bytes_at m (off + length (flats body)) (to_be_bytes FDT_END_NODE)"
    using hd(5) by (simp_all add: struct_block_def i off before_child_def add.assoc)
  have dv: "4 dvd off"
    using hd(3) flats_dvd [of A] by (simp add: off length_node_header before_child_def)
  have ok: "items_ok (length strs) body"
    using hd(7) by (simp add: i)
  have "scan_memory m (fh_off_strings h) off 0 s =
      scan_memory m (fh_off_strings h) (off + length (flats body)) 0 (reg_visits m (fh_off_strings h) 0 off body s)"
    using reg_walk.walk_items [OF b(1) dv order_refl ok hd(10), of "fh_off_strings h" 0 s] by simp
  then show ?thesis
    using read_be32_at [OF b(2)] by (subst (asm) (2) scan_memory.simps) (simp add: Let_def token_consts)
qed

section \<open>Overwriting the old value\<close>

lemma write_cells_poke: "fst (write_cells m a v c) = poke m a (cells_bytes v c)" "snd (write_cells m a v c) = length (cells_bytes v c)"
  by (simp_all add: write_cells_def cells_bytes_def write_be32_def poke_append)

lemma place_reg_same:
  assumes "bytes_at m off (prop_bytes n old)" "v = cells_bytes base ac @ cells_bytes sz sc" "length old = length v" "4 dvd length v"
  shows "place_reg m off (length old) base sz ac sc (length v) = poke m off (prop_bytes n v)"
proof -
  let ?h = "to_be_bytes FDT_PROP @ to_be_bytes (word_of_nat (length v) :: u32) @ to_be_bytes (word_of_nat n :: u32)"
  have p: "prop_bytes n v = ?h @ v"
    using align4_same [OF assms(4)] by (simp add: prop_bytes_def)
  have a: "bytes_at m off ?h" "bytes_at m (off + 4) (to_be_bytes (word_of_nat (length v) :: u32))"
    using assms(1,3) by (simp_all add: prop_bytes_def)
  have "poke m off (prop_bytes n v) = poke m (off + 12) v"
    unfolding p poke_append [of m off ?h v] poke_present [OF a(1)] by simp
  moreover have "write_be32 m (off + 4) (word_of_nat (length v)) = m"
    unfolding write_be32_def by (rule poke_present [OF a(2)])
  ultimately show ?thesis
    using assms(2,3) write_cells_poke
    by (simp add: place_reg_def Let_def split_beta poke_append)
qed

text \<open>The node after its old \<open>reg\<close> was overwritten or replaced by NOPs; everything else in it is the same.\<close>

definition reg_placed :: "bytes \<Rightarrow> bytes \<Rightarrow> bytes \<Rightarrow> bool \<Rightarrow> item list \<Rightarrow> item list \<Rightarrow> bool" where
  "reg_placed strs nm v need_reg body body' \<longleftrightarrow>
     map (\<lambda>i. case i of PropItem n v \<Rightarrow> ([nm], reg_name, v)) (filter (prop_named strs reg_name) body') =
       (if need_reg then [] else [([nm], reg_name, v)]) \<and>
     filter (prop_named strs dt_name) body' = filter (prop_named strs dt_name) body \<and>
     filter (\<lambda>(q, n, w). \<not> (q = [nm] \<and> (n = reg_name \<or> n = dt_name))) (tree_props strs [nm] body') =
       filter (\<lambda>(q, n, w). \<not> (q = [nm] \<and> (n = reg_name \<or> n = dt_name))) (tree_props strs [nm] body) \<and>
     tree_nodes [nm] body' = tree_nodes [nm] body"

lemma place_holds:
  assumes h: "fdt_holds m h items strs" and i: "items = A @ ChildItem nm (X @ Y) # B"
    and Y: "list_all (\<lambda>i. \<not> is_prop i) Y" and one: "length (filter (prop_named strs reg_name) (X @ Y)) \<le> 1"
    and v: "v = cells_bytes base ac @ cells_bytes sz sc" "4 dvd length v" "length v < 2 ^ 32"
    and off: "off = fh_off_struct h + length (before_child A nm [])"
    and s: "s = reg_visits m (fh_off_strings h) 0 off (X @ Y) \<lparr>sn_reg = None, sn_has_dt = False, sn_insert = off\<rparr>"
    and m1: "m1 = (case sn_reg s of None \<Rightarrow> m | Some (po, old) \<Rightarrow> place_reg m po old base sz ac sc (length v))"
    and need: "need_reg = (case sn_reg s of None \<Rightarrow> True | Some (_, old) \<Rightarrow> length v \<noteq> old)"
  obtains X' where "fdt_holds m1 h (A @ ChildItem nm (X' @ Y) # B) strs" "length (flats X') = length (flats X)"
    "reg_placed strs nm v need_reg (X @ Y) (X' @ Y)" "\<And>x. x \<ge> fh_totalsize h \<Longrightarrow> m1 x = m x"
proof -
  note hd = fdt_holdsD [OF h]
  have ok: "items_ok (length strs) (X @ Y)"
    using hd(7) by (simp add: i)
  from one show thesis
  proof (cases rule: named_split)
    case 1
    then have "sn_reg s = None"
      using reg_visits_none [OF hd(8,6) ok, of off] by (simp add: s)
    then show thesis
      using that [of X] h i m1 need no_named [OF 1] by (simp add: reg_placed_def)
  next
    case (2 X1 p X2)
    obtain n old where p: "p = PropItem n old" "str_at strs n = reg_name"
      using 2(2) by (cases p) auto
    have "PropItem n old \<in> set X"
      using 2(1) p(1) Y by (auto simp: list_all_iff append_eq_append_conv2 Cons_eq_append_conv append_eq_Cons_conv)
    then obtain X3 where X3: "X = X1 @ PropItem n old # X3" "X2 = X3 @ Y"
      using 2(1) p(1) Y by (auto simp: append_eq_append_conv2 Cons_eq_append_conv append_eq_Cons_conv)
    define po where "po = fh_off_struct h + length (before_child A nm X1)"
    have i2: "items = A @ ChildItem nm (X1 @ PropItem n old # X2) # B"
      by (simp add: i X3)
    note b = child_prop_bounds [OF h i2 po_def]
    have r: "sn_reg s = Some (po, length old)"
      using reg_visits_found [OF hd(8,6) _ p(2) 2(4), of X1 old off] ok
      by (simp add: s X3 po_def off before_child_def)
    have none: "filter (prop_named strs reg_name) X1 = []" "filter (prop_named strs reg_name) X3 = []" "filter (prop_named strs reg_name) Y = []"
      using no_named [OF 2(3)] no_named [OF 2(4)] X3(2) by simp_all
    show thesis
    proof (cases "length v = length old")
      case True
      have m1p: "m1 = poke m po (prop_bytes n v)"
        using place_reg_same [OF b(1) v(1) True [symmetric] v(2)] r True by (simp add: m1)
      have sb: "struct_block items = before_child A nm X1 @ prop_bytes n old @ behind_child X2 B"
          "struct_block (A @ ChildItem nm (X1 @ PropItem n v # X2) # B) = before_child A nm X1 @ prop_bytes n v @ behind_child X2 B"
        using struct_block_child [of A nm X1 "PropItem n old # X2" B] struct_block_child [of A nm X1 "PropItem n v # X2" B]
        by (simp_all add: i2 behind_child_def)
      have "fdt_holds m1 h (A @ ChildItem nm (X1 @ PropItem n v # X2) # B) strs"
        unfolding m1p po_def using hd(7) v(3) True by (intro replace_holds [OF h sb]) (simp_all add: i2 length_prop_bytes)
      moreover have "m1 x = m x" if "fh_totalsize h \<le> x" for x
        using that b(2) True by (simp add: m1p poke_outside length_prop_bytes)
      moreover have "reg_placed strs nm v need_reg (X @ Y) ((X1 @ PropItem n v # X3) @ Y)"
        using none p(2) r True memory_names(3) by (simp add: reg_placed_def X3 need)
      ultimately show thesis
        using that [of "X1 @ PropItem n v # X3"] True X3 by (simp add: length_prop_bytes)
    next
      case False
      define k where "k = align4 (12 + length old) div 4"
      have k4: "4 * k = length (prop_bytes n old)"
        using align4_12 [of "length old"] align4_dvd [of "12 + length old"] by (simp add: k_def length_prop_bytes)
      have m1p: "m1 = nop_out m po k"
        using r False by (simp add: m1 place_reg_def k_def)
      have "m1 x = m x" if "fh_totalsize h \<le> x" for x
        using that b(2) k4 by (simp add: m1p nop_out_poke poke_outside length_prop_bytes)
      moreover have "reg_placed strs nm v need_reg (X @ Y) ((X1 @ replicate k NopItem @ X3) @ Y)"
        using none p(2) r False memory_names(3) by (simp add: reg_placed_def X3 need)
      moreover have "fdt_holds m1 h (A @ ChildItem nm ((X1 @ replicate k NopItem @ X3) @ Y) # B) strs"
        using nops_replaced [OF h i2 po_def k_def] by (simp add: m1p X3(2))
      ultimately show thesis
        using that [of "X1 @ replicate k NopItem @ X3"] k4 X3 by simp
    qed
  qed
qed

section \<open>Updating a node\<close>

definition missing_props :: "bool \<Rightarrow> bool \<Rightarrow> nat \<Rightarrow> nat \<Rightarrow> bytes \<Rightarrow> item list" where
  "missing_props need_dt need_reg dt_off reg_off v =
     (if need_dt then [PropItem dt_off (cstr ''memory'')] else []) @ (if need_reg then [PropItem reg_off v] else [])"

lemma prop_bytes_nonempty [simp]: "prop_bytes n v \<noteq> []"
  using length_prop_bytes [of n v] by auto

lemma memory_set_inserted:
  assumes AB: "[nm] \<notin> set (tree_nodes [] A)" "[nm] \<notin> set (tree_nodes [] B)"
    and ok: "items_ok (length strs) (A @ ChildItem nm (X' @ Y) # B)" "strs = [] \<or> last strs = 0"
    and okb: "items_ok (length strs) body"
    and p: "reg_placed strs nm v need_reg body (X' @ Y)"
    and dt: "need_dt \<longleftrightarrow> filter (prop_named strs dt_name) body = []"
    and n: "need_dt \<longrightarrow> str_at (strs @ extra) dt_off = dt_name" "need_reg \<longrightarrow> str_at (strs @ extra) reg_off = reg_name"
    and items': "items' = A @ ChildItem nm (X' @ missing_props need_dt need_reg dt_off reg_off v @ Y) # B"
  shows "memory_set nm v strs (A @ ChildItem nm body # B) (strs @ extra) items'"
    "tree_nodes [] items' = tree_nodes [] (A @ ChildItem nm body # B)"
proof -
  have t: "tree_props (strs @ extra) q xs = tree_props strs q xs" "filter (prop_named (strs @ extra) a) xs = filter (prop_named strs a) xs"
    if "items_ok (length strs) xs" for q xs a
    using props_strs_append [OF that ok(2)] named_append [OF that ok(2)] by auto
  have o: "items_ok (length strs) A" "items_ok (length strs) B" "items_ok (length strs) X'" "items_ok (length strs) Y"
    using ok(1) by simp_all
  note t1 = t [OF o(1)] t [OF o(2)] t [OF o(3)] t [OF o(4)]
  note pl = p [unfolded reg_placed_def]
  have "filter (\<lambda>(q, n, w). q = [nm] \<and> n = reg_name) (tree_props (strs @ extra) [] items') = [([nm], reg_name, v)]"
    unfolding items' filter_child [OF AB] using pl n memory_names(3)
    by (cases need_reg; cases need_dt) (auto simp: missing_props_def t1)
  moreover have "filter (\<lambda>(q, n, w). q = [nm] \<and> n = dt_name) (tree_props (strs @ extra) [] items') =
      (case filter (\<lambda>(q, n, w). q = [nm] \<and> n = dt_name) (tree_props strs [] (A @ ChildItem nm body # B)) of
          [] \<Rightarrow> [([nm], dt_name, cstr ''memory'')] | old \<Rightarrow> old)"
    unfolding items' filter_child [OF AB] using pl n memory_names(3) dt
    by (cases need_reg; cases need_dt) (auto simp: missing_props_def t1 split: list.split)
  moreover have "filter (\<lambda>(q, n, w). \<not> (q = [nm] \<and> (n = reg_name \<or> n = dt_name))) (tree_props (strs @ extra) [] items') =
       filter (\<lambda>(q, n, w). \<not> (q = [nm] \<and> (n = reg_name \<or> n = dt_name))) (tree_props strs [] (A @ ChildItem nm body # B))"
    using pl n by (cases need_reg; cases need_dt) (auto simp: items' missing_props_def t1)
  ultimately show "memory_set nm v strs (A @ ChildItem nm body # B) (strs @ extra) items'"
    by (simp add: memory_set_def)
  show "tree_nodes [] items' = tree_nodes [] (A @ ChildItem nm body # B)"
    using pl by (simp add: items' missing_props_def)
qed

lemma update_holds:
  assumes h: "fdt_holds m h items strs" and i: "items = A @ ChildItem nm body # B" and nz: "0 \<notin> set nm"
    and AB: "[nm] \<notin> set (tree_nodes [] A)" "[nm] \<notin> set (tree_nodes [] B)"
    and one: "length (filter (prop_named strs reg_name) body) \<le> 1"
    and c: "ac = 1 \<or> ac = 2" "sc = 1 \<or> sc = 2" and v: "v = cells_bytes base ac @ cells_bytes sz sc"
    and dt: "dt = find_in_strings m (fh_off_strings h) (fh_size_strings h) (chars ''device_type'')"
    and reg: "reg = find_in_strings m (fh_off_strings h) (fh_size_strings h) (chars ''reg'')"
    and o: "string_offsets (fh_size_strings h) dt reg = (dt_off, reg_off, add)"
    and room: "fh_totalsize h + 96 \<le> max_size" "max_size < 2 ^ 32"
  shows "\<exists>m' h' items' strs'. set_reg_in_existing_memory_node m h max_size
      (fh_off_struct h + length (node_header []) + length (flats A)) base sz ac sc (length v) reg_off dt_off add =
      Some (Ok (fh_totalsize h'), m') \<and>
    fdt_holds m' h' items' strs' \<and> fh_totalsize h' \<le> max_size \<and> memory_set nm v strs items strs' items' \<and>
    tree_nodes [] items' = tree_nodes [] items \<and> (\<forall>x \<ge> max_size. m' x = m x)"
proof -
  note hd = fdt_holdsD [OF h]
  define extra where "extra = (if dt = None then cstr ''device_type'' else []) @ (if reg = None then cstr ''reg'' else [])"
  note na = names_appended [OF h dt reg o extra_def]
  let ?c = "fh_off_struct h + length (node_header []) + length (flats A)"
  define off where "off = fh_off_struct h + length (before_child A nm [])"
  have cn: "bytes_at m ?c (node_header nm)"
    using hd(5) by (simp add: struct_block_def i add.assoc)
  have "4 dvd ?c"
    using hd(3) flats_dvd [of A] by (simp add: length_node_header)
  then have sk: "skip_node_name m (?c + 4) = Some (?c + 4 + length nm + 1)" "align4 (?c + 4 + length nm + 1) = off"
    using header_at [OF cn nz] by (simp_all add: off_def before_child_def)
  obtain X Y where XY: "body = X @ Y" "list_all (\<lambda>i. \<not> is_prop i) Y" "X = [] \<or> is_prop (last X)"
    using split_last_prop by blast
  define s where "s = reg_visits m (fh_off_strings h) 0 off (X @ Y) \<lparr>sn_reg = None, sn_has_dt = False, sn_insert = off\<rparr>"
  define m1 where "m1 = (case sn_reg s of None \<Rightarrow> m | Some (po, old) \<Rightarrow> place_reg m po old base sz ac sc (length v))"
  define need_reg where "need_reg = (case sn_reg s of None \<Rightarrow> True | Some (_, old) \<Rightarrow> length v \<noteq> old)"
  have vl: "4 dvd length v" "length v \<le> 16" "length v < 2 ^ 32"
    using c cells_length by (auto simp: v)
  have bok: "items_ok (length strs) body"
    using hd(7) by (simp add: i)
  obtain X' where X': "fdt_holds m1 h (A @ ChildItem nm (X' @ Y) # B) strs" "length (flats X') = length (flats X)"
      "reg_placed strs nm v need_reg body (X' @ Y)" "\<And>x. x \<ge> fh_totalsize h \<Longrightarrow> m1 x = m x"
    using place_holds [OF h i [unfolded XY(1)] XY(2) one [unfolded XY(1)] v vl(1,3) off_def s_def m1_def need_reg_def] XY(1)
    by metis
  note h1 = fdt_holdsD [OF X'(1)]
  define need_dt where "need_dt = (\<not> sn_has_dt s)"
  have dtn: "need_dt \<longleftrightarrow> filter (prop_named strs dt_name) body = []"
    using reg_visits_dt [OF hd(8,6) bok, of off "\<lparr>sn_reg = None, sn_has_dt = False, sn_insert = off\<rparr>"]
    by (simp add: need_dt_def s_def XY(1))
  define ins where "ins = missing_props need_dt need_reg dt_off reg_off v"
  define at where "at = fh_off_struct h + length (before_child A nm X)"
  have sn: "sn_insert s = at"
    using reg_visits_insert [OF XY(3,2), of "\<lparr>sn_reg = None, sn_has_dt = False, sn_insert = off\<rparr>" off]
    by (simp add: s_def at_def off_def before_child_def)
  have at1: "at = fh_off_struct h + length (before_child A nm X')"
    using X'(2) by (simp add: at_def before_child_def)
  let ?items = "A @ ChildItem nm (X' @ ins @ Y) # B"
  note ms = memory_set_inserted [OF AB h1(7) hd(8) bok X'(3) dtn, where dt_off = dt_off and reg_off = reg_off and items' = ?items]
  have sc: "scan_memory m (fh_off_strings h) off 0 \<lparr>sn_reg = None, sn_has_dt = False, sn_insert = off\<rparr> = Some (Ok s)"
    using scan_memory_holds [OF h i off_def] by (simp add: s_def XY(1))
  have fl: "(if need_dt then prop_bytes dt_off (cstr ''memory'') else []) @ (if need_reg then prop_bytes reg_off v else []) = flats ins"
    by (simp add: ins_def missing_props_def)
  have "set_reg_in_existing_memory_node m h max_size ?c base sz ac sc (length v) reg_off dt_off add =
      (if length (flats ins) = 0 then Some (Ok (fh_totalsize h), m1)
       else let new_totalsize = fh_totalsize h + length (flats ins) + add in
         if new_totalsize > max_size then Some (Err BufferTooSmall, m1)
         else case shift_tail m1 at (length (flats ins)) (fh_totalsize h) of
           Panic \<Rightarrow> Some (Panic, m1)
         | Err e \<Rightarrow> Some (Err e, m1)
         | Ok m2 \<Rightarrow> Some (Ok new_totalsize,
             write_header_fields (if add > 0 then append_names (poke m2 at (flats ins)) (fh_off_strings h + length (flats ins) + fh_size_strings h)
               (dt_off \<ge> fh_size_strings h) (reg_off \<ge> fh_size_strings h) else poke m2 at (flats ins))
             new_totalsize (fh_size_struct h + length (flats ins)) (fh_off_strings h + length (flats ins)) (fh_size_strings h + add)))"
    unfolding set_reg_in_existing_memory_node_def sk(1) Option.bind.bind_lunit Let_def sk(2) sc result.case
      m1_def [symmetric] need_reg_def [symmetric] need_dt_def [symmetric] v [symmetric] fl sn ..
  note run = this
  show ?thesis
  proof (cases "ins = []")
    case True
    then have nd: "\<not> need_dt" "\<not> need_reg"
      by (auto simp: ins_def missing_props_def split: if_splits)
    then have "memory_set nm v strs items (strs @ []) ?items" "tree_nodes [] ?items = tree_nodes [] items"
      using ms [where extra = "[]"] by (simp_all add: i ins_def)
    then show ?thesis
      using run True X'(1,4) room by (intro exI [of _ m1] exI [of _ h] exI [of _ ?items] exI [of _ strs]) simp
  next
    case False
    define tot where "tot = fh_totalsize h + length (flats ins) + length extra"
    have il: "length (flats ins) \<noteq> 0" "length (flats ins) \<le> 48"
      using False vl(1,2) align4_same [OF vl(1)]
      by (auto simp: ins_def missing_props_def length_prop_bytes cstr_def align4_def split: if_splits)
    have t: "tot \<le> max_size" "tot < 2 ^ 32"
      using il(2) na(9) room by (simp_all add: tot_def)
    have b: "struct_block (A @ ChildItem nm (X' @ Y) # B) = before_child A nm X' @ behind_child Y B"
        "struct_block ?items = before_child A nm X' @ flats ins @ behind_child Y B"
      using struct_block_child [of A nm X' Y B] struct_block_child [of A nm X' "ins @ Y" B] by (simp_all add: behind_child_def)
    have ok: "items_ok (length strs + length extra) ?items"
      using h1(7) items_ok_mono [of "length strs" _ "length strs + length extra"] na(2,4) vl(3)
      by (auto simp: ins_def missing_props_def cstr_def)
    have at2: "40 \<le> at" "at \<le> fh_totalsize h"
      using h1(4,9,11,13) b(1) by (simp_all add: at1)
    let ?m = "write_header_fields (poke (insert_at m1 at (flats ins) (fh_totalsize h))
        (fh_off_strings h + length (flats ins) + fh_size_strings h) extra) tot (fh_size_struct h + length (flats ins))
        (fh_off_strings h + length (flats ins)) (fh_size_strings h + length extra)"
    let ?h = "h\<lparr>fh_totalsize := tot, fh_size_struct := fh_size_struct h + length (flats ins),
        fh_off_strings := fh_off_strings h + length (flats ins), fh_size_strings := fh_size_strings h + length extra\<rparr>"
    have e: "(if add > 0 then append_names mm dest (dt_off \<ge> fh_size_strings h) (reg_off \<ge> fh_size_strings h) else mm) = poke mm dest extra" for mm dest
      using na(1,6,7,10) by auto
    have "set_reg_in_existing_memory_node m h max_size ?c base sz ac sc (length v) reg_off dt_off add = Some (Ok tot, ?m)"
      unfolding run e using il(1) t(1) at2(2) na(1) by (simp add: Let_def shift_tail_def tot_def insert_at_def)
    moreover have "fdt_holds ?m ?h ?items (strs @ extra)"
      by (rule insert_holds [OF X'(1) b tot_def t(2) ok na(8)]) (simp add: at1)
    moreover have "?m x = m x" if "max_size \<le> x" for x
    proof -
      have "?m x = m1 x"
        using that t(1) by (intro inserted_outside [OF _ at2(2) tot_def at2(1) hd(13)]) simp
      then show ?thesis
        using that room X'(4) [of x] by simp
    qed
    moreover have "memory_set nm v strs items (strs @ extra) ?items" "tree_nodes [] ?items = tree_nodes [] items"
      using ms [where extra = extra] na(3,5) by (simp_all add: i ins_def)
    ultimately show ?thesis
      using t(1) by (intro exI [of _ ?m] exI [of _ ?h] exI [of _ ?items] exI [of _ "strs @ extra"]) simp
  qed
qed

lemma split_first:
  assumes "filter P (root_children items) = nm # rest"
  obtains A body B where "items = A @ ChildItem nm body # B" "list_all (\<lambda>n. \<not> P n) (root_children A)" "P nm"
  using assms
proof (induction items arbitrary: thesis)
  case (Cons i items)
  show ?case
  proof (cases "\<exists>c body. i = ChildItem c body \<and> P c")
    case True
    then show ?thesis
      using Cons.prems(1) [of "[]"] Cons.prems(2) by auto
  next
    case False
    then have "filter P (root_children items) = nm # rest"
      using Cons.prems(2) by (cases i) auto
    then obtain A body B where "items = A @ ChildItem nm body # B" "list_all (\<lambda>n. \<not> P n) (root_children A)" "P nm"
      using Cons.IH by blast
    then show ?thesis
      using Cons.prems(1) [of "i # A" body B] False by (cases i) auto
  qed
qed simp

lemma child_nodes: "filter (\<lambda>q. q = [nm]) (tree_nodes [] (A @ ChildItem nm body # B)) = [[nm]] \<Longrightarrow>
    [nm] \<notin> set (tree_nodes [] A) \<and> [nm] \<notin> set (tree_nodes [] B)"
  by (auto simp: filter_eq_Cons_iff filter_empty_conv append_eq_Cons_conv)

lemma root_child_node: "[nm] \<in> set (tree_nodes [] items) \<longleftrightarrow> nm \<in> set (root_children items)"
proof (induction items)
  case (Cons i items)
  have "[nm] \<notin> set (tree_nodes [c] body)" for c body
    using tree_nodes_prefix [of "[nm]" "[c]"] by auto
  then show ?case
    using Cons by (cases i) auto
qed simp

lemma new_name_memory: "memory_name (chars ''memory@'' @ hex_bytes base)"
proof -
  have "0 < hex_digits k" for k
    by (subst hex_digits.simps) simp
  then have "hex_bytes base \<noteq> []"
    by (simp add: hex_bytes_def Let_def)
  then show ?thesis
    by (simp add: memory_name_def)
qed

text \<open>
  C11: on a well-formed blob whose root has supported cell sizes, and with room in the buffer, setting the memory returns the new size
  of the blob and leaves a well-formed blob. The node it sets is the first child of the root named \<open>memory\<close> or \<open>memory@...\<close>,
  with at least one character behind the \<open>@\<close>, or else a new node named after the base address; a child such as \<open>memory-controller\<close> is not taken for it.
  That node has as its only \<open>reg\<close> the base and the size in the root's cells. A \<open>device_type\<close> with the value \<open>memory\<close> is added to
  it when it has none, and one that is there already is kept, whatever its value. Every other property of every node is unchanged, no other node is added or lost, and nothing is
  written behind the buffer.
\<close>

theorem fdt_set_memory_spec:
  assumes "fdt_holds m h items strs"
    and "ac = root_cell strs (chars ''#address-cells'') items" "ac = 1 \<or> ac = 2"
    and "sc = root_cell strs (chars ''#size-cells'') items" "sc = 1 \<or> sc = 2"
    and "nm = (case filter memory_name (root_children items) of [] \<Rightarrow> chars ''memory@'' @ hex_bytes base | nm # _ \<Rightarrow> nm)"
    and "\<And>n. n \<in> set (root_children items) \<Longrightarrow> memory_name n \<Longrightarrow> filter (\<lambda>q. q = [n]) (tree_nodes [] items) = [[n]] \<and>
      length (filter (\<lambda>(q, a, w). q = [n] \<and> a = chars ''reg'') (tree_props strs [] items)) \<le> 1"
    and "fh_totalsize h + 96 \<le> max_size" "max_size < 2 ^ 32"
  shows "\<exists>m' h' items' strs'. fdt_set_memory m max_size base sz = Some (Ok (fh_totalsize h'), m') \<and>
    fdt_holds m' h' items' strs' \<and> fh_totalsize h' \<le> max_size \<and>
    memory_set nm (cells_bytes base ac @ cells_bytes sz sc) strs items strs' items' \<and>
    tree_nodes [] items' = tree_nodes [] items @ (if filter memory_name (root_children items) = [] then [[nm]] else []) \<and>
    (\<forall>x \<ge> max_size. m' x = m x)"
proof -
  note h = assms(1) and hd = fdt_holdsD [OF assms(1)]
  define v where "v = cells_bytes base ac @ cells_bytes sz sc"
  obtain w where w: "walk_memory m (fh_off_strings h) (fh_off_struct h + fh_size_struct h) (fh_off_struct h) 0
        \<lparr>wk_addr_cells = 1, wk_size_cells = 1, wk_memory = None, wk_root_end = None\<rparr> = Some (Ok w)"
      "wk_addr_cells w = ac" "wk_size_cells w = sc"
      "wk_root_end w = Some (fh_off_struct h + length (node_header []) + length (flats items))"
      "wk_memory w = wk_memory (memory_visits m (fh_off_strings h) 1 (fh_off_struct h + length (node_header [])) items
         \<lparr>wk_addr_cells = 1, wk_size_cells = 1, wk_memory = None, wk_root_end = None\<rparr>)"
    by (rule walk_memory_holds [OF h, folded assms(2,4)])
  define dt where "dt = find_in_strings m (fh_off_strings h) (fh_size_strings h) (chars ''device_type'')"
  define reg where "reg = find_in_strings m (fh_off_strings h) (fh_size_strings h) (chars ''reg'')"
  obtain dt_off reg_off add where o: "string_offsets (fh_size_strings h) dt reg = (dt_off, reg_off, add)"
    using prod_cases3 by blast
  have len: "unat (ac + sc) * 4 = length v"
    using assms(3,5) cells_length [of ac base] cells_length [of sc sz] by (auto simp: v_def)
  have run: "fdt_set_memory m max_size base sz =
      (case wk_memory w of
         Some mem_start \<Rightarrow> set_reg_in_existing_memory_node m h max_size mem_start base sz ac sc (length v) reg_off dt_off add
       | None \<Rightarrow> Some (create_memory_node m h max_size w base sz))"
    using assms(3,5) hd(1) w(1-3) by (simp add: fdt_set_memory_def Let_def hd(2) dt_def [symmetric] reg_def [symmetric] o len)
      (auto split: option.split)
  show ?thesis
  proof (cases "filter memory_name (root_children items)")
    case Nil
    then have none: "list_all (\<lambda>nm. \<not> memory_name nm) (root_children items)" and nm: "nm = chars ''memory@'' @ hex_bytes base"
      using assms(6) by (auto simp: filter_empty_conv list_all_iff)
    then have "[nm] \<notin> set (tree_nodes [] items)"
      using new_name_memory by (auto simp: root_child_node list_all_iff)
    moreover have "wk_memory w = None"
      using w(5) memory_visits_node [OF hd(8,6,7)] none by simp
    ultimately show ?thesis
      using create_holds [OF h w(4) _ _ _ nm _ assms(8,9), of v sz] assms(3,5) w(2,3) run Nil by (simp add: v_def)
  next
    case (Cons n rest)
    then have nm: "nm = n"
      using assms(6) by simp
    obtain A body B where i: "items = A @ ChildItem n body # B" "list_all (\<lambda>n. \<not> memory_name n) (root_children A)" "memory_name n"
      using split_first [OF Cons] by metis
    have u: "filter (\<lambda>q. q = [n]) (tree_nodes [] items) = [[n]]"
        "length (filter (\<lambda>(q, a, w). q = [n] \<and> a = reg_name) (tree_props strs [] items)) \<le> 1"
      using assms(7) [of n] i by (simp_all add: reg_name_def)
    have AB: "[n] \<notin> set (tree_nodes [] A)" "[n] \<notin> set (tree_nodes [] B)"
      using child_nodes [OF u(1) [unfolded i(1)]] by simp_all
    have one: "length (filter (prop_named strs reg_name) body) \<le> 1"
      using u(2) unfolding i(1) filter_child [OF AB] by simp
    have "wk_memory w = Some (fh_off_struct h + length (node_header []) + length (flats A))"
      using w(5) memory_visits_found [OF hd(8,6) hd(7) [unfolded i(1)] i(3,2)] by (simp add: i(1))
    moreover have "0 \<notin> set n"
      using hd(7) by (simp add: i(1))
    ultimately show ?thesis
      using update_holds [OF h i(1) _ AB one assms(3,5) v_def dt_def reg_def o assms(8,9)] run Cons nm by (simp add: v_def)
  qed
qed

theorem fdt_set_memory_spec_witness:
  "\<exists>m' n. fdt_set_memory (fdt_image (sample_items (cstr ''loglevel'')) sample_strs) 4096 0x40000000 0x20000000 = Some (Ok n, m')"
proof -
  have l: "length (cstr ''loglevel'') = 9"
    by (simp add: cstr_def)
  have c: "root_cell sample_strs nm (sample_items v) = 1" for nm v
    by (simp add: root_cell_def sample_items_def)
  have "filter memory_name (root_children (sample_items v)) = []" for v
    by (simp add: sample_items_def memory_name_def chars_def)
  then show ?thesis
    using fdt_set_memory_spec [OF sample_holds(1) [OF l] refl _ refl _ refl, of 4096 "0x40000000" "0x20000000"]
    by (auto simp: c sample_holds(2) [OF l] filter_empty_conv)
qed

end
