(* ===== verification/Spec2Isabelle.thy ===== *)
theory Spec2Isabelle
  imports Prelude Ffs_Types Crypto Root Lz4 Lz4_Width Locator Trust Manifest Directory Manifest_Encode Reader Smm_Layout Smm_Header
    Smm_Runtime Smm_Install Smm_Handler Save_State Store Boot_Media Load Effect Tpm Tcg_Log Tcg Tcg_Safety Resume
    Fdt Fdt_Tree Fdt_Edit Fdt_Bootargs Fdt_Memory
begin

text \<open>
  Verification development of the firmware framework fstart: the parts of it that decide which code
  runs, where it is put in memory and what is recorded of it.

  \<^bold>\<open>The program.\<close> A stage finds the firmware file system (FFS) in flash, authenticates its root against the
  keys of the platform, reads the directory whose digest the root carries, and loads the next
  stage: it copies, verifies, measures and decompresses it into memory that a policy permits. Measurements go to
  a TPM and into an event log. On x86 the last stage installs the system-management handler (SMM), and a store
  of records is passed from stage to stage. On the other targets the kernel gets a device tree that the firmware patches.

  \<^bold>\<open>Theories and sources\<close> (all paths under \<^verbatim>\<open>src/crates\<close>).

  \<^item> \<open>Prelude\<close>: results with errors and panics, checked arithmetic, slices, little-endian bytes.
    \<open>Memory\<close>: byte-addressed memory with \<open>peek\<close> and \<open>poke\<close>.
  \<^item> \<open>Ffs_Types\<close> (\<^verbatim>\<open>core/src/ffs.rs\<close>), \<open>Crypto\<close> (\<^verbatim>\<open>crypto/src/digest.rs\<close>, \<^verbatim>\<open>verify.rs\<close>), \<open>Locator\<close> and \<open>Trust\<close>
    (\<^verbatim>\<open>core/src/ffs/locator.rs\<close>, \<^verbatim>\<open>trust.rs\<close>), \<open>Root\<close> (\<^verbatim>\<open>ffs/src/root.rs\<close>): the records of the file system, their
    byte layouts, and the authentication of a root.
  \<^item> \<open>Manifest\<close>, \<open>Directory\<close>, \<open>Manifest_Encode\<close> (\<^verbatim>\<open>ffs/src/manifest.rs\<close>): the directory as bytes, its validation
    and lookups, and the encoder. \<open>Reader\<close> (\<^verbatim>\<open>ffs/src/reader.rs\<close>): from the anchor to a verified manifest.
  \<^item> \<open>Lz4\<close> (\<^verbatim>\<open>ffs/src/lz4.rs\<close>): the decompressor against a relation that defines the block format, with lengths in
    unbounded arithmetic. \<open>Lz4_Width\<close>: the same code with the sums of a target's \<open>usize\<close>, and when the two agree.
  \<^item> \<open>Boot_Media\<close> (\<^verbatim>\<open>core/src/services/boot_media.rs\<close>, \<^verbatim>\<open>firmware.rs\<close>): flash windows and media; the locale
    \<open>boot_media_view\<close> is what a loader relies on. \<open>Load\<close> (\<^verbatim>\<open>load/src/lib.rs\<close>, \<^verbatim>\<open>core/src/services/measure.rs\<close>): the
    loader, proved in that locale. \<open>Resume\<close> (\<^verbatim>\<open>resume/src\<close>): the stage cache in the record store and
    the loading of a stage on a cold boot and on a resume from S3.
  \<^item> \<open>Effect\<close>: operations on a device, as functions from its state to an outcome and its next state.
    \<open>Tpm\<close> (\<^verbatim>\<open>driver-tpm/src\<close>), \<open>Tcg_Log\<close> (\<^verbatim>\<open>tcg/src/log.rs\<close>, \<^verbatim>\<open>event.rs\<close>), \<open>Tcg\<close> (\<^verbatim>\<open>tcg/src/lib.rs\<close>) and \<open>Tcg_Safety\<close>:
    TPM commands, the event log, measured boot, and what it guarantees.
  \<^item> \<open>Smm_Layout\<close>, \<open>Smm_Header\<close>, \<open>Smm_Runtime\<close>, \<open>Smm_Install\<close>, \<open>Smm_Handler\<close>, \<open>Save_State\<close> (\<^verbatim>\<open>smm/src\<close>): the placement of
    the per-CPU areas, the image format, the installer as writes to memory, the rendezvous of the CPUs as a
    step relation, and the save-state area.
  \<^item> \<open>Store\<close> (\<^verbatim>\<open>store/src/lib.rs\<close>): the record store, refined to a list of tagged records.
  \<^item> \<open>Fdt\<close> (\<^verbatim>\<open>fdt/src/lib.rs\<close>): device trees patched in place. \<open>Fdt_Tree\<close> says which tree a blob holds; its locale \<open>token_walk\<close> is
    what the four scans of the code have in common. \<open>Fdt_Edit\<close> shows what replacing or inserting a property or a node does to the tree,
    \<open>Fdt_Bootargs\<close> and \<open>Fdt_Memory\<close> hold the properties of the two patching functions.

  \<^bold>\<open>How the code is modelled.\<close> A Rust \<open>Result\<close> is the type \<open>result\<close> with a third outcome \<open>Panic\<close>: a slice
  out of range, an unwrapped error, or an overflow, which the development profile checks. Machine integers are
  words of their width; a \<open>usize\<close> is a natural number with the largest value as the parameter \<open>um\<close> of what can overflow it, for
  32-bit and 64-bit targets alike. Two components are modelled for a 64-bit \<open>usize\<close> only, \<open>Store\<close> and \<open>Fdt\<close>. The loader uses the decompressor of
  \<open>Lz4\<close>, whose sums cannot overflow on a 64-bit target; by \<open>Lz4_Width\<close> this is also what a 32-bit target computes for stored
  sizes up to 15 MiB. Buffers that code fills in place are passed in and returned.
  Hash functions, curve checks, the block device and the TPM transport are parameters; what a property
  needs of them, such as the length of a digest, is a named hypothesis of it. Memory is a total
  function from addresses to bytes.

  \<^bold>\<open>What is shown.\<close>

  \<^item> Only authentic contents are accepted: a root is accepted exactly under the signature and the policy, the
    manifest that is read is the one that the signed bytes fix, and no input makes the readers panic.
  \<^item> Bytes and values correspond: the roots, directories, trust blocks, locators, headers and logs that are written are read
    back, and the validator of the directory accepts exactly the well-formed ones.
  \<^item> The decompressor computes the expansion of its input whenever there is one that fits, and
    never leaves its buffers.
  \<^item> A loaded stage is what was verified and measured, inside memory the policy permits.
  \<^item> A resume from S3 hands out only what the authenticated descriptor describes, and restores the stage that
    the cold boot ran.
  \<^item> Measured boot: the event log replays to the extends the TPM accepted, a failure caps the PCRs before a
    payload runs, a payload other than a coreboot payload gets a TPM that was locked on the way to it, and a start that fails leaves no TPM that is usable but unmeasured.
  \<^item> The SMM areas of all CPUs are disjoint and inside SMRAM, the installer writes nothing else and leaves
    the image, relocated, and the parameters of each CPU; at most one CPU runs the handler, and under every fair
    schedule all CPUs leave it once no further SMI arrives.
  \<^item> The record store behaves as a log of records across additions, updates, reopening and relocation.
  \<^item> Patching a device tree ends, sets the one property or node it is about and keeps every other one. Boot arguments that take
    fewer words than the old ones are the exception: the blob no longer parses.

  \<^bold>\<open>Bounds.\<close> Recursions end by their own measures: the decompressor by the input left, the record walk by the
  offset, the copy through flash windows by the bytes left, random numbers by the bytes missing. The retry loops
  of the TPM have the code's own limit of 500 rounds. The scans of a device tree
  have no bound of their own and are partial functions whose value is \<open>None\<close> when they do not end; the properties show that they end on
  every well-formed blob. No fuel is used.

  \<^bold>\<open>Not modelled.\<close> Drivers, chipsets, boards, graphics and architecture support program registers whose
  behaviour is not in the sources; stage glue only calls what is modelled; the image builder and the ACPI macros run on
  the host. The BUSY flag of measured boot is left out, since one CPU calls it. The coreboot tables,
  the layout record and PCI resources are the next extensions.
\<close>

end
